(* ===== verification/Prelude.thy ===== *)
theory Prelude
  imports Main "HOL-Library.Word"
begin

text \<open>
  Shared vocabulary of the development: names for the machine integers of the C sources, the
  rule collections the component theories feed and use, and generic facts on words (no-overflow
  conversions to \<^typ>\<open>nat\<close>), on C's truncating remainder, and on functions updated at
  a block of addresses.
\<close>

unbundle bit_operations_syntax

section \<open>Machine integers of the C sources\<close>

type_synonym u8 = "8 word"
type_synonym u16 = "16 word"
type_synonym u32 = "32 word"
type_synonym u64 = "64 word"

section \<open>Rule collections\<close>

named_theorems unat_conv \<open>conversions of word operations to arithmetic on naturals\<close>
named_theorems deq_simps \<open>field projections of the linked queues\<close>
named_theorems mem_simps \<open>reads from memories after a write\<close>

section \<open>Words as naturals\<close>

lemma unat_drop_bit_div [unat_conv]: "unat (drop_bit n w) = unat w div 2 ^ n"
  by (subst unat_drop_bit_eq) (rule drop_bit_eq_div)

lemma unat_add_small:
  "unat a + unat b < 2 ^ LENGTH('a) \<Longrightarrow> unat (a + b) = unat a + unat b"
  for a b :: "'a::len word"
  using unat_add_lem by blast

lemma unat_mult_small:
  "unat a * unat b < 2 ^ LENGTH('a) \<Longrightarrow> unat (a * b) = unat a * unat b"
  for a b :: "'a::len word"
  using unat_mult_lem by blast

lemma unat_sub_small:
  "unat b \<le> unat a \<Longrightarrow> unat (a - b) = unat a - unat b" for a b :: "'a::len word"
  by (simp add: unat_sub_if')

lemma unat_bound: "unat x < 2 ^ LENGTH('a)" for x :: "'a::len word"
  by (rule unsigned_less)

lemma unat_u32_bound: "unat (x :: u32) < 4294967296"
  using unat_bound [of x] by simp

lemma unat_u16_bound: "unat (x :: u16) < 65536"
  using unat_bound [of x] by simp

lemma unat_u8_bound: "unat (x :: u8) < 256"
  using unat_bound [of x] by simp

lemma unat_u64_bound: "unat (x :: u64) < 18446744073709551616"
  using unat_bound [of x] by simp

lemma u32_add_mod [unat_conv]: "unat (a + b) = (unat a + unat b) mod 4294967296" for a b :: u32
  by (simp add: unat_word_ariths)

lemma u32_mult_mod [unat_conv]: "unat (a * b) = (unat a * unat b) mod 4294967296" for a b :: u32
  by (simp add: unat_word_ariths)

lemma u16_add_mod [unat_conv]: "unat (a + b) = (unat a + unat b) mod 65536" for a b :: u16
  by (simp add: unat_word_ariths)

lemma u64_mult_mod [unat_conv]:
  "unat (a * b) = (unat a * unat b) mod 18446744073709551616" for a b :: u64
  by (simp add: unat_word_ariths)

lemma unat_and_mask: "unat (w AND mask n) = unat w mod 2 ^ n"
  by (simp flip: take_bit_eq_mask) (simp add: unsigned_take_bit_eq, rule take_bit_eq_mod)

lemma unat_ucast_mod [unat_conv]: "unat (ucast w :: 'b::len word) = unat w mod 2 ^ LENGTH('b)"
  for w :: "'a::len word"
  by (simp add: unsigned_ucast_eq) (rule take_bit_eq_mod)

lemma unat_u32_u64: "unat (ucast (w :: u32) :: u64) = unat w"
  using unat_u32_bound [of w] by (simp add: unat_ucast_mod)

lemma unat_u16_u32: "unat (ucast (w :: u16) :: u32) = unat w"
  using unat_u16_bound [of w] by (simp add: unat_ucast_mod)

lemma div_rest: "d = Suc r \<Longrightarrow> x \<le> d * (x div d) + r" for x d :: nat
  using dividend_less_times_div [of d x] by simp

lemma div_mod_le: "c dvd d \<Longrightarrow> d * (x div d) + x mod c \<le> x" for x c d :: nat
  by (metis add_le_cancel_left mod_less_eq_dividend mod_mod_cancel mult_div_mod_eq)

lemma pair_exI: "(\<And>a b. x = (a, b) \<Longrightarrow> P a b) \<Longrightarrow> \<exists>a b. x = (a, b) \<and> P a b"
  by (cases x) auto

lemma word_eq_natI: "unat a = unat b \<Longrightarrow> a = b"
  by (simp add: word_unat_eq_iff)

section \<open>C's remainder and quotient\<close>

text \<open>
  C rounds integer division towards zero and gives the remainder the sign of the dividend.
\<close>

definition c_div :: "int \<Rightarrow> int \<Rightarrow> int" where
  "c_div a b = sgn a * sgn b * (\<bar>a\<bar> div \<bar>b\<bar>)"

definition c_mod :: "int \<Rightarrow> int \<Rightarrow> int" where
  "c_mod a b = a - c_div a b * b"

lemma c_div_nonneg [simp]: "0 \<le> a \<Longrightarrow> 0 < b \<Longrightarrow> c_div a b = a div b"
  by (cases "a = 0") (auto simp: c_div_def)

lemma c_mod_nonneg [simp]: "0 \<le> a \<Longrightarrow> 0 < b \<Longrightarrow> c_mod a b = a mod b"
  by (simp add: c_mod_def minus_div_mult_eq_mod)

lemma c_div_exact: "b \<noteq> 0 \<Longrightarrow> c_div (b * n) b = n"
  by (simp add: c_div_def abs_mult sgn_mult)
    (metis mult.assoc mult.commute mult_sgn_abs sgn_if mult.right_neutral mult_minus1_right mult_minus_right minus_minus)

lemma c_mod_sgn: "c_mod a b = sgn a * (\<bar>a\<bar> mod \<bar>b\<bar>)"
proof -
  have "c_div a b * b = sgn a * (\<bar>a\<bar> div \<bar>b\<bar> * \<bar>b\<bar>)"
    unfolding c_div_def by (simp add: sgn_if)
  then have "c_mod a b = sgn a * (\<bar>a\<bar> - \<bar>a\<bar> div \<bar>b\<bar> * \<bar>b\<bar>)"
    unfolding c_mod_def by (simp add: right_diff_distrib sgn_mult_abs)
  then show ?thesis by (simp add: minus_div_mult_eq_mod)
qed

lemma c_mod_abs_less: "b \<noteq> 0 \<Longrightarrow> \<bar>c_mod a b\<bar> < \<bar>b\<bar>"
  by (cases "a = 0") (simp_all add: c_mod_sgn abs_mult)

lemma c_mod_zero_dvd: "c_mod a b = 0 \<Longrightarrow> b dvd a"
  unfolding c_mod_def by (metis dvd_triv_right eq_iff_diff_eq_0)

lemma gcd_c_mod: "gcd b (c_mod a b) = gcd b a"
  using gcd_add_mult [of b "- c_div a b" a] by (simp add: c_mod_def algebra_simps)

lemma c_mod_range: "0 \<le> a \<Longrightarrow> 0 < b \<Longrightarrow> 0 \<le> c_mod a b \<and> c_mod a b < b"
  by simp

end
