(* ===== verification/Trix.thy ===== *)
theory Trix
  imports Prelude
begin

text \<open>
  The bit tricks of \<^verbatim>\<open>usr/lib/zero/trix.h\<close>.  \<open>unsigned long\<close> and
  \<open>uint32_t\<close> are \<^typ>\<open>u32\<close> (the ia32 configuration, \<^verbatim>\<open>LONGSIZE == 4\<close>, in
  which the kernel is built); the right shift of an unsigned value is \<^const>\<open>drop_bit\<close>.
  The main results: each division by a constant that is free of division instructions is exact
  on the whole 32-bit range, and the leap-year test built on them is the Gregorian rule.
\<close>

section \<open>Division by constants\<close>

definition divu7 :: "u32 \<Rightarrow> u32" where
  "divu7 x =
     (let q = drop_bit 1 x + drop_bit 4 x;
          q = q + drop_bit 6 q;
          q = q + drop_bit 12 q + drop_bit 24 q;
          q = drop_bit 2 q;
          r = x - q * 7
      in q + drop_bit 3 (r + 1))"

definition divu9 :: "u32 \<Rightarrow> u32" where
  "divu9 x =
     (let q = x - drop_bit 3 x;
          q = q + drop_bit 6 q;
          q = q + drop_bit 12 q + drop_bit 24 q;
          q = drop_bit 3 q;
          r = x - q * 9
      in q + drop_bit 4 (r + 7))"

definition divu10 :: "u32 \<Rightarrow> u32" where
  "divu10 x =
     (let q = drop_bit 1 x + drop_bit 2 x;
          q = q + drop_bit 4 q;
          q = q + drop_bit 8 q;
          q = q + drop_bit 16 q;
          q = drop_bit 3 q;
          r = x - q * 10
      in q + drop_bit 4 (r + 6))"

definition divu100 :: "u32 \<Rightarrow> u32" where
  "divu100 x =
     (let q = drop_bit 1 x + drop_bit 3 x + drop_bit 6 x - drop_bit 10 x
              + drop_bit 12 x + drop_bit 13 x - drop_bit 16 x;
          q = q + drop_bit 20 q;
          q = drop_bit 6 q;
          r = x - q * 100
      in q + drop_bit 7 (r + 28))"

definition divu1000 :: "u32 \<Rightarrow> u32" where
  "divu1000 x =
     (let t = drop_bit 7 x + drop_bit 8 x + drop_bit 12 x;
          q = drop_bit 1 x + t + drop_bit 15 x + drop_bit 11 t + drop_bit 14 t;
          q = drop_bit 9 q;
          r = x - q * 1000
      in q + drop_bit 10 (r + 24))"

text \<open>\<open>unsigned long long\<close> products are computed in 64 bits.\<close>

definition divu1000000 :: "u32 \<Rightarrow> u32" where
  "divu1000000 x =
     (let tmp = (ucast x :: u64);
          tmp = tmp * 0x431bde83;
          tmp = drop_bit 50 tmp
      in ucast tmp)"

definition divu3 :: "u32 \<Rightarrow> u32" where
  "divu3 uval =
     (let mul = (0xaaaaaaaaaaaaaaab :: u64);
          res = (ucast uval :: u64);
          res = res * mul;
          res = drop_bit 33 res
      in ucast res)"

text \<open>
  All five routines end in the same way: an estimate \<open>q\<close> that is never too large and misses
  the quotient by at most one, corrected by a shift of the biased remainder.
\<close>

lemma fixup_exact:
  fixes x q d c :: u32
  assumes d: "unat d = D" "0 < D" and c: "unat c = C" and s: "D + C = 2 ^ s" "s < 32"
    and le: "D * unat q \<le> unat x" and ge: "unat x < D * unat q + 2 * D"
  shows "unat (q + drop_bit s (x - q * d + c)) = unat x div D"
proof -
  let ?r = "unat x - D * unat q"
  have p: "(2::nat) ^ s \<le> 2 ^ 31" using s(2) by (intro power_increasing) auto
  have m: "unat (q * d) = D * unat q"
    using le unat_u32_bound [of x] by (simp add: u32_mult_mod d mult.commute)
  have r: "unat (x - q * d) = ?r"
    using le by (simp add: unat_sub_small m)
  have rc: "unat (x - q * d + c) = ?r + C"
    using s p ge d by (simp add: u32_add_mod r c)
  have sm: "(?r + C) div 2 ^ s = ?r div D"
  proof (cases "?r < D")
    case True
    then show ?thesis using s by simp
  next
    case False
    define k where "k = ?r - D"
    have k: "?r = D + k" "k < D" using False ge le unfolding k_def by linarith+
    then have "?r + C = 2 ^ s + k" "k < 2 ^ s" using s(1) by linarith+
    then have "(?r + C) div 2 ^ s = 1" by (simp only: div_add_self1) simp
    moreover have "?r div D = 1" unfolding k(1) using k(2) d(2) by (simp only: div_add_self1) simp
    ultimately show ?thesis by simp
  qed
  have tot: "unat q + ?r div D = unat x div D"
    using le d by (metis add.commute div_mult_self2 gr_implies_not0 le_add_diff_inverse2)
  have "unat x div D < 4294967296"
    using unat_u32_bound [of x] div_le_dividend [of "unat x" D] by linarith
  then show ?thesis
    using u32_add_mod [of q "drop_bit s (x - q * d + c)"]
    by (simp only: unat_drop_bit_div rc sm tot mod_less)
qed

lemma divu7_exact: "unat (divu7 x) = unat x div 7"
proof -
  note n = unat_u32_bound [of x]
  define q1 where "q1 = drop_bit 1 x + drop_bit 4 x"
  have q1: "unat q1 = unat x div 2 + unat x div 16"
    unfolding q1_def unat_conv using n by simp
  then have bq1: "unat q1 < 2500000000" using n by linarith
  define q2 where "q2 = q1 + drop_bit 6 q1"
  have q2: "unat q2 = unat q1 + unat q1 div 64"
    unfolding q2_def unat_conv using bq1 by simp
  then have bq2: "unat q2 < 2600000000" using bq1 by linarith
  define q3 where "q3 = q2 + drop_bit 12 q2 + drop_bit 24 q2"
  have q3: "unat q3 = unat q2 + unat q2 div 4096 + unat q2 div 16777216"
    unfolding q3_def unat_conv using bq2 by simp
  define q where "q = drop_bit 2 q3"
  have q: "unat q = unat q3 div 4"
    unfolding q_def unat_conv using bq2 by simp
  have "7 * unat q \<le> unat x" "unat x < 7 * unat q + 2 * 7"
    using n q1 q2 q3 q by linarith+
  then have "unat (q + drop_bit 3 (x - q * 7 + 1)) = unat x div 7"
    by (intro fixup_exact [where C = 1]) simp_all
  then show ?thesis
    by (simp add: divu7_def Let_def q_def q3_def q2_def q1_def)
qed

lemma divu9_exact: "unat (divu9 x) = unat x div 9"
proof -
  note n = unat_u32_bound [of x]
  define q1 where "q1 = x - drop_bit 3 x"
  have q1: "unat q1 = unat x - unat x div 8"
    unfolding q1_def by (subst unat_sub_small) (simp_all add: unat_drop_bit_div)
  then have bq1: "unat q1 < 3800000000" using n by linarith
  define q2 where "q2 = q1 + drop_bit 6 q1"
  have q2: "unat q2 = unat q1 + unat q1 div 64"
    unfolding q2_def unat_conv using bq1 by simp
  then have bq2: "unat q2 < 3900000000" using bq1 by linarith
  define q3 where "q3 = q2 + drop_bit 12 q2 + drop_bit 24 q2"
  have q3: "unat q3 = unat q2 + unat q2 div 4096 + unat q2 div 16777216"
    unfolding q3_def unat_conv using bq2 by simp
  define q where "q = drop_bit 3 q3"
  have q: "unat q = unat q3 div 8"
    unfolding q_def unat_conv using bq2 by simp
  have "9 * unat q \<le> unat x" "unat x < 9 * unat q + 2 * 9"
    using n q1 q2 q3 q by linarith+
  then have "unat (q + drop_bit 4 (x - q * 9 + 7)) = unat x div 9"
    by (intro fixup_exact [where C = 7]) simp_all
  then show ?thesis
    by (simp add: divu9_def Let_def q_def q3_def q2_def q1_def)
qed

lemma divu10_exact: "unat (divu10 x) = unat x div 10"
proof -
  note n = unat_u32_bound [of x]
  define q1 where "q1 = drop_bit 1 x + drop_bit 2 x"
  have q1: "unat q1 = unat x div 2 + unat x div 4"
    unfolding q1_def unat_conv using n by simp
  then have bq1: "unat q1 < 3300000000" using n by linarith
  define q2 where "q2 = q1 + drop_bit 4 q1"
  have q2: "unat q2 = unat q1 + unat q1 div 16"
    unfolding q2_def unat_conv using bq1 by simp
  then have bq2: "unat q2 < 3600000000" using bq1 by linarith
  define q3 where "q3 = q2 + drop_bit 8 q2"
  have q3: "unat q3 = unat q2 + unat q2 div 256"
    unfolding q3_def unat_conv using bq2 by simp
  then have bq3: "unat q3 < 3700000000" using bq2 by linarith
  define q4 where "q4 = q3 + drop_bit 16 q3"
  have q4: "unat q4 = unat q3 + unat q3 div 65536"
    unfolding q4_def unat_conv using bq3 by simp
  define q where "q = drop_bit 3 q4"
  have q: "unat q = unat q4 div 8"
    unfolding q_def unat_conv using bq3 by simp
  have "10 * unat q \<le> unat x" "unat x < 10 * unat q + 2 * 10"
    using n q1 q2 q3 q4 q by linarith+
  then have "unat (q + drop_bit 4 (x - q * 10 + 6)) = unat x div 10"
    by (intro fixup_exact [where C = 6]) simp_all
  then show ?thesis
    by (simp add: divu10_def Let_def q_def q4_def q3_def q2_def q1_def)
qed

text \<open>
  The estimate of \<open>divu100\<close> subtracts two of its shifts, so that it stays below the
  quotient only because the bits that make the subtracted shifts round down also make the added
  ones round down.
\<close>

lemma divu100_upper:
  fixes x q1 q2 q :: nat
  assumes x: "x = 65536 * g + 8192 * k + 1024 * j + m" "k \<le> 7" "j \<le> 7" "m \<le> 1023"
    and abc: "64 * y + t \<le> 41 * x"
    and q1: "4 * q1 + 164 * g + 20 * k + 3 * j \<le> 4 * y"
    and q2: "q2 = q1 + h" "1048576 * h \<le> q1" and q: "64 * q \<le> q2"
    and t: "x + s = 100 * q" "s = 1 \<and> t \<ge> 59 \<or> s = 2 \<and> t \<ge> 18 \<or> s \<ge> 3"
  shows False
proof -
  have y: "1600 * q1 + 65600 * g + 8000 * k + 1200 * j + 25 * t \<le> 1025 * x"
    using abc q1 by linarith
  then have e1: "1600 * q1 + 25 * t + 64 * g \<le> 1024 * x + 2367"
    using x by linarith
  have e2: "1600 * h \<le> 64 * g + 65"
    using e1 q2 x by linarith
  have e3: "102400 * q + 25 * t \<le> 1024 * x + 2432"
    using e1 e2 q2 q by linarith
  then have e4: "1024 * s + 25 * t \<le> 2432" using t(1) by linarith
  then show False using t(2) by linarith
qed

lemma divu100_estimate:
  fixes x q1 q2 q :: nat
  assumes x: "x < 4294967296"
    and q1: "q1 + x div 1024 + x div 65536
              = x div 2 + x div 8 + x div 64 + x div 4096 + x div 8192"
    and q2: "q2 = q1 + q1 div 1048576" and q: "q = q2 div 64"
  shows "100 * q \<le> x" and "x < 100 * q + 2 * 100"
proof -
  define g k j m where "g = x div 65536" and "k = x div 8192 mod 8" and "j = x div 1024 mod 8"
    and "m = x mod 1024"
  have d8: "x div 8192 = 8 * g + k"
    unfolding g_def k_def using div_mult2_eq [of x 8192 8] by simp
  have d1: "x div 1024 = 8 * (x div 8192) + j"
    unfolding j_def using div_mult2_eq [of x 1024 8] by simp
  have x2: "x = 65536 * g + 8192 * k + 1024 * j + m"
    using d8 d1 m_def mult_div_mod_eq [of 1024 x] by linarith
  have km: "k \<le> 7" "j \<le> 7" "m \<le> 1023"
    unfolding k_def j_def m_def by (simp_all add: less_Suc_eq_le [symmetric])
  define y where "y = x div 2 + x div 8 + x div 64"
  have d4: "4 * (x div 4096) \<le> x div 1024"
    using div_mult2_eq [of x 1024 4] by simp
  define e4 d2 where "e4 = x div 4096" and "d2 = x div 1024"
  have "q1 + d2 + g = y + e4 + (8 * g + k)"
    using q1 unfolding y_def g_def [symmetric] e4_def d2_def d8 by simp
  moreover have "d2 = 64 * g + 8 * k + j" "4 * e4 \<le> d2"
    using d1 d4 unfolding d8 d2_def e4_def by simp_all
  ultimately have e: "4 * q1 + 164 * g + 20 * k + 3 * j \<le> 4 * y"
    by linarith
  show "100 * q \<le> x"
  proof (rule ccontr)
    assume "\<not> 100 * q \<le> x"
    then obtain s where s: "x + s = 100 * q" "1 \<le> s"
      by (metis le_add1 less_imp_add_positive linorder_not_le Suc_leI One_nat_def)
    have odd: "64 * y + 59 \<le> 41 * x" if "s = 1"
    proof -
      have m: "x mod 4 = 3" using s(1) that by presburger
      have "x mod 2 = 1" using mod_mod_cancel [of 2 4 x] m by simp
      then have "x = 2 * (x div 2) + 1" using mult_div_mod_eq [of 2 x] by linarith
      moreover have "8 * (x div 8) + 3 \<le> x" "64 * (x div 64) + 3 \<le> x"
        using div_mod_le [of 4 8 x] div_mod_le [of 4 64 x] m by simp_all
      ultimately have "32 * x = 64 * (x div 2) + 32" "8 * x \<ge> 64 * (x div 8) + 24"
        "64 * (x div 64) + 3 \<le> x" by linarith+
      then show ?thesis unfolding y_def by (simp add: distrib_left)
    qed
    have even: "64 * y + 18 \<le> 41 * x" if "s = 2"
    proof -
      have m: "x mod 4 = 2" using s(1) that by presburger
      have "x mod 2 = 0" using mod_mod_cancel [of 2 4 x] m by simp
      then have "x = 2 * (x div 2)" using mult_div_mod_eq [of 2 x] by linarith
      moreover have "8 * (x div 8) + 2 \<le> x" "64 * (x div 64) + 2 \<le> x"
        using div_mod_le [of 4 8 x] div_mod_le [of 4 64 x] m by simp_all
      ultimately have "32 * x = 64 * (x div 2) + 0" "8 * x \<ge> 64 * (x div 8) + 16"
        "64 * (x div 64) + 2 \<le> x" by linarith+
      then show ?thesis unfolding y_def by (simp add: distrib_left)
    qed
    have any: "64 * y + 0 \<le> 41 * x" unfolding y_def by (simp add: distrib_left)
    have h: "1048576 * (q1 div 1048576) \<le> q1" "64 * q \<le> q2" unfolding q by simp_all
    consider "s = 1" | "s = 2" | "3 \<le> s" using s(2) by linarith
    then show False
    proof cases
      case 1
      show ?thesis using divu100_upper [OF x2 km odd [OF 1] e q2 h s(1)] 1 by simp
    next
      case 2
      show ?thesis using divu100_upper [OF x2 km even [OF 2] e q2 h s(1)] 2 by simp
    next
      case 3
      show ?thesis using divu100_upper [OF x2 km any e q2 h s(1)] 3 by simp
    qed
  qed
  have lo: "41943 * x \<le> 65536 * q1 + 285672"
  proof -
    define a b c d e4 f g4 where "a = x div 2" and "b = x div 8" and "c = x div 64"
      and "d = x div 1024" and "e4 = x div 4096" and "f = x div 8192" and "g4 = x div 65536"
    note defs = a_def b_def c_def d_def e4_def f_def g4_def
    have r: "x \<le> 2 * a + 1" "x \<le> 8 * b + 7" "x \<le> 64 * c + 63" "x \<le> 4096 * e4 + 4095"
      "x \<le> 8192 * f + 8191"
      unfolding defs by (rule div_rest, simp)+
    have up: "1024 * d \<le> x" "65536 * g4 \<le> x" unfolding defs by simp_all
    define s1 s2 s3 where "s1 = a + b + c" and "s2 = e4 + f" and "s3 = d + g4"
    have "41 * x \<le> 64 * s1 + 151" using r(1-3) s1_def by linarith
    moreover have "3 * x \<le> 8192 * s2 + 16381" using r(4-5) s2_def by linarith
    moreover have "65536 * s3 \<le> 65 * x" using up s3_def by linarith
    moreover have "q1 + s3 = s1 + s2" 
      using q1 unfolding s1_def s2_def s3_def defs by (simp only: ac_simps)
    ultimately show ?thesis by linarith
  qed
  have "q1 \<le> 1048576 * (q1 div 1048576) + 1048575" "q2 \<le> 64 * q + 63"
    unfolding q by (rule div_rest, simp)+
  then show "x < 100 * q + 2 * 100"
    using lo q2 x by linarith
qed

lemma divu100_exact: "unat (divu100 x) = unat x div 100"
proof -
  note n = unat_u32_bound [of x]
  define p1 where "p1 = drop_bit 1 x + drop_bit 3 x + drop_bit 6 x"
  have p1: "unat p1 = unat x div 2 + unat x div 8 + unat x div 64"
    unfolding p1_def unat_conv using n by simp
  then have bp1: "unat p1 < 2800000000" using n by linarith
  have sb: "unat x div 1024 \<le> unat p1" using p1 by linarith
  define p2 where "p2 = p1 - drop_bit 10 x"
  have p2: "unat p2 = unat p1 - unat x div 1024"
    unfolding p2_def using sb by (subst unat_sub_small) (simp_all add: unat_drop_bit_div)
  define p3 where "p3 = p2 + drop_bit 12 x + drop_bit 13 x"
  have p3: "unat p3 = unat p2 + unat x div 4096 + unat x div 8192"
    unfolding p3_def unat_conv using bp1 p2 n by simp
  then have bp3: "unat p3 < 3000000000" using n bp1 p2 by linarith
  define q1 where "q1 = p3 - drop_bit 16 x"
  have k: "unat (drop_bit 16 x) = unat x div 65536" by (simp add: unat_drop_bit_div)
  have le: "unat (drop_bit 16 x) \<le> unat p3" using k p1 p2 p3 by linarith
  then have q1: "unat q1 = unat p3 - unat x div 65536"
    unfolding q1_def k [symmetric] by (rule unat_sub_small)
  then have bq1: "unat q1 < 3100000000" using bp3 by linarith
  have e: "unat q1 + unat x div 1024 + unat x div 65536
      = unat x div 2 + unat x div 8 + unat x div 64 + unat x div 4096 + unat x div 8192"
    using sb le q1 unfolding k p3 p2 p1 [symmetric] by (simp only: add.assoc) linarith
  define q2 where "q2 = q1 + drop_bit 20 q1"
  have q2: "unat q2 = unat q1 + unat q1 div 1048576"
    unfolding q2_def unat_conv using bq1 by simp
  define q where "q = drop_bit 6 q2"
  have q: "unat q = unat q2 div 64"
    unfolding q_def unat_conv using n by simp
  have "100 * unat q \<le> unat x" "unat x < 100 * unat q + 2 * 100"
    by (rule divu100_estimate [OF n e q2 q])+
  then have "unat (q + drop_bit 7 (x - q * 100 + 28)) = unat x div 100"
    by (intro fixup_exact [where C = 28]) simp_all
  then show ?thesis
    by (simp add: divu100_def Let_def q_def q2_def q1_def p3_def p2_def p1_def)
qed

lemma divu1000_estimate:
  fixes x t q1 q :: nat
  assumes x: "x < 4294967296"
    and t: "t = x div 128 + x div 256 + x div 4096"
    and q1: "q1 = x div 2 + t + x div 32768 + t div 2048 + t div 16384" and q: "q = q1 div 512"
  shows "1000 * q \<le> x" and "x < 1000 * q + 2 * 1000"
proof -
  define a b c d e f g where "a = x div 128" and "b = x div 256" and "c = x div 4096"
    and "d = x div 2" and "e = x div 32768" and "f = t div 2048" and "g = t div 16384"
  note defs = a_def b_def c_def d_def e_def f_def g_def q
  have hi: "128 * a \<le> x" "256 * b \<le> x" "4096 * c \<le> x" "2 * d \<le> x" "32768 * e \<le> x"
      "2048 * f \<le> t" "16384 * g \<le> t" "512 * q \<le> q1"
    unfolding defs by simp_all
  have lo: "x \<le> 128 * a + 127" "x \<le> 256 * b + 255" "x \<le> 4096 * c + 4095" "x \<le> 2 * d + 1"
      "x \<le> 32768 * e + 32767" "t \<le> 2048 * f + 2047" "t \<le> 16384 * g + 16383"
      "q1 \<le> 512 * q + 511"
    unfolding defs by (rule div_rest, simp)+
  have sums: "t = a + b + c" "q1 = d + t + e + f + g"
    using t q1 unfolding defs by simp_all
  have "4096 * t \<le> 49 * x" using hi(1-3) sums(1) by linarith
  then have "67108864 * q1 \<le> 34359737 * x" using hi(4-7) sums(2) by linarith
  then show "1000 * q \<le> x" using hi(8) by linarith
  have "49 * x \<le> 4096 * t + 12239" using lo(1-3) sums(1) by linarith
  then have "34359737 * x \<le> 67108864 * q1 + 435476039" using lo(4-7) sums(2) by linarith
  then show "x < 1000 * q + 2 * 1000" using lo(8) x by linarith
qed

lemma divu1000_exact: "unat (divu1000 x) = unat x div 1000"
proof -
  note n = unat_u32_bound [of x]
  define t where "t = drop_bit 7 x + drop_bit 8 x + drop_bit 12 x"
  have t: "unat t = unat x div 128 + unat x div 256 + unat x div 4096"
    unfolding t_def unat_conv using n by simp
  then have bt: "unat t < 60000000" using n by linarith
  define q1 where "q1 = drop_bit 1 x + t + drop_bit 15 x + drop_bit 11 t + drop_bit 14 t"
  have q1: "unat q1 = unat x div 2 + unat t + unat x div 32768 + unat t div 2048 + unat t div 16384"
    unfolding q1_def unat_conv using n bt by simp
  define q where "q = drop_bit 9 q1"
  have q: "unat q = unat q1 div 512"
    unfolding q_def unat_conv using bt by simp
  have "1000 * unat q \<le> unat x" "unat x < 1000 * unat q + 2 * 1000"
    by (rule divu1000_estimate [OF n t q1 q])+
  then have "unat (q + drop_bit 10 (x - q * 1000 + 24)) = unat x div 1000"
    by (intro fixup_exact [where C = 24]) simp_all
  then show ?thesis
    by (simp add: divu1000_def Let_def q_def q1_def t_def)
qed

lemma divu1000000_exact: "unat (divu1000000 x) = unat x div 1000000"
proof -
  note n = unat_u32_bound [of x]
  have m: "unat (ucast x * 0x431bde83 :: u64) = unat x * 0x431bde83"
    unfolding u64_mult_mod unat_u32_u64 using n by simp
  have q: "unat x * 0x431bde83 div 2 ^ 50 = unat x div 1000000"
    using n by simp
  show ?thesis
    unfolding divu1000000_def Let_def unat_ucast_mod unat_drop_bit_div m q using n by simp
qed

definition modu7 :: "u32 \<Rightarrow> u32" where "modu7 u = u - divu7 u * 7"
definition modu9 :: "u32 \<Rightarrow> u32" where "modu9 u = u - divu9 u * 9"
definition modu10 :: "u32 \<Rightarrow> u32" where "modu10 u = u - divu10 u * 10"
definition modu100 :: "u32 \<Rightarrow> u32" where "modu100 u = u - divu100 u * 100"
definition modu400 :: "u32 \<Rightarrow> u32" where "modu400 u = u - drop_bit 2 (divu100 u) * 400"

definition leapyear :: "u32 \<Rightarrow> bool" where
  "leapyear u = (u AND 0x03 = 0 \<and> (modu100 u \<noteq> 0 \<or> modu400 u = 0))"

lemma quotient_rest:
  "unat q = unat x div D \<Longrightarrow> unat d = D \<Longrightarrow> unat (x - q * d) = unat x mod D" for x q d :: u32
proof -
  assume q: "unat q = unat x div D" and d: "unat d = D"
  have le: "unat x div D * D \<le> unat x" by simp
  then have "unat (q * d) = unat x div D * D"
    using unat_u32_bound [of x] by (simp add: u32_mult_mod q d order_le_less_trans [OF le])
  then show ?thesis
    using le by (simp add: unat_sub_small minus_div_mult_eq_mod)
qed

lemma modu10_exact: "unat (modu10 x) = unat x mod 10"
  unfolding modu10_def by (rule quotient_rest [OF divu10_exact]) simp

lemma modu100_exact: "unat (modu100 x) = unat x mod 100"
  unfolding modu100_def by (rule quotient_rest [OF divu100_exact]) simp

lemma modu400_exact: "unat (modu400 x) = unat x mod 400"
  unfolding modu400_def
proof (rule quotient_rest)
  show "unat (drop_bit 2 (divu100 x)) = unat x div 400"
    by (simp add: unat_drop_bit_div divu100_exact flip: div_mult2_eq)
qed simp

section \<open>Greatest common divisors and remainders\<close>

function gcdu32 :: "u32 \<Rightarrow> u32 \<Rightarrow> u32" where
  "gcdu32 a b = (if b = 0 then a else gcdu32 b (a mod b))"
  by pat_completeness auto
termination
  by (relation "measure (\<lambda>(a, b). unat b)") (auto simp: unat_mod unat_gt_0)

declare gcdu32.simps [simp del]

lemma gcdu32_gcd: "unat (gcdu32 a b) = gcd (unat a) (unat b)"
proof (induction a b rule: gcdu32.induct)
  case (1 a b)
  then show ?case
    by (subst gcdu32.simps) (auto simp: unat_mod gcd_red_nat [of "unat a" "unat b"])
qed

text \<open>\<open>rem32\<close> subtracts in a loop that never ends for \<open>b = 0 < a\<close>.\<close>

partial_function (option) rem32 :: "u32 \<Rightarrow> u32 \<Rightarrow> u32 option" where
  "rem32 a b = (if b < a then rem32 (a - b) b else Some a)"

lemma rem32_result:
  assumes "b \<noteq> 0" "a \<noteq> 0"
  shows "\<exists>r. rem32 a b = Some r \<and> unat r = Suc ((unat a - 1) mod unat b)"
  using assms
proof (induction a rule: measure_induct_rule [of unat])
  case (less a)
  show ?case
  proof (cases "b < a")
    case True
    have lt: "unat b < unat a" and b0: "0 < unat b"
      using True less.prems by (auto simp: word_less_nat_alt unat_gt_0)
    have sub: "unat (a - b) = unat a - unat b" using lt by (simp add: unat_sub_small)
    then obtain r where r: "rem32 (a - b) b = Some r" "unat r = Suc ((unat (a - b) - 1) mod unat b)"
      using less.IH [of "a - b"] less.prems lt b0 by (auto simp: word_unat_eq_iff)
    have "(unat a - 1) mod unat b = (unat a - unat b - 1) mod unat b"
      using lt b0 mod_add_self2 [of "unat a - unat b - 1" "unat b"] by simp
    then show ?thesis using True r sub by (subst rem32.simps) auto
  next
    case False
    then have "unat a \<le> unat b" "0 < unat a"
      using less.prems by (auto simp: word_less_nat_alt unat_gt_0 not_less)
    then show ?thesis using False by (subst rem32.simps) auto
  qed
qed

text \<open>
  The loop of \<open>ratreduce\<close> on values (the one overflow of \<open>int64_t\<close> division,
  the minimum divided by -1, aside); a zero denominator traps.
\<close>

function ratloop :: "int \<Rightarrow> int \<Rightarrow> int \<Rightarrow> int" where
  "ratloop a b c = (if c = 0 then b else ratloop b c (c_mod b c))"
  by pat_completeness auto
termination
  by (relation "measure (\<lambda>(a, b, c). nat \<bar>c\<bar>)") (auto simp: c_mod_abs_less)

declare ratloop.simps [simp del]

definition ratreduce :: "int \<Rightarrow> int \<Rightarrow> (int \<times> int) option" where
  "ratreduce num den =
     (if den = 0 then None
      else let b = ratloop num den (c_mod num den) in Some (c_div num b, c_div den b))"

lemma ratloop_gcd: "b \<noteq> 0 \<Longrightarrow> \<bar>ratloop a b (c_mod a b)\<bar> = gcd a b"
proof (induction "c_mod a b" arbitrary: a b rule: measure_induct_rule [of "\<lambda>c. nat \<bar>c\<bar>"])
  case (less a b)
  show ?case
  proof (cases "c_mod a b = 0")
    case True
    then have "b dvd a" by (simp add: c_mod_zero_dvd)
    then show ?thesis using True by (subst ratloop.simps) (simp add: gcd_proj2_iff)
  next
    case False
    have "nat \<bar>c_mod b (c_mod a b)\<bar> < nat \<bar>c_mod a b\<bar>"
      using False by (simp add: c_mod_abs_less)
    from less.hyps [OF this False] show ?thesis
      using False by (subst ratloop.simps) (simp add: gcd_c_mod gcd.commute)
  qed
qed

lemma ratreduce_reduced:
  assumes "den \<noteq> 0"
  shows "\<exists>n d. ratreduce num den = Some (n, d) \<and> n * den = num * d \<and> coprime n d \<and> d \<noteq> 0"
proof -
  define b where "b = ratloop num den (c_mod num den)"
  have g: "\<bar>b\<bar> = gcd num den" unfolding b_def by (rule ratloop_gcd [OF assms])
  then have dv: "b dvd num" "b dvd den" "b \<noteq> 0"
    using assms by (auto simp flip: abs_dvd_iff [of b])
  then obtain n d where nd: "num = b * n" "den = b * d" by (auto elim!: dvdE)
  have q: "c_div num b = n" "c_div den b = d" using dv(3) by (simp_all add: nd c_div_exact)
  have "gcd num den = \<bar>b\<bar> * gcd n d" unfolding nd by (simp add: gcd_mult_left abs_mult)
  then have "gcd n d = 1" using g dv(3) assms by auto
  then have "coprime n d" by (simp add: coprime_iff_gcd_eq_1)
  moreover have "ratreduce num den = Some (n, d)"
    using assms q by (simp add: ratreduce_def Let_def b_def [symmetric])
  moreover have "n * den = num * d" "d \<noteq> 0" using assms unfolding nd by simp_all
  ultimately show ?thesis by blast
qed

section \<open>Modulus by digit sums\<close>

definition mod15u32 :: "u32 \<Rightarrow> u32" where
  "mod15u32 a =
     (let a = drop_bit 16 a + (a AND 0xffff);
          a = drop_bit 8 a + (a AND 0xff);
          a = drop_bit 4 a + (a AND 0xf)
      in if a < 15 then a else if a < 2 * 15 then a - 15 else a - 2 * 15)"

definition mod255u32 :: "u32 \<Rightarrow> u32" where
  "mod255u32 a =
     (let a = drop_bit 16 a + (a AND 0xffff);
          a = drop_bit 8 a + (a AND 0xff)
      in if a < 255 then a else if a < 2 * 255 then a - 255 else a - 2 * 255)"

definition mod65535u32 :: "u32 \<Rightarrow> u32" where
  "mod65535u32 a =
     (let a = drop_bit 16 a + (a AND 0xffff)
      in if a < 65535 then a else if a < 2 * 65535 then a - 65535 else a - 2 * 65535)"

lemma digit_sum:
  fixes a :: u32
  assumes "n < 32" "unat a div 2 ^ n + 2 ^ n \<le> 4294967296"
  shows "unat (drop_bit n a + (a AND mask n)) = unat a div 2 ^ n + unat a mod 2 ^ n"
proof -
  have "unat a mod 2 ^ n < 2 ^ n" by simp
  then have "unat a div 2 ^ n + unat a mod 2 ^ n < 4294967296" using assms(2) by linarith
  then show ?thesis by (simp add: unat_conv unat_and_mask)
qed

lemma digit_sum_16: "unat (drop_bit 16 a + (a AND 0xffff)) = unat a div 65536 + unat a mod 65536"
  for a :: u32
  using digit_sum [of 16 a] unat_u32_bound [of a] by (simp add: mask_eq_exp_minus_1)

lemma mod65535u32_exact: "unat (mod65535u32 a) = unat a mod 65535"
proof -
  define s where "s = drop_bit 16 a + (a AND 0xffff)"
  have s: "unat s = unat a div 65536 + unat a mod 65536"
    unfolding s_def by (rule digit_sum_16)
  have m: "unat a mod 65535 = unat s mod 65535"
  proof -
    have "unat a = 65535 * (unat a div 65536) + unat s" 
      unfolding s using mult_div_mod_eq [of 65536 "unat a"] by linarith
    then have "unat a mod 65535 = (65535 * (unat a div 65536) + unat s) mod 65535" by argo
    then show ?thesis by (simp only: mod_mult_self4)
  qed
  have b: "unat s \<le> 131070" unfolding s using unat_u32_bound [of a] by linarith
  have "unat (if s < 65535 then s else if s < 2 * 65535 then s - 65535 else s - 2 * 65535)
      = unat s mod 65535"
    using b by (auto simp: word_less_nat_alt unat_sub_small mod_if)
  then show ?thesis by (simp add: mod65535u32_def Let_def s_def [symmetric] m)
qed

section \<open>Saturating arithmetic\<close>

definition c_flag :: "bool \<Rightarrow> u32" where
  "c_flag p = (if p then 1 else 0)"

definition sataddu32 :: "u32 \<Rightarrow> u32 \<Rightarrow> u32" where
  "sataddu32 a b = (let res = a + b in res OR - c_flag (res < a))"

definition satsubu32 :: "u32 \<Rightarrow> u32 \<Rightarrow> u32" where
  "satsubu32 a b = (let res = a - b in res AND - c_flag (res < a))"

definition satsubu32t :: "u32 \<Rightarrow> u32 \<Rightarrow> u32" where
  "satsubu32t a b = (let tmp = a - b in tmp AND - c_flag (tmp \<le> a))"

definition satmulu32 :: "u32 \<Rightarrow> u32 \<Rightarrow> u32" where
  "satmulu32 a b =
     (let a64 = (ucast a :: u64); b64 = (ucast b :: u64);
          res = a64 * b64;
          hi = (ucast (drop_bit 32 res) :: u32);
          lo = (ucast res :: u32)
      in lo OR - c_flag (hi \<noteq> 0))"

definition satdivu32 :: "u32 \<Rightarrow> u32 \<Rightarrow> u32 option" where
  "satdivu32 a b = (if b = 0 then None else Some (a div b))"

lemma c_flag_simps [simp]:
  "x OR - c_flag p = (if p then - 1 else x)" "x AND - c_flag p = (if p then x else 0)"
  by (simp_all add: c_flag_def)

lemma unat_max32 [simp]: "unat (- 1 :: u32) = 4294967295"
  by (simp add: unsigned_minus_1_eq_mask mask_eq_exp_minus_1)

lemma sataddu32_saturates: "unat (sataddu32 a b) = min (unat a + unat b) 4294967295"
proof -
  note n = unat_u32_bound [of a] unat_u32_bound [of b]
  have "a + b < a \<longleftrightarrow> 4294967296 \<le> unat a + unat b"
    unfolding word_less_nat_alt u32_add_mod using n by (auto simp: mod_if)
  then show ?thesis
    using n by (auto simp: sataddu32_def Let_def u32_add_mod)
qed

lemma satsubu32t_saturates: "unat (satsubu32t a b) = unat a - unat b"
proof (cases "unat b \<le> unat a")
  case True
  then show ?thesis
    by (simp add: satsubu32t_def Let_def unat_sub_small word_le_nat_alt)
next
  case False
  have "unat (a - b) = unat a + 4294967296 - unat b"
    using False by (simp add: unat_sub_if')
  then have "\<not> a - b \<le> a"
    using False unat_u32_bound [of b] by (simp add: word_le_nat_alt)
  then show ?thesis using False by (simp add: satsubu32t_def Let_def)
qed

text \<open>The function tests \<open>res < a\<close> where the macro tests \<open>res \<le> a\<close>.\<close>

lemma satsubu32_saturates: "satsubu32 a b = (if b = 0 then 0 else satsubu32t a b)"
proof -
  have "a - b \<le> a \<longleftrightarrow> a - b < a \<or> b = 0" by (auto simp: order_le_less)
  then show ?thesis by (auto simp: satsubu32_def satsubu32t_def Let_def)
qed

lemma satmulu32_saturates: "unat (satmulu32 a b) = min (unat a * unat b) 4294967295"
proof -
  let ?p = "unat a * unat b"
  have "?p \<le> 4294967295 * 4294967295"
    using unat_u32_bound [of a] unat_u32_bound [of b] by (intro mult_le_mono) simp_all
  then have p: "unat (ucast a * ucast b :: u64) = ?p"
    by (simp add: u64_mult_mod unat_u32_u64)
  have "?p div 4294967296 < 4294967296" using \<open>?p \<le> _\<close> by simp
  then have hi: "(ucast (drop_bit 32 (ucast a * ucast b :: u64)) :: u32) = 0 \<longleftrightarrow> ?p < 4294967296"
    by (simp add: word_unat_eq_iff unat_ucast_mod unat_drop_bit_div p div_eq_0_iff)
  have lo: "?p < 4294967296 \<Longrightarrow> unat (ucast (ucast a * ucast b :: u64) :: u32) = ?p"
    by (simp add: unat_ucast_mod p)
  show ?thesis
    using hi lo by (auto simp: satmulu32_def Let_def min_def)
qed

section \<open>Properties\<close>

text \<open>
  C24: the shift-and-add divisions by 7, 9, 10, 100 and 1000 and the reciprocal multiplication for
  1000000 return the exact quotient for every one of the 32-bit arguments.
\<close>

theorem constant_division_exact:
  "unat (divu7 x) = unat x div 7 \<and> unat (divu9 x) = unat x div 9 \<and>
   unat (divu10 x) = unat x div 10 \<and> unat (divu100 x) = unat x div 100 \<and>
   unat (divu1000 x) = unat x div 1000 \<and> unat (divu1000000 x) = unat x div 1000000"
  by (simp add: divu7_exact divu9_exact divu10_exact divu100_exact divu1000_exact
      divu1000000_exact)

text \<open>
  The leap-year macro, which divides by 100 and 400 without dividing, decides the Gregorian
  rule on every 32-bit year.
\<close>

theorem leapyear_gregorian:
  "leapyear u =
     (if 400 dvd unat u then True else if 100 dvd unat u then False else 4 dvd unat u)"
proof -
  have "unat (u AND 0x03) = unat u mod 4"
    using unat_and_mask [of u 2] by (simp add: mask_eq_exp_minus_1)
  then have "u AND 0x03 = 0 \<longleftrightarrow> 4 dvd unat u"
    by (simp add: unat_eq_0 [symmetric] dvd_eq_mod_eq_0)
  moreover have "modu100 u = 0 \<longleftrightarrow> 100 dvd unat u" "modu400 u = 0 \<longleftrightarrow> 400 dvd unat u"
    by (simp_all add: unat_eq_0 [symmetric] modu100_exact modu400_exact dvd_eq_mod_eq_0)
  moreover have "400 dvd unat u \<Longrightarrow> 4 dvd unat u"
    by (rule dvd_trans [of 4 400]) simp_all
  ultimately show ?thesis by (auto simp: leapyear_def)
qed

text \<open>
  Saturating 32-bit addition, subtraction (the macro) and multiplication clamp the exact
  result to the range of \<open>uint32_t\<close>, and the remainder modulo 65535 by digit sums is exact.
\<close>

theorem saturating_arithmetic:
  "unat (sataddu32 a b) = min (unat a + unat b) 4294967295 \<and>
   unat (satsubu32t a b) = unat a - unat b \<and>
   unat (satmulu32 a b) = min (unat a * unat b) 4294967295 \<and>
   unat (mod65535u32 a) = unat a mod 65535"
  by (simp only: sataddu32_saturates satsubu32t_saturates satmulu32_saturates mod65535u32_exact
      simp_thms)

text \<open>
  Reducing a fraction with non-zero denominator returns the same fraction in lowest terms, and
  the 32-bit Euclidean loop returns the greatest common divisor.
\<close>

theorem ratreduce_lowest_terms:
  assumes "den \<noteq> 0"
  shows "unat (gcdu32 a b) = gcd (unat a) (unat b) \<and>
    (\<exists>n d. ratreduce num den = Some (n, d) \<and> n * den = num * d \<and> coprime n d \<and> d \<noteq> 0)"
  using ratreduce_reduced [OF assms] by (simp only: gcdu32_gcd simp_thms)

theorem ratreduce_witness:
  "unat (gcdu32 12 18) = gcd (unat (12 :: u32)) (unat (18 :: u32)) \<and>
    (\<exists>n d. ratreduce 6 (- 4) = Some (n, d) \<and> n * (- 4) = 6 * d \<and> coprime n d \<and> d \<noteq> 0)"
  by (rule ratreduce_lowest_terms) simp

text \<open>
  The subtraction function tests \<open>res < a\<close> where the macro tests \<open>res \<le> a\<close>: it returns 0
  for \<open>a - 0\<close> and agrees with saturating subtraction on every other argument; \<open>divu3\<close>
  multiplies by a 64-bit reciprocal and keeps the wrong half of the product.
\<close>

theorem satsubu32_zero_subtrahend:
  "satsubu32 a b = (if b = 0 then 0 else satsubu32t a b) \<and> divu3 1 \<noteq> 0"
  by (simp add: satsubu32_saturates) (simp add: divu3_def)

end
