(* ===== verification/Trixbits.thy ===== *)
theory Trixbits
  imports Prelude
begin

text \<open>
  The bit scans and the power-of-two arithmetic of \<^verbatim>\<open>usr/lib/zero/trix.h\<close>: the
  portable \<open>tzero\<close> and \<open>lzero\<close> macros (a binary search for the lowest and the highest
  set bit), and rounding to powers of two.  Macros that store into an argument are functions that
  return the stored value.
\<close>

section \<open>Counting trailing and leading zero bits\<close>

text \<open>
  One test of the binary search: if the bits under the mask are clear, shift them out and count
  them.  The last test of each macro counts without shifting.
\<close>

definition tz_test :: "'a::len word \<Rightarrow> nat \<Rightarrow> 'a word \<times> nat \<Rightarrow> 'a word \<times> nat" where
  "tz_test m n s = (if fst s AND m = 0 then (drop_bit n (fst s), snd s + n) else s)"

definition lz_test :: "'a::len word \<Rightarrow> nat \<Rightarrow> 'a word \<times> nat \<Rightarrow> 'a word \<times> nat" where
  "lz_test m n s = (if fst s AND m = 0 then (push_bit n (fst s), snd s + n) else s)"

definition tzero32 :: "u32 \<Rightarrow> nat" where
  "tzero32 x =
     (if x = 0 then 32
      else if x AND 0x01 = 0
      then let mask = 0xffff;
               s = tz_test mask 16 (x, 0);
               mask = drop_bit 8 mask; s = tz_test mask 8 s;
               mask = drop_bit 4 mask; s = tz_test mask 4 s;
               mask = drop_bit 2 mask; s = tz_test mask 2 s;
               mask = drop_bit 1 mask
           in if fst s AND mask = 0 then snd s + 1 else snd s
      else 0)"

definition lzero32 :: "u32 \<Rightarrow> nat" where
  "lzero32 x =
     (if x = 0 then 32
      else if x AND push_bit 31 0x01 = 0
      then let mask = push_bit 16 0xffffffff;
               s = lz_test mask 16 (x, 0);
               mask = push_bit 8 mask; s = lz_test mask 8 s;
               mask = push_bit 4 mask; s = lz_test mask 4 s;
               mask = push_bit 2 mask; s = lz_test mask 2 s;
               mask = push_bit 1 mask
           in if fst s AND mask = 0 then snd s + 1 else snd s
      else 0)"

definition tzero64 :: "u64 \<Rightarrow> nat" where
  "tzero64 x =
     (if x = 0 then 64
      else if x AND 0x01 = 0
      then let mask = 0xffffffff;
               s = tz_test mask 32 (x, 0);
               mask = drop_bit 16 mask; s = tz_test mask 16 s;
               mask = drop_bit 8 mask; s = tz_test mask 8 s;
               mask = drop_bit 4 mask; s = tz_test mask 4 s;
               mask = drop_bit 2 mask; s = tz_test mask 2 s;
               mask = drop_bit 1 mask
           in if fst s AND mask = 0 then snd s + 1 else snd s
      else 0)"

definition lzero64 :: "u64 \<Rightarrow> nat" where
  "lzero64 x =
     (if x = 0 then 64
      else if x AND push_bit 63 0x01 = 0
      then let mask = push_bit 32 0xffffffff;
               s = lz_test mask 32 (x, 0);
               mask = push_bit 16 mask; s = lz_test mask 16 s;
               mask = push_bit 8 mask; s = lz_test mask 8 s;
               mask = push_bit 4 mask; s = lz_test mask 4 s;
               mask = push_bit 2 mask; s = lz_test mask 2 s;
               mask = push_bit 1 mask
           in if fst s AND mask = 0 then snd s + 1 else snd s
      else 0)"

text \<open>
  Between two tests the word is the argument shifted by the count, the bits shifted out were
  all clear, and one of the next \<open>w\<close> bits is set.
\<close>

definition tz_state :: "'a::len word \<Rightarrow> nat \<Rightarrow> 'a word \<times> nat \<Rightarrow> bool" where
  "tz_state x w s \<longleftrightarrow>
     fst s = drop_bit (snd s) x \<and> (\<forall>i < snd s. \<not> bit x i) \<and> (\<exists>i < snd s + w. bit x i)"

definition lz_state :: "'a::len word \<Rightarrow> nat \<Rightarrow> 'a word \<times> nat \<Rightarrow> bool" where
  "lz_state x w s \<longleftrightarrow>
     fst s = push_bit (snd s) x \<and> (\<forall>i. LENGTH('a) \<le> i + snd s \<longrightarrow> \<not> bit x i)
     \<and> (\<exists>i. LENGTH('a) \<le> i + snd s + w \<and> bit x i)"

lemma and_mask_zero: "w AND mask n = 0 \<longleftrightarrow> (\<forall>i<n. \<not> bit w i)" for w :: "'a::len word"
  by (auto simp: bit_eq_iff bit_simps dest: bit_imp_le_length)

lemma and_not_mask_zero:
  "w AND NOT (mask (LENGTH('a) - n)) = 0 \<longleftrightarrow> (\<forall>i. LENGTH('a) \<le> i + n \<longrightarrow> \<not> bit w i)"
  for w :: "'a::len word"
  by (auto simp: bit_eq_iff bit_simps dest: bit_imp_le_length)
    (metis add.commute less_diff_conv not_le)

lemma tz_test_state:
  assumes "tz_state x w s" and "w = n + n" and "m = mask n"
  shows "tz_state x n (tz_test m n s)"
proof -
  have f: "fst s = drop_bit (snd s) x" and z: "\<And>i. i < snd s \<Longrightarrow> \<not> bit x i"
    and o: "\<exists>i < snd s + n + n. bit x i"
    using assms(1,2) by (auto simp: tz_state_def add.assoc)
  have c: "fst s AND m = 0 \<longleftrightarrow> (\<forall>i<n. \<not> bit x (snd s + i))"
    by (simp add: f assms(3) and_mask_zero bit_drop_bit_eq)
  have "\<forall>i < snd s + n. \<not> bit x i" if "\<forall>i<n. \<not> bit x (snd s + i)"
    using z that by (metis add_diff_inverse_nat nat_add_left_cancel_less)
  moreover have "\<exists>i < snd s + n. bit x i" if "\<exists>i<n. bit x (snd s + i)"
    using that add_less_cancel_left by blast
  ultimately have k: "fst s AND m = 0 \<Longrightarrow> \<forall>i < snd s + n. \<not> bit x i"
    "fst s AND m \<noteq> 0 \<Longrightarrow> \<exists>i < snd s + n. bit x i"
    using c by blast+
  have p: "drop_bit n (drop_bit (snd s) x) = drop_bit (snd s + n) x" by (simp add: ac_simps)
  show ?thesis
  proof (cases "fst s AND m = 0")
    case True
    then show ?thesis using k(1) o p f by (simp add: tz_state_def tz_test_def)
  next
    case False
    then show ?thesis using k(2) z f by (simp add: tz_state_def tz_test_def)
  qed
qed

lemma lz_test_state:
  fixes x :: "'a::len word"
  assumes "lz_state x w s" and "w = n + n" and "m = NOT (mask (LENGTH('a) - n))"
  shows "lz_state x n (lz_test m n s)"
proof -
  have f: "fst s = push_bit (snd s) x" and z: "\<And>i. LENGTH('a) \<le> i + snd s \<Longrightarrow> \<not> bit x i"
    and o: "\<exists>i. LENGTH('a) \<le> i + snd s + (n + n) \<and> bit x i"
    using assms(1,2) by (auto simp: lz_state_def)
  have c: "fst s AND m = 0 \<longleftrightarrow> (\<forall>i. LENGTH('a) \<le> i + snd s + n \<longrightarrow> \<not> bit x i)"
  proof
    assume "fst s AND m = 0"
    then have h: "\<And>i. LENGTH('a) \<le> i + n \<Longrightarrow> \<not> bit (push_bit (snd s) x) i"
      by (simp add: f assms(3) and_not_mask_zero)
    show "\<forall>i. LENGTH('a) \<le> i + snd s + n \<longrightarrow> \<not> bit x i"
    proof (intro allI impI notI)
      fix i assume i: "LENGTH('a) \<le> i + snd s + n" "bit x i"
      then have "i + snd s < LENGTH('a)" using z [of i] by linarith
      then show False using h [of "i + snd s"] i by (simp add: bit_simps)
    qed
  next
    assume "\<forall>i. LENGTH('a) \<le> i + snd s + n \<longrightarrow> \<not> bit x i"
    then show "fst s AND m = 0"
      by (auto simp: f assms(3) and_not_mask_zero bit_simps)
  qed
  have p: "push_bit n (push_bit (snd s) x) = push_bit (snd s + n) x" by (simp add: ac_simps)
  have o': "\<exists>i. LENGTH('a) \<le> i + (snd s + n) + n \<and> bit x i" using o by (simp add: add.assoc)
  show ?thesis
  proof (cases "fst s AND m = 0")
    case True
    then show ?thesis using c p o' f by (simp add: lz_state_def lz_test_def add.assoc)
  next
    case False
    then have "\<exists>i. LENGTH('a) \<le> i + snd s + n \<and> bit x i" using c by blast
    then show ?thesis using False f z by (simp add: lz_state_def lz_test_def)
  qed
qed

definition is_ctz :: "'a::len word \<Rightarrow> nat \<Rightarrow> bool" where
  "is_ctz x r \<longleftrightarrow> bit x r \<and> (\<forall>i<r. \<not> bit x i)"

definition is_clz :: "'a::len word \<Rightarrow> nat \<Rightarrow> bool" where
  "is_clz x r \<longleftrightarrow> r < LENGTH('a) \<and> bit x (LENGTH('a) - 1 - r) \<and> (\<forall>i. LENGTH('a) \<le> i + r \<longrightarrow> \<not> bit x i)"

lemma tz_final:
  assumes "tz_state x 2 s" "m = mask 1"
  shows "is_ctz x (if fst s AND m = 0 then snd s + 1 else snd s)"
proof -
  have "tz_state x 1 (tz_test m 1 s)"
    by (rule tz_test_state [OF assms(1) _ assms(2)]) simp
  then show ?thesis
    by (auto simp: tz_state_def tz_test_def is_ctz_def less_Suc_eq split: if_splits)
qed

lemma lz_final:
  fixes x :: "'a::len word"
  assumes "lz_state x 2 s" "m = NOT (mask (LENGTH('a) - 1))"
  shows "is_clz x (if fst s AND m = 0 then snd s + 1 else snd s)" (is "is_clz x ?r")
proof -
  have "lz_state x 1 (lz_test m 1 s)"
    by (rule lz_test_state [OF assms(1) _ assms(2)]) simp
  then have z: "\<forall>i. LENGTH('a) \<le> i + ?r \<longrightarrow> \<not> bit x i"
    and o: "\<exists>i. LENGTH('a) \<le> i + ?r + 1 \<and> bit x i"
    by (auto simp: lz_state_def lz_test_def split: if_splits)
  from o obtain i where i: "LENGTH('a) \<le> i + ?r + 1" "bit x i" by blast
  then have "\<not> LENGTH('a) \<le> i + ?r" using z by blast
  then have "i = LENGTH('a) - 1 - ?r" "?r < LENGTH('a)" using i(1) by linarith+
  then show ?thesis using i z by (simp add: is_clz_def)
qed

lemma nonzero_has_bit: "x \<noteq> 0 \<Longrightarrow> \<exists>i<LENGTH('a). bit x i" for x :: "'a::len word"
  by (auto simp: bit_eq_iff)

lemma tz_start: "x \<noteq> 0 \<Longrightarrow> w = LENGTH('a) \<Longrightarrow> tz_state x w (x, 0)" for x :: "'a::len word"
  using nonzero_has_bit [of x] by (auto simp: tz_state_def)

lemma lz_start: "x \<noteq> 0 \<Longrightarrow> w = LENGTH('a) \<Longrightarrow> lz_state x w (x, 0)" for x :: "'a::len word"
  using nonzero_has_bit [of x] by (auto simp: lz_state_def dest: bit_imp_le_length)

lemmas mask_numeral = mask_eq_exp_minus_1

lemma tzero32_ctz: "if x = 0 then tzero32 x = 32 else is_ctz x (tzero32 x)"
proof -
  have "is_ctz x (tzero32 x)" if "x \<noteq> 0"
  proof (cases "x AND 1 = 0")
    case True
    then show ?thesis
      unfolding tzero32_def Let_def using that
      by (simp only: if_False if_True simp_thms)
         (rule tz_final, (rule tz_test_state)+, rule tz_start, simp_all add: mask_numeral)
  next
    case False
    then show ?thesis using that by (auto simp: tzero32_def is_ctz_def and_one_eq bit_0 even_iff_mod_2_eq_zero)
  qed
  then show ?thesis by (simp add: tzero32_def)
qed

lemma tzero64_ctz: "if x = 0 then tzero64 x = 64 else is_ctz x (tzero64 x)"
proof -
  have "is_ctz x (tzero64 x)" if "x \<noteq> 0"
  proof (cases "x AND 1 = 0")
    case True
    then show ?thesis
      unfolding tzero64_def Let_def using that
      by (simp only: if_False if_True simp_thms)
         (rule tz_final, (rule tz_test_state)+, rule tz_start, simp_all add: mask_numeral)
  next
    case False
    then show ?thesis using that by (auto simp: tzero64_def is_ctz_def and_one_eq bit_0 even_iff_mod_2_eq_zero)
  qed
  then show ?thesis by (simp add: tzero64_def)
qed

lemma lzero32_clz: "if x = 0 then lzero32 x = 32 else is_clz x (lzero32 x)"
proof -
  have "is_clz x (lzero32 x)" if "x \<noteq> 0"
  proof (cases "x AND push_bit 31 1 = 0")
    case True
    then show ?thesis
      unfolding lzero32_def Let_def using that
      by (simp only: if_False if_True simp_thms)
         (rule lz_final, (rule lz_test_state)+, rule lz_start, simp_all add: mask_numeral)
  next
    case False
    then have "bit x 31" using and_exp_eq_0_iff_not_bit [of x 31] by (simp add: push_bit_eq_mult)
    then show ?thesis using that False by (auto simp: lzero32_def is_clz_def dest: bit_imp_le_length)
  qed
  then show ?thesis by (simp add: lzero32_def)
qed

lemma lzero64_clz: "if x = 0 then lzero64 x = 64 else is_clz x (lzero64 x)"
proof -
  have "is_clz x (lzero64 x)" if "x \<noteq> 0"
  proof (cases "x AND push_bit 63 1 = 0")
    case True
    then show ?thesis
      unfolding lzero64_def Let_def using that
      by (simp only: if_False if_True simp_thms)
         (rule lz_final, (rule lz_test_state)+, rule lz_start, simp_all add: mask_numeral)
  next
    case False
    then have "bit x 63" using and_exp_eq_0_iff_not_bit [of x 63] by (simp add: push_bit_eq_mult)
    then show ?thesis using that False by (auto simp: lzero64_def is_clz_def dest: bit_imp_le_length)
  qed
  then show ?thesis by (simp add: lzero64_def)
qed

section \<open>Powers of two\<close>

definition powerof2 :: "'a::len word \<Rightarrow> bool" where
  "powerof2 x = (x AND (x - 1) = 0)"

definition modpow2 :: "'a::len word \<Rightarrow> 'a word \<Rightarrow> 'a word" where
  "modpow2 a b2 = a AND (b2 - 1)"

definition rounduppow2 :: "'a::len word \<Rightarrow> 'a word \<Rightarrow> 'a word" where
  "rounduppow2 a b2 = (a + (b2 - 0x01)) AND - b2"

definition rounddownpow2 :: "'a::len word \<Rightarrow> 'a word \<Rightarrow> 'a word" where
  "rounddownpow2 a b2 = a AND NOT (b2 - 0x01)"

definition ceilpow2_32 :: "u32 \<Rightarrow> u32" where
  "ceilpow2_32 u =
     (let r = u
      in if \<not> powerof2 r
         then let r = r - 1;
                  r = r OR drop_bit 1 r;
                  r = r OR drop_bit 2 r;
                  r = r OR drop_bit 4 r;
                  r = r OR drop_bit 8 r;
                  r = r OR drop_bit 16 r
              in r + 1
         else r)"

definition ceilpow2_64 :: "u64 \<Rightarrow> u64" where
  "ceilpow2_64 u =
     (let r = u
      in if \<not> powerof2 r
         then let r = r - 1;
                  r = r OR drop_bit 1 r;
                  r = r OR drop_bit 2 r;
                  r = r OR drop_bit 4 r;
                  r = r OR drop_bit 8 r;
                  r = r OR drop_bit 16 r;
                  r = r OR drop_bit 32 r
              in r + 1
         else r)"

lemma unat_exp: "k < LENGTH('a) \<Longrightarrow> unat (2 ^ k :: 'a::len word) = 2 ^ k"
proof -
  assume k: "k < LENGTH('a)"
  have "unat (of_nat (2 ^ k) :: 'a word) = 2 ^ k mod 2 ^ LENGTH('a)" by (rule unat_of_nat)
  then show ?thesis using k by simp
qed

lemma bit_unat_div: "bit w i \<longleftrightarrow> odd (unat w div 2 ^ i)" for w :: "'a::len word"
proof -
  have "bit w i \<longleftrightarrow> bit (unat w) i" by (auto simp: bit_unsigned_iff)
  then show ?thesis by (simp only: bit_iff_odd)
qed

lemma rounddownpow2_exact:
  fixes a :: "'a::len word"
  assumes "k < LENGTH('a)"
  shows "unat (rounddownpow2 a (2 ^ k)) = 2 ^ k * (unat a div 2 ^ k)"
proof -
  have "rounddownpow2 a (2 ^ k) + (a AND mask k) = a"
    unfolding rounddownpow2_def mask_eq_exp_minus_1 [symmetric]
    by (subst disjunctive_add) (auto simp: bit_simps intro!: bit_word_eqI)
  then have "rounddownpow2 a (2 ^ k) = a - (a AND mask k)" by (simp add: eq_diff_eq)
  then have "unat (rounddownpow2 a (2 ^ k)) = unat a - unat a mod 2 ^ k"
    by (simp add: unat_sub_small unat_and_mask)
  then show ?thesis by (simp add: minus_mod_eq_mult_div)
qed

lemma rounduppow2_exact:
  fixes a :: "'a::len word"
  assumes "k < LENGTH('a)" "unat a + 2 ^ k \<le> 2 ^ LENGTH('a)"
  shows "unat (rounduppow2 a (2 ^ k)) = 2 ^ k * ((unat a + (2 ^ k - 1)) div 2 ^ k)"
proof -
  have m: "- (2 ^ k) = NOT ((2 ^ k :: 'a word) - 1)" by (simp add: not_eq_complement)
  have u: "unat ((2 ^ k :: 'a word) - 1) = 2 ^ k - 1"
    using assms(1) by (subst unat_sub_small) (simp_all add: unat_exp)
  have "unat (a + (2 ^ k - 1)) = unat a + (2 ^ k - 1)"
  proof (subst unat_add_small)
    have "(0::nat) < 2 ^ k" by simp
    then show "unat a + unat ((2 ^ k :: 'a word) - 1) < 2 ^ LENGTH('a)"
      unfolding u using assms(2) by linarith
  qed (simp only: u)
  then show ?thesis
    using rounddownpow2_exact [OF assms(1), of "a + (2 ^ k - 1)"]
    by (simp only: rounduppow2_def rounddownpow2_def m)
qed

lemma top_bit:
  fixes x :: "'a::len word"
  assumes "x \<noteq> 0"
  obtains t where "t < LENGTH('a)" "2 ^ t \<le> unat x" "unat x < 2 ^ Suc t" "bit x t"
proof -
  have "1 \<le> unat x" using assms by (simp add: Suc_le_eq unat_gt_0)
  then obtain t where t: "2 ^ t \<le> unat x" "unat x < 2 ^ (t + 1)"
    using ex_power_ivl1 [of 2 "unat x"] by auto
  then have "unat x div 2 ^ t = 1" by (intro div_nat_eqI) simp_all
  then have "bit x t" by (simp add: bit_unat_div)
  then show ?thesis using that t bit_imp_le_length by auto
qed

text \<open>Smearing: the top \<open>k\<close> of the lowest \<open>t\<close> bits are set and none above.\<close>

definition smeared :: "nat \<Rightarrow> nat \<Rightarrow> 'a::len word \<Rightarrow> bool" where
  "smeared t k r \<longleftrightarrow> (\<forall>i. bit r i \<longrightarrow> i < t) \<and> (\<forall>i<t. t \<le> i + k \<longrightarrow> bit r i)"

lemma smear_step:
  assumes "smeared t k r" "n = k" "w = k + k"
  shows "smeared t w (r OR drop_bit n r)"
proof -
  have b: "\<And>i. bit r i \<Longrightarrow> i < t" and s: "\<And>i. i < t \<Longrightarrow> t \<le> i + k \<Longrightarrow> bit r i"
    using assms(1) by (auto simp: smeared_def)
  have "bit (r OR drop_bit k r) i" if "i < t" "t \<le> i + (k + k)" for i
  proof (cases "t \<le> i + k")
    case True
    then show ?thesis using s that by (simp add: bit_or_iff)
  next
    case False
    then have "bit r (k + i)" using that by (intro s) linarith+
    then show ?thesis by (simp add: bit_or_iff bit_drop_bit_eq)
  qed
  moreover have "i < t" if "bit (r OR drop_bit k r) i" for i
    using that b [of i] b [of "k + i"] by (auto simp: bit_or_iff bit_drop_bit_eq)
  ultimately show ?thesis unfolding smeared_def assms(2,3) by blast
qed

lemma smeared_all:
  fixes r :: "'a::len word"
  assumes "smeared t w r" "w = LENGTH('a)" "t \<le> LENGTH('a)"
  shows "r = mask t"
  using assms by (auto simp: smeared_def bit_eq_iff bit_simps)

lemma smeared_start: "bit r t \<Longrightarrow> unat r < 2 ^ Suc t \<Longrightarrow> smeared (Suc t) 1 r" for r :: "'a::len word"
proof -
  assume b: "bit r t" and l: "unat r < 2 ^ Suc t"
  have "i < Suc t" if "bit r i" for i
  proof (rule ccontr)
    assume "\<not> i < Suc t"
    then have "(2::nat) ^ Suc t \<le> 2 ^ i" by (intro power_increasing) auto
    then have "unat r div 2 ^ i = 0" using l by (simp add: div_eq_0_iff)
    then show False using that by (simp add: bit_unat_div)
  qed
  then show ?thesis using b by (auto simp: smeared_def) (metis Suc_leI le_antisym less_Suc_eq_le)
qed

lemma powerof2_exp:
  fixes x :: "'a::len word"
  assumes "powerof2 x" "x \<noteq> 0"
  shows "\<exists>t<LENGTH('a). unat x = 2 ^ t"
proof -
  obtain t where t: "t < LENGTH('a)" "2 ^ t \<le> unat x" "unat x < 2 ^ Suc t" "bit x t"
    by (rule top_bit [OF assms(2)])
  have "unat x = 2 ^ t"
  proof (rule ccontr)
    assume "unat x \<noteq> 2 ^ t"
    then have "2 ^ t \<le> unat (x - 1)" "unat (x - 1) < 2 ^ Suc t"
      using t by (simp_all add: unat_sub_small)
    then have "unat (x - 1) div 2 ^ t = 1" by (intro div_nat_eqI) simp_all
    then have "bit (x AND (x - 1)) t" using t(4) by (simp add: bit_simps) (simp add: bit_unat_div)
    then show False using assms(1) by (simp add: powerof2_def)
  qed
  then show ?thesis using t(1) by blast
qed

text \<open>What rounding up to a power of two has to give.\<close>

definition is_ceilpow2 :: "nat \<Rightarrow> nat \<Rightarrow> bool" where
  "is_ceilpow2 n r \<longleftrightarrow> (\<exists>k. r = 2 ^ k \<and> n \<le> r \<and> (\<forall>j. n \<le> 2 ^ j \<longrightarrow> r \<le> 2 ^ j))"

lemma is_ceilpow2I:
  assumes "2 ^ t < n" "n \<le> 2 ^ Suc t"
  shows "is_ceilpow2 n (2 ^ Suc t)"
proof -
  have "2 ^ Suc t \<le> (2::nat) ^ j" if "n \<le> 2 ^ j" for j
  proof -
    have "(2::nat) ^ t < 2 ^ j" using assms(1) that by linarith
    then have "Suc t \<le> j" by (simp add: Suc_le_eq)
    then show ?thesis by (intro power_increasing) simp_all
  qed
  then show ?thesis using assms(2) unfolding is_ceilpow2_def by blast
qed

lemma smear_ceil:
  fixes u r :: "'a::len word"
  assumes u: "\<not> powerof2 u" "unat u \<le> 2 ^ (LENGTH('a) - 1)"
    and sm: "\<And>t. smeared t 1 (u - 1) \<Longrightarrow> smeared t (LENGTH('a)) r"
  shows "is_ceilpow2 (unat u) (unat (r + 1))"
proof -
  have u1: "u \<noteq> 0" "u - 1 \<noteq> 0" using u by (auto simp: powerof2_def)
  then have p: "unat (u - 1) = unat u - 1" "0 < unat u"
    by (simp_all add: unat_gt_0 unat_sub_small Suc_le_eq)
  obtain t where t: "t < LENGTH('a)" "2 ^ t \<le> unat (u - 1)" "unat (u - 1) < 2 ^ Suc t" "bit (u - 1) t"
    by (rule top_bit [OF u1(2)])
  have l: "2 ^ t < unat u" "unat u \<le> 2 ^ Suc t" using t p by simp_all
  have "(2::nat) ^ t < 2 ^ (LENGTH('a) - 1)" using l(1) u(2) by linarith
  then have tl: "Suc t < LENGTH('a)" by (simp add: less_diff_conv)
  have "r = mask (Suc t)"
    using smeared_all [OF sm [OF smeared_start [OF t(4,3)]]] tl by simp
  then have "r + 1 = 2 ^ Suc t" by (simp add: mask_eq_exp_minus_1 del: mask_Suc_exp)
  then have "unat (r + 1) = 2 ^ Suc t" using tl by (simp add: unat_exp del: power_Suc)
  then show ?thesis using is_ceilpow2I [OF l] by simp
qed

lemma powerof2_ceil: "powerof2 u \<Longrightarrow> u \<noteq> 0 \<Longrightarrow> is_ceilpow2 (unat u) (unat u)"
  for u :: "'a::len word"
  using powerof2_exp [of u] by (auto simp: is_ceilpow2_def)

lemma ceilpow2_32_least:
  assumes "u \<noteq> 0" "unat u \<le> 2 ^ 31"
  shows "is_ceilpow2 (unat u) (unat (ceilpow2_32 u))"
proof (cases "powerof2 u")
  case True
  then show ?thesis using assms by (simp add: ceilpow2_32_def powerof2_ceil)
next
  case False
  then show ?thesis
    unfolding ceilpow2_32_def Let_def using assms
    by (simp only: if_True simp_thms)
       (rule smear_ceil, simp, simp, (rule smear_step)+, assumption, simp_all, simp_all)
qed

lemma ceilpow2_64_least:
  assumes "u \<noteq> 0" "unat u \<le> 2 ^ 63"
  shows "is_ceilpow2 (unat u) (unat (ceilpow2_64 u))"
proof (cases "powerof2 u")
  case True
  then show ?thesis using assms by (simp add: ceilpow2_64_def powerof2_ceil)
next
  case False
  then show ?thesis
    unfolding ceilpow2_64_def Let_def using assms
    by (simp only: if_True simp_thms)
       (rule smear_ceil, simp, simp, (rule smear_step)+, assumption, simp_all, simp_all)
qed

section \<open>Properties\<close>

text \<open>
  The portable bit scans return the index of the lowest set bit, and the number of clear bits
  above the highest set bit, of every non-zero 32- and 64-bit word, and the width for zero.
\<close>

theorem bit_scans_exact:
  "(if x = 0 then tzero32 x = 32 \<and> lzero32 x = 32
    else is_ctz x (tzero32 x) \<and> is_clz x (lzero32 x)) \<and>
   (if y = 0 then tzero64 y = 64 \<and> lzero64 y = 64
    else is_ctz y (tzero64 y) \<and> is_clz y (lzero64 y))"
  using tzero32_ctz [of x] tzero64_ctz [of y] lzero32_clz [of x] lzero64_clz [of y]
  by (simp split: if_splits)

text \<open>
  Rounding up to a power of two gives the least power of two that is not below the argument,
  for every argument for which that power fits the word, and rounding to a multiple of a power of
  two gives the neighbouring multiples.
\<close>

theorem power_of_two_rounding:
  assumes "u \<noteq> 0" "unat u \<le> 2 ^ 31" "v \<noteq> 0" "unat v \<le> 2 ^ 63"
    and "k < 32" "unat a + 2 ^ k \<le> 2 ^ 32"
  shows "is_ceilpow2 (unat u) (unat (ceilpow2_32 u)) \<and>
    is_ceilpow2 (unat v) (unat (ceilpow2_64 v)) \<and>
    unat (rounddownpow2 (a :: u32) (2 ^ k)) = 2 ^ k * (unat a div 2 ^ k) \<and>
    unat (rounduppow2 (a :: u32) (2 ^ k)) = 2 ^ k * ((unat a + (2 ^ k - 1)) div 2 ^ k)"
  using ceilpow2_32_least [of u] ceilpow2_64_least [of v] rounddownpow2_exact [of k a]
    rounduppow2_exact [of k a] assms by simp

theorem power_of_two_rounding_witness:
  "is_ceilpow2 5 (unat (ceilpow2_32 5)) \<and> is_ceilpow2 9 (unat (ceilpow2_64 9)) \<and>
   unat (rounduppow2 (4097 :: u32) (2 ^ 12)) = 2 ^ 12 * ((4097 + (2 ^ 12 - 1)) div 2 ^ 12)"
  using power_of_two_rounding [of 5 9 12 4097] by simp

end
