(* ===== verification/Deq.thy ===== *)
theory Deq
  imports Prelude
begin

text \<open>
  The intrusive doubly linked queues of \<^verbatim>\<open>usr/lib/zero/deq.h\<close>, in both configurations:
  \<open>DEQ_SINGLE_TYPE\<close> (a queue is a pointer to its first item, used for physical pages and
  for tasks) and the two-type one (a header with the first and last item, used by the buffer cache).
  Items are addresses, \<open>NULL\<close> is 0; the link fields of all items form the heap.  The items of a
  queue never include \<open>NULL\<close>, so no operation on a represented queue follows a link of it.
  The theory relates the operations to lists, states the queue contract as a locale and
  interprets it on both configurations.
\<close>

section \<open>Items and their links\<close>

type_synonym ptr = nat

record links =
  nxt :: "ptr \<Rightarrow> ptr"
  prv :: "ptr \<Rightarrow> ptr"

definition set_next :: "ptr \<Rightarrow> ptr \<Rightarrow> links \<Rightarrow> links" where
  "set_next p v h = h\<lparr>nxt := (nxt h)(p := v)\<rparr>"

definition set_prev :: "ptr \<Rightarrow> ptr \<Rightarrow> links \<Rightarrow> links" where
  "set_prev p v h = h\<lparr>prv := (prv h)(p := v)\<rparr>"

lemma set_prev_idem [simp]: "set_prev a c (set_prev a c h) = set_prev a c h"
  by (simp add: set_prev_def)

lemma links_simps [simp, deq_simps]:
  "nxt (set_next p v h) = (nxt h)(p := v)" "prv (set_next p v h) = prv h"
  "prv (set_prev p v h) = (prv h)(p := v)" "nxt (set_prev p v h) = nxt h"
  by (simp_all add: set_next_def set_prev_def)

section \<open>The single-type configuration\<close>

definition deqinit :: "ptr \<Rightarrow> links \<Rightarrow> links" where
  "deqinit item h = set_prev item item (set_next item item h)"

definition deqissingular :: "ptr \<Rightarrow> links \<Rightarrow> bool" where
  "deqissingular item h = (nxt h item = prv h item)"

definition deqpush :: "ptr \<Rightarrow> links \<times> ptr \<Rightarrow> links \<times> ptr" where
  "deqpush item s =
     (let (h, list) = s
      in if list \<noteq> 0
         then let h = set_next (prv h list) item h;
                  h = set_prev item (prv h list) h;
                  h = set_next item list h;
                  h = set_prev list item h
              in (h, list)
         else (deqinit item h, item))"

definition deqpop :: "links \<times> ptr \<Rightarrow> ptr \<times> links \<times> ptr" where
  "deqpop s =
     (let (h, item) = s
      in if item \<noteq> 0
         then if \<not> deqissingular item h
              then let h = set_next (prv h item) (nxt h item) h;
                       h = set_prev (nxt h item) (prv h item) h
                   in (item, h, nxt h item)
              else (item, h, 0)
         else (item, h, item))"

definition deqappend :: "ptr \<Rightarrow> links \<times> ptr \<Rightarrow> links \<times> ptr" where
  "deqappend item s =
     (let (h, list) = s
      in if list \<noteq> 0
         then let h = set_next (prv h list) item h;
                  h = set_prev item (prv h list) h;
                  h = set_next item list h;
                  h = set_prev list item h
              in (h, list)
         else (deqinit item h, item))"

definition deqgetlast :: "links \<times> ptr \<Rightarrow> ptr \<times> links \<times> ptr" where
  "deqgetlast s =
     (let (h, list) = s
      in if list \<noteq> 0
         then if \<not> deqissingular list h
              then let item = prv h list;
                       h = set_next (prv h item) (nxt h item) h;
                       h = set_prev (nxt h item) (prv h item) h;
                       h = set_prev list (prv h item) h
                   in (item, h, list)
              else (list, h, 0)
         else (0, h, list))"

definition deqrmitem :: "ptr \<Rightarrow> links \<times> ptr \<Rightarrow> links \<times> ptr" where
  "deqrmitem item s =
     (let (h, list) = s
      in if \<not> deqissingular item h
         then let h = set_next (prv h item) (nxt h item) h;
                  h = set_prev (nxt h item) (prv h item) h
              in (h, if item = list then nxt h item else list)
         else (h, if item = list then 0 else list))"

section \<open>The two-type configuration\<close>

record deqhdr =
  hnext :: ptr
  hprev :: ptr

definition deq2push :: "ptr \<Rightarrow> links \<times> deqhdr \<Rightarrow> links \<times> deqhdr" where
  "deq2push item s =
     (let (h, d) = s; list = hnext d
      in if list \<noteq> 0
         then let h = set_prev item (hprev d) h;
                  h = set_next (prv h item) item h;
                  h = set_prev list item h;
                  h = set_next item list h
              in (h, d\<lparr>hnext := item\<rparr>)
         else (h, d\<lparr>hnext := item, hprev := item\<rparr>))"

definition deq2pop :: "links \<times> deqhdr \<Rightarrow> ptr \<times> links \<times> deqhdr" where
  "deq2pop s =
     (let (h, d) = s; item = hnext d
      in if item \<noteq> 0
         then if \<not> hnext d = hprev d
              then let h = set_next (hprev d) (nxt h item) h;
                       h = set_prev (nxt h item) (hprev d) h
                   in (item, h, d\<lparr>hnext := nxt h item\<rparr>)
              else (item, h, d\<lparr>hprev := 0, hnext := 0\<rparr>)
         else (item, h, d))"

definition deq2append :: "ptr \<Rightarrow> links \<times> deqhdr \<Rightarrow> links \<times> deqhdr" where
  "deq2append item s =
     (let (h, d) = s; list = hprev d
      in if list \<noteq> 0
         then let h = set_prev item list h;
                  h = set_next list item h;
                  h = set_next item (hnext d) h;
                  h = set_prev (nxt h item) item h
              in (h, d\<lparr>hprev := item\<rparr>)
         else (h, d\<lparr>hnext := item, hprev := item\<rparr>))"

definition deq2getlast :: "links \<times> deqhdr \<Rightarrow> ptr \<times> links \<times> deqhdr" where
  "deq2getlast s =
     (let (h, d) = s; item = hprev d
      in if item \<noteq> 0
         then if \<not> hnext d = hprev d
              then let h = set_next (prv h item) (nxt h item) h;
                       h = set_prev (nxt h item) (prv h item) h
                   in (item, h, d)
              else (item, h, d\<lparr>hprev := 0, hnext := 0\<rparr>)
         else (item, h, d))"

definition deq2rmitem :: "ptr \<Rightarrow> links \<times> deqhdr \<Rightarrow> links \<times> deqhdr" where
  "deq2rmitem item s =
     (let (h, d) = s; list = hnext d
      in if list \<noteq> 0
         then if \<not> hnext d = hprev d
              then let h = set_next (prv h item) (nxt h item) h;
                       h = set_prev (nxt h item) (prv h item) h
                   in (h, d)
              else (h, d\<lparr>hprev := 0, hnext := 0\<rparr>)
         else (h, d))"

section \<open>Linked paths and rings\<close>

fun path :: "links \<Rightarrow> ptr list \<Rightarrow> bool" where
  "path h (a # b # ps) \<longleftrightarrow> nxt h a = b \<and> prv h b = a \<and> path h (b # ps)"
| "path h _ \<longleftrightarrow> True"

definition ring :: "links \<Rightarrow> ptr list \<Rightarrow> bool" where
  "ring h xs \<longleftrightarrow> distinct xs \<and> 0 \<notin> set xs \<and> path h (xs @ [hd xs])"

lemma path_append: "path h (ps @ a # qs) \<longleftrightarrow> path h (ps @ [a]) \<and> path h (a # qs)"
  by (induction h ps rule: path.induct) auto

lemma path_set_next: "p \<notin> set (butlast ps) \<Longrightarrow> path (set_next p v h) ps = path h ps"
  by (induction h ps rule: path.induct) auto

lemma path_set_prev: "p \<notin> set (tl ps) \<Longrightarrow> path (set_prev p v h) ps = path h ps"
  by (induction h ps rule: path.induct) auto

lemma ring_cases:
  assumes "ring h xs"
  obtains "xs = []" | a where "xs = [a]" | a b where "xs = [a, b]"
    | a b ys c where "xs = a # b # ys @ [c]"
  by (metis neq_Nil_conv append_butlast_last_id)

text \<open>Inserting before the first item of a ring, and unlinking the first item.\<close>

lemma ring_prev_first: "ring h (a # xs) \<Longrightarrow> prv h a = last (a # xs) \<and> nxt h (last (a # xs)) = a"
  using path_append [of h "a # butlast xs" "last xs" "[a]"]
  by (cases xs rule: rev_cases) (auto simp: ring_def)

lemma ring_next_first: "ring h (a # b # xs) \<Longrightarrow> nxt h a = b"
  by (simp add: ring_def)

lemma ring_insert:
  assumes "ring h (a # xs)" "x \<notin> set (a # xs)" "x \<noteq> 0"
    and "c = last (a # xs)"
    and h': "h' = set_prev a x (set_next x a (set_prev x c (set_next c x h)))"
  shows "ring h' (a # xs @ [x])"
proof -
  have d: "distinct (a # xs)" "0 \<notin> set (a # xs)" "path h (a # xs @ [a])"
    using assms(1) by (auto simp: ring_def)
  have "path h' (a # xs @ [x])"
  proof (cases xs rule: rev_cases)
    case Nil
    then show ?thesis using assms by auto
  next
    case (snoc ys e)
    have "path h (a # ys @ [e])" using d(3) snoc path_append [of h "a # ys" e "[a]"] by simp
    then have "path h' (a # ys @ [e])"
      using d assms snoc by (simp add: path_set_next path_set_prev butlast_append)
    moreover have "path h' [e, x]" using assms snoc d by auto
    ultimately show ?thesis using snoc path_append [of h' "a # ys" e "[x]"] by simp
  qed
  moreover have "path h' [x, a]" using assms by auto
  ultimately have "path h' ((a # xs @ [x]) @ [a])" using path_append [of h' "a # xs" x "[a]"] by simp
  then show ?thesis using d assms by (simp add: ring_def)
qed

lemma ring_unlink_first:
  assumes "ring h (a # b # xs)" "c = last (b # xs)" and h': "h' = set_prev b c (set_next c b h)"
  shows "ring h' (b # xs)"
proof -
  have d: "distinct (a # b # xs)" "0 \<notin> set (a # b # xs)" "path h (b # xs @ [a])"
    using assms(1) by (auto simp: ring_def)
  have "path h' (b # xs @ [b])"
  proof (cases xs rule: rev_cases)
    case Nil
    then show ?thesis using assms by simp
  next
    case (snoc ys e)
    have "path h (b # ys @ [e])" using d(3) snoc path_append [of h "b # ys" e "[a]"] by simp
    then have "path h' (b # ys @ [e])"
      using d assms snoc by (simp add: path_set_next path_set_prev butlast_append)
    moreover have "path h' [e, b]" using assms snoc d by auto
    ultimately show ?thesis using snoc path_append [of h' "b # ys" e "[b]"] by simp
  qed
  then show ?thesis using d by (simp add: ring_def)
qed

lemma ring_rotate: "ring h (xs @ ys) \<Longrightarrow> ring h (ys @ xs)"
proof (cases "xs = [] \<or> ys = []")
  case False
  assume r: "ring h (xs @ ys)"
  from False obtain x xs' y ys' where e: "xs = x # xs'" "ys = y # ys'" by (meson neq_Nil_conv)
  have p: "path h (xs @ y # (ys' @ [x]))" using r by (simp add: ring_def e)
  have "path h ((y # ys') @ [x])" "path h (x # xs' @ [y])"
    using p path_append [of h xs y "ys' @ [x]"] by (simp_all add: e)
  then have "path h ((y # ys') @ x # (xs' @ [y]))"
    using path_append [of h "y # ys'" x "xs' @ [y]"] by simp
  then show ?thesis using r by (auto simp: ring_def e)
qed auto

section \<open>Representation of lists\<close>

definition deq_rep :: "links \<times> ptr \<Rightarrow> ptr list \<Rightarrow> bool" where
  "deq_rep s xs \<longleftrightarrow> (if xs = [] then snd s = 0 else snd s = hd xs \<and> ring (fst s) xs)"

lemma deqpush_eq_append: "deqpush = deqappend"
  by (intro ext) (simp add: deqpush_def deqappend_def)

lemma deqappend_rep:
  assumes "deq_rep s xs" "x \<notin> set xs" "x \<noteq> 0"
  shows "deq_rep (deqappend x s) (xs @ [x])"
proof (cases xs)
  case Nil
  then show ?thesis
    using assms by (auto simp: deq_rep_def deqappend_def deqinit_def ring_def Let_def split: prod.split)
next
  case (Cons a ys)
  obtain h where s: "s = (h, a)" and r: "ring h (a # ys)"
    using assms(1) Cons by (cases s) (auto simp: deq_rep_def)
  have a: "a \<noteq> 0" "x \<noteq> a" using r assms Cons by (auto simp: ring_def)
  show ?thesis
    using ring_insert [OF r _ assms(3) refl refl] ring_prev_first [OF r] a assms(2)
    by (simp add: deq_rep_def deqappend_def Let_def s Cons)
qed

text \<open>A pop that takes the ring for a singleton when it has two items.\<close>

lemma deqpop_rep:
  assumes "deq_rep s (x # xs)"
  shows "fst (deqpop s) = x \<and> deq_rep (snd (deqpop s)) (if length xs = 1 then [] else xs)"
proof -
  obtain h where s: "s = (h, x)" and r: "ring h (x # xs)"
    using assms by (cases s) (auto simp: deq_rep_def)
  have x0: "x \<noteq> 0" using r by (auto simp: ring_def)
  show ?thesis
  proof (cases xs)
    case Nil
    have "nxt h x = x" "prv h x = x" using r Nil by (auto simp: ring_def)
    then show ?thesis using Nil x0 by (simp add: s deqpop_def deqissingular_def deq_rep_def)
  next
    case (Cons b ys)
    have n: "nxt h x = b" "prv h x = last (b # ys)"
      using ring_next_first [of h x b ys] ring_prev_first [of h x xs] r Cons by auto
    show ?thesis
    proof (cases ys)
      case Nil
      then show ?thesis using n Cons x0 by (simp add: s deqpop_def deqissingular_def deq_rep_def)
    next
      case (Cons c zs)
      have "b \<noteq> last (b # ys)" "last (b # ys) \<noteq> x" "b \<noteq> x"
        using r \<open>xs = b # ys\<close> Cons by (auto simp: ring_def)
      then show ?thesis
        using n x0 ring_unlink_first [of h x b ys, OF _ refl refl] r \<open>xs = b # ys\<close> Cons
        by (simp add: s deqpop_def deqissingular_def deq_rep_def Let_def)
    qed
  qed
qed

lemma ring_unlink:
  assumes "ring h (ps @ x # qs)" "ps @ qs \<noteq> []"
  shows "ring (set_prev (nxt h x) (prv h x) (set_next (prv h x) (nxt h x) h)) (ps @ qs)
    \<and> nxt h x = hd (qs @ ps) \<and> prv h x = last (qs @ ps)"
proof -
  obtain b zs where z: "qs @ ps = b # zs" using assms(2) by (metis append_is_Nil_conv neq_Nil_conv)
  have r: "ring h (x # b # zs)" using ring_rotate [OF assms(1)] z by simp
  have n: "nxt h x = b" "prv h x = last (b # zs)"
    using ring_next_first [OF r] ring_prev_first [OF r] by auto
  show ?thesis
    using ring_rotate [of _ qs ps] ring_unlink_first [OF r refl refl] n z by simp
qed

lemma deqgetlast_rep:
  assumes "deq_rep s (xs @ [x])"
  shows "if length xs = 1 then fst (deqgetlast s) = hd xs \<and> deq_rep (snd (deqgetlast s)) []
    else fst (deqgetlast s) = x \<and> deq_rep (snd (deqgetlast s)) xs"
proof (cases xs)
  case Nil
  then show ?thesis
    using assms
    by (cases s) (auto simp: deq_rep_def ring_def deqgetlast_def deqissingular_def Let_def)
next
  case (Cons a ys)
  obtain h where s: "s = (h, a)" and r: "ring h (a # ys @ [x])"
    using assms Cons by (cases s) (auto simp: deq_rep_def)
  have a: "a \<noteq> 0" "prv h a = x" using r ring_prev_first [OF r] by (auto simp: ring_def)
  have u: "ring (set_prev (nxt h x) (prv h x) (set_next (prv h x) (nxt h x) h)) (a # ys)"
    "nxt h x = a" "prv h x = last (a # ys)"
    using ring_unlink [of h "a # ys" x "[]"] r by auto
  show ?thesis
  proof (cases ys)
    case Nil
    then have "nxt h a = x" using r by (auto simp: ring_def)
    then show ?thesis using a Cons Nil by (simp add: s deqgetlast_def deqissingular_def deq_rep_def)
  next
    case (Cons b zs)
    have "nxt h a = b" using r Cons ring_next_first by auto
    moreover have "b \<noteq> x" "last (b # zs) \<noteq> x" "a \<noteq> x" using r Cons by (auto simp: ring_def)
    ultimately show ?thesis
      using u a \<open>xs = a # ys\<close> Cons
      by (simp add: s deqgetlast_def deqissingular_def deq_rep_def Let_def)
  qed
qed

lemma deqrmitem_rep:
  assumes "deq_rep s (ps @ x # qs)" "length (ps @ qs) \<noteq> 1"
  shows "deq_rep (deqrmitem x s) (ps @ qs)"
proof (cases "ps @ qs = []")
  case True
  then show ?thesis
    using assms by (cases s) (auto simp: deq_rep_def ring_def deqrmitem_def deqissingular_def)
next
  case False
  obtain h where s: "s = (h, hd (ps @ [x]))" and r: "ring h (ps @ x # qs)"
    using assms by (cases s) (auto simp: deq_rep_def hd_append)
  obtain b zs c where z: "qs @ ps = b # zs @ [c]"
    using False assms(2)
    by (metis append_is_Nil_conv length_0_conv length_Cons length_append add.commute One_nat_def
        list.exhaust rev_exhaust append_Nil)
  have u: "ring (set_prev (nxt h x) (prv h x) (set_next (prv h x) (nxt h x) h)) (ps @ qs)"
    "nxt h x = b" "prv h x = c"
    using conjunct1 [OF ring_unlink [OF r False]] conjunct2 [OF ring_unlink [OF r False]]
    by (simp_all add: z)
  have d: "distinct (x # b # zs @ [c])" using ring_rotate [OF r] z by (simp add: ring_def)
  have "x = hd (ps @ [x]) \<longleftrightarrow> ps = []" using r by (cases ps) (auto simp: ring_def)
  then show ?thesis
    using u d z False
    by (cases ps) (auto simp: s deqrmitem_def deqissingular_def deq_rep_def Let_def)
qed

text \<open>
  Frame facts: an operation touches the links of the items of its own ring only, so any number of
  disjoint queues can share the heap.
\<close>

lemma path_cong:
  "(\<And>p. p \<in> set ys \<Longrightarrow> nxt h' p = nxt h p \<and> prv h' p = prv h p) \<Longrightarrow> path h' ys = path h ys"
  by (induction h ys rule: path.induct) auto

lemma deq_rep_cong:
  assumes "\<And>p. p \<in> set ys \<Longrightarrow> nxt h' p = nxt h p \<and> prv h' p = prv h p"
  shows "deq_rep (h', q) ys = deq_rep (h, q) ys"
proof (cases ys)
  case (Cons a zs)
  then have "path h' (ys @ [hd ys]) = path h (ys @ [hd ys])" by (intro path_cong assms) auto
  then show ?thesis by (simp add: deq_rep_def ring_def)
qed (simp add: deq_rep_def)

definition frame :: "ptr set \<Rightarrow> links \<Rightarrow> links \<Rightarrow> bool" where
  "frame A h h' \<longleftrightarrow> (\<forall>p. p \<notin> A \<longrightarrow> nxt h' p = nxt h p \<and> prv h' p = prv h p)"

lemma frame_rep: "frame A h h' \<Longrightarrow> A \<inter> set ys = {} \<Longrightarrow> deq_rep (h', q) ys = deq_rep (h, q) ys"
  by (rule deq_rep_cong) (auto simp: frame_def)

lemma deq_rep_ends:
  assumes "deq_rep (h, q) xs" "xs \<noteq> []"
  shows "q \<in> set xs" "prv h q \<in> set xs" "nxt h q \<in> set xs" "q \<noteq> 0" "prv h q \<noteq> 0"
    "nxt h (prv h q) = q" "prv h (prv h q) \<in> set xs"
proof -
  obtain a ys where xs: "xs = a # ys" using assms(2) by (cases xs) auto
  have r: "ring h (a # ys)" and q: "q = a" using assms(1) xs by (auto simp: deq_rep_def)
  have f: "prv h a = last (a # ys)" "nxt h (last (a # ys)) = a" using ring_prev_first [OF r] by auto
  have l: "last (a # ys) \<in> set (a # ys)" "0 \<notin> set (a # ys)" using r by (auto simp: ring_def)
  show "q \<in> set xs" "prv h q \<in> set xs" "q \<noteq> 0" "nxt h (prv h q) = q"
    using f l unfolding xs q by auto
  show "prv h q \<noteq> 0" using f(1) l unfolding q by metis
  show "nxt h q \<in> set xs"
    using r unfolding xs q by (cases ys) (auto simp: ring_def)
  have "ring h (last xs # butlast xs)"
    using ring_rotate [of h "butlast xs" "[last xs]"] r assms(2) unfolding xs [symmetric]
    by (simp del: butlast.simps last.simps)
  then have "prv h (last xs) = last (last xs # butlast xs)" by (rule conjunct1 [OF ring_prev_first])
  moreover have "last (last xs # butlast xs) \<in> set xs"
    using assms(2) in_set_butlastD [of _ xs] last_in_set [of "butlast xs"] by auto
  ultimately show "prv h (prv h q) \<in> set xs" using f(1) q xs by simp
qed

lemma deqappend_frame:
  assumes "deq_rep (h, q) xs"
  shows "frame (insert x (set xs)) h (fst (deqappend x (h, q)))"
proof (cases "xs = []")
  case True
  then show ?thesis using assms by (simp add: deq_rep_def deqappend_def deqinit_def frame_def)
next
  case False
  show ?thesis
    using deq_rep_ends [OF assms False] by (auto simp: deqappend_def frame_def Let_def)
qed

lemma deqpop_frame:
  assumes "deq_rep (h, q) xs"
  shows "frame (set xs) h (fst (snd (deqpop (h, q))))"
proof (cases "xs = []")
  case True
  then show ?thesis using assms by (simp add: deq_rep_def deqpop_def frame_def)
next
  case False
  show ?thesis
    using deq_rep_ends [OF assms False] by (auto simp: deqpop_def frame_def Let_def)
qed

lemma deqgetlast_frame:
  assumes "deq_rep (h, q) xs"
  shows "frame (set xs) h (fst (snd (deqgetlast (h, q))))"
proof (cases "xs = []")
  case True
  then show ?thesis using assms by (simp add: deq_rep_def deqgetlast_def frame_def)
next
  case False
  show ?thesis
    using deq_rep_ends [OF assms False] by (auto simp: deqgetlast_def frame_def Let_def)
qed

section \<open>The two-type representation\<close>

text \<open>
  A single item is not linked to itself: its links are whatever they were.  The header alone
  tells a queue of one from a longer one.
\<close>

definition deq2_rep :: "links \<times> deqhdr \<Rightarrow> ptr list \<Rightarrow> bool" where
  "deq2_rep s xs \<longleftrightarrow>
     (if xs = [] then hnext (snd s) = 0 \<and> hprev (snd s) = 0
      else hnext (snd s) = hd xs \<and> hprev (snd s) = last xs \<and> distinct xs \<and> 0 \<notin> set xs
        \<and> (2 \<le> length xs \<longrightarrow> ring (fst s) xs))"

lemma ring_pair:
  "a \<noteq> x \<Longrightarrow> a \<noteq> 0 \<Longrightarrow> x \<noteq> 0 \<Longrightarrow> nxt h a = x \<Longrightarrow> prv h a = x \<Longrightarrow> nxt h x = a \<Longrightarrow> prv h x = a
    \<Longrightarrow> ring h [a, x]"
  by (simp add: ring_def)

lemma deq2append_rep:
  assumes "deq2_rep s xs" "x \<notin> set xs" "x \<noteq> 0"
  shows "deq2_rep (deq2append x s) (xs @ [x])"
proof (cases xs)
  case Nil
  then show ?thesis using assms by (cases s) (simp add: deq2_rep_def deq2append_def Let_def)
next
  case (Cons a ys)
  obtain h d where s: "s = (h, d)" by (cases s)
  have d: "hnext d = a" "hprev d = last (a # ys)" "distinct (a # ys)" "0 \<notin> set (a # ys)"
    using assms(1) Cons s by (auto simp: deq2_rep_def)
  define c where "c = last (a # ys)"
  have c: "c \<noteq> 0" "c \<noteq> x" 
    using d assms Cons last_in_set [of "a # ys"] unfolding c_def by (metis list.distinct(1))+
  have ax: "a \<noteq> x" "a \<noteq> 0" using d assms Cons by auto
  let ?h = "set_prev a x (set_next x a (set_next c x (set_prev x c h)))"
  have e: "?h = set_prev a x (set_next x a (set_prev x c (set_next c x h)))"
    by (simp add: set_next_def set_prev_def)
  have "ring ?h (a # ys @ [x])"
  proof (cases ys)
    case Nil
    then show ?thesis using c ax assms(3) unfolding c_def by (simp add: ring_def)
  next
    case Cons': (Cons b zs)
    have "ring h (a # ys)" using assms(1) Cons Cons' s by (simp add: deq2_rep_def)
    then show ?thesis unfolding e by (rule ring_insert) (use assms Cons c_def in auto)
  qed
  then show ?thesis
    using d c ax assms(2,3) Cons unfolding s
    by (simp add: deq2_rep_def deq2append_def Let_def c_def)
qed

lemma deq2push_rep:
  assumes "deq2_rep s xs" "x \<notin> set xs" "x \<noteq> 0"
  shows "deq2_rep (deq2push x s) (x # xs)"
proof (cases xs)
  case Nil
  then show ?thesis using assms by (cases s) (simp add: deq2_rep_def deq2push_def Let_def)
next
  case (Cons a ys)
  obtain h d where s: "s = (h, d)" by (cases s)
  have d: "hnext d = a" "hprev d = last (a # ys)" "distinct (a # ys)" "0 \<notin> set (a # ys)"
    using assms(1) Cons s by (auto simp: deq2_rep_def)
  define c where "c = last (a # ys)"
  have c: "c \<noteq> 0" "c \<noteq> x"
    using d assms Cons last_in_set [of "a # ys"] unfolding c_def by (metis list.distinct(1))+
  have ax: "a \<noteq> x" "a \<noteq> 0" using d assms Cons by auto
  let ?h = "set_next x a (set_prev a x (set_next c x (set_prev x c h)))"
  have e: "?h = set_prev a x (set_next x a (set_prev x c (set_next c x h)))"
    by (simp add: set_next_def set_prev_def)
  have "ring ?h ((a # ys) @ [x])"
  proof (cases ys)
    case Nil
    then show ?thesis using c ax assms(3) unfolding c_def by (simp add: ring_def)
  next
    case Cons': (Cons b zs)
    have "ring h (a # ys)" using assms(1) Cons Cons' s by (simp add: deq2_rep_def)
    then have "ring ?h (a # ys @ [x])"
      unfolding e by (rule ring_insert) (use assms Cons c_def in auto)
    then show ?thesis by simp
  qed
  then have "ring ?h ([x] @ a # ys)" by (rule ring_rotate)
  then show ?thesis
    using d c ax assms(2,3) Cons unfolding s
    by (simp add: deq2_rep_def deq2push_def Let_def c_def)
qed

lemma deq2pop_rep:
  assumes "deq2_rep s (x # xs)"
  shows "fst (deq2pop s) = x \<and> deq2_rep (snd (deq2pop s)) xs"
proof (cases xs)
  case Nil
  then show ?thesis using assms by (cases s) (simp add: deq2_rep_def deq2pop_def Let_def)
next
  case (Cons b ys)
  obtain h d where s: "s = (h, d)" by (cases s)
  have d: "hnext d = x" "hprev d = last (b # ys)" "distinct (x # b # ys)" "0 \<notin> set (x # b # ys)"
    and r: "ring h (x # b # ys)"
    using assms Cons s by (auto simp: deq2_rep_def)
  define c where "c = last (b # ys)"
  have c: "c \<noteq> x" using d(3) unfolding c_def by auto
  have "nxt h x = b" using ring_next_first [OF r] .
  moreover have "ring (set_prev b c (set_next c b h)) (b # ys)"
    by (rule ring_unlink_first [OF r]) (simp_all add: c_def)
  ultimately show ?thesis
    using d c Cons unfolding s
    by (simp add: deq2_rep_def deq2pop_def Let_def c_def del: last.simps)
qed

text \<open>
  The remaining two operations forget the header: the items are unlinked, but the header still
  points to the item that was removed.
\<close>

lemma deq2getlast_stale:
  assumes "deq2_rep s (xs @ [x])" "xs \<noteq> []"
  shows "fst (deq2getlast s) = x \<and> hprev (snd (snd (deq2getlast s))) = x"
proof -
  obtain h d where s: "s = (h, d)" by (cases s)
  have "hprev d = x" "hnext d = hd xs" "x \<notin> set xs" "x \<noteq> 0"
    using assms s by (auto simp: deq2_rep_def)
  moreover have "hd xs \<in> set xs" using assms(2) by simp
  ultimately have "hprev d = x" "hnext d \<noteq> x" "x \<noteq> 0" by auto
  then show ?thesis by (simp add: s deq2getlast_def Let_def)
qed

section \<open>The queue contract\<close>

text \<open>
  What a first-in first-out user of the queue relies on.  \<open>sound\<close> bounds the lengths for which
  a removal is guaranteed: every length in the two-type configuration, all but two in the other.
\<close>

primrec popn :: "('s \<Rightarrow> ptr \<times> 's) \<Rightarrow> nat \<Rightarrow> 's \<Rightarrow> ptr list \<times> 's" where
  "popn f 0 s = ([], s)"
| "popn f (Suc n) s =
     (let (x, s1) = f s; (xs, s2) = popn f n s1 in (x # xs, s2))"

locale fifo =
  fixes rep :: "'s \<Rightarrow> ptr list \<Rightarrow> bool"
    and append_op :: "ptr \<Rightarrow> 's \<Rightarrow> 's"
    and pop_op :: "'s \<Rightarrow> ptr \<times> 's"
    and sound :: "nat \<Rightarrow> bool"
  assumes append_law:
      "rep s xs \<Longrightarrow> x \<notin> set xs \<Longrightarrow> x \<noteq> 0 \<Longrightarrow> rep (append_op x s) (xs @ [x])"
    and pop_empty_law: "rep s [] \<Longrightarrow> pop_op s = (0, s)"
    and pop_law: "rep s (x # xs) \<Longrightarrow> sound (Suc (length xs))
      \<Longrightarrow> fst (pop_op s) = x \<and> rep (snd (pop_op s)) xs"
begin

lemma append_all_rep:
  "rep s xs \<Longrightarrow> distinct (xs @ ys) \<Longrightarrow> 0 \<notin> set ys \<Longrightarrow> rep (fold append_op ys s) (xs @ ys)"
proof (induction ys arbitrary: s xs)
  case (Cons y ys)
  then show ?case using Cons.IH [of "append_op y s" "xs @ [y]"] append_law [of s xs y] by auto
qed simp

lemma popn_fifo:
  assumes "rep s (xs @ ys)" "\<And>k. length ys < k \<Longrightarrow> k \<le> length (xs @ ys) \<Longrightarrow> sound k"
  shows "fst (popn pop_op (length xs) s) = xs \<and> rep (snd (popn pop_op (length xs) s)) ys"
  using assms
proof (induction xs arbitrary: s)
  case (Cons x xs)
  have "fst (pop_op s) = x \<and> rep (snd (pop_op s)) (xs @ ys)"
    using pop_law [of s x "xs @ ys"] Cons.prems by auto
  then show ?case
    using Cons.IH [of "snd (pop_op s)"] Cons.prems(2) by (auto simp: case_prod_beta Let_def)
qed simp

end

locale deque = fifo rep append_op pop_op sound
  for rep :: "'s \<Rightarrow> ptr list \<Rightarrow> bool" and append_op and pop_op and sound +
  fixes push_op :: "ptr \<Rightarrow> 's \<Rightarrow> 's"
  assumes push_law: "rep s xs \<Longrightarrow> x \<notin> set xs \<Longrightarrow> x \<noteq> 0 \<Longrightarrow> rep (push_op x s) (x # xs)"
begin

lemma push_pop:
  assumes "rep s xs" "x \<notin> set xs" "x \<noteq> 0" "sound (Suc (length xs))"
  shows "fst (pop_op (push_op x s)) = x \<and> rep (snd (pop_op (push_op x s))) xs"
  using pop_law [OF push_law [OF assms(1-3)] assms(4)] .

end

interpretation sdeq: fifo deq_rep deqappend deqpop "\<lambda>n. n \<noteq> 2"
proof unfold_locales
  fix s assume "deq_rep s []"
  then show "deqpop s = (0, s)" by (cases s) (simp add: deq_rep_def deqpop_def)
next
  fix s x xs assume "deq_rep s (x # xs)" "Suc (length xs) \<noteq> 2"
  then show "fst (deqpop s) = x \<and> deq_rep (snd (deqpop s)) xs"
    using deqpop_rep [of s x xs] by auto
qed (rule deqappend_rep)

interpretation tdeq: deque deq2_rep deq2append deq2pop "\<lambda>n. True" deq2push
proof unfold_locales
  fix s assume "deq2_rep s []"
  then show "deq2pop s = (0, s)" by (cases s) (simp add: deq2_rep_def deq2pop_def)
qed (simp_all add: deq2append_rep deq2pop_rep deq2push_rep)

section \<open>Properties\<close>

text \<open>
  In the two-type configuration, appending any distinct items to a represented queue and
  popping as many items as it then holds returns them all in first-in first-out order and leaves
  the queue empty, and an item pushed at the front is the next one popped.
\<close>

theorem deq2_fifo_and_lifo:
  assumes "deq2_rep s xs" "distinct (xs @ ys)" "0 \<notin> set ys" "x \<notin> set xs" "x \<noteq> 0"
  shows "(let r = popn deq2pop (length (xs @ ys)) (fold deq2append ys s)
          in fst r = xs @ ys \<and> deq2_rep (snd r) []) \<and>
    (let r = deq2pop (deq2push x s) in fst r = x \<and> deq2_rep (snd r) xs)"
proof (rule conjI)
  show "let r = popn deq2pop (length (xs @ ys)) (fold deq2append ys s)
         in fst r = xs @ ys \<and> deq2_rep (snd r) []"
    using tdeq.popn_fifo [of _ "xs @ ys" "[]"] tdeq.append_all_rep [OF assms(1-3)]
    by (simp add: Let_def)
  show "let r = deq2pop (deq2push x s) in fst r = x \<and> deq2_rep (snd r) xs"
    using tdeq.push_pop [OF assms(1,4,5)] by (simp add: Let_def)
qed

definition deq2_empty :: "links \<times> deqhdr" where
  "deq2_empty = (\<lparr>nxt = \<lambda>_. 0, prv = \<lambda>_. 0\<rparr>, \<lparr>hnext = 0, hprev = 0\<rparr>)"

theorem deq2_fifo_and_lifo_witness:
  "(let r = popn deq2pop (length ([] @ [8, 4, 6 :: ptr])) (fold deq2append [8, 4, 6] deq2_empty)
    in fst r = [] @ [8, 4, 6] \<and> deq2_rep (snd r) []) \<and>
   (let r = deq2pop (deq2push 5 deq2_empty) in fst r = 5 \<and> deq2_rep (snd r) [])"
  by (rule deq2_fifo_and_lifo) (simp_all add: deq2_rep_def deq2_empty_def)

text \<open>
  C33: in the single-type configuration each operation on a represented ring refines the list
  operation, on rings of any length for insertion and on rings of any length but two for removal:
  \<open>deqappend\<close> adds the item at the end and so does \<open>deqpush\<close>, whose comment promises the beginning
  but whose code leaves the head where it is; \<open>deqpop\<close> takes the first item, \<open>deqgetlast\<close> the last,
  and \<open>deqrmitem\<close> the given one.
\<close>

theorem deq_refines_list:
  assumes "deq_rep s (ps @ x # qs)" "length (ps @ qs) \<noteq> 1" "y \<notin> set (ps @ x # qs)" "y \<noteq> 0"
  shows "deq_rep (deqappend y s) (ps @ x # qs @ [y]) \<and>
    deq_rep (deqpush y s) (ps @ x # qs @ [y]) \<and>
    fst (deqpop s) = hd (ps @ x # qs) \<and> deq_rep (snd (deqpop s)) (tl (ps @ x # qs)) \<and>
    fst (deqgetlast s) = last (x # qs) \<and>
    deq_rep (snd (deqgetlast s)) (butlast (ps @ x # qs)) \<and>
    deq_rep (deqrmitem x s) (ps @ qs)"
proof (intro conjI)
  have l: "hd (ps @ x # qs) # tl (ps @ x # qs) = ps @ x # qs" by simp
  have m: "butlast (ps @ x # qs) @ [last (x # qs)] = ps @ x # qs"
    by (metis append_butlast_last_id last_appendR list.distinct(1) append_is_Nil_conv)
  have n: "length (tl (ps @ x # qs)) \<noteq> 1" "length (butlast (ps @ x # qs)) \<noteq> 1"
    using assms(2) by simp_all
  show "deq_rep (deqappend y s) (ps @ x # qs @ [y])" "deq_rep (deqpush y s) (ps @ x # qs @ [y])"
    using deqappend_rep [OF assms(1,3,4)] by (simp_all add: deqpush_eq_append)
  show "fst (deqpop s) = hd (ps @ x # qs)" "deq_rep (snd (deqpop s)) (tl (ps @ x # qs))"
    using deqpop_rep [of s "hd (ps @ x # qs)" "tl (ps @ x # qs)"] assms(1) l n(1) by simp_all
  show "fst (deqgetlast s) = last (x # qs)"
    "deq_rep (snd (deqgetlast s)) (butlast (ps @ x # qs))"
    using deqgetlast_rep [of s "butlast (ps @ x # qs)" "last (x # qs)"] assms(1) m n(2) by simp_all
  show "deq_rep (deqrmitem x s) (ps @ qs)"
    by (rule deqrmitem_rep [OF assms(1,2)])
qed

text \<open>A ring of the items 1, 2, 3.\<close>

definition ring3 :: "links \<times> ptr" where
  "ring3 = (\<lparr>nxt = (\<lambda>_. 0)(1 := 2, 2 := 3, 3 := 1), prv = (\<lambda>_. 0)(1 := 3, 2 := 1, 3 := 2)\<rparr>, 1)"

lemma ring3_rep: "deq_rep ring3 [1, 2, 3]"
  by (simp add: ring3_def deq_rep_def ring_def)

theorem deq_refines_list_witness:
  "deq_rep (deqpush 7 ring3) [1, 2, 3, 7] \<and> fst (deqpop ring3) = 1 \<and>
   fst (deqgetlast ring3) = 3 \<and> deq_rep (deqrmitem 2 ring3) [1, 3]"
  using deq_refines_list [of ring3 "[1]" 2 "[3]" 7] ring3_rep by simp

text \<open>
  A ring of two items is taken for a singleton: popping the first item, or taking the last,
  returns the first item and empties the queue, so that the second item is lost; the next pop
  returns \<open>NULL\<close>.
\<close>

theorem deq_two_items_lose_one:
  assumes "deq_rep s [a, b]"
  shows "fst (popn deqpop 2 s) = [a, 0] \<and> fst (deqgetlast s) = a \<and>
    deq_rep (snd (deqpop s)) [] \<and> deq_rep (snd (deqgetlast s)) []"
proof -
  have p: "fst (deqpop s) = a" "deq_rep (snd (deqpop s)) []" using deqpop_rep [OF assms] by auto
  moreover have "fst (deqpop (snd (deqpop s))) = 0" using sdeq.pop_empty_law [OF p(2)] by simp
  ultimately show ?thesis
    using deqgetlast_rep [of s "[a]" b] assms
    by (simp add: numeral_2_eq_2 case_prod_beta Let_def)
qed

theorem deq_two_items_witness: "fst (popn deqpop 3 ring3) = [1, 2, 0]"
proof -
  have "deq_rep (snd (deqpop ring3)) [2, 3]" using deqpop_rep [OF ring3_rep] by simp
  from deq_two_items_lose_one [OF this] deqpop_rep [OF ring3_rep] show ?thesis
    by (simp add: numeral_3_eq_3 numeral_2_eq_2 case_prod_beta Let_def)
qed

end
