(* ===== verification/Pages.thy ===== *)
theory Pages
  imports Deq Trixbits
begin

text \<open>
  The physical page allocator, \<^verbatim>\<open>kern/mem/page.c\<close> with the macros of
  \<^verbatim>\<open>kern/mem/page.h\<close>, at the ia32 parameters (4-kilobyte pages, 32-bit pointers).
  The entry of \<open>vmphystab\<close> with index \<open>i\<close> is the pointer \<open>Suc i\<close>, so that no entry is
  \<open>NULL\<close>.  The page headers share one heap of queue links; a fast mutex is a flag, and
  acquiring a held one does not return.  TLB flushes and console output are left out.
\<close>

section \<open>State\<close>

record vmstate =
  lnk :: links
  pnref :: "ptr \<Rightarrow> u32"
  padr :: "ptr \<Rightarrow> u32"
  pnflt :: "ptr \<Rightarrow> u32"
  vmphysqueue :: ptr
  vmshmqueue :: ptr
  vmlrutab :: "nat \<Rightarrow> ptr"
  vmphyslk :: bool
  lrulk :: "nat \<Rightarrow> bool"
  pagelk :: "ptr \<Rightarrow> bool"
  vmnphys :: u32
  vmphys :: u32
  vmphysend :: u32
  pagetab :: "nat \<Rightarrow> u32"

definition PAGESIZELOG2 :: nat where "PAGESIZELOG2 = 12"
definition PAGESIZE :: u32 where "PAGESIZE = 4096"
definition PTRBITS :: nat where "PTRBITS = 32"

definition pageptr :: "nat \<Rightarrow> ptr" where
  "pageptr i = Suc i"

definition pagenum :: "u32 \<Rightarrow> nat" where
  "pagenum adr = unat (drop_bit PAGESIZELOG2 adr)"

definition pagecalcqid :: "ptr \<Rightarrow> vmstate \<Rightarrow> nat" where
  "pagecalcqid pg s =
     (let a = PTRBITS - 1; b = lzero32 (pnflt s pg) in if b \<le> a then a else b)"

section \<open>Locks and queue operations on the state\<close>

definition lk_phys :: "vmstate \<Rightarrow> vmstate option" where
  "lk_phys s = (if vmphyslk s then None else Some (s\<lparr>vmphyslk := True\<rparr>))"

definition unlk_phys :: "vmstate \<Rightarrow> vmstate" where
  "unlk_phys s = s\<lparr>vmphyslk := False\<rparr>"

definition lk_lru :: "nat \<Rightarrow> vmstate \<Rightarrow> vmstate option" where
  "lk_lru q s = (if lrulk s q then None else Some (s\<lparr>lrulk := (lrulk s)(q := True)\<rparr>))"

definition unlk_lru :: "nat \<Rightarrow> vmstate \<Rightarrow> vmstate" where
  "unlk_lru q s = s\<lparr>lrulk := (lrulk s)(q := False)\<rparr>"

definition lk_page :: "ptr \<Rightarrow> vmstate \<Rightarrow> vmstate option" where
  "lk_page p s = (if pagelk s p then None else Some (s\<lparr>pagelk := (pagelk s)(p := True)\<rparr>))"

definition unlk_page :: "ptr \<Rightarrow> vmstate \<Rightarrow> vmstate" where
  "unlk_page p s = s\<lparr>pagelk := (pagelk s)(p := False)\<rparr>"

definition phys_push :: "ptr \<Rightarrow> vmstate \<Rightarrow> vmstate" where
  "phys_push p s =
     (let (h, q) = deqpush p (lnk s, vmphysqueue s) in s\<lparr>lnk := h, vmphysqueue := q\<rparr>)"

definition phys_pop :: "vmstate \<Rightarrow> ptr \<times> vmstate" where
  "phys_pop s =
     (let (p, h, q) = deqpop (lnk s, vmphysqueue s) in (p, s\<lparr>lnk := h, vmphysqueue := q\<rparr>))"

definition lru_push :: "nat \<Rightarrow> ptr \<Rightarrow> vmstate \<Rightarrow> vmstate" where
  "lru_push k p s =
     (let (h, q) = deqpush p (lnk s, vmlrutab s k)
      in s\<lparr>lnk := h, vmlrutab := (vmlrutab s)(k := q)\<rparr>)"

definition lru_getlast :: "nat \<Rightarrow> vmstate \<Rightarrow> ptr \<times> vmstate" where
  "lru_getlast k s =
     (let (p, h, q) = deqgetlast (lnk s, vmlrutab s k)
      in (p, s\<lparr>lnk := h, vmlrutab := (vmlrutab s)(k := q)\<rparr>))"

section \<open>Operations\<close>

primrec zone_loop :: "nat \<Rightarrow> nat \<Rightarrow> u32 \<Rightarrow> vmstate \<Rightarrow> ptr \<Rightarrow> vmstate \<times> ptr" where
  "zone_loop 0 page adr s zone = (s, zone)"
| "zone_loop (Suc n) page adr s zone =
     (let page = page - 1;
          p = pageptr page;
          s = s\<lparr>padr := (padr s)(p := adr), pnflt := (pnflt s)(p := 0)\<rparr>;
          (h, zone) = deqpush p (lnk s, zone)
      in zone_loop n page (adr - PAGESIZE) (s\<lparr>lnk := h\<rparr>) zone)"

definition pageinitphyszone :: "u32 \<Rightarrow> ptr \<Rightarrow> u32 \<Rightarrow> vmstate \<Rightarrow> u32 \<times> vmstate \<times> ptr" where
  "pageinitphyszone base zone nbphys s =
     (let page = pagenum base;
          adr = rounduppow2 base PAGESIZE;
          n = drop_bit PAGESIZELOG2 (rounddownpow2 (nbphys - adr) PAGESIZE);
          size = n * PAGESIZE;
          fin = base - 1;
          adr = adr + push_bit PAGESIZELOG2 n;
          page = page + unat n;
          fin = fin + size;
          s = s\<lparr>vmnphys := n, vmphys := base, vmphysend := fin\<rparr>;
          (s, zone) = zone_loop (unat n) page adr s zone
      in (size, s, zone))"

primrec zone_add_loop ::
  "nat \<Rightarrow> nat \<Rightarrow> nat \<Rightarrow> u32 \<Rightarrow> vmstate \<Rightarrow> ptr \<Rightarrow> vmstate \<times> ptr" where
  "zone_add_loop 0 pte page adr s zone = (s, zone)"
| "zone_add_loop (Suc n) pte page adr s zone =
     (if pagetab s pte = 0
      then let page = page - 1;
               p = pageptr page;
               s = s\<lparr>padr := (padr s)(p := adr), pnflt := (pnflt s)(p := 0)\<rparr>;
               (h, zone) = deqpush p (lnk s, zone)
           in zone_add_loop n (pte + 1) page (adr - PAGESIZE) (s\<lparr>lnk := h\<rparr>) zone
      else zone_add_loop n (pte + 1) page adr s zone)"

definition pageaddphyszone :: "u32 \<Rightarrow> ptr \<Rightarrow> u32 \<Rightarrow> vmstate \<Rightarrow> u32 \<times> vmstate \<times> ptr" where
  "pageaddphyszone base zone nbphys s =
     (let adr = rounduppow2 base PAGESIZE;
          page = pagenum adr;
          pte = pagenum adr;
          n = drop_bit PAGESIZELOG2 (rounduppow2 (nbphys - adr) PAGESIZE);
          size = n * PAGESIZE;
          adr = adr + push_bit PAGESIZELOG2 n;
          page = page + unat n;
          s = s\<lparr>vmnphys := n\<rparr>;
          (s, zone) = zone_add_loop (unat n) pte page adr s zone
      in (size, s, zone))"

definition pageinitphys :: "u32 \<Rightarrow> u32 \<Rightarrow> vmstate \<Rightarrow> (u32 \<times> vmstate) option" where
  "pageinitphys base nbphys s =
     (case lk_phys s of
        None \<Rightarrow> None
      | Some s \<Rightarrow>
          let (size, s, zone) = pageinitphyszone base (vmphysqueue s) nbphys s;
              s = s\<lparr>vmphysqueue := zone\<rparr>
          in Some (size, unlk_phys s))"

definition pagevalloc :: "vmstate \<Rightarrow> u32 \<times> vmstate" where
  "pagevalloc s =
     (let (p, h, q) = deqpop (lnk s, vmshmqueue s);
          s = s\<lparr>lnk := h, vmshmqueue := q\<rparr>
      in if p \<noteq> 0 then (padr s p, s) else (0, s))"

text \<open>
  One pass over the least-recently-used queues: it can block on a lock, find nothing, or take a
  page from a queue, count the fault and requeue the page.
\<close>

datatype scan = Blocked | Nothing vmstate | Evicted ptr vmstate

primrec lru_scan :: "nat list \<Rightarrow> vmstate \<Rightarrow> scan" where
  "lru_scan [] s = Nothing s"
| "lru_scan (q # qs) s =
     (case lk_lru q s of
        None \<Rightarrow> Blocked
      | Some s \<Rightarrow>
          let (page, s) = lru_getlast q s
          in if page \<noteq> 0
             then let s = s\<lparr>pnflt := (pnflt s)(page := pnflt s page + 1)\<rparr>;
                      qid = pagecalcqid page s
                  in (case if qid \<noteq> q then lk_lru q s else Some s of
                        None \<Rightarrow> Blocked
                      | Some s \<Rightarrow>
                          let s = lru_push qid page s
                          in Evicted page (if qid \<noteq> q then unlk_lru qid s else s))
             else lru_scan qs (unlk_lru q s))"

partial_function (option) evict_loop :: "vmstate \<Rightarrow> (ptr \<times> vmstate) option" where
  "evict_loop s =
     (case lru_scan [0..<32] s of
        Blocked \<Rightarrow> None
      | Nothing s \<Rightarrow> evict_loop s
      | Evicted page s \<Rightarrow> Some (page, s))"

definition pageallocphys :: "vmstate \<Rightarrow> (ptr \<times> vmstate) option" where
  "pageallocphys s =
     (case lk_phys s of
        None \<Rightarrow> None
      | Some s \<Rightarrow>
          let (page, s) = phys_pop s;
              s = unlk_phys s
          in if page = 0 then evict_loop s else Some (page, s))"

definition pagefreephys :: "u32 \<Rightarrow> vmstate \<Rightarrow> vmstate option" where
  "pagefreephys adr s =
     (case lk_phys s of
        None \<Rightarrow> None
      | Some s \<Rightarrow>
          let page = pageptr (pagenum adr)
          in (case lk_page page s of
                None \<Rightarrow> None
              | Some s \<Rightarrow>
                  let s = s\<lparr>pnref := (pnref s)(page := pnref s page - 1)\<rparr>;
                      s = (if pnref s page = 0 then phys_push page s else s)
                  in Some (unlk_phys (unlk_page page s))))"

section \<open>Invariant\<close>

text \<open>
  The free queue and the least-recently-used queues represent pairwise disjoint lists of page
  headers.
\<close>

definition vm_rep :: "vmstate \<Rightarrow> ptr list \<Rightarrow> (nat \<Rightarrow> ptr list) \<Rightarrow> bool" where
  "vm_rep s free lru \<longleftrightarrow>
     deq_rep (lnk s, vmphysqueue s) free \<and>
     (\<forall>q. deq_rep (lnk s, vmlrutab s q) (lru q)) \<and>
     (\<forall>q. set free \<inter> set (lru q) = {}) \<and>
     (\<forall>q r. q \<noteq> r \<longrightarrow> set (lru q) \<inter> set (lru r) = {})"

lemma vm_repI:
  assumes "deq_rep (lnk s, vmphysqueue s) free" "\<And>q. deq_rep (lnk s, vmlrutab s q) (lru q)"
    and "\<And>q. set free \<inter> set (lru q) = {}"
    and "\<And>q r. q \<noteq> r \<Longrightarrow> set (lru q) \<inter> set (lru r) = {}"
  shows "vm_rep s free lru"
  using assms by (simp add: vm_rep_def)

lemma vm_rep_upd [simp]:
  "vm_rep (s\<lparr>pnref := a\<rparr>) free lru = vm_rep s free lru"
  "vm_rep (s\<lparr>pnflt := b\<rparr>) free lru = vm_rep s free lru"
  "vm_rep (s\<lparr>padr := b\<rparr>) free lru = vm_rep s free lru"
  "vm_rep (s\<lparr>vmphyslk := c\<rparr>) free lru = vm_rep s free lru"
  "vm_rep (s\<lparr>lrulk := d\<rparr>) free lru = vm_rep s free lru"
  "vm_rep (s\<lparr>pagelk := e\<rparr>) free lru = vm_rep s free lru"
  "vm_rep (unlk_phys s) free lru = vm_rep s free lru"
  "vm_rep (unlk_lru q s) free lru = vm_rep s free lru"
  "vm_rep (unlk_page p s) free lru = vm_rep s free lru"
  by (simp_all add: vm_rep_def unlk_phys_def unlk_lru_def unlk_page_def)

lemma phys_push_rep:
  assumes "vm_rep s free lru" "p \<notin> set free" "\<And>q. p \<notin> set (lru q)" "p \<noteq> 0"
  shows "vm_rep (phys_push p s) (free @ [p]) lru"
proof -
  have f: "deq_rep (lnk s, vmphysqueue s) free" and l: "\<And>q. deq_rep (lnk s, vmlrutab s q) (lru q)"
    and d: "\<And>q. set free \<inter> set (lru q) = {}"
    using assms(1) by (auto simp: vm_rep_def)
  obtain h q where hq: "deqappend p (lnk s, vmphysqueue s) = (h, q)" by fastforce
  have "frame (insert p (set free)) (lnk s) h" using deqappend_frame [OF f, of p] hq by simp
  then have "deq_rep (h, vmlrutab s q) (lru q)" for q
    using frame_rep [of _ "lnk s" h "lru q"] l d assms(3) by auto
  moreover have "deq_rep (h, q) (free @ [p])" using deqappend_rep [OF f assms(2,4)] hq by simp
  ultimately show ?thesis
    using assms(1,3) by (auto simp: vm_rep_def phys_push_def deqpush_eq_append hq)
qed

lemma lru_push_rep:
  assumes "vm_rep s free lru" "p \<notin> set free" "\<And>q. p \<notin> set (lru q)" "p \<noteq> 0"
  shows "vm_rep (lru_push k p s) free (lru(k := lru k @ [p]))"
proof -
  have f: "deq_rep (lnk s, vmphysqueue s) free" and l: "\<And>q. deq_rep (lnk s, vmlrutab s q) (lru q)"
    and d: "\<And>q. set free \<inter> set (lru q) = {}" "\<And>q r. q \<noteq> r \<Longrightarrow> set (lru q) \<inter> set (lru r) = {}"
    using assms(1) by (auto simp: vm_rep_def)
  obtain h q where hq: "deqappend p (lnk s, vmlrutab s k) = (h, q)" by fastforce
  have fr: "frame (insert p (set (lru k))) (lnk s) h" using deqappend_frame [OF l, of p k] hq by simp
  have "deq_rep (h, vmlrutab s r) (lru r)" if "r \<noteq> k" for r
    using frame_rep [OF fr, of "lru r"] l [of r] d(2) [of r k] that assms(3) by auto
  moreover have "deq_rep (h, q) (lru k @ [p])" using deqappend_rep [OF l [of k] assms(3) [of k] assms(4)] hq by simp
  moreover have "deq_rep (h, vmphysqueue s) free"
    using frame_rep [OF fr, of free] f d(1) [of k] assms(2) by auto
  ultimately show ?thesis
    using d assms(2,3) by (auto simp: vm_rep_def lru_push_def deqpush_eq_append hq)
qed

lemma phys_pop_rep:
  assumes "vm_rep s (p # free) lru"
  shows "fst (phys_pop s) = p \<and>
    vm_rep (snd (phys_pop s)) (if length free = 1 then [] else free) lru"
proof -
  let ?f = "if length free = 1 then [] else free"
  have f: "deq_rep (lnk s, vmphysqueue s) (p # free)"
    and l: "\<And>q. deq_rep (lnk s, vmlrutab s q) (lru q)"
    and d: "\<And>q. set (p # free) \<inter> set (lru q) = {}"
    using assms(1) by (auto simp: vm_rep_def)
  obtain x h q where hq: "deqpop (lnk s, vmphysqueue s) = (x, h, q)" by (metis prod_cases3)
  have "frame (set (p # free)) (lnk s) h" using deqpop_frame [OF f] hq by simp
  then have "deq_rep (h, vmlrutab s q) (lru q)" for q
    using frame_rep [of _ "lnk s" h "lru q"] l d by blast
  moreover have "x = p" "deq_rep (h, q) ?f" using deqpop_rep [OF f] hq by auto
  ultimately show ?thesis
    using assms(1) by (auto simp: vm_rep_def phys_pop_def hq)
qed

lemma phys_pop_empty: "vm_rep s [] lru \<Longrightarrow> phys_pop s = (0, s)"
  using sdeq.pop_empty_law [of "(lnk s, vmphysqueue s)"] by (simp add: vm_rep_def phys_pop_def)

lemma lru_getlast_empty: "vm_rep s free lru \<Longrightarrow> lru q = [] \<Longrightarrow> lru_getlast q s = (0, s)"
proof -
  assume "vm_rep s free lru" "lru q = []"
  then have "deq_rep (lnk s, vmlrutab s q) []" unfolding vm_rep_def by metis
  then have "vmlrutab s q = 0" by (simp add: deq_rep_def)
  then show ?thesis by (simp add: lru_getlast_def deqgetlast_def fun_upd_idem)
qed

lemma scan_nothing:
  assumes "vm_rep s free (\<lambda>_. [])" "\<And>q. \<not> lrulk s q"
  shows "lru_scan qs s = Nothing s"
  using assms
proof (induction qs)
  case (Cons q qs)
  let ?s = "s\<lparr>lrulk := (lrulk s)(q := True)\<rparr>"
  have "lru_getlast q ?s = (0, ?s)" using Cons.prems by (intro lru_getlast_empty) simp_all
  moreover have "unlk_lru q ?s = s" using Cons.prems(2) by (simp add: unlk_lru_def fun_upd_idem)
  ultimately show ?case using Cons by (simp add: lk_lru_def)
qed simp

lemma evict_loop_diverges:
  assumes "vm_rep s free (\<lambda>_. [])" "\<And>q. \<not> lrulk s q"
  shows "evict_loop s = None"
proof -
  let ?P = "\<lambda>s r. \<not> (vm_rep s free (\<lambda>_. []) \<and> (\<forall>q. \<not> lrulk s q))"
  have "?P s r" if "evict_loop s = Some r" for s r
  proof (rule evict_loop.raw_induct [of ?P, OF _ that])
    fix ev s r
    assume ih: "\<And>x y. ev x = Some y \<Longrightarrow> ?P x y"
      and ev: "(case lru_scan [0..<32] s of Blocked \<Rightarrow> None | Nothing s \<Rightarrow> ev s
        | Evicted page s \<Rightarrow> Some (page, s)) = Some r"
    show "?P s r"
    proof
      assume s: "vm_rep s free (\<lambda>_. []) \<and> (\<forall>q. \<not> lrulk s q)"
      then have "lru_scan [0..<32] s = Nothing s" by (intro scan_nothing) auto
      then show False using ev ih [of s r] s by simp
    qed
  qed
  then show ?thesis using assms by (cases "evict_loop s") auto
qed

section \<open>Lemmas on the operations\<close>

lemma zone_loop_rep:
  assumes "deq_rep (lnk s, zone) xs" "\<forall>i<n. pageptr (b + i) \<notin> set xs"
    and "zone_loop n (b + n) adr s zone = (s', zone')"
  shows "deq_rep (lnk s', zone') (xs @ map pageptr (rev [b..<b + n])) \<and>
    (\<forall>i<n. padr s' (pageptr (b + i)) = adr - of_nat (n - 1 - i) * PAGESIZE) \<and>
    (\<forall>i\<ge>b + n. padr s' (pageptr i) = padr s (pageptr i)) \<and>
    vmphyslk s' = vmphyslk s \<and> vmnphys s' = vmnphys s"
  using assms
proof (induction n arbitrary: adr s zone xs)
  case (Suc n)
  let ?p = "pageptr (b + n)"
  let ?s = "s\<lparr>padr := (padr s)(?p := adr), pnflt := (pnflt s)(?p := 0)\<rparr>"
  obtain h z where hz: "deqappend ?p (lnk s, zone) = (h, z)" by fastforce
  have rep: "deq_rep (lnk (?s\<lparr>lnk := h\<rparr>), z) (xs @ [?p])"
    using deqappend_rep [OF Suc.prems(1), of ?p] Suc.prems(2) hz by (simp add: pageptr_def)
  have fresh: "\<forall>i<n. pageptr (b + i) \<notin> set (xs @ [?p])"
    using Suc.prems(2) by (simp add: pageptr_def)
  have step: "zone_loop n (b + n) (adr - PAGESIZE) (?s\<lparr>lnk := h\<rparr>) z = (s', zone')"
    using Suc.prems(3) hz by (simp add: Let_def deqpush_eq_append)
  note IH = Suc.IH [OF rep fresh step]
  have "padr s' (pageptr (b + i)) = adr - of_nat (Suc n - 1 - i) * PAGESIZE" if "i < Suc n" for i
  proof (cases "i = n")
    case True
    then show ?thesis using IH by simp
  next
    case False
    then have i: "i < n" using that by simp
    then have "n - i = Suc (n - 1 - i)" by simp
    then have "of_nat (n - i) * PAGESIZE = PAGESIZE + of_nat (n - 1 - i) * PAGESIZE"
      by (simp only: of_nat_Suc distrib_right mult_1)
    then show ?thesis using IH i by simp
  qed
  then show ?case using IH by (simp add: pageptr_def)
qed (auto simp: pageptr_def)

lemma pagecalcqid_last: "pnflt s pg \<noteq> 0 \<Longrightarrow> pagecalcqid pg s = 31"
  using lzero32_clz [of "pnflt s pg"] by (simp add: pagecalcqid_def PTRBITS_def is_clz_def Let_def)

lemma lru_getlast_page:
  assumes "vm_rep s free lru" "lru q \<noteq> []"
  shows "fst (lru_getlast q s) \<in> set (lru q) \<and> fst (lru_getlast q s) \<noteq> 0 \<and>
    lrulk (snd (lru_getlast q s)) = lrulk s \<and> pnflt (snd (lru_getlast q s)) = pnflt s"
proof -
  obtain xs x where q: "lru q = xs @ [x]" using assms(2) by (metis append_butlast_last_id)
  have r: "deq_rep (lnk s, vmlrutab s q) (xs @ [x])" using assms(1) q unfolding vm_rep_def by metis
  have "0 \<notin> set (xs @ [x])" using r by (auto simp: deq_rep_def ring_def)
  moreover have "fst (deqgetlast (lnk s, vmlrutab s q)) \<in> set (xs @ [x])"
    using deqgetlast_rep [OF r] by (cases xs) (auto split: if_splits)
  ultimately show ?thesis
    unfolding lru_getlast_def q by (simp add: case_prod_beta) (metis gr0I)
qed

text \<open>Empty queues are passed over.\<close>

lemma scan_skip:
  assumes "vm_rep s free lru" "\<And>q. q < k \<Longrightarrow> lru q = [] \<and> \<not> lrulk s q" "j \<le> k" "k \<le> 32"
  shows "lru_scan [j..<32] s = lru_scan [k..<32] s"
  using assms(3)
proof (induction "k - j" arbitrary: j)
  case (Suc m)
  let ?s = "s\<lparr>lrulk := (lrulk s)(j := True)\<rparr>"
  have "lru_getlast j ?s = (0, ?s)" using Suc assms(1,2) by (intro lru_getlast_empty [of _ free lru]) auto
  moreover have "\<not> lrulk s j" using Suc assms(2) [of j] by auto
  moreover from this have "unlk_lru j ?s = s" by (simp add: unlk_lru_def fun_upd_idem)
  moreover have "[j..<32] = j # [Suc j..<32]" using Suc assms(4) by (simp add: upt_conv_Cons)
  moreover have "lru_scan [Suc j..<32] s = lru_scan [k..<32] s" using Suc by (intro Suc.hyps(1)) linarith+
  ultimately show ?case by (simp add: lk_lru_def)
qed simp

lemma scan_blocks:
  assumes "vm_rep s free lru" "\<And>q. \<not> lrulk s q" "k < 31" "lru k \<noteq> []" "\<And>q. q < k \<Longrightarrow> lru q = []"
    and "\<And>p. p \<in> set (lru k) \<Longrightarrow> pnflt s p + 1 \<noteq> 0"
  shows "lru_scan [0..<32] s = Blocked"
proof -
  let ?s = "s\<lparr>lrulk := (lrulk s)(k := True)\<rparr>"
  have g: "fst (lru_getlast k ?s) \<in> set (lru k)" "fst (lru_getlast k ?s) \<noteq> 0"
    "lrulk (snd (lru_getlast k ?s)) k" "pnflt (snd (lru_getlast k ?s)) = pnflt s"
    using lru_getlast_page [of ?s free lru k] assms(1,4) by auto
  then have n: "pnflt s (fst (lru_getlast k ?s)) + 1 \<noteq> 0" using assms(6) by blast
  have l: "[k..<32] = k # [Suc k..<32]" using assms(3) by (simp add: upt_conv_Cons)
  have "lru_scan [k..<32] s = Blocked"
    using g n assms(2,3) unfolding l by (simp add: lk_lru_def Let_def case_prod_beta pagecalcqid_last)
  then show ?thesis using scan_skip [of s free lru k 0] assms(1,2,3,5) by simp
qed

text \<open>The page that a scan takes from a queue and what is left there; of two pages one is lost.\<close>

definition evicted :: "ptr list \<Rightarrow> ptr" where "evicted xs = (if length xs = 2 then hd xs else last xs)"

definition remaining :: "ptr list \<Rightarrow> ptr list" where "remaining xs = (if length xs = 2 then [] else butlast xs)"

lemma lru_getlast_rep:
  assumes "vm_rep s free lru" "lru k \<noteq> []"
  shows "fst (lru_getlast k s) = evicted (lru k) \<and> vm_rep (snd (lru_getlast k s)) free (lru(k := remaining (lru k)))"
proof -
  have f: "deq_rep (lnk s, vmphysqueue s) free" and l: "\<And>q. deq_rep (lnk s, vmlrutab s q) (lru q)"
    and d: "\<And>q. set free \<inter> set (lru q) = {}" "\<And>q r. q \<noteq> r \<Longrightarrow> set (lru q) \<inter> set (lru r) = {}"
    using assms(1) by (auto simp: vm_rep_def)
  obtain x h q where hq: "deqgetlast (lnk s, vmlrutab s k) = (x, h, q)" by (metis prod_cases3)
  obtain xs y where xs: "lru k = xs @ [y]" using assms(2) by (metis append_butlast_last_id)
  have r: "deq_rep (lnk s, vmlrutab s k) (xs @ [y])" using l [of k] xs by simp
  have x: "x = evicted (lru k)" "deq_rep (h, q) (remaining (lru k))"
    using deqgetlast_rep [OF r] hq xs by (cases xs; auto simp: evicted_def remaining_def split: if_splits)+
  have fr: "frame (set (lru k)) (lnk s) h" using deqgetlast_frame [OF l [of k]] hq by simp
  have "deq_rep (h, vmlrutab s r) (lru r)" if "r \<noteq> k" for r
    using frame_rep [OF fr, of "lru r"] l [of r] d(2) [of k r] that by auto
  moreover have "deq_rep (h, vmphysqueue s) free" using frame_rep [OF fr, of free] f d(1) [of k] by auto
  moreover have "set (remaining (lru k)) \<subseteq> set (lru k)" by (auto simp: remaining_def dest: in_set_butlastD)
  moreover from this have "set (remaining (lru k)) \<inter> set (lru r) = {}" if "r \<noteq> k" for r using d(2) [of k r] that by auto
  moreover have "set free \<inter> set (remaining (lru k)) = {}" using calculation(3) d(1) [of k] by auto
  ultimately show ?thesis using x d by (fastforce simp: vm_rep_def lru_getlast_def hq)
qed

lemma lru_getlast_fields:
  "lrulk (snd (lru_getlast k s)) = lrulk s" "pnflt (snd (lru_getlast k s)) = pnflt s" "vmphyslk (snd (lru_getlast k s)) = vmphyslk s"
  by (simp_all add: lru_getlast_def case_prod_beta)

lemma evicted_set: "xs \<noteq> [] \<Longrightarrow> evicted xs \<in> set xs"
  by (auto simp: evicted_def)

lemma evicted_not_remaining: "xs \<noteq> [] \<Longrightarrow> distinct xs \<Longrightarrow> evicted xs \<notin> set (remaining xs)"
  by (cases xs rule: rev_cases) (auto simp: evicted_def remaining_def)

text \<open>From the last queue the page goes back to the same queue, whose lock stays held.\<close>

lemma scan_evicts_last:
  assumes "vm_rep s free lru" "\<And>q. \<not> lrulk s q" "\<And>q. q < 31 \<Longrightarrow> lru q = []" "lru 31 \<noteq> []"
    and "pnflt s (evicted (lru 31)) + 1 \<noteq> 0"
  shows "\<exists>s'. lru_scan [0..<32] s = Evicted (evicted (lru 31)) s' \<and>
    vm_rep s' free (lru(31 := remaining (lru 31) @ [evicted (lru 31)])) \<and>
    lrulk s' = (lrulk s)(31 := True) \<and> vmphyslk s' = vmphyslk s"
proof -
  define p where "p = evicted (lru 31)"
  let ?s = "s\<lparr>lrulk := (lrulk s)(31 := True)\<rparr>"
  obtain s1 where g: "lru_getlast 31 ?s = (p, s1)" "vm_rep s1 free (lru(31 := remaining (lru 31)))"
      "lrulk s1 = (lrulk s)(31 := True)" "pnflt s1 = pnflt s" "vmphyslk s1 = vmphyslk s"
    using lru_getlast_rep [of ?s free lru 31] lru_getlast_fields [of 31 ?s] assms(1,4)
    by (cases "lru_getlast 31 ?s") (auto simp: p_def)
  define s2 where "s2 = s1\<lparr>pnflt := (pnflt s1)(p := pnflt s1 p + 1)\<rparr>"
  have q: "pagecalcqid p s2 = 31" using pagecalcqid_last [of s2 p] assms(5) g(4) by (simp add: s2_def p_def)
  have in31: "p \<in> set (lru 31)" using evicted_set [OF assms(4)] by (simp add: p_def)
  have dj: "deq_rep (lnk s, vmlrutab s 31) (lru 31)" "set free \<inter> set (lru 31) = {}"
      "\<And>r. r \<noteq> 31 \<Longrightarrow> set (lru 31) \<inter> set (lru r) = {}"
    using assms(1) unfolding vm_rep_def by (blast, blast, metis)
  from dj(1) assms(4) have ring: "distinct (lru 31)" "0 \<notin> set (lru 31)" by (simp_all add: deq_rep_def ring_def)
  with dj have d: "p \<noteq> 0" "p \<notin> set free" "p \<notin> set (remaining (lru 31))" "\<And>r. r \<noteq> 31 \<Longrightarrow> p \<notin> set (lru r)"
    using in31 evicted_not_remaining [OF assms(4) ring(1)] by (auto simp: p_def)
  have "vm_rep (lru_push 31 p s2) free (lru(31 := remaining (lru 31) @ [p]))"
    using lru_push_rep [of s2 free "lru(31 := remaining (lru 31))" p 31] g(2) d by (auto simp: s2_def)
  moreover have "lru_scan [31..<32] s = Evicted p (lru_push 31 p s2)"
    using g(1) q d(1) assms(2) by (simp add: lk_lru_def Let_def s2_def)
  moreover have "lru_scan [0..<32] s = lru_scan [31..<32] s"
    using scan_skip [of s free lru 31 0] assms(1,2,3) by simp
  moreover have "lrulk (lru_push 31 p s2) = (lrulk s)(31 := True)" "vmphyslk (lru_push 31 p s2) = vmphyslk s"
    using g by (simp_all add: lru_push_def s2_def case_prod_beta)
  ultimately show ?thesis by (auto simp: p_def)
qed

text \<open>Allocation and release, with everything they leave as it is.\<close>

lemma pageallocphys_rep:
  assumes "vm_rep s (p # free) lru" "\<not> vmphyslk s"
  shows "\<exists>h q. pageallocphys s = Some (p, s\<lparr>lnk := h, vmphysqueue := q\<rparr>) \<and>
    vm_rep (s\<lparr>lnk := h, vmphysqueue := q\<rparr>) (if length free = 1 then [] else free) lru"
proof -
  let ?s = "s\<lparr>vmphyslk := True\<rparr>"
  have "p \<noteq> 0" using assms(1) by (auto simp: vm_rep_def deq_rep_def ring_def)
  moreover have "fst (phys_pop ?s) = p" "vm_rep (snd (phys_pop ?s)) (if length free = 1 then [] else free) lru"
    using phys_pop_rep [of ?s p free lru] assms(1) by simp_all
  moreover obtain h q where pop: "snd (phys_pop ?s) = ?s\<lparr>lnk := h, vmphysqueue := q\<rparr>"
    by (simp add: phys_pop_def case_prod_beta)
  have "unlk_phys (?s\<lparr>lnk := h, vmphysqueue := q\<rparr>) = s\<lparr>lnk := h, vmphysqueue := q\<rparr>"
    using assms(2) by (simp add: unlk_phys_def)
  ultimately have "pageallocphys s = Some (p, s\<lparr>lnk := h, vmphysqueue := q\<rparr>)"
    using assms(2) pop by (simp add: pageallocphys_def lk_phys_def Let_def case_prod_beta)
  moreover have "vm_rep (s\<lparr>lnk := h, vmphysqueue := q\<rparr>) (if length free = 1 then [] else free) lru"
    using phys_pop_rep [of ?s p free lru] assms(1) pop by (simp add: vm_rep_def)
  ultimately show ?thesis by blast
qed

lemma pagefreephys_rep:
  assumes "vm_rep s free lru" "\<not> vmphyslk s" "page = pageptr (pagenum adr)"
    and "\<not> pagelk s page" "page \<notin> set free" "\<forall>q. page \<notin> set (lru q)"
  shows "\<exists>h q. pagefreephys adr s =
      Some (s\<lparr>lnk := h, vmphysqueue := q, pnref := (pnref s)(page := pnref s page - 1)\<rparr>) \<and>
    vm_rep (s\<lparr>lnk := h, vmphysqueue := q, pnref := (pnref s)(page := pnref s page - 1)\<rparr>)
      (free @ (if pnref s page = 1 then [page] else [])) lru"
proof -
  let ?t = "s\<lparr>vmphyslk := True, pagelk := (pagelk s)(page := True),
    pnref := (pnref s)(page := pnref s page - 1)\<rparr>"
  have pn: "page \<noteq> 0" by (simp add: assms(3) pageptr_def)
  have rep: "vm_rep (phys_push page ?t) (free @ [page]) lru"
    using phys_push_rep [of ?t free lru page] assms pn by auto
  obtain h q where p: "phys_push page ?t = ?t\<lparr>lnk := h, vmphysqueue := q\<rparr>"
    by (simp add: phys_push_def case_prod_beta)
  have u: "(pagelk s)(page := False) = pagelk s" using assms(4) by (simp add: fun_upd_idem)
  let ?r = "s\<lparr>lnk := h, vmphysqueue := q, pnref := (pnref s)(page := pnref s page - 1)\<rparr>"
  show ?thesis
  proof (cases "pnref s page = 1")
    case True
    then have "pagefreephys adr s = Some (unlk_phys (unlk_page page (phys_push page ?t)))"
      using assms(2,4) by (simp add: pagefreephys_def lk_phys_def lk_page_def assms(3) [symmetric] Let_def)
    moreover have "unlk_phys (unlk_page page (phys_push page ?t)) = ?r"
      using assms(2) unfolding p by (simp add: unlk_phys_def unlk_page_def u)
    moreover have "vm_rep ?r (free @ [page]) lru" using rep unfolding p by (simp add: vm_rep_def)
    ultimately have "pagefreephys adr s = Some ?r \<and> vm_rep ?r (free @ [page]) lru" by simp
    then show ?thesis using True by auto
  next
    case False
    then have "pagefreephys adr s = Some (s\<lparr>pnref := (pnref s)(page := pnref s page - 1)\<rparr>)"
      using assms(2,4) by (simp add: pagefreephys_def lk_phys_def lk_page_def assms(3) [symmetric] Let_def
          unlk_phys_def unlk_page_def u)
    then show ?thesis using False assms(1) by (intro exI [of _ "lnk s"] exI [of _ "vmphysqueue s"]) simp
  qed
qed

section \<open>Properties\<close>

text \<open>
  Initialising the free queue with a zone puts exactly the page headers of the zone on it, each
  once and the highest first, and unlocks.  The addresses written are one page too high: the
  header of page \<open>i\<close> of the zone holds the address of page \<open>i + 1\<close>.
\<close>

theorem pageinitphys_zone:
  assumes "deq_rep (lnk s, vmphysqueue s) []" "\<not> vmphyslk s"
    and "n = drop_bit 12 (rounddownpow2 (nbphys - rounduppow2 base PAGESIZE) PAGESIZE)"
  shows "\<exists>s'. pageinitphys base nbphys s = Some (n * PAGESIZE, s') \<and>
    deq_rep (lnk s', vmphysqueue s')
      (map pageptr (rev [pagenum base..<pagenum base + unat n])) \<and>
    (\<forall>i<unat n. padr s' (pageptr (pagenum base + i))
       = rounduppow2 base PAGESIZE + of_nat (Suc i) * PAGESIZE) \<and>
    vmnphys s' = n \<and> \<not> vmphyslk s'"
proof -
  define adr where "adr = rounduppow2 base PAGESIZE + push_bit 12 n"
  define s1 where
    "s1 = s\<lparr>vmphyslk := True, vmnphys := n, vmphys := base, vmphysend := base - 1 + n * PAGESIZE\<rparr>"
  obtain s2 z where z: "zone_loop (unat n) (pagenum base + unat n) adr s1 (vmphysqueue s) = (s2, z)"
    by fastforce
  have r: "deq_rep (lnk s1, vmphysqueue s) []" using assms(1) by (simp add: s1_def)
  note post = zone_loop_rep [OF r _ z, simplified]
  have "adr - of_nat (unat n - 1 - i) * PAGESIZE
      = rounduppow2 base PAGESIZE + of_nat (Suc i) * PAGESIZE" if "i < unat n" for i
  proof -
    have "of_nat (unat n - 1 - i) + of_nat (Suc i) = (of_nat (unat n - 1 - i + Suc i) :: u32)"
      by (simp only: of_nat_add)
    also have "\<dots> = n" using that by simp
    finally have "push_bit 12 n = (of_nat (unat n - 1 - i) + of_nat (Suc i)) * PAGESIZE"
      by (simp add: push_bit_eq_mult PAGESIZE_def)
    then show ?thesis by (simp add: adr_def distrib_right)
  qed
  then have "\<forall>i<unat n. padr s2 (pageptr (pagenum base + i))
      = rounduppow2 base PAGESIZE + of_nat (Suc i) * PAGESIZE"
    using post by simp
  then show ?thesis
    using assms(2) post z
    by (simp add: pageinitphys_def pageinitphyszone_def lk_phys_def unlk_phys_def Let_def
        PAGESIZELOG2_def assms(3) [symmetric] adr_def s1_def)
qed

text \<open>A state with no queued page and no held lock, for the witnesses.\<close>

definition vm0 :: vmstate where
  "vm0 = \<lparr>lnk = \<lparr>nxt = \<lambda>_. 0, prv = \<lambda>_. 0\<rparr>, pnref = \<lambda>_. 1, padr = \<lambda>_. 0, pnflt = \<lambda>_. 0,
     vmphysqueue = 0, vmshmqueue = 0, vmlrutab = \<lambda>_. 0, vmphyslk = False, lrulk = \<lambda>_. False,
     pagelk = \<lambda>_. False, vmnphys = 0, vmphys = 0, vmphysend = 0, pagetab = \<lambda>_. 0\<rparr>"

lemma vm0_rep: "vm_rep vm0 [] (\<lambda>_. [])"
  by (simp add: vm_rep_def vm0_def deq_rep_def)

theorem pageinitphys_zone_witness:
  "\<exists>s'. pageinitphys 0x1000 0x4000 vm0 = Some (3 * PAGESIZE, s') \<and>
    deq_rep (lnk s', vmphysqueue s')
      (map pageptr (rev [pagenum 0x1000..<pagenum 0x1000 + unat (3 :: u32)])) \<and>
    (\<forall>i<unat (3 :: u32). padr s' (pageptr (pagenum 0x1000 + i))
       = rounduppow2 0x1000 PAGESIZE + of_nat (Suc i) * PAGESIZE) \<and>
    vmnphys s' = 3 \<and> \<not> vmphyslk s'"
  by (rule pageinitphys_zone)
     (simp_all add: vm0_def deq_rep_def rounddownpow2_def rounduppow2_def PAGESIZE_def)

text \<open>
  C34: page allocation and release keep the queues well formed and disjoint.  Allocation takes the
  first free page, the free queue keeping the rest unless it held two pages; releasing a page drops
  a reference and queues the page as the last free one exactly when that was the last reference.
\<close>

theorem page_alloc_free_invariant:
  assumes "vm_rep s (p # free) lru" "\<not> vmphyslk s" "page = pageptr (pagenum adr)"
    and "\<not> pagelk s page" "page \<notin> set (p # free)" "\<forall>q. page \<notin> set (lru q)"
  shows "(\<exists>s'. pageallocphys s = Some (p, s') \<and>
      vm_rep s' (if length free = 1 then [] else free) lru \<and> \<not> vmphyslk s') \<and>
    (\<exists>s'. pagefreephys adr s = Some s' \<and> pnref s' page = pnref s page - 1 \<and>
      vm_rep s' (p # free @ (if pnref s page = 1 then [page] else [])) lru \<and> \<not> vmphyslk s')"
  using pageallocphys_rep [OF assms(1,2)] pagefreephys_rep [OF assms] assms(2) by fastforce

definition vm3 :: vmstate where
  "vm3 = vm0\<lparr>lnk := fst ring3, vmphysqueue := snd ring3\<rparr>"

lemma vm3_rep: "vm_rep vm3 [1, 2, 3] (\<lambda>_. [])"
  using ring3_rep by (simp add: vm_rep_def vm3_def vm0_def deq_rep_def)

theorem page_alloc_free_witness:
  "(\<exists>s'. pageallocphys vm3 = Some (1, s') \<and>
      vm_rep s' (if length [2, 3 :: ptr] = 1 then [] else [2, 3]) (\<lambda>_. []) \<and> \<not> vmphyslk s') \<and>
    (\<exists>s'. pagefreephys 0x5000 vm3 = Some s' \<and> pnref s' 6 = pnref vm3 6 - 1 \<and>
      vm_rep s' (1 # [2, 3] @ (if pnref vm3 6 = 1 then [6] else [])) (\<lambda>_. []) \<and> \<not> vmphyslk s')"
  by (rule page_alloc_free_invariant [OF vm3_rep])
     (simp_all add: vm3_def vm0_def pageptr_def pagenum_def PAGESIZELOG2_def)

text \<open>
  A page released with its last reference while no page is free is the page the next
  allocation returns.
\<close>

theorem page_free_alloc_roundtrip:
  assumes "vm_rep s [] lru" "\<not> vmphyslk s" "page = pageptr (pagenum adr)" "\<not> pagelk s page"
    and "\<forall>q. page \<notin> set (lru q)" "pnref s page = 1"
  shows "\<exists>s1 s2. pagefreephys adr s = Some s1 \<and> pageallocphys s1 = Some (page, s2) \<and>
    vm_rep s2 [] lru \<and> pnref s2 page = 0"
proof -
  let ?t = "s\<lparr>vmphyslk := True, pagelk := (pagelk s)(page := True),
    pnref := (pnref s)(page := pnref s page - 1)\<rparr>"
  have pn: "page \<noteq> 0" by (simp add: assms(3) pageptr_def)
  define s1 where "s1 = unlk_phys (unlk_page page (phys_push page ?t))"
  have s1: "pagefreephys adr s = Some s1"
    using assms(2,4,6)
    by (simp add: pagefreephys_def lk_phys_def lk_page_def assms(3) [symmetric] Let_def s1_def)
  have "vm_rep s1 [page] lru"
    using phys_push_rep [of ?t "[]" lru page] assms pn unfolding s1_def by simp
  then have pop: "fst (phys_pop (s1\<lparr>vmphyslk := True\<rparr>)) = page"
    "vm_rep (snd (phys_pop (s1\<lparr>vmphyslk := True\<rparr>))) [] lru"
    using phys_pop_rep [of "s1\<lparr>vmphyslk := True\<rparr>" page "[]" lru] by auto
  have l: "\<not> vmphyslk s1" by (simp add: s1_def unlk_phys_def)
  have r: "pnref (snd (phys_pop (s1\<lparr>vmphyslk := True\<rparr>))) page = 0"
    using assms(6)
    by (simp add: phys_pop_def s1_def unlk_phys_def unlk_page_def phys_push_def case_prod_beta)
  show ?thesis
    using s1 pop l r pn
    by (simp add: pageallocphys_def lk_phys_def Let_def case_prod_beta)
       (simp add: unlk_phys_def)
qed

theorem page_free_alloc_witness:
  "\<exists>s1 s2. pagefreephys 0x5000 vm0 = Some s1 \<and> pageallocphys s1 = Some (6, s2) \<and>
    vm_rep s2 [] (\<lambda>_. []) \<and> pnref s2 6 = 0"
  by (rule page_free_alloc_roundtrip [OF vm0_rep])
     (simp_all add: vm0_def pageptr_def pagenum_def PAGESIZELOG2_def)


definition vm_lru :: "nat \<Rightarrow> vmstate" where
  "vm_lru k = vm0\<lparr>lnk := \<lparr>nxt = \<lambda>_. 4, prv = \<lambda>_. 4\<rparr>, vmlrutab := (\<lambda>_. 0)(k := 4)\<rparr>"


end
