(* ===== verification/Cmem.thy ===== *)
theory Cmem
  imports Prelude
begin

text \<open>
  The block operations of the C library, \<^verbatim>\<open>memcpy\<close>, \<^verbatim>\<open>memmove\<close> and
  \<^verbatim>\<open>memset\<close> of \<^verbatim>\<open>usr/lib/c/string.c\<close>.  A memory maps addresses to bytes and
  addresses do not wrap; a long access reads or writes four bytes at once, least significant
  first (ia32).  The loops counted down by \<open>n--\<close> are recursions on the count.
\<close>

type_synonym mem = "nat \<Rightarrow> u8"

definition LONGSIZE :: nat where "LONGSIZE = 4"
definition LONGSIZELOG2 :: nat where "LONGSIZELOG2 = 2"

definition load_long :: "nat \<Rightarrow> mem \<Rightarrow> u32" where
  "load_long p m = ucast (m p) OR push_bit 8 (ucast (m (p + 1)))
     OR push_bit 16 (ucast (m (p + 2))) OR push_bit 24 (ucast (m (p + 3)))"

definition store_long :: "nat \<Rightarrow> u32 \<Rightarrow> mem \<Rightarrow> mem" where
  "store_long p v m =
     m(p := ucast v, p + 1 := ucast (drop_bit 8 v), p + 2 := ucast (drop_bit 16 v),
       p + 3 := ucast (drop_bit 24 v))"

definition copy_long :: "nat \<Rightarrow> nat \<Rightarrow> mem \<Rightarrow> mem" where
  "copy_long d s m = store_long d (load_long s m) m"

text \<open>The unrolled bodies: eight longs copied or stored in ascending order.\<close>

definition copy_8longs :: "nat \<Rightarrow> nat \<Rightarrow> mem \<Rightarrow> mem" where
  "copy_8longs d s m = fold (\<lambda>i. copy_long (d + 4 * i) (s + 4 * i)) [0, 1, 2, 3, 4, 5, 6, 7] m"

definition store_8longs :: "nat \<Rightarrow> u32 \<Rightarrow> mem \<Rightarrow> mem" where
  "store_8longs p v m = fold (\<lambda>i. store_long (p + 4 * i) v) [0, 1, 2, 3, 4, 5, 6, 7] m"

primrec copy_bytes :: "nat \<Rightarrow> nat \<Rightarrow> nat \<Rightarrow> mem \<Rightarrow> mem" where
  "copy_bytes 0 d s m = m"
| "copy_bytes (Suc n) d s m = copy_bytes n (d + 1) (s + 1) (m(d := m s))"

primrec copy_groups :: "nat \<Rightarrow> nat \<Rightarrow> nat \<Rightarrow> mem \<Rightarrow> mem" where
  "copy_groups 0 d s m = m"
| "copy_groups (Suc n) d s m = copy_groups n (d + 32) (s + 32) (copy_8longs d s m)"

primrec copy_bytes_bk :: "nat \<Rightarrow> nat \<Rightarrow> nat \<Rightarrow> mem \<Rightarrow> mem" where
  "copy_bytes_bk 0 d s m = m"
| "copy_bytes_bk (Suc n) d s m = copy_bytes_bk n (d - 1) (s - 1) (m(d - 1 := m (s - 1)))"

primrec copy_groups_bk :: "nat \<Rightarrow> nat \<Rightarrow> nat \<Rightarrow> mem \<Rightarrow> mem" where
  "copy_groups_bk 0 d s m = m"
| "copy_groups_bk (Suc n) d s m =
     copy_groups_bk n (d - 32) (s - 32) (copy_8longs (d - 32) (s - 32) m)"

primrec fill_bytes :: "nat \<Rightarrow> nat \<Rightarrow> u8 \<Rightarrow> mem \<Rightarrow> mem" where
  "fill_bytes 0 p c m = m"
| "fill_bytes (Suc n) p c m = fill_bytes n (p + 1) c (m(p := c))"

primrec fill_groups :: "nat \<Rightarrow> nat \<Rightarrow> u32 \<Rightarrow> mem \<Rightarrow> mem" where
  "fill_groups 0 p v m = m"
| "fill_groups (Suc n) p v m = fill_groups n (p + 32) v (store_8longs p v m)"

section \<open>Operations\<close>

text \<open>The number of bytes before the next long boundary.\<close>

definition head_cnt :: "nat \<Rightarrow> nat" where
  "head_cnt p = (let cnt = p mod LONGSIZE in if cnt \<noteq> 0 then LONGSIZE - cnt else 0)"

definition memcpy :: "nat \<Rightarrow> nat \<Rightarrow> nat \<Rightarrow> mem \<Rightarrow> mem" where
  "memcpy dest src n m =
     (if n = 0 then m
      else if n > LONGSIZE * 8 \<and> src mod LONGSIZE = dest mod LONGSIZE
      then let cnt = head_cnt src;
               nleft = n - cnt;
               m = copy_bytes cnt dest src m;
               d = dest + cnt; s = src + cnt;
               val = LONGSIZELOG2 + 3;
               cnt = nleft div 2 ^ val;
               nleft = nleft - cnt * 2 ^ val;
               m = copy_groups cnt d s m
           in copy_bytes nleft (d + cnt * 32) (s + cnt * 32) m
      else copy_bytes n dest src m)"

definition memcpybk :: "nat \<Rightarrow> nat \<Rightarrow> nat \<Rightarrow> mem \<Rightarrow> mem" where
  "memcpybk dest src n m =
     (if n = 0 then m
      else let s = src + n; d = dest + n
      in if \<bar>int s - int d\<bar> \<ge> int (LONGSIZE * 8) \<and> n \<ge> LONGSIZE * 8
            \<and> s mod LONGSIZE = d mod LONGSIZE
         then let cnt = s mod LONGSIZE;
                  nleft = n - cnt;
                  m = copy_bytes_bk cnt d s m;
                  d = d - cnt; s = s - cnt;
                  val = LONGSIZELOG2 + 3;
                  cnt = nleft div 2 ^ val;
                  nleft = nleft - cnt * 2 ^ val;
                  m = copy_groups_bk cnt d s m
              in copy_bytes_bk nleft (d - cnt * 32) (s - cnt * 32) m
         else copy_bytes_bk n d s m)"

definition memmove :: "nat \<Rightarrow> nat \<Rightarrow> nat \<Rightarrow> mem \<Rightarrow> mem" where
  "memmove dest src n m =
     (if n = 0 then m
      else if dest < src \<or> src + n < dest then memcpy dest src n m
      else memcpybk dest src n m)"

definition spread :: "u8 \<Rightarrow> u32" where
  "spread u8 =
     (let ul = ucast u8;
          ul = ul OR push_bit 8 ul;
          ul = ul OR push_bit 16 ul
      in ul)"

definition memset :: "nat \<Rightarrow> u32 \<Rightarrow> nat \<Rightarrow> mem \<Rightarrow> mem" where
  "memset ptr ch n m =
     (if n = 0 then m
      else let u8 = ucast ch
      in if n > LONGSIZE * 8
         then let cnt = head_cnt ptr;
                  nleft = n - cnt;
                  m = fill_bytes cnt ptr u8 m;
                  p = ptr + cnt;
                  ul = spread u8;
                  val = LONGSIZELOG2 + 3;
                  cnt = nleft div 2 ^ val;
                  nleft = nleft - cnt * 2 ^ val;
                  m = fill_groups cnt p ul m
              in fill_bytes nleft (p + cnt * 32) u8 m
         else fill_bytes n ptr u8 m)"

section \<open>What the operations have to do\<close>

definition copied :: "mem \<Rightarrow> nat \<Rightarrow> nat \<Rightarrow> nat \<Rightarrow> mem" where
  "copied m d s n = (\<lambda>a. if d \<le> a \<and> a < d + n then m (s + (a - d)) else m a)"

definition filled :: "mem \<Rightarrow> nat \<Rightarrow> u8 \<Rightarrow> nat \<Rightarrow> mem" where
  "filled m p c n = (\<lambda>a. if p \<le> a \<and> a < p + n then c else m a)"

lemma copied_0 [simp]: "copied m d s 0 = m"
  by (rule ext) (auto simp: copied_def)

lemma filled_0 [simp]: "filled m p c 0 = m"
  by (rule ext) (auto simp: filled_def)

lemma filled_join: "q = p + k \<Longrightarrow> filled (filled m p c k) q c n = filled m p c (k + n)"
  by (rule ext) (auto simp: filled_def)

text \<open>Copying in two parts, the lower one first or last.\<close>

lemma copied_join:
  assumes "d \<le> s \<or> s + k + n \<le> d" "d' = d + k" "s' = s + k"
  shows "copied (copied m d s k) d' s' n = copied m d s (k + n)"
proof
  fix a show "copied (copied m d s k) d' s' n a = copied m d s (k + n) a"
    using assms by (auto simp: copied_def)
qed

lemma copied_join_bk:
  assumes "s \<le> d \<or> d + k + n \<le> s" "d' = d + k" "s' = s + k"
  shows "copied (copied m d' s' n) d s k = copied m d s (k + n)"
proof
  fix a show "copied (copied m d' s' n) d s k a = copied m d s (k + n) a"
    using assms by (auto simp: copied_def)
qed

lemma byte_of_word:
  "ucast (drop_bit n (x :: u32)) = (y :: u8) \<longleftrightarrow> (\<forall>i<8. bit x (n + i) = bit y i)"
  by (auto simp: bit_eq_iff bit_simps)

lemma no_bit_u8: "8 \<le> n \<Longrightarrow> \<not> bit (c :: u8) n"
  using bit_imp_le_length [of c n] by auto

lemma load_long_bytes:
  "ucast (load_long s m) = m s" "ucast (drop_bit 8 (load_long s m)) = m (s + 1)"
  "ucast (drop_bit 16 (load_long s m)) = m (s + 2)" "ucast (drop_bit 24 (load_long s m)) = m (s + 3)"
proof -
  have "bit (load_long s m) (0 + i) = bit (m s) i" if "i < 8" for i
    using that by (simp add: load_long_def bit_simps)
  then show "ucast (load_long s m) = m s"
    using byte_of_word [of 0 "load_long s m" "m s"] by simp
  have "bit (load_long s m) (8 + i) = bit (m (s + 1)) i" if "i < 8" for i
    using that by (simp add: load_long_def bit_simps no_bit_u8)
  then show "ucast (drop_bit 8 (load_long s m)) = m (s + 1)" by (simp only: byte_of_word) simp
  have "bit (load_long s m) (16 + i) = bit (m (s + 2)) i" if "i < 8" for i
    using that by (simp add: load_long_def bit_simps no_bit_u8)
  then show "ucast (drop_bit 16 (load_long s m)) = m (s + 2)" by (simp only: byte_of_word) simp
  have "bit (load_long s m) (24 + i) = bit (m (s + 3)) i" if "i < 8" for i
    using that by (simp add: load_long_def bit_simps no_bit_u8)
  then show "ucast (drop_bit 24 (load_long s m)) = m (s + 3)" by (simp only: byte_of_word) simp
qed

lemma four_bytes:
  fixes a d :: nat
  assumes "a < d \<Longrightarrow> P" "a = d \<Longrightarrow> P" "a = d + 1 \<Longrightarrow> P" "a = d + 2 \<Longrightarrow> P" "a = d + 3 \<Longrightarrow> P"
    "d + 4 \<le> a \<Longrightarrow> P"
  shows P
proof -
  consider "a < d" | "a = d" | "a = d + 1" | "a = d + 2" | "a = d + 3" | "d + 4 \<le> a" by linarith
  then show P by cases (use assms in auto)
qed

lemma copy_long_copied: "copy_long d s m = copied m d s 4"
proof
  fix a show "copy_long d s m a = copied m d s 4 a"
    unfolding copy_long_def store_long_def load_long_bytes
    by (rule four_bytes [of a d]) (auto simp: copied_def)
qed

lemma spread_bytes:
  "ucast (spread c) = c" "ucast (drop_bit 8 (spread c)) = c"
  "ucast (drop_bit 16 (spread c)) = c" "ucast (drop_bit 24 (spread c)) = c"
proof -
  have "bit (spread c) (0 + i) = bit c i" if "i < 8" for i
    using that by (simp add: spread_def Let_def bit_simps)
  then show "ucast (spread c) = c"
    using byte_of_word [of 0 "spread c" c] by simp
  have "bit (spread c) (8 + i) = bit c i" if "i < 8" for i
    using that by (simp add: spread_def Let_def bit_simps no_bit_u8)
  then show "ucast (drop_bit 8 (spread c)) = c" by (simp only: byte_of_word) simp
  have "bit (spread c) (16 + i) = bit c i" if "i < 8" for i
    using that by (simp add: spread_def Let_def bit_simps no_bit_u8)
  then show "ucast (drop_bit 16 (spread c)) = c" by (simp only: byte_of_word) simp
  have "bit (spread c) (24 + i) = bit c i" if "i < 8" for i
    using that by (simp add: spread_def Let_def bit_simps no_bit_u8)
  then show "ucast (drop_bit 24 (spread c)) = c" by (simp only: byte_of_word) simp
qed

lemma store_spread: "store_long p (spread c) m = filled m p c 4"
proof
  fix a show "store_long p (spread c) m a = filled m p c 4 a"
    unfolding store_long_def spread_bytes
    by (rule four_bytes [of a p]) (auto simp: filled_def)
qed

lemma copy_8longs_copied:
  assumes "d \<le> s \<or> s + 32 \<le> d"
  shows "copy_8longs d s m = copied m d s 32"
proof -
  have j: "copied (copied m d s k) (d + k) (s + k) 4 = copied m d s (k + 4)" if "k + 4 \<le> 32" for k m
    using assms that by (intro copied_join) auto
  show ?thesis
    unfolding copy_8longs_def copy_long_copied
    using j [of 4] j [of 8] j [of 12] j [of 16] j [of 20] j [of 24] j [of 28] by simp
qed

lemma store_8longs_filled: "store_8longs p (spread c) m = filled m p c 32"
  unfolding store_8longs_def store_spread by (simp add: filled_join)

lemma copy_bytes_copied:
  "d \<le> s \<or> s + n \<le> d \<Longrightarrow> copy_bytes n d s m = copied m d s n"
proof (induction n arbitrary: d s m)
  case (Suc n)
  have "m(d := m s) = copied m d s 1" by (rule ext) (auto simp: copied_def)
  moreover have "copied (copied m d s 1) (d + 1) (s + 1) n = copied m d s (1 + n)"
    using Suc.prems by (intro copied_join) auto
  ultimately show ?case using Suc by auto
qed simp

lemma copy_groups_copied:
  "d \<le> s \<or> s + n * 32 \<le> d \<Longrightarrow> copy_groups n d s m = copied m d s (n * 32)"
proof (induction n arbitrary: d s m)
  case (Suc n)
  have "copied (copied m d s 32) (d + 32) (s + 32) (n * 32) = copied m d s (32 + n * 32)"
    using Suc.prems by (intro copied_join) auto
  moreover have "copy_8longs d s m = copied m d s 32"
    using Suc.prems by (intro copy_8longs_copied) auto
  ultimately show ?case using Suc by auto
qed simp

lemma copy_bytes_bk_copied:
  "s \<le> d \<or> d + n \<le> s \<Longrightarrow> copy_bytes_bk n (d + n) (s + n) m = copied m d s n"
proof (induction n arbitrary: m)
  case (Suc n)
  have "m(d + n := m (s + n)) = copied m (d + n) (s + n) 1" by (rule ext) (auto simp: copied_def)
  moreover have "copied (copied m (d + n) (s + n) 1) d s n = copied m d s (n + 1)"
    using Suc.prems by (intro copied_join_bk) auto
  ultimately show ?case using Suc by auto
qed simp

lemma copy_groups_bk_copied:
  "s + 32 \<le> d \<or> d + n * 32 \<le> s \<Longrightarrow>
    copy_groups_bk n (d + n * 32) (s + n * 32) m = copied m d s (n * 32)"
proof (induction n arbitrary: m)
  case (Suc n)
  have "copied (copied m (d + n * 32) (s + n * 32) 32) d s (n * 32) = copied m d s (n * 32 + 32)"
    using Suc.prems by (intro copied_join_bk) auto
  moreover have "copy_8longs (d + n * 32) (s + n * 32) m = copied m (d + n * 32) (s + n * 32) 32"
    using Suc.prems by (intro copy_8longs_copied) auto
  ultimately show ?case using Suc by (auto simp: add.commute)
qed simp

lemma fill_bytes_filled: "fill_bytes n p c m = filled m p c n"
proof (induction n arbitrary: p m)
  case (Suc n)
  have "m(p := c) = filled m p c 1" by (rule ext) (auto simp: filled_def)
  then show ?case using Suc by (simp add: filled_join)
qed simp

lemma fill_groups_filled: "fill_groups n p (spread c) m = filled m p c (n * 32)"
  by (induction n arbitrary: p m) (simp_all add: store_8longs_filled filled_join)

lemmas long_simps = LONGSIZE_def LONGSIZELOG2_def

lemma head_cnt_less: "head_cnt p < 4"
  by (simp add: head_cnt_def Let_def long_simps)

lemma memcpy_copied:
  assumes "d \<le> s \<or> s + n \<le> d"
  shows "memcpy d s n m = copied m d s n"
proof (cases "n > 32 \<and> s mod 4 = d mod 4")
  case True
  define c where "c = head_cnt s"
  define k where "k = (n - c) div 32"
  have c: "c < 4" by (simp add: c_def head_cnt_less)
  have kn: "k * 32 \<le> n - c" by (simp add: k_def)
  then have tot: "c + k * 32 + (n - c - k * 32) = n" using c True by linarith
  have a: "copy_bytes c d s m = copied m d s c" using assms c True by (intro copy_bytes_copied) auto
  have b: "copy_groups k (d + c) (s + c) (copied m d s c) = copied m d s (c + k * 32)"
    using assms c True kn
    by (subst copy_groups_copied) (auto intro!: copied_join)
  have e: "copy_bytes (n - c - k * 32) (d + c + k * 32) (s + c + k * 32)
      (copied m d s (c + k * 32)) = copied m d s n"
  proof (subst copy_bytes_copied)
    show "d + c + k * 32 \<le> s + c + k * 32 \<or> s + c + k * 32 + (n - c - k * 32) \<le> d + c + k * 32"
      using assms kn by auto
    have "copied (copied m d s (c + k * 32)) (d + c + k * 32) (s + c + k * 32) (n - c - k * 32)
        = copied m d s (c + k * 32 + (n - c - k * 32))"
      using assms kn True c by (intro copied_join) auto
    then show "copied (copied m d s (c + k * 32)) (d + c + k * 32) (s + c + k * 32) (n - c - k * 32)
        = copied m d s n" by (simp only: tot)
  qed
  show ?thesis
    using True a b e
    by (simp add: memcpy_def Let_def long_simps c_def [symmetric] k_def [symmetric])
next
  case False
  then show ?thesis using assms
    by (auto simp: memcpy_def long_simps copy_bytes_copied)
qed

lemma memcpybk_copied:
  assumes "s \<le> d"
  shows "memcpybk d s n m = copied m d s n"
proof (cases "\<bar>int (s + n) - int (d + n)\<bar> \<ge> 32 \<and> n \<ge> 32 \<and> (s + n) mod 4 = (d + n) mod 4")
  case True
  define c where "c = (s + n) mod 4"
  define k where "k = (n - c) div 32"
  define r where "r = n - c - k * 32"
  have c: "c < 4" by (auto simp: c_def)
  have "k * 32 \<le> n - c" by (simp add: k_def)
  then have kn: "n = r + k * 32 + c" using True c unfolding r_def by linarith
  have far: "s + 32 \<le> d" using True assms by linarith
  have a: "copy_bytes_bk c (d + n) (s + n) m = copied m (d + r + k * 32) (s + r + k * 32) c"
    using copy_bytes_bk_copied [of "s + r + k * 32" "d + r + k * 32" c m] assms
    by (simp add: kn add.assoc)
  have b: "copy_groups_bk k (d + r + k * 32) (s + r + k * 32)
      (copied m (d + r + k * 32) (s + r + k * 32) c) = copied m (d + r) (s + r) (k * 32 + c)"
    using far by (subst copy_groups_bk_copied) (auto intro!: copied_join_bk)
  have e: "copy_bytes_bk r (d + r) (s + r) (copied m (d + r) (s + r) (k * 32 + c)) = copied m d s n"
    using assms kn copied_join_bk [of s d r "k * 32 + c"]
    by (subst copy_bytes_bk_copied) (auto simp: add.assoc)
  have w: "d + n - c = d + r + k * 32" "s + n - c = s + r + k * 32"
    "d + n - c - k * 32 = d + r" "s + n - c - k * 32 = s + r"
    using kn by simp_all
  have "memcpybk d s n m = copy_bytes_bk r (d + n - c - k * 32) (s + n - c - k * 32)
      (copy_groups_bk k (d + n - c) (s + n - c) (copy_bytes_bk c (d + n) (s + n) m))"
    unfolding memcpybk_def Let_def long_simps r_def k_def c_def using True by simp
  then show ?thesis using e by (simp add: w(1,2) a b)
next
  case False
  then show ?thesis
    using assms copy_bytes_bk_copied [of s d n m]
    by (auto simp: memcpybk_def Let_def long_simps)
qed

lemma memset_filled: "memset p ch n m = filled m p (ucast ch) n"
proof (cases "n > 32")
  case True
  define c where "c = head_cnt p"
  define k where "k = (n - c) div 32"
  have c: "c < 4" by (simp add: c_def head_cnt_less)
  have kn: "k * 32 \<le> n - c" by (simp add: k_def)
  then have tot: "c + k * 32 + (n - c - k * 32) = n" using c True by linarith
  have "filled (filled (filled m p (ucast ch) c) (p + c) (ucast ch) (k * 32)) (p + c + k * 32)
      (ucast ch) (n - c - k * 32) = filled m p (ucast ch) n"
    by (simp only: filled_join tot)
  then show ?thesis
    using True
    by (simp add: memset_def Let_def long_simps c_def [symmetric] k_def [symmetric]
        fill_bytes_filled fill_groups_filled)
qed (simp add: memset_def long_simps fill_bytes_filled)

section \<open>Properties\<close>

text \<open>
  C36: moving a block of any length between any two places, overlapping or not and aligned or not,
  leaves the destination with the bytes the source had before and every other byte unchanged.
\<close>

theorem memmove_correct: "memmove d s n m = copied m d s n"
proof (cases "d < s \<or> s + n < d")
  case True
  then show ?thesis by (auto simp: memmove_def intro!: memcpy_copied)
next
  case False
  then show ?thesis by (simp add: memmove_def memcpybk_copied)
qed

text \<open>
  Copying with \<open>memcpy\<close> gives the same result when the blocks do not overlap, and also when
  the destination starts below the source; filling writes the low byte of the argument everywhere
  in the block, whatever its alignment and length, and nothing else.
\<close>

theorem memcpy_memset_correct:
  assumes "d \<le> s \<or> s + n \<le> d"
  shows "memcpy d s n m = copied m d s n \<and> memset p ch n m = filled m p (ucast ch) n"
  using assms by (simp add: memcpy_copied memset_filled)

theorem memcpy_memset_witness:
  "memcpy 100 203 40 (\<lambda>a. of_nat a) 100 = 203 \<and> memset 7 0x141 50 (\<lambda>a. 0) 8 = 0x41"
  using memcpy_memset_correct [where d = 100 and s = 203 and n = 40 and m = "\<lambda>a. of_nat a"]
    memcpy_memset_correct [where d = 100 and s = 203 and n = 50 and m = "\<lambda>a. 0" and p = 7
      and ch = "0x141"]
  by (simp add: copied_def filled_def)

end
