(* ===== verification/Cstring.thy ===== *)
theory Cstring
  imports Cmem "HOL-Library.Sublist"
begin

text \<open>
  The string functions of \<^verbatim>\<open>usr/lib/c/string.c\<close> on the byte memory.  A loop that runs to a
  terminating zero byte need not end, so such functions return an option, \<open>None\<close> meaning that
  the loop runs for ever; \<open>NULL\<close> is the address 0.  A \<open>size_t\<close> counter that is
  decremented in a loop condition is a \<^typ>\<open>u32\<close>, since the condition can take it below zero.
  \<open>cstr m p xs\<close> states that the C string \<open>xs\<close> is stored at \<open>p\<close>.
\<close>

section \<open>Length\<close>

partial_function (option) strlen_loop :: "mem \<Rightarrow> nat \<Rightarrow> nat \<Rightarrow> nat option" where
  "strlen_loop m str len = (if m str \<noteq> 0 then strlen_loop m (str + 1) (len + 1) else Some len)"

definition strlen :: "mem \<Rightarrow> nat \<Rightarrow> nat option" where
  "strlen m str = strlen_loop m str 0"

text \<open>\<open>str\<close> is never advanced.\<close>

function strnlen_loop :: "mem \<Rightarrow> nat \<Rightarrow> u32 \<Rightarrow> nat \<Rightarrow> nat" where
  "strnlen_loop m str maxlen len =
     (if m str \<noteq> 0 \<and> maxlen \<noteq> 0 then strnlen_loop m str (maxlen - 1) (len + 1) else len)"
  by pat_completeness auto
termination
  by (relation "measure (\<lambda>(m, str, maxlen, len). unat maxlen)")
    (auto simp: unat_sub_small unat_gt_0 Suc_le_eq)

definition strnlen :: "mem \<Rightarrow> nat \<Rightarrow> u32 \<Rightarrow> nat" where
  "strnlen m str maxlen = strnlen_loop m str maxlen 0"

section \<open>Copying and concatenation\<close>

partial_function (option) strcpy_loop :: "nat \<Rightarrow> nat \<Rightarrow> mem \<Rightarrow> mem option" where
  "strcpy_loop cptr src m =
     (if m src \<noteq> 0 then strcpy_loop (cptr + 1) (src + 1) (m(cptr := m src))
      else Some (m(cptr := m src)))"

definition strcpy :: "nat \<Rightarrow> nat \<Rightarrow> mem \<Rightarrow> mem option" where
  "strcpy dest src m = strcpy_loop dest src m"

text \<open>The loop of \<open>strncpy\<close> and \<open>strncat\<close>: the condition decrements the count even when it ends it.\<close>

function strncpy_loop :: "nat \<Rightarrow> nat \<Rightarrow> u32 \<Rightarrow> mem \<Rightarrow> nat \<times> nat \<times> u32 \<times> mem" where
  "strncpy_loop cptr src n m =
     (if m src \<noteq> 0
      then if n \<noteq> 0 then strncpy_loop (cptr + 1) (src + 1) (n - 1) (m(cptr := m src))
           else (cptr, src, n - 1, m)
      else (cptr, src, n, m))"
  by pat_completeness auto
termination
  by (relation "measure (\<lambda>(cptr, src, n, m). unat n)")
    (auto simp: unat_sub_small unat_gt_0 Suc_le_eq)

definition strncpy :: "nat \<Rightarrow> nat \<Rightarrow> u32 \<Rightarrow> mem \<Rightarrow> mem" where
  "strncpy dest src n m =
     (if n \<noteq> 0
      then let (cptr, src, n, m) = strncpy_loop dest src n m
           in if n \<noteq> 0 then m(cptr := m src) else m
      else m)"

partial_function (option) find_end :: "mem \<Rightarrow> nat \<Rightarrow> nat option" where
  "find_end m cptr = (if m cptr \<noteq> 0 then find_end m (cptr + 1) else Some cptr)"

definition strcat :: "nat \<Rightarrow> nat \<Rightarrow> mem \<Rightarrow> mem option" where
  "strcat dest src m =
     (case find_end m dest of None \<Rightarrow> None | Some cptr \<Rightarrow> strcpy_loop cptr src m)"

definition strncat :: "nat \<Rightarrow> nat \<Rightarrow> u32 \<Rightarrow> mem \<Rightarrow> mem option" where
  "strncat dest src n m =
     (if n \<noteq> 0
      then case find_end m dest of
             None \<Rightarrow> None
           | Some cptr \<Rightarrow>
               let (cptr, src, n, m) = strncpy_loop cptr src n m
               in Some (if n \<noteq> 0 then m(cptr := m src) else m)
      else Some m)"

section \<open>Comparison\<close>

function memcmp_loop :: "mem \<Rightarrow> nat \<Rightarrow> nat \<Rightarrow> u32 \<Rightarrow> nat \<times> nat \<times> u32" where
  "memcmp_loop m p q n =
     (if m p = m q
      then if n \<noteq> 0 then memcmp_loop m (p + 1) (q + 1) (n - 1) else (p, q, n - 1)
      else (p, q, n))"
  by pat_completeness auto
termination
  by (relation "measure (\<lambda>(m, p, q, n). unat n)") (auto simp: unat_sub_small unat_gt_0 Suc_le_eq)

definition byte_diff :: "mem \<Rightarrow> nat \<Rightarrow> nat \<Rightarrow> int" where
  "byte_diff m p q = int (unat (m p)) - int (unat (m q))"

definition memcmp :: "mem \<Rightarrow> nat \<Rightarrow> nat \<Rightarrow> u32 \<Rightarrow> int" where
  "memcmp m ptr1 ptr2 n =
     (if n \<noteq> 0
      then let (p, q, n) = memcmp_loop m ptr1 ptr2 n in if n \<noteq> 0 then byte_diff m p q else 0
      else 0)"

partial_function (option) strcmp_loop :: "mem \<Rightarrow> nat \<Rightarrow> nat \<Rightarrow> (nat \<times> nat) option" where
  "strcmp_loop m p q =
     (if m p \<noteq> 0 \<and> m p = m q then strcmp_loop m (p + 1) (q + 1) else Some (p, q))"

definition strcmp :: "mem \<Rightarrow> nat \<Rightarrow> nat \<Rightarrow> int option" where
  "strcmp m str1 str2 =
     (case strcmp_loop m str1 str2 of
        None \<Rightarrow> None
      | Some (p, q) \<Rightarrow> Some (if m p \<noteq> 0 then byte_diff m p q else 0))"

function strncmp_loop :: "mem \<Rightarrow> nat \<Rightarrow> nat \<Rightarrow> u32 \<Rightarrow> nat \<times> nat \<times> u32" where
  "strncmp_loop m p q n =
     (if m p \<noteq> 0 \<and> m p = m q
      then if n \<noteq> 0 then strncmp_loop m (p + 1) (q + 1) (n - 1) else (p, q, n - 1)
      else (p, q, n))"
  by pat_completeness auto
termination
  by (relation "measure (\<lambda>(m, p, q, n). unat n)") (auto simp: unat_sub_small unat_gt_0 Suc_le_eq)

definition strncmp :: "mem \<Rightarrow> nat \<Rightarrow> nat \<Rightarrow> u32 \<Rightarrow> int" where
  "strncmp m str1 str2 n =
     (if n \<noteq> 0
      then let (p, q, n) = strncmp_loop m str1 str2 n in if n \<noteq> 0 then byte_diff m p q else 0
      else 0)"

section \<open>Searching\<close>

function memchr_loop :: "mem \<Rightarrow> nat \<Rightarrow> u8 \<Rightarrow> u32 \<Rightarrow> nat \<times> u32" where
  "memchr_loop m p uc n =
     (if m p \<noteq> uc
      then if n \<noteq> 0 then memchr_loop m (p + 1) uc (n - 1) else (p, n - 1)
      else (p, n))"
  by pat_completeness auto
termination
  by (relation "measure (\<lambda>(m, p, uc, n). unat n)") (auto simp: unat_sub_small unat_gt_0 Suc_le_eq)

definition memchr :: "mem \<Rightarrow> nat \<Rightarrow> u32 \<Rightarrow> u32 \<Rightarrow> nat" where
  "memchr m ptr ch n =
     (let uc = ucast ch
      in if n \<noteq> 0
         then let (p, n) = memchr_loop m ptr uc n in if m p = uc \<and> n \<noteq> 0 then p else 0
         else 0)"

partial_function (option) strchr_loop :: "mem \<Rightarrow> nat \<Rightarrow> u8 \<Rightarrow> nat option" where
  "strchr_loop m cptr c =
     (if m cptr \<noteq> 0 \<and> m cptr \<noteq> c then strchr_loop m (cptr + 1) c else Some cptr)"

definition strchr :: "mem \<Rightarrow> nat \<Rightarrow> u32 \<Rightarrow> nat option" where
  "strchr m str ch =
     (let c = ucast ch
      in case strchr_loop m str c of
           None \<Rightarrow> None
         | Some cptr \<Rightarrow> Some (if m cptr = c then cptr else 0))"

text \<open>The inner scan of \<open>strcspn\<close> and \<open>strspn\<close>: where in the set string a byte occurs, or its end.\<close>

partial_function (option) strcspn_loop :: "mem \<Rightarrow> nat \<Rightarrow> nat \<Rightarrow> nat \<Rightarrow> nat option" where
  "strcspn_loop m p str2 len =
     (if m p \<noteq> 0
      then case strchr_loop m str2 (m p) of
             None \<Rightarrow> None
           | Some q \<Rightarrow>
               if m q \<noteq> 0 then Some len else strcspn_loop m (p + 1) str2 (len + 1)
      else Some len)"

definition strcspn :: "mem \<Rightarrow> nat \<Rightarrow> nat \<Rightarrow> nat option" where
  "strcspn m str1 str2 = strcspn_loop m str1 str2 0"

partial_function (option) strspn_loop :: "mem \<Rightarrow> nat \<Rightarrow> nat \<Rightarrow> nat \<Rightarrow> nat option" where
  "strspn_loop m p str2 len =
     (if m p \<noteq> 0
      then case strchr_loop m str2 (m p) of
             None \<Rightarrow> None
           | Some q \<Rightarrow>
               if m q = 0 then Some len else strspn_loop m (p + 1) str2 (len + 1)
      else Some len)"

definition strspn :: "mem \<Rightarrow> nat \<Rightarrow> nat \<Rightarrow> nat option" where
  "strspn m str1 str2 = strspn_loop m str1 str2 0"

partial_function (option) strpbrk_inner :: "mem \<Rightarrow> nat \<Rightarrow> nat \<Rightarrow> nat \<Rightarrow> nat option" where
  "strpbrk_inner m p q retptr =
     (if retptr = 0 \<and> m q \<noteq> 0
      then strpbrk_inner m p (q + 1) (if m p = m q then p else retptr)
      else Some retptr)"

partial_function (option) strpbrk_loop :: "mem \<Rightarrow> nat \<Rightarrow> nat \<Rightarrow> nat \<Rightarrow> nat option" where
  "strpbrk_loop m p str2 retptr =
     (if retptr = 0 \<and> m p \<noteq> 0
      then case strpbrk_inner m p str2 retptr of
             None \<Rightarrow> None
           | Some r \<Rightarrow> strpbrk_loop m (p + 1) str2 r
      else Some retptr)"

definition strpbrk :: "mem \<Rightarrow> nat \<Rightarrow> nat \<Rightarrow> nat option" where
  "strpbrk m str1 str2 = (if m str1 \<noteq> 0 then strpbrk_loop m str1 str2 0 else Some 0)"

text \<open>Scanning back from the end; the pointer below the start of the string is \<open>NULL\<close>.\<close>

function strrchr_back :: "mem \<Rightarrow> nat \<Rightarrow> u8 \<Rightarrow> nat \<Rightarrow> nat" where
  "strrchr_back m str c cptr =
     (if m cptr \<noteq> c
      then if cptr \<le> str then 0 else strrchr_back m str c (cptr - 1)
      else cptr)"
  by pat_completeness auto
termination
  by (relation "measure (\<lambda>(m, str, c, cptr). cptr)") auto

definition strrchr :: "mem \<Rightarrow> nat \<Rightarrow> u32 \<Rightarrow> nat option" where
  "strrchr m str ch =
     (let c = ucast ch
      in case find_end m str of None \<Rightarrow> None | Some cptr \<Rightarrow> Some (strrchr_back m str c cptr))"

partial_function (option) strstr_match :: "mem \<Rightarrow> nat \<Rightarrow> nat \<Rightarrow> nat option" where
  "strstr_match m cptr2 cptr3 =
     (if m cptr2 = m cptr3 then strstr_match m (cptr2 + 1) (cptr3 + 1) else Some cptr2)"

partial_function (option) strstr_loop :: "mem \<Rightarrow> nat \<Rightarrow> nat \<Rightarrow> nat option" where
  "strstr_loop m cptr1 str2 =
     (if m cptr1 \<noteq> 0
      then case strstr_match m cptr1 str2 of
             None \<Rightarrow> None
           | Some cptr2 \<Rightarrow>
               if m cptr2 = 0 then Some cptr1 else strstr_loop m (cptr1 + 1) str2
      else Some 0)"

definition strstr :: "mem \<Rightarrow> nat \<Rightarrow> nat \<Rightarrow> nat option" where
  "strstr m str1 str2 = strstr_loop m str1 str2"

text \<open>
  \<open>strtok\<close> threads the saved position \<open>_string.curtok\<close>.  Its last block is guarded by
  \<open>!retptr\<close> and \<open>retptr\<close> is not \<open>NULL\<close> there, so it has no counterpart here.
\<close>

definition strtok :: "nat \<Rightarrow> nat \<Rightarrow> nat \<Rightarrow> mem \<Rightarrow> (nat \<times> nat \<times> mem) option" where
  "strtok str1 str2 curtok m =
     (case (if str1 \<noteq> 0 \<and> m str1 \<noteq> 0
            then case strspn m str1 str2 of None \<Rightarrow> None | Some nspn \<Rightarrow> Some (str1 + nspn)
            else Some curtok) of
        None \<Rightarrow> None
      | Some cptr \<Rightarrow>
          if cptr \<noteq> 0
          then (case strcspn m cptr str2 of
                  None \<Rightarrow> None
                | Some nspn \<Rightarrow>
                    let retptr = cptr;
                        cptr = cptr + nspn;
                        m = m(cptr := 0);
                        cptr = cptr + 1;
                        curtok = (if m cptr = 0 then 0 else cptr)
                    in Some (retptr, curtok, m))
          else Some (0, curtok, m))"

section \<open>Duplication\<close>

text \<open>\<open>malloc\<close> is a parameter: the address it returns for a size, or 0.\<close>

definition strdup :: "(nat \<Rightarrow> nat) \<Rightarrow> nat \<Rightarrow> mem \<Rightarrow> (nat \<times> mem) option" where
  "strdup malloc str m =
     (case strlen m str of
        None \<Rightarrow> None
      | Some len \<Rightarrow>
          let buf = (if len \<noteq> 0 then malloc (len + 1) else 0)
          in if buf \<noteq> 0
             then Some (buf, (memcpy buf str len m)(buf + len := 0))
             else Some (buf, m))"

definition strndup :: "(nat \<Rightarrow> nat) \<Rightarrow> nat \<Rightarrow> nat \<Rightarrow> mem \<Rightarrow> (nat \<times> mem) option" where
  "strndup malloc str maxlen m =
     (case strlen m str of
        None \<Rightarrow> None
      | Some len \<Rightarrow>
          let sz = (if len \<le> maxlen then len else maxlen);
              buf = (if sz \<noteq> 0 then malloc (sz + 1) else 0)
          in if buf \<noteq> 0
             then Some (buf, (memcpy buf str sz m)(buf + sz := 0))
             else Some (buf, m))"

section \<open>Stored strings and blocks\<close>

lemmas loop_simps = strnlen_loop.simps strncpy_loop.simps memcmp_loop.simps strncmp_loop.simps
  memchr_loop.simps strrchr_back.simps

declare loop_simps [simp del]

primrec cstr :: "mem \<Rightarrow> nat \<Rightarrow> u8 list \<Rightarrow> bool" where
  "cstr m p [] \<longleftrightarrow> m p = 0"
| "cstr m p (x # xs) \<longleftrightarrow> m p = x \<and> x \<noteq> 0 \<and> cstr m (p + 1) xs"

primrec block :: "mem \<Rightarrow> nat \<Rightarrow> nat \<Rightarrow> u8 list" where
  "block m p 0 = []"
| "block m p (Suc n) = m p # block m (p + 1) n"

lemma block_numeral [simp]: "block m p (numeral k) = m p # block m (p + 1) (pred_numeral k)"
  by (simp add: numeral_eq_Suc)

lemma block_append: "block m p (k + n) = block m p k @ block m (p + k) n"
  by (induction k arbitrary: p) simp_all

text \<open>The difference of the first two bytes that differ.\<close>

fun lexdiff :: "u8 list \<Rightarrow> u8 list \<Rightarrow> int" where
  "lexdiff (x # xs) (y # ys) = (if x = y then lexdiff xs ys else int (unat x) - int (unat y))"
| "lexdiff _ _ = 0"

lemma cstr_cong:
  "(\<And>i. i \<le> length xs \<Longrightarrow> m' (p + i) = m (p + i)) \<Longrightarrow> cstr m' p xs = cstr m p xs"
proof (induction xs arbitrary: p)
  case Nil
  then show ?case using Nil [of 0] by simp
next
  case (Cons x xs)
  have "m' p = m p" using Cons.prems [of 0] by simp
  moreover have "cstr m' (p + 1) xs = cstr m (p + 1) xs"
    by (rule Cons.IH) (use Cons.prems [of "Suc _"] in simp)
  ultimately show ?case by simp
qed

lemma cstr_copied:
  "cstr m s xs \<Longrightarrow> (\<And>i. i \<le> length xs \<Longrightarrow> m' (d + i) = m (s + i)) \<Longrightarrow> cstr m' d xs"
proof (induction xs arbitrary: d s)
  case Nil
  then show ?case using Nil(2) [of 0] by simp
next
  case (Cons x xs)
  have "m' d = m s" using Cons.prems(2) [of 0] by simp
  moreover have "cstr m' (d + 1) xs"
    by (rule Cons.IH [of "s + 1"]) (use Cons.prems(1) Cons.prems(2) [of "Suc _"] in auto)
  ultimately show ?case using Cons.prems(1) by simp
qed

lemma strlen_loop_length: "cstr m p xs \<Longrightarrow> strlen_loop m p k = Some (k + length xs)"
  by (induction xs arbitrary: p k) (subst strlen_loop.simps, simp)+

lemma find_end_length: "cstr m p xs \<Longrightarrow> find_end m p = Some (p + length xs)"
  by (induction xs arbitrary: p) (subst find_end.simps, simp)+

lemma strchr_loop_takeWhile:
  "cstr m p xs \<Longrightarrow> strchr_loop m p c = Some (p + length (takeWhile (\<lambda>x. x \<noteq> c) xs))"
  by (induction xs arbitrary: p) (subst strchr_loop.simps, simp)+

lemma cstr_nth: "cstr m p xs \<Longrightarrow> i < length xs \<Longrightarrow> m (p + i) = xs ! i \<and> xs ! i \<noteq> 0"
proof (induction xs arbitrary: p i)
  case (Cons x xs)
  then show ?case using Cons.IH [of "Suc p" "i - 1"] by (cases i) auto
qed simp

lemma cstr_end: "cstr m p xs \<Longrightarrow> m (p + length xs) = 0"
proof (induction xs arbitrary: p)
  case (Cons x xs)
  then show ?case using Cons.IH [of "Suc p"] by simp
qed simp

lemma cstr_no_zero: "cstr m p xs \<Longrightarrow> 0 \<notin> set xs"
  by (induction xs arbitrary: p) auto

lemma takeWhile_found:
  "c \<in> set ys \<Longrightarrow> length (takeWhile (\<lambda>x. x \<noteq> c) ys) < length ys
    \<and> ys ! length (takeWhile (\<lambda>x. x \<noteq> c) ys) = c"
  by (induction ys) auto

lemma strchr_loop_member:
  assumes "cstr m p ys" "c \<noteq> 0"
  shows "\<exists>q. strchr_loop m p c = Some q \<and> (m q = 0 \<longleftrightarrow> c \<notin> set ys)"
proof -
  let ?n = "length (takeWhile (\<lambda>x. x \<noteq> c) ys)"
  have "m (p + ?n) = 0 \<longleftrightarrow> c \<notin> set ys"
  proof (cases "c \<in> set ys")
    case True
    then have "?n < length ys" using takeWhile_found by fast
    then show ?thesis using cstr_nth [OF assms(1)] True by auto
  next
    case False
    then have "takeWhile (\<lambda>x. x \<noteq> c) ys = ys"
      by (subst takeWhile_eq_all_conv) (use False in auto)
    then have "?n = length ys" by argo
    then show ?thesis using cstr_end [OF assms(1)] False by argo
  qed
  then show ?thesis using strchr_loop_takeWhile [OF assms(1)] by blast
qed

lemma strcspn_loop_takeWhile:
  "cstr m p xs \<Longrightarrow> cstr m q ys \<Longrightarrow>
    strcspn_loop m p q k = Some (k + length (takeWhile (\<lambda>x. x \<notin> set ys) xs))"
proof (induction xs arbitrary: p k)
  case (Cons x xs)
  obtain r where "strchr_loop m q x = Some r" "m r = 0 \<longleftrightarrow> x \<notin> set ys"
    using strchr_loop_member [OF Cons.prems(2), of x] Cons.prems(1) by auto
  then show ?case using Cons by (subst strcspn_loop.simps) auto
qed (subst strcspn_loop.simps, simp)

lemma strspn_loop_takeWhile:
  "cstr m p xs \<Longrightarrow> cstr m q ys \<Longrightarrow>
    strspn_loop m p q k = Some (k + length (takeWhile (\<lambda>x. x \<in> set ys) xs))"
proof (induction xs arbitrary: p k)
  case (Cons x xs)
  obtain r where "strchr_loop m q x = Some r" "m r = 0 \<longleftrightarrow> x \<notin> set ys"
    using strchr_loop_member [OF Cons.prems(2), of x] Cons.prems(1) by auto
  then show ?case using Cons by (subst strspn_loop.simps) auto
qed (subst strspn_loop.simps, simp)

lemma strcmp_step:
  "strcmp m p q =
     (if m p \<noteq> 0 \<and> m p = m q then strcmp m (Suc p) (Suc q)
      else Some (if m p \<noteq> 0 then byte_diff m p q else 0))"
  unfolding strcmp_def by (subst strcmp_loop.simps) simp

lemma strcmp_lexdiff:
  "cstr m p xs \<Longrightarrow> cstr m q ys \<Longrightarrow>
    strcmp m p q = Some (if prefix xs ys then 0 else lexdiff (xs @ [0]) (ys @ [0]))"
proof (induction xs arbitrary: p q ys)
  case Nil
  then show ?case by (subst strcmp_step) simp
next
  case (Cons x xs)
  then show ?case
    using Cons.IH [of "Suc p" "Suc q" "tl ys"]
    by (cases ys; subst strcmp_step) (auto simp: byte_diff_def)
qed

text \<open>The counted comparisons, by the value they return from a given position on.\<close>

lemma unat_pred: "n \<noteq> 0 \<Longrightarrow> unat (n :: u32) = Suc (unat (n - 1))"
  by (simp add: unat_sub_small unat_gt_0 Suc_le_eq)

lemma memcmp_loop_lexdiff:
  "(let (p', q', n') = memcmp_loop m p q n in if n' \<noteq> 0 then byte_diff m p' q' else 0)
    = lexdiff (block m p (unat n)) (block m q (unat n))"
proof (induction m p q n rule: memcmp_loop.induct)
  case (1 m p q n)
  show ?case
  proof (cases "n = 0")
    case True
    then show ?thesis by (subst memcmp_loop.simps) (simp add: byte_diff_def)
  next
    case False
    then show ?thesis
      using 1 unat_pred [OF False] by (subst memcmp_loop.simps) (auto simp: byte_diff_def)
  qed
qed

lemma strncmp_loop_lexdiff:
  "cstr m p xs \<Longrightarrow> cstr m q ys \<Longrightarrow>
    (let (p', q', n') = strncmp_loop m p q n in if n' \<noteq> 0 then byte_diff m p' q' else 0)
    = lexdiff (take (unat n) (xs @ [0])) (take (unat n) (ys @ [0]))"
proof (induction m p q n arbitrary: xs ys rule: strncmp_loop.induct)
  case (1 m p q n)
  show ?case
  proof (cases "n = 0")
    case True
    then show ?thesis by (subst strncmp_loop.simps) (simp add: byte_diff_def)
  next
    case False
    note u = unat_pred [OF False]
    show ?thesis
    proof (cases "m p \<noteq> 0 \<and> m p = m q")
      case True
      then have "xs \<noteq> []" "ys \<noteq> []" using 1(2,3) cstr.simps(1) [of m] by metis+
      then obtain x xs' y ys' where e: "xs = x # xs'" "ys = y # ys'" by (meson neq_Nil_conv)
      have c: "x = y" "cstr m (p + 1) xs'" "cstr m (q + 1) ys'"
        using 1(2,3) True unfolding e cstr.simps by metis+
      have "strncmp_loop m p q n = strncmp_loop m (p + 1) (q + 1) (n - 1)"
        by (subst strncmp_loop.simps, subst if_P [OF True], subst if_P [OF False]) (rule refl)
      then show ?thesis using 1(1) [OF True False c(2,3)] c(1) by (simp only: e u) simp
    next
      case neq: False
      then show ?thesis
        using 1(2,3) False u
        by (subst strncmp_loop.simps, cases xs; cases ys) (auto simp: byte_diff_def)
    qed
  qed
qed

lemma memchr_loop_block:
  "(let (p', n') = memchr_loop m p c n in if m p' = c \<and> n' \<noteq> 0 then p' else 0)
    = (if c \<in> set (block m p (unat n))
       then p + length (takeWhile (\<lambda>x. x \<noteq> c) (block m p (unat n))) else 0)"
proof (induction m p c n rule: memchr_loop.induct)
  case (1 m p c n)
  show ?case
  proof (cases "n = 0")
    case True
    then show ?thesis by (subst memchr_loop.simps) simp
  next
    case False
    then show ?thesis
      using 1 unat_pred [OF False] by (subst memchr_loop.simps) auto
  qed
qed

lemma strnlen_stuck: "strnlen m p n = (if m p = 0 then 0 else unat n)"
proof -
  have "strnlen_loop m p n k = (if m p = 0 then k else k + unat n)" for k
  proof (induction m p n k rule: strnlen_loop.induct)
    case (1 m p n k)
    then show ?case
      by (cases "n = 0"; subst strnlen_loop.simps) (auto simp: unat_pred)
  qed
  then show ?thesis by (simp add: strnlen_def)
qed

text \<open>Copying strings to a place they do not overlap writes their bytes and nothing else.\<close>

lemma copied_step:
  "copied (m(d := m s)) (Suc d) (Suc s) n = copied m d s (Suc n)" if "d < s \<or> s + n < d"
proof -
  have "m(d := m s) = copied m d s 1" by (rule ext) (auto simp: copied_def)
  moreover have "copied (copied m d s 1) (Suc d) (Suc s) n = copied m d s (1 + n)"
    using that by (intro copied_join) auto
  ultimately show ?thesis by simp
qed

lemma cstr_upd_outside:
  "cstr m s xs \<Longrightarrow> d < s \<or> s + length xs < d \<Longrightarrow> cstr (m(d := v)) s xs"
  by (subst cstr_cong [of xs _ s m]) auto

lemma strcpy_loop_copied:
  "cstr m s xs \<Longrightarrow> d < s \<or> s + length xs < d \<Longrightarrow>
    strcpy_loop d s m = Some (copied m d s (Suc (length xs)))"
proof (induction xs arbitrary: d s m)
  case Nil
  then show ?case by (subst strcpy_loop.simps) (auto simp: copied_def)
next
  case (Cons x xs)
  define m1 where "m1 = m(d := m s)"
  have c: "cstr m1 (Suc s) xs"
    using Cons.prems unfolding m1_def by (intro cstr_upd_outside) auto
  have "strcpy_loop (Suc d) (Suc s) m1 = Some (copied m1 (Suc d) (Suc s) (Suc (length xs)))"
    using Cons.IH [of m1 "Suc s" "Suc d"] c Cons.prems by auto
  moreover have "copied m1 (Suc d) (Suc s) (Suc (length xs)) = copied m d s (Suc (Suc (length xs)))"
    using Cons.prems unfolding m1_def by (intro copied_step) auto
  moreover have "strcpy_loop d s m = strcpy_loop (Suc d) (Suc s) m1"
    using Cons.prems unfolding m1_def by (subst strcpy_loop.simps) simp
  ultimately show ?case by simp
qed

text \<open>
  How many bytes the counted copy writes: it stops at the terminating zero, but the final test of
  the counter sees the value it wrapped to, so a longer string gets one byte too many.
\<close>

definition strn_written :: "u8 list \<Rightarrow> u32 \<Rightarrow> nat" where
  "strn_written xs n = (if length xs = unat n then unat n else Suc (min (length xs) (unat n)))"

lemma strncpy_loop_copied:
  "cstr m s xs \<Longrightarrow> d < s \<or> s + length xs < d \<Longrightarrow>
    (let (d', s', n', m') = strncpy_loop d s n m in if n' \<noteq> 0 then m'(d' := m' s') else m')
      = copied m d s (strn_written xs n)"
proof (induction xs arbitrary: d s n m)
  case Nil
  then show ?case
    by (cases "n = 0"; subst strncpy_loop.simps)
      (auto simp: strn_written_def unat_eq_0, auto simp: copied_def)
next
  case (Cons x xs)
  show ?case
  proof (cases "n = 0")
    case True
    have "(- 1 :: u32) \<noteq> 0" by simp
    then show ?thesis
      using True Cons.prems by (subst strncpy_loop.simps) (auto simp: copied_def strn_written_def)
  next
    case False
    define m1 where "m1 = m(d := m s)"
    have c: "cstr m1 (Suc s) xs"
      using Cons.prems unfolding m1_def by (intro cstr_upd_outside) auto
    have "strncpy_loop d s n m = strncpy_loop (Suc d) (Suc s) (n - 1) m1"
      using False Cons.prems unfolding m1_def by (subst strncpy_loop.simps) simp
    moreover have "strn_written (x # xs) n = Suc (strn_written xs (n - 1))"
      by (simp add: strn_written_def unat_pred [OF False])
    moreover have "copied m1 (Suc d) (Suc s) (strn_written xs (n - 1))
        = copied m d s (Suc (strn_written xs (n - 1)))"
      using Cons.prems unfolding m1_def by (intro copied_step) (auto simp: strn_written_def)
    ultimately show ?thesis
      using Cons.IH [of m1 "Suc s" "Suc d" "n - 1"] c Cons.prems by auto
  qed
qed

lemma strrchr_back_last:
  assumes "\<forall>i\<le>n. m (p + i) = ys ! i"
  shows "if \<exists>k\<le>n. ys ! k = c
    then \<exists>k\<le>n. strrchr_back m p c (p + n) = p + k \<and> ys ! k = c \<and> (\<forall>j\<le>n. k < j \<longrightarrow> ys ! j \<noteq> c)
    else strrchr_back m p c (p + n) = 0"
  using assms
proof (induction n)
  case 0
  have "strrchr_back m p c p = (if m p = c then p else 0)" by (subst strrchr_back.simps) simp
  then show ?case using 0 by auto
next
  case (Suc n)
  have m: "m (p + Suc n) = ys ! Suc n" using Suc.prems by blast
  show ?case
  proof (cases "ys ! Suc n = c")
    case True
    have "strrchr_back m p c (p + Suc n) = p + Suc n"
      using m True by (subst strrchr_back.simps) simp
    then show ?thesis using True by (auto intro!: exI [of _ "Suc n"])
  next
    case False
    have "strrchr_back m p c (p + Suc n) = strrchr_back m p c (p + n)"
      using m False by (subst strrchr_back.simps) simp
    then show ?thesis using Suc False by (auto simp: le_Suc_eq split: if_splits)
  qed
qed

lemma strpbrk_inner_member:
  "cstr m q ys \<Longrightarrow> p \<noteq> 0 \<Longrightarrow> strpbrk_inner m p q 0 = Some (if m p \<in> set ys then p else 0)"
proof (induction ys arbitrary: q)
  case (Cons y ys)
  have "strpbrk_inner m p (Suc q) p = Some p"
    using Cons.prems by (subst strpbrk_inner.simps) simp
  then show ?case using Cons by (subst strpbrk_inner.simps) auto
qed (subst strpbrk_inner.simps, simp)

lemma strpbrk_loop_first:
  "cstr m p xs \<Longrightarrow> cstr m q ys \<Longrightarrow> p \<noteq> 0 \<Longrightarrow> strpbrk_loop m p q 0 =
    Some (if set xs \<inter> set ys = {} then 0 else p + length (takeWhile (\<lambda>x. x \<notin> set ys) xs))"
proof (induction xs arbitrary: p)
  case (Cons x xs)
  have "strpbrk_loop m (Suc p) q p = Some p"
    using Cons.prems by (subst strpbrk_loop.simps) simp
  then show ?case
    using Cons strpbrk_inner_member [OF Cons.prems(2), of p] by (subst strpbrk_loop.simps) auto
qed (subst strpbrk_loop.simps, simp)

section \<open>Properties\<close>

text \<open>A memory with a list of bytes at address 1, for the witnesses.\<close>

definition mem_of :: "u8 list \<Rightarrow> mem" where
  "mem_of xs = (\<lambda>a. if 0 < a \<and> a \<le> length xs then xs ! (a - 1) else 0)"

text \<open>
  On stored strings the scanning functions end and return what they are specified to: the
  length; the length of the initial segment of bytes in, or not in, a set; the first occurrence of
  a byte (the terminator included) and the first byte out of a set, \<open>NULL\<close> if there is none.
\<close>

theorem string_searches:
  assumes "cstr m p xs" "cstr m q ys" "p \<noteq> 0"
  shows "strlen m p = Some (length xs) \<and>
    strspn m p q = Some (length (takeWhile (\<lambda>x. x \<in> set ys) xs)) \<and>
    strcspn m p q = Some (length (takeWhile (\<lambda>x. x \<notin> set ys) xs)) \<and>
    strchr m p ch = Some (if ucast ch \<in> set (xs @ [0])
      then p + length (takeWhile (\<lambda>x. x \<noteq> ucast ch) xs) else 0) \<and>
    strpbrk m p q = Some (if set xs \<inter> set ys = {} then 0
      else p + length (takeWhile (\<lambda>x. x \<notin> set ys) xs))"
proof (intro conjI)
  show "strlen m p = Some (length xs)"
    "strspn m p q = Some (length (takeWhile (\<lambda>x. x \<in> set ys) xs))"
    "strcspn m p q = Some (length (takeWhile (\<lambda>x. x \<notin> set ys) xs))"
    using strlen_loop_length [OF assms(1)] strspn_loop_takeWhile [OF assms(1,2)]
      strcspn_loop_takeWhile [OF assms(1,2)]
    by (simp_all add: strlen_def strspn_def strcspn_def)
  have "m p = 0 \<longleftrightarrow> xs = []" using assms(1) by (cases xs) auto
  then show "strpbrk m p q = Some (if set xs \<inter> set ys = {} then 0
      else p + length (takeWhile (\<lambda>x. x \<notin> set ys) xs))"
    using strpbrk_loop_first [OF assms] by (auto simp: strpbrk_def)
  let ?c = "ucast ch :: u8"
  let ?n = "length (takeWhile (\<lambda>x. x \<noteq> ?c) xs)"
  have "m (p + ?n) = ?c \<longleftrightarrow> ?c \<in> set (xs @ [0])"
  proof (cases "?c \<in> set xs")
    case True
    then show ?thesis using takeWhile_found [OF True] cstr_nth [OF assms(1), of ?n] by simp
  next
    case False
    then have "?n = length xs" by (metis (mono_tags, lifting) takeWhile_eq_all_conv)
    then show ?thesis using cstr_end [OF assms(1)] False by auto
  qed
  then show "strchr m p ch = Some (if ?c \<in> set (xs @ [0]) then p + ?n else 0)"
    using strchr_loop_takeWhile [OF assms(1), of ?c] by (simp add: strchr_def Let_def)
qed

definition mem1 :: mem where "mem1 = mem_of [97, 98, 99, 0, 98, 97, 0]"

lemma mem1_strings: "cstr mem1 1 [97, 98, 99]" "cstr mem1 5 [98, 97]"
  by (simp_all add: mem1_def mem_of_def)

theorem string_searches_witness:
  "strlen mem1 1 = Some 3 \<and> strspn mem1 1 5 = Some 2 \<and> strchr mem1 1 99 = Some 3"
  using string_searches [OF mem1_strings, of 99] by simp

text \<open>
  The counted comparisons and the counted search return, in spite of the count that wraps in
  the loop condition, the difference of the first two differing bytes of the blocks (of the
  strings with their terminators, cut to the count), 0 if there is none, and the first occurrence.
\<close>

theorem counted_comparisons:
  assumes "cstr m p xs" "cstr m q ys"
  shows "memcmp m a b n = lexdiff (block m a (unat n)) (block m b (unat n)) \<and>
    strncmp m p q n = lexdiff (take (unat n) (xs @ [0])) (take (unat n) (ys @ [0])) \<and>
    memchr m a ch n = (if ucast ch \<in> set (block m a (unat n))
      then a + length (takeWhile (\<lambda>x. x \<noteq> ucast ch) (block m a (unat n))) else 0)"
  using memcmp_loop_lexdiff [of m a b n] strncmp_loop_lexdiff [OF assms, of n]
    memchr_loop_block [of m a "ucast ch" n]
  by (cases "n = 0") (simp_all add: memcmp_def strncmp_def memchr_def Let_def)

theorem counted_comparisons_witness:
  "memcmp mem1 1 5 2 = - 1 \<and> strncmp mem1 1 5 0 = 0 \<and> memchr mem1 1 98 3 = 2"
  using counted_comparisons [OF mem1_strings, of 1 5 2 98]
    counted_comparisons [OF mem1_strings, of 1 5 0 98]
    counted_comparisons [OF mem1_strings, of 1 5 3 98]
  by (simp add: mem1_def mem_of_def)

text \<open>
  Copying a string, appending it to another and duplicating it leave the string, with its
  terminator, at the destination and change no other byte, when source and destination do not
  overlap and the allocation succeeds.
\<close>

theorem string_copies:
  assumes "cstr m s xs" "d < s \<or> s + length xs < d"
    and "cstr m e ys" "e + length ys < s \<or> s + length xs < e + length ys"
    and "xs \<noteq> []" "malloc (length xs + 1) = b" "b \<noteq> 0" "b + length xs < s \<or> s + length xs < b"
  shows "strcpy d s m = Some (copied m d s (length xs + 1)) \<and>
    strcat e s m = Some (copied m (e + length ys) s (length xs + 1)) \<and>
    strdup malloc s m = Some (b, copied m b s (length xs + 1))"
proof (intro conjI)
  show "strcpy d s m = Some (copied m d s (length xs + 1))"
    using strcpy_loop_copied [OF assms(1,2)] by (simp add: strcpy_def)
  show "strcat e s m = Some (copied m (e + length ys) s (length xs + 1))"
    using find_end_length [OF assms(3)] strcpy_loop_copied [OF assms(1,4)] by (simp add: strcat_def)
  have "memcpy b s (length xs) m = copied m b s (length xs)"
    using assms(8) by (intro memcpy_copied) auto
  moreover have "(copied m b s (length xs))(b + length xs := 0) = copied m b s (length xs + 1)"
    using cstr_end [OF assms(1)] by (intro ext) (auto simp: copied_def)
  ultimately show "strdup malloc s m = Some (b, copied m b s (length xs + 1))"
    using strlen_loop_length [OF assms(1)] assms(5-7) by (simp add: strdup_def strlen_def)
qed

theorem string_copies_witness:
  "strcpy 20 1 mem1 = Some (copied mem1 20 1 (length [97, 98, 99 :: u8] + 1)) \<and>
    strcat 5 1 mem1 = Some (copied mem1 (5 + length [98, 97 :: u8]) 1 (length [97, 98, 99 :: u8] + 1)) \<and>
    strdup (\<lambda>_. 64) 1 mem1 = Some (64, copied mem1 64 1 (length [97, 98, 99 :: u8] + 1))"
  by (rule string_copies [OF mem1_strings(1) _ mem1_strings(2)]) simp_all

text \<open>
  Comparing two strings returns 0 whenever the first is a prefix of the second, not only when
  they are equal, and the difference of the first two differing bytes otherwise.
\<close>

theorem strcmp_prefix:
  assumes "cstr m p xs" "cstr m q ys"
  shows "strcmp m p q = Some (if prefix xs ys then 0 else lexdiff (xs @ [0]) (ys @ [0]))"
  by (rule strcmp_lexdiff [OF assms])

theorem strcmp_prefix_witness: "strcmp mem1 4 5 = Some 0 \<and> strcmp mem1 1 5 = Some (- 1)"
proof -
  have "cstr mem1 4 []" by (simp add: mem1_def mem_of_def)
  from strcmp_prefix [OF this mem1_strings(2)] strcmp_prefix [OF mem1_strings]
  show ?thesis by simp
qed

text \<open>
  The counted copy writes one byte more than the count when the source string is longer than
  the count, since the test after the loop sees a count that wrapped; a string shorter than the
  count is copied with its terminator and without padding.  The counted length of a non-empty
  string is the count, since the pointer is not advanced.
\<close>

theorem strncpy_overrun:
  assumes "cstr m s xs" "d < s \<or> s + length xs < d" "n \<noteq> 0"
  shows "strncpy d s n m = copied m d s
      (if length xs < unat n then length xs + 1 else if length xs = unat n then unat n
       else unat n + 1) \<and>
    strnlen m s n = (if xs = [] then 0 else unat n)"
proof (rule conjI)
  have "strn_written xs n = (if length xs < unat n then length xs + 1
      else if length xs = unat n then unat n else unat n + 1)"
    by (simp add: strn_written_def)
  then show "strncpy d s n m = copied m d s
      (if length xs < unat n then length xs + 1 else if length xs = unat n then unat n
       else unat n + 1)"
    using strncpy_loop_copied [OF assms(1,2), of n] assms(3) by (simp add: strncpy_def Let_def)
  have "m s = 0 \<longleftrightarrow> xs = []" using assms(1) by (cases xs) auto
  then show "strnlen m s n = (if xs = [] then 0 else unat n)" by (simp add: strnlen_stuck)
qed

theorem strncpy_overrun_witness: "strncpy 20 1 2 mem1 22 = 99 \<and> strnlen mem1 1 40 = 40"
  using strncpy_overrun [OF mem1_strings(1), of 20 2] strncpy_overrun [OF mem1_strings(1), of 20 40]
  by (simp add: copied_def mem1_def mem_of_def)

end
