(* ===== verification/Kmem.thy ===== *)
theory Kmem
  imports Cstring
begin

text \<open>
  The kernel's block and string helpers, first part of \<^verbatim>\<open>kern/util.c\<close>, on the memory of
  the C library theories.  They work on whole longs and groups of eight longs; dereferencing the
  \<open>NULL\<close> a pointer was initialised to is \<open>None\<close>.  The lemmas compute how many bytes each
  routine really writes.
\<close>

section \<open>Operations\<close>

primrec fill_longs :: "nat \<Rightarrow> nat \<Rightarrow> u32 \<Rightarrow> mem \<Rightarrow> mem" where
  "fill_longs 0 p v m = m"
| "fill_longs (Suc n) p v m = fill_longs n (p + 4) v (store_long p v m)"

primrec copy_longs :: "nat \<Rightarrow> nat \<Rightarrow> nat \<Rightarrow> mem \<Rightarrow> mem" where
  "copy_longs 0 d s m = m"
| "copy_longs (Suc n) d s m = copy_longs n (d + 4) (s + 4) (copy_long d s m)"

text \<open>
  The common body of \<open>kbzero\<close> and \<open>kmemset\<close>: \<open>ptr\<close> is where stores start, \<open>adr\<close> the address
  whose alignment is looked at.  The head count is in longs but is subtracted from a count in
  bytes, and the tail count is in bytes but counts longs.
\<close>

definition kfill_body :: "nat \<Rightarrow> nat \<Rightarrow> u32 \<Rightarrow> nat \<Rightarrow> mem \<Rightarrow> mem" where
  "kfill_body ptr adr val len m =
     (let (len, nleft, ptr, m) =
            (if len > 2 ^ (LONGSIZELOG2 + 3)
             then let nleft = adr mod 2 ^ (LONGSIZELOG2 + 3);
                      (len, ptr, m) =
                        (if nleft \<noteq> 0
                         then let nleft = 2 ^ (LONGSIZELOG2 + 3) - nleft;
                                  nleft = nleft div 2 ^ LONGSIZELOG2;
                                  len = len - nleft
                              in (len, ptr + 4 * nleft, fill_longs nleft ptr val m)
                         else (len, ptr, m))
                  in (len, len - len mod 2 ^ (LONGSIZELOG2 + 3), ptr, m)
             else (len, 0, ptr, m));
          (nleft, ptr, m) =
            (if len \<ge> 2 ^ (LONGSIZELOG2 + 3)
             then let nleft = len mod 2 ^ (LONGSIZELOG2 + 3);
                      len = len div 2 ^ (LONGSIZELOG2 + 3)
                  in (nleft, ptr + 32 * len, fill_groups len ptr val m)
             else (nleft, ptr, m))
      in fill_longs nleft ptr val m)"

definition kbzero :: "nat \<Rightarrow> nat \<Rightarrow> mem \<Rightarrow> mem" where
  "kbzero adr len m = kfill_body adr adr 0 len m"

text \<open>\<open>kmemset\<close> stores through an uninitialised pointer, here the parameter \<open>ptr\<close>.\<close>

definition kmemset :: "nat \<Rightarrow> nat \<Rightarrow> u32 \<Rightarrow> nat \<Rightarrow> mem \<Rightarrow> mem" where
  "kmemset ptr adr byte len m =
     (let val = byte;
          val = val OR push_bit 8 val;
          val = val OR push_bit 16 val
      in kfill_body ptr adr val len m)"

definition kmemcpy :: "nat \<Rightarrow> nat \<Rightarrow> nat \<Rightarrow> mem \<Rightarrow> mem option" where
  "kmemcpy dest src len m =
     (let nleft = len;
          len = len div 2 ^ (LONGSIZELOG2 + 3);
          nleft = nleft - len * 2 ^ (LONGSIZELOG2 + 3);
          m = copy_groups len dest src m
      in if len \<noteq> 0
         then Some (copy_longs nleft (dest + 32 * (len - 1)) (src + 32 * (len - 1)) m)
         else if nleft \<noteq> 0 then None else Some m)"

definition kbfill :: "nat \<Rightarrow> u8 \<Rightarrow> nat \<Rightarrow> mem \<Rightarrow> mem option" where
  "kbfill adr byte len m =
     (let nleft = len;
          val = spread byte;
          len = len div 2 ^ (LONGSIZELOG2 + 3);
          nleft = nleft - len * 2 ^ (LONGSIZELOG2 + 3);
          m = fill_groups len adr val m
      in if len \<noteq> 0
         then Some (fill_longs nleft (adr + 32 * (len - 1)) val m)
         else if nleft \<noteq> 0 then None else Some m)"

definition kmemcmp :: "mem \<Rightarrow> nat \<Rightarrow> nat \<Rightarrow> u32 \<Rightarrow> int" where
  "kmemcmp m ptr1 ptr2 nb =
     (if nb \<noteq> 0
      then let (p, q, nb) = memcmp_loop m ptr1 ptr2 nb in if nb \<noteq> 0 then byte_diff m p q else 0
      else 0)"

definition kstrcmp :: "mem \<Rightarrow> nat \<Rightarrow> nat \<Rightarrow> int option" where
  "kstrcmp m str1 str2 =
     (case strcmp_loop m str1 str2 of
        None \<Rightarrow> None
      | Some (p, q) \<Rightarrow> Some (if m p \<noteq> 0 then byte_diff m p q else 0))"

text \<open>
  The counter of \<open>kstrncpy\<close> is a signed \<open>long\<close> that is decremented before it is tested.
\<close>

partial_function (option) kstrncpy_loop :: "nat \<Rightarrow> nat \<Rightarrow> int \<Rightarrow> nat \<Rightarrow> mem \<Rightarrow> (nat \<times> mem) option"
  where
  "kstrncpy_loop dest src len nb m =
     (if m src \<noteq> 0 \<and> len - 1 \<noteq> 0
      then kstrncpy_loop (dest + 1) (src + 1) (len - 1) (nb + 1) (m(dest := m src))
      else Some (nb, m(dest := 0)))"

definition kstrncpy :: "nat \<Rightarrow> nat \<Rightarrow> int \<Rightarrow> mem \<Rightarrow> (nat \<times> mem) option" where
  "kstrncpy dest src len m = kstrncpy_loop dest src len 0 m"

section \<open>What they write\<close>

lemma fill_longs_filled: "fill_longs n p (spread c) m = filled m p c (4 * n)"
  by (induction n arbitrary: p m) (simp_all add: store_spread filled_join)

lemma copy_longs_copied:
  "d \<le> s \<or> s + 4 * n \<le> d \<Longrightarrow> copy_longs n d s m = copied m d s (4 * n)"
proof (induction n arbitrary: d s m)
  case (Suc n)
  have "copied (copied m d s 4) (d + 4) (s + 4) (4 * n) = copied m d s (4 + 4 * n)"
    using Suc.prems by (intro copied_join) auto
  moreover have "copy_longs n (d + 4) (s + 4) (copied m d s 4)
      = copied (copied m d s 4) (d + 4) (s + 4) (4 * n)"
    using Suc.prems by (intro Suc.IH) auto
  ultimately show ?case by (simp add: copy_long_copied)
qed simp

definition kfill_written :: "nat \<Rightarrow> nat \<Rightarrow> nat" where
  "kfill_written adr len =
     (let h = (if len > 32 \<and> adr mod 32 \<noteq> 0 then (32 - adr mod 32) div 4 else 0);
          l = len - h
      in 4 * h + (if l \<ge> 32 then 32 * (l div 32) + 4 * (l mod 32) else 0))"

lemma kfill_body_filled: "kfill_body p adr (spread c) len m = filled m p c (kfill_written adr len)"
  unfolding kfill_body_def kfill_written_def Let_def long_simps
  by (auto simp: fill_longs_filled fill_groups_filled filled_join mult.commute)

lemma spread_zero: "spread 0 = 0"
  by (simp add: spread_def)

lemma spread_ucast: "unat byte < 256 \<Longrightarrow>
  (let val = byte; val = val OR push_bit 8 val; val = val OR push_bit 16 val in val)
    = spread (ucast byte)"
proof -
  assume "unat byte < 256"
  then have "ucast (ucast byte :: u8) = byte"
    by (intro word_eq_natI) (simp add: unat_ucast_mod)
  then show ?thesis by (simp add: spread_def Let_def)
qed

lemma kbzero_filled: "kbzero adr len m = filled m adr 0 (kfill_written adr len)"
  using kfill_body_filled [of adr adr 0 len m] by (simp add: kbzero_def spread_zero)

lemma kstrncpy_loop_copied:
  "cstr m s xs \<Longrightarrow> d < s \<or> s + length xs < d \<Longrightarrow> 1 \<le> len \<Longrightarrow>
    kstrncpy_loop d s len nb m = Some (nb + min (length xs) (nat len - 1),
      (copied m d s (min (length xs) (nat len - 1)))(d + min (length xs) (nat len - 1) := 0))"
proof (induction xs arbitrary: d s len nb m)
  case Nil
  then show ?case by (subst kstrncpy_loop.simps) simp
next
  case (Cons x xs)
  show ?case
  proof (cases "len = 1")
    case True
    then show ?thesis by (subst kstrncpy_loop.simps) simp
  next
    case False
    define m1 where "m1 = m(d := m s)"
    define k where "k = min (length xs) (nat (len - 1) - 1)"
    have c: "cstr m1 (Suc s) xs"
      using Cons.prems unfolding m1_def by (intro cstr_upd_outside) auto
    have "kstrncpy_loop d s len nb m = kstrncpy_loop (Suc d) (Suc s) (len - 1) (Suc nb) m1"
      using False Cons.prems unfolding m1_def by (subst kstrncpy_loop.simps) simp
    also have "\<dots> = Some (Suc nb + k, (copied m1 (Suc d) (Suc s) k)(Suc d + k := 0))"
      unfolding k_def by (rule Cons.IH) (use c Cons.prems False in auto)
    also have "copied m1 (Suc d) (Suc s) k = copied m d s (Suc k)"
      using Cons.prems unfolding m1_def k_def by (intro copied_step) auto
    finally have r: "kstrncpy_loop d s len nb m
      = Some (Suc nb + k, (copied m d s (Suc k))(Suc d + k := 0))" .
    have "min (length (x # xs)) (nat len - 1) = Suc k"
      using Cons.prems(3) False unfolding k_def by (simp add: nat_diff_distrib)
    then show ?thesis unfolding r by (simp add: fun_upd_def)
  qed
qed

lemma cstr_of_nth:
  "(\<And>i. i < length xs \<Longrightarrow> m (p + i) = xs ! i) \<Longrightarrow> m (p + length xs) = 0 \<Longrightarrow> 0 \<notin> set xs \<Longrightarrow> cstr m p xs"
proof (induction xs arbitrary: p)
  case (Cons x xs)
  have "cstr m (Suc p) xs"
    by (rule Cons.IH) (use Cons.prems(1) [of "Suc _"] Cons.prems(2,3) in auto)
  then show ?case using Cons.prems(1) [of 0] Cons.prems(3) by auto
qed simp

section \<open>Properties\<close>

text \<open>
  Clearing memory writes zeros in one block from the given address, of exactly the requested
  length if address and length are multiples of a cache line (32 bytes); a shorter block is not
  cleared at all, and for other lengths up to three times the rest modulo 32 is cleared beyond
  the end.
\<close>

theorem kbzero_extent:
  assumes "adr mod 32 = 0"
  shows "kbzero adr len m = filled m adr 0
    (if len < 32 then 0 else len + 3 * (len mod 32))"
proof -
  have "kfill_written adr len = (if len < 32 then 0 else len + 3 * (len mod 32))"
    using assms mult_div_mod_eq [of 32 len] by (simp add: kfill_written_def)
  then show ?thesis by (simp only: kbzero_filled)
qed

theorem kbzero_extent_witness:
  "kbzero 64 40 (\<lambda>_. 7) = filled (\<lambda>_. 7) 64 0 64 \<and> kbzero 64 31 (\<lambda>_. 7) = (\<lambda>_. 7)"
  using kbzero_extent [of 64 40 "\<lambda>_. 7"] kbzero_extent [of 64 31 "\<lambda>_. 7"] by simp

text \<open>
  The kernel's copy and fill are right on whole cache lines.  For a length of \<open>k\<close> lines and
  \<open>r\<close> bytes the tail loop starts over at the last whole line and counts longs, so the block
  ends at \<open>32 * (k - 1) + 4 * r\<close> if that is more; with no whole line the tail loop goes through
  \<open>NULL\<close>.
\<close>

theorem kmemcpy_kbfill_extent:
  assumes "len = 32 * k + r" "r < 32" "d + len \<le> s \<or> s + 4 * len \<le> d"
  shows "(if k = 0 then kmemcpy d s len m = (if r = 0 then Some m else None)
      else kmemcpy d s len m = Some (copied m d s (max (32 * k) (32 * (k - 1) + 4 * r)))) \<and>
    (if k = 0 then kbfill d c len m = (if r = 0 then Some m else None)
      else kbfill d c len m = Some (filled m d c (max (32 * k) (32 * (k - 1) + 4 * r))))"
proof (cases "k = 0")
  case True
  then show ?thesis using assms by (simp add: kmemcpy_def kbfill_def Let_def long_simps)
next
  case False
  obtain j where k: "k = Suc j" using False not0_implies_Suc by blast
  have q: "len div 32 = k" "len - k * 32 = r" using assms by simp_all
  have g: "copy_groups k d s m = copied m d s (k * 32)"
    using assms by (intro copy_groups_copied) auto
  have t: "copy_longs r (d + 32 * j) (s + 32 * j) m' = copied m' (d + 32 * j) (s + 32 * j) (4 * r)" for m'
    using assms k by (intro copy_longs_copied) auto
  have "copied (copied m d s (k * 32)) (d + 32 * j) (s + 32 * j) (4 * r)
      = copied m d s (max (32 * k) (32 * j + 4 * r))"
  proof
    fix a
    show "copied (copied m d s (k * 32)) (d + 32 * j) (s + 32 * j) (4 * r) a
      = copied m d s (max (32 * k) (32 * j + 4 * r)) a"
      using assms k by (auto simp: copied_def max_def)
  qed
  moreover have "filled (filled m d c (k * 32)) (d + 32 * j) c (4 * r)
      = filled m d c (max (32 * k) (32 * j + 4 * r))"
    using k by (intro ext) (auto simp: filled_def max_def)
  moreover have "k - 1 = j" using k by simp
  ultimately show ?thesis
    using False q g t
    by (simp add: kmemcpy_def kbfill_def Let_def long_simps fill_groups_filled fill_longs_filled)
qed

theorem kmemcpy_kbfill_witness:
  "kmemcpy 0 4096 68 mem1 = Some (copied mem1 0 4096 64) \<and>
   kbfill 0 5 100 mem1 = Some (filled mem1 0 5 96) \<and> kmemcpy 0 4096 8 mem1 = None"
  using kmemcpy_kbfill_extent [of 68 2 4 0 4096 mem1 5]
    kmemcpy_kbfill_extent [of 100 3 4 0 4096 mem1 5]
    kmemcpy_kbfill_extent [of 8 0 8 0 4096 mem1 5] by simp

text \<open>
  The kernel's bounded string copy stores at most \<open>len\<close> bytes, always terminates the
  destination, and returns the number of characters copied.
\<close>

theorem kstrncpy_bounded:
  assumes "cstr m s xs" "d < s \<or> s + length xs < d" "1 \<le> len"
  shows "\<exists>m'. kstrncpy d s len m = Some (min (length xs) (nat len - 1), m') \<and>
    cstr m' d (take (nat len - 1) xs) \<and>
    (\<forall>a. a < d \<or> d + nat len \<le> a \<longrightarrow> m' a = m a)"
proof -
  let ?k = "min (length xs) (nat len - 1)"
  let ?m = "(copied m d s ?k)(d + ?k := 0)"
  have r: "kstrncpy d s len m = Some (?k, ?m)"
    using kstrncpy_loop_copied [OF assms, of 0] by (simp add: kstrncpy_def)
  have "cstr ?m d (take j xs)" if "j \<le> length xs" "\<And>i. i < j \<Longrightarrow> ?m (d + i) = xs ! i"
    "?m (d + j) = 0" for j
    using that cstr_no_zero [OF assms(1)] by (intro cstr_of_nth) (auto dest: in_set_takeD)
  moreover have "?m (d + i) = xs ! i" if "i < ?k" for i
    using that cstr_nth [OF assms(1), of i] by (auto simp: copied_def)
  moreover have "take ?k xs = take (nat len - 1) xs" by (simp add: min_def)
  ultimately have "cstr ?m d (take (nat len - 1) xs)" by (metis fun_upd_same min.cobounded1)
  moreover have "\<forall>a. a < d \<or> d + nat len \<le> a \<longrightarrow> ?m a = m a"
    using assms(3) by (auto simp: copied_def)
  ultimately show ?thesis using r by blast
qed

theorem kstrncpy_bounded_witness:
  "\<exists>m'. kstrncpy 20 1 3 mem1 = Some (min (length [97, 98, 99 :: u8]) (nat 3 - 1), m') \<and>
    cstr m' 20 (take (nat 3 - 1) [97, 98, 99]) \<and>
    (\<forall>a. a < 20 \<or> 20 + nat 3 \<le> a \<longrightarrow> m' a = mem1 a)"
  by (rule kstrncpy_bounded [OF mem1_strings(1)]) simp_all

end
