(* ===== verification/Kprint.thy ===== *)
theory Kprint
  imports Kmem Trix
begin

text \<open>
  Console formatting and bitmap search, second part of \<^verbatim>\<open>kern/util.c\<close>: the four number
  conversions, the in-place tokenizer, \<open>kprintf\<close> and \<open>bfindzerol\<close>.  Conversions write into a
  buffer in memory from its end; the console is the list of bytes it was given.  The main results:
  the conversions store exactly the digits of the number, which read back as the number.
\<close>

section \<open>Number conversion\<close>

definition ltoxtab :: "u8 list" where
  "ltoxtab = [48, 49, 50, 51, 52, 53, 54, 55, 56, 57, 97, 98, 99, 100, 101, 102]"

definition zeroabs :: "u32 \<Rightarrow> u32" where
  "zeroabs a = (a XOR signed_drop_bit 31 a) - signed_drop_bit 31 a"

function xn_loop :: "u32 \<Rightarrow> nat \<Rightarrow> nat \<Rightarrow> mem \<Rightarrow> nat \<times> mem" where
  "xn_loop uval buf l m =
     (let byte = uval AND 0xf;
          l = l - 1;
          uval' = drop_bit 4 uval;
          m = m(buf + l := ltoxtab ! unat byte)
      in if uval' \<noteq> 0 then xn_loop uval' buf l m else (l, m))"
  by pat_completeness auto
termination
  by (relation "measure (\<lambda>(uval, buf, l, m). unat uval)")
    (auto simp: unat_drop_bit_div unat_gt_0 word_unat_eq_iff div_eq_0_iff)

lemma divu10_less: "divu10 u \<noteq> 0 \<Longrightarrow> unat (divu10 u) < unat u"
  by (simp add: divu10_exact word_unat_eq_iff div_eq_0_iff)

function dn_loop :: "u32 \<Rightarrow> nat \<Rightarrow> nat \<Rightarrow> mem \<Rightarrow> nat \<times> mem" where
  "dn_loop uval buf l m =
     (let tmp = divu10 uval;
          l = l - 1;
          byte = uval - 10 * tmp;
          m = m(buf + l := ltoxtab ! unat byte)
      in if tmp \<noteq> 0 then dn_loop tmp buf l m else (l, m))"
  by pat_completeness auto
termination
  by (relation "measure (\<lambda>(uval, buf, l, m). unat uval)") (auto simp: divu10_less)

declare xn_loop.simps [simp del] dn_loop.simps [simp del]

definition ultoxn :: "u32 \<Rightarrow> nat \<Rightarrow> nat \<Rightarrow> mem \<Rightarrow> nat \<times> mem" where
  "ultoxn uval buf len m =
     (let l = len - 1; m = m(buf + l := 0) in xn_loop uval buf l m)"

definition ultodn :: "u32 \<Rightarrow> nat \<Rightarrow> nat \<Rightarrow> mem \<Rightarrow> nat \<times> mem" where
  "ultodn uval buf len m =
     (let l = len - 1; m = m(buf + l := 0) in dn_loop uval buf l m)"

definition ltoxn :: "u32 \<Rightarrow> nat \<Rightarrow> nat \<Rightarrow> mem \<Rightarrow> nat \<times> mem" where
  "ltoxn val buf len m =
     (let uval = zeroabs val;
          l = len - 1;
          sign = val <s 0;
          m = m(buf + l := 0);
          (l, m) = xn_loop uval buf l m
      in if sign then (l - 1, m(buf + (l - 1) := 45)) else (l, m))"

definition ltodn :: "u32 \<Rightarrow> nat \<Rightarrow> nat \<Rightarrow> mem \<Rightarrow> nat \<times> mem" where
  "ltodn val buf len m =
     (let uval = zeroabs val;
          l = len - 1;
          sign = val <s 0;
          m = m(buf + l := 0);
          (l, m) = dn_loop uval buf l m
      in if sign then (l - 1, m(buf + (l - 1) := 45)) else (l, m))"

section \<open>What conversions have to give\<close>

function digits :: "nat \<Rightarrow> nat \<Rightarrow> u8 list" where
  "digits b n =
     (if b < 2 \<or> n div b = 0 then [ltoxtab ! (n mod b)]
      else digits b (n div b) @ [ltoxtab ! (n mod b)])"
  by pat_completeness auto
termination
  by (relation "measure (\<lambda>(b, n). n)") (auto simp: div_eq_0_iff)

declare digits.simps [simp del]

definition digit_val :: "u8 \<Rightarrow> nat" where
  "digit_val c = (if 97 \<le> c then unat c - 87 else unat c - 48)"

definition number_val :: "nat \<Rightarrow> u8 list \<Rightarrow> nat" where
  "number_val b ds = foldl (\<lambda>v d. b * v + digit_val d) 0 ds"

lemma ltoxtab_val: "d < 16 \<Longrightarrow> digit_val (ltoxtab ! d) = d \<and> ltoxtab ! d \<noteq> 0"
proof -
  have "\<forall>d\<in>set [0..<16]. digit_val (ltoxtab ! d) = d \<and> ltoxtab ! d \<noteq> 0"
    by code_simp
  then show "d < 16 \<Longrightarrow> ?thesis" by simp
qed

lemma digits_val: "2 \<le> b \<Longrightarrow> b \<le> 16 \<Longrightarrow> number_val b (digits b n) = n"
proof (induction b n rule: digits.induct)
  case (1 b n)
  have d: "digit_val (ltoxtab ! (n mod b)) = n mod b"
    using 1(2,3) by (intro conjunct1 [OF ltoxtab_val]) (meson less_le_trans mod_less_divisor zero_less_numeral order.strict_trans2)
  show ?case
  proof (cases "n div b = 0")
    case True
    then show ?thesis using d 1(2) by (subst digits.simps) (auto simp: number_val_def div_eq_0_iff)
  next
    case False
    then show ?thesis
      using 1 d by (subst digits.simps) (simp add: number_val_def)
  qed
qed

text \<open>Both loops compute the same function of the radix.\<close>

function num_loop :: "nat \<Rightarrow> nat \<Rightarrow> nat \<Rightarrow> nat \<Rightarrow> mem \<Rightarrow> nat \<times> mem" where
  "num_loop b n buf l m =
     (let l = l - 1; m = m(buf + l := ltoxtab ! (n mod b))
      in if b < 2 \<or> n div b = 0 then (l, m) else num_loop b (n div b) buf l m)"
  by pat_completeness auto
termination
  by (relation "measure (\<lambda>(b, n, buf, l, m). n)") (auto simp: div_eq_0_iff)

declare num_loop.simps [simp del]

lemma xn_loop_num: "xn_loop u buf l m = num_loop 16 (unat u) buf l m"
proof (induction u buf l m rule: xn_loop.induct)
  case (1 u buf l m)
  have d: "unat (drop_bit 4 u) = unat u div 16" "unat (u AND 0xf) = unat u mod 16"
    using unat_and_mask [of u 4] by (simp_all add: unat_drop_bit_div mask_eq_exp_minus_1)
  then have z: "drop_bit 4 u = 0 \<longleftrightarrow> unat u div 16 = 0" by (metis unat_eq_0)
  have ih: "drop_bit 4 u \<noteq> 0 \<Longrightarrow>
      xn_loop (drop_bit 4 u) buf (l - 1) (m(buf + (l - 1) := ltoxtab ! unat (u AND 0xf)))
      = num_loop 16 (unat (drop_bit 4 u)) buf (l - 1) (m(buf + (l - 1) := ltoxtab ! unat (u AND 0xf)))"
    by (rule 1 [OF refl refl refl refl])
  show ?case
    by (subst xn_loop.simps, subst num_loop.simps) (use ih in \<open>simp add: Let_def d z\<close>)
qed

lemma dn_loop_num: "dn_loop u buf l m = num_loop 10 (unat u) buf l m"
proof (induction u buf l m rule: dn_loop.induct)
  case (1 u buf l m)
  have d: "unat (divu10 u) = unat u div 10" "unat (u - 10 * divu10 u) = unat u mod 10"
    using divu10_exact [of u] quotient_rest [OF divu10_exact [of u], of 10]
    by (simp_all add: mult.commute)
  then have z: "divu10 u = 0 \<longleftrightarrow> unat u div 10 = 0" by (metis unat_eq_0)
  have ih: "divu10 u \<noteq> 0 \<Longrightarrow>
      dn_loop (divu10 u) buf (l - 1) (m(buf + (l - 1) := ltoxtab ! unat (u - 10 * divu10 u)))
      = num_loop 10 (unat (divu10 u)) buf (l - 1) (m(buf + (l - 1) := ltoxtab ! unat (u - 10 * divu10 u)))"
    by (rule 1 [OF refl refl refl refl])
  show ?case
    by (subst dn_loop.simps, subst num_loop.simps) (use ih in \<open>simp add: Let_def d z\<close>)
qed

lemma num_loop_digits:
  "2 \<le> b \<Longrightarrow> length (digits b n) \<le> l \<Longrightarrow> num_loop b n buf l m = (l', m') \<Longrightarrow>
    l' + length (digits b n) = l \<and> block m' (buf + l') (length (digits b n)) = digits b n \<and>
    (\<forall>a. a < buf + l' \<or> buf + l \<le> a \<longrightarrow> m' a = m a)"
proof (induction b n arbitrary: l m rule: digits.induct)
  case (1 b n)
  let ?c = "ltoxtab ! (n mod b)"
  show ?case
  proof (cases "n div b = 0")
    case True
    have d: "digits b n = [?c]" using True by (subst digits.simps) simp
    have "num_loop b n buf l m = (l - 1, m(buf + (l - 1) := ?c))"
      using True by (subst num_loop.simps) (simp add: Let_def)
    then show ?thesis using 1(3,4) d by auto
  next
    case False
    define m1 where "m1 = m(buf + (l - 1) := ?c)"
    have d: "digits b n = digits b (n div b) @ [?c]"
      using False 1(2) by (subst digits.simps) simp
    have s: "num_loop b (n div b) buf (l - 1) m1 = (l', m')"
      using 1(2,4) False unfolding m1_def by (subst (asm) num_loop.simps) (simp add: Let_def)
    have ih: "l' + length (digits b (n div b)) = l - 1"
      "block m' (buf + l') (length (digits b (n div b))) = digits b (n div b)"
      "\<forall>a. a < buf + l' \<or> buf + (l - 1) \<le> a \<longrightarrow> m' a = m1 a"
      using 1(1) [of "l - 1" m1] False 1(2,3) s d by auto
    have "m' (buf + (l - 1)) = ?c" using ih(3) by (simp add: m1_def)
    then have "block m' (buf + l') (length (digits b (n div b)) + 1) = digits b n"
      using ih(1,2) d block_append [of m' "buf + l'" "length (digits b (n div b))" 1]
      by (simp add: add.assoc)
    moreover have "\<forall>a. a < buf + l' \<or> buf + l \<le> a \<longrightarrow> m' a = m a"
      using ih(1,3) 1(3) d by (auto simp: m1_def)
    ultimately show ?thesis using ih(1) d 1(3) by simp
  qed
qed

lemma digits_length: "2 \<le> b \<Longrightarrow> n < b ^ k \<Longrightarrow> 0 < k \<Longrightarrow> length (digits b n) \<le> k"
proof (induction k arbitrary: n)
  case (Suc k)
  show ?case
  proof (cases "n div b = 0")
    case True
    then show ?thesis by (subst digits.simps) simp
  next
    case False
    have "n div b < b ^ k" using Suc.prems by (simp add: less_mult_imp_div_less mult.commute)
    moreover have "k \<noteq> 0" using False Suc.prems calculation by (cases k) auto
    ultimately show ?thesis using Suc.IH [of "n div b"] Suc.prems False
      by (subst digits.simps) simp
  qed
qed simp

lemma digits_nonzero: "2 \<le> b \<Longrightarrow> b \<le> 16 \<Longrightarrow> 0 \<notin> set (digits b n)"
proof (induction b n rule: digits.induct)
  case (1 b n)
  have "n mod b < 16" using 1(2,3) by (meson less_le_trans mod_less_divisor order.strict_trans2 zero_less_numeral)
  then have "ltoxtab ! (n mod b) \<noteq> 0" using ltoxtab_val by blast
  then show ?case using 1 by (subst digits.simps) auto
qed

lemma block_cstr: "block m p (length xs) = xs \<Longrightarrow> m (p + length xs) = 0 \<Longrightarrow> 0 \<notin> set xs \<Longrightarrow> cstr m p xs"
proof (induction xs arbitrary: p)
  case (Cons x xs)
  then show ?case using Cons.IH [of "Suc p"] by auto
qed simp

lemma zeroabs_abs: "unat (zeroabs a) = nat \<bar>sint a\<bar>"
proof (cases "sint a < 0")
  case True
  have "signed_drop_bit 31 a = - 1"
  proof (rule bit_word_eqI)
    fix n assume "n < LENGTH(32)"
    have "bit a 31" using True bit_last_iff [of a] by simp
    then show "bit (signed_drop_bit 31 a) n = bit (- 1 :: u32) n"
      using \<open>n < LENGTH(32)\<close> by (cases n) (auto simp: bit_signed_drop_bit_iff min_def)
  qed
  then have z: "zeroabs a = - a" by (simp add: zeroabs_def not_eq_complement)
  have r: "- 2147483648 \<le> sint a" using sint_greater_eq [of a] by simp
  have "- a = of_nat (nat (- sint a))" using True by (simp add: of_nat_nat)
  then have "unat (- a) = nat (- sint a) mod 4294967296" by (simp add: unat_of_nat)
  also have "\<dots> = nat (- sint a)" using r True by (intro mod_less) linarith
  finally show ?thesis using z True by simp
next
  case False
  have "signed_drop_bit 31 a = 0"
  proof (rule bit_word_eqI)
    fix n assume "n < LENGTH(32)"
    have "\<not> bit a 31" using False bit_last_iff [of a] by simp
    then show "bit (signed_drop_bit 31 a) n = bit (0 :: u32) n"
      using \<open>n < LENGTH(32)\<close> by (cases n) (auto simp: bit_signed_drop_bit_iff min_def)
  qed
  then have z: "zeroabs a = a" by (simp add: zeroabs_def)
  have "a = of_nat (nat (sint a))" using False by (simp add: of_nat_nat)
  then have "unat a = nat (sint a) mod 2 ^ LENGTH(32)" by (metis unat_of_nat)
  moreover have "nat (sint a) < 2 ^ LENGTH(32)" using sint_less [of a] by simp
  ultimately show ?thesis using z False by simp
qed

text \<open>The text of a number, with its sign.\<close>

definition sdec :: "u32 \<Rightarrow> u8 list" where
  "sdec v = (if sint v < 0 then [45] else []) @ digits 10 (nat \<bar>sint v\<bar>)"

definition shex :: "u32 \<Rightarrow> u8 list" where
  "shex v = (if sint v < 0 then [45] else []) @ digits 16 (nat \<bar>sint v\<bar>)"

lemma digits_u32_length: "length (digits 10 (unat (u :: u32))) \<le> 10" "length (digits 16 (unat u)) \<le> 10"
  using digits_length [of 10 "unat u" 10] digits_length [of 16 "unat u" 10] unat_u32_bound [of u]
  by simp_all

lemma num_loop_cstr:
  assumes "2 \<le> b" "b \<le> 16" "length (digits b n) \<le> l" "m (buf + l) = 0"
    "num_loop b n buf l m = (l', m')"
  shows "cstr m' (buf + l') (digits b n) \<and> l' + length (digits b n) = l \<and>
    (\<forall>a. a < buf + l' \<or> buf + l \<le> a \<longrightarrow> m' a = m a)"
proof -
  note d = num_loop_digits [OF assms(1,3,5)]
  then have e: "buf + l' + length (digits b n) = buf + l" by simp
  have "m' (buf + l) = 0" using d assms(4) by simp
  then have "cstr m' (buf + l') (digits b n)"
    using d e digits_nonzero [OF assms(1,2)] by (intro block_cstr) (auto simp: add.assoc)
  then show ?thesis using d by blast
qed

lemma cstr_cons_upd: "cstr m (Suc p) xs \<Longrightarrow> c \<noteq> 0 \<Longrightarrow> cstr (m(p := c)) p (c # xs)"
  using cstr_upd_outside [of m "Suc p" xs p c] by simp

section \<open>Formatted output\<close>

text \<open>
  \<open>kprintf\<close> on the bytes of the format and of its arguments.  A missing argument, or one of the
  wrong kind, is \<open>None\<close>; a null string argument is \<open>KStr None\<close>.  The flags of one directive:
\<close>

datatype karg = KStr "u8 list option" | KWord u32

record kflags =
  isch :: bool
  isdec :: bool
  ishex :: bool
  isuns :: bool
  kval :: u32
  kuval :: u32

definition kflags0 :: kflags where
  "kflags0 = \<lparr>isch = False, isdec = False, ishex = False, isuns = False, kval = 0, kuval = 0\<rparr>"

definition va_word :: "karg list \<Rightarrow> (u32 \<times> karg list) option" where
  "va_word args = (case args of KWord w # as \<Rightarrow> Some (w, as) | _ \<Rightarrow> None)"

definition va_str :: "karg list \<Rightarrow> (u8 list option \<times> karg list) option" where
  "va_str args = (case args of KStr p # as \<Rightarrow> Some (p, as) | _ \<Rightarrow> None)"

definition skip_d :: "u8 list \<Rightarrow> u8 list" where
  "skip_d rest = (case rest of c # cs \<Rightarrow> if c = 100 then cs else rest | [] \<Rightarrow> [])"

definition sext8 :: "u32 \<Rightarrow> u32" where "sext8 w = scast (ucast w :: u8)"
definition sext16 :: "u32 \<Rightarrow> u32" where "sext16 w = scast (ucast w :: u16)"

text \<open>
  What one directive does: \<open>KReturn\<close> is the early return on \<open>%u\<close> at the end; otherwise the bytes
  already written, the flags, and the rest of the format and arguments.
\<close>

datatype kdir = KReturn | KDir "u8 list" kflags "u8 list" "karg list"

definition kdirective :: "u8 \<Rightarrow> u8 list \<Rightarrow> karg list \<Rightarrow> kdir option" where
  "kdirective c rest args =
     (if c = 115 then
        map_option (\<lambda>(p, as). KDir (case p of None \<Rightarrow> [] | Some t \<Rightarrow> t) kflags0 rest as) (va_str args)
      else if c = 99 then
        map_option (\<lambda>(w, as). KDir [] (kflags0\<lparr>isch := True, kval := sext8 w\<rparr>) rest as) (va_word args)
      else if c = 104 then
        map_option (\<lambda>(w, as). KDir [] (kflags0\<lparr>isdec := True, kval := sext16 w\<rparr>) rest as) (va_word args)
      else if c = 100 then
        map_option (\<lambda>(w, as). KDir [] (kflags0\<lparr>isdec := True, kval := w\<rparr>) rest as) (va_word args)
      else if c = 112 then
        map_option (\<lambda>(w, as). KDir [] (kflags0\<lparr>isdec := True, ishex := True, isuns := True, kuval := w\<rparr>)
          (skip_d rest) as) (va_word args)
      else if c = 108 then
        (if rest \<noteq> [] \<and> (hd rest = 120 \<or> hd rest = 117)
         then map_option (\<lambda>(w, as). KDir []
                (kflags0\<lparr>isdec := True, ishex := (hd rest = 120), isuns := True, kuval := w\<rparr>)
                (skip_d (tl rest)) as) (va_word args)
         else map_option (\<lambda>(w, as). KDir [] (kflags0\<lparr>isdec := True, kval := w\<rparr>) (skip_d rest) as)
                (va_word args))
      else if c = 120 then
        map_option (\<lambda>(w, as). KDir [] (kflags0\<lparr>ishex := True, isuns := True, kuval := w\<rparr>) rest as)
          (va_word args)
      else if c = 117 then
        (case rest of
           [] \<Rightarrow> Some KReturn
         | u # rest \<Rightarrow>
             if u = 99 then
               map_option (\<lambda>(w, as). KDir []
                 (kflags0\<lparr>isuns := True, isch := True, kuval := sext8 w\<rparr>) rest as) (va_word args)
             else if u = 104 then
               map_option (\<lambda>(w, as). KDir []
                 (kflags0\<lparr>isuns := True, isdec := True, kuval := sext16 w\<rparr>) rest as) (va_word args)
             else if u = 100 \<or> u = 108 then
               map_option (\<lambda>(w, as). KDir []
                 (kflags0\<lparr>isuns := True, isdec := True, kuval := w\<rparr>) rest as) (va_word args)
             else Some (KDir [] (kflags0\<lparr>isuns := True\<rparr>) rest args))
      else Some (KDir [] kflags0 (c # rest) args))"

definition LONGLONGBUFSIZE :: nat where "LONGLONGBUFSIZE = 32"

text \<open>The string \<open>&buf[l]\<close> after a conversion.\<close>

definition conv_text :: "nat \<times> mem \<Rightarrow> u8 list" where
  "conv_text r = takeWhile (\<lambda>c. c \<noteq> 0) (block (snd r) (fst r) LONGLONGBUFSIZE)"

definition isprintascii :: "u32 \<Rightarrow> bool" where
  "isprintascii c = (0x20 \<le>s c \<and> c <s 0x7f)"

definition kemit :: "kflags \<Rightarrow> u8 list" where
  "kemit f =
     (if isuns f
      then if ishex f then conv_text (ultoxn (kuval f) 0 LONGLONGBUFSIZE (\<lambda>_. 0))
           else if isdec f then conv_text (ultodn (kuval f) 0 LONGLONGBUFSIZE (\<lambda>_. 0))
           else if isch f \<and> isprintascii (kval f) then [ucast (kuval f)]
           else [32]
      else if ishex f then conv_text (ltoxn (kval f) 0 LONGLONGBUFSIZE (\<lambda>_. 0))
           else if isdec f then conv_text (ltodn (kval f) 0 LONGLONGBUFSIZE (\<lambda>_. 0))
           else if isch f \<and> isprintascii (kval f) then [ucast (kval f)]
           else [32])"

lemma skip_d_length: "length (skip_d xs) \<le> length xs"
  by (simp add: skip_d_def split: list.split)

lemma kdirective_length: "kdirective c rest args = Some (KDir t f rest' as) \<Longrightarrow> length rest' \<le> Suc (length rest)"
  using skip_d_length [of rest] skip_d_length [of "tl rest"]
  by (auto simp: kdirective_def split: if_splits list.splits)

function kprintf_loop :: "u8 list \<Rightarrow> karg list \<Rightarrow> u8 list option" where
  "kprintf_loop str args =
     (if str = [] then Some []
      else let lit = takeWhile (\<lambda>c. c \<noteq> 37) str; arg = dropWhile (\<lambda>c. c \<noteq> 37) str
      in if arg = [] then Some str
         else case tl arg of
                [] \<Rightarrow> Some lit
              | c # rest \<Rightarrow>
                  (case kdirective c rest args of
                     None \<Rightarrow> None
                   | Some KReturn \<Rightarrow> Some lit
                   | Some (KDir t f rest' as) \<Rightarrow>
                       map_option (\<lambda>out. lit @ t @ kemit f @ out) (kprintf_loop rest' as)))"
  by pat_completeness auto
termination
proof (relation "measure (\<lambda>(str, args). length str)")
  fix str :: "u8 list" and args lit arg c rest d t f rest' as
  assume arg: "arg = dropWhile (\<lambda>c. c \<noteq> 37) str" "tl arg = c # rest"
    and d: "kdirective c rest args = Some d" "d = KDir t f rest' as"
  have "length rest' \<le> Suc (length rest)" using kdirective_length d by blast
  also have "\<dots> < length arg" using arg(2) by (cases arg) auto
  also have "\<dots> \<le> length str" unfolding arg(1) by (rule length_dropWhile_le)
  finally show "((rest', as), (str, args)) \<in> measure (\<lambda>(str, args). length str)" by simp
qed simp

declare kprintf_loop.simps [simp del]

definition MAXPRINTFSTR :: nat where "MAXPRINTFSTR = 2048"

definition kprintf :: "u8 list \<Rightarrow> karg list \<Rightarrow> u8 list option" where
  "kprintf fmt args = kprintf_loop (take (MAXPRINTFSTR - 2) fmt) args"

section \<open>Correctness of the conversions\<close>

text \<open>
  The result of a conversion: the text with its terminator fills the last bytes of the buffer, and no
  other byte of the memory is changed.
\<close>

definition stored :: "u8 list \<Rightarrow> nat \<Rightarrow> nat \<Rightarrow> mem \<Rightarrow> nat \<times> mem \<Rightarrow> bool" where
  "stored txt buf len m = (\<lambda>(l, m'). l + length txt + 1 = len \<and> cstr m' (buf + l) txt \<and>
     (\<forall>a. a < buf + l \<or> buf + len \<le> a \<longrightarrow> m' a = m a))"

lemma unsigned_text:
  assumes "11 \<le> len" "b = 10 \<or> b = 16"
    "num_loop b (unat (u :: u32)) buf (len - 1) (m(buf + (len - 1) := 0)) = (l, m')"
  shows "cstr m' (buf + l) (digits b (unat u)) \<and> l + length (digits b (unat u)) + 1 = len \<and> len \<le> l + 11 \<and>
    (\<forall>a. a < buf + l \<or> buf + len \<le> a \<longrightarrow> m' a = m a)"
proof -
  have b: "2 \<le> b" "b \<le> 16" "length (digits b (unat u)) \<le> 10"
    using assms(2) digits_u32_length [of u] by auto
  have "length (digits b (unat u)) \<le> len - 1" using b assms(1) by simp
  from num_loop_cstr [OF b(1,2) this _ assms(3)]
  have c: "cstr m' (buf + l) (digits b (unat u))" "l + length (digits b (unat u)) = len - 1"
    "\<forall>a. a < buf + l \<or> buf + (len - 1) \<le> a \<longrightarrow> m' a = (m(buf + (len - 1) := 0)) a"
    by auto
  have "\<forall>a. a < buf + l \<or> buf + len \<le> a \<longrightarrow> m' a = m a"
    using c(2,3) assms(1) by auto
  then show ?thesis using c b assms(1) by auto
qed

lemma ultodn_text: "11 \<le> len \<Longrightarrow> stored (digits 10 (unat u)) buf len m (ultodn u buf len m)"
  using unsigned_text [of len 10 u buf m] by (auto simp: stored_def ultodn_def dn_loop_num Let_def split: prod.splits)

lemma ultoxn_text: "11 \<le> len \<Longrightarrow> stored (digits 16 (unat u)) buf len m (ultoxn u buf len m)"
  using unsigned_text [of len 16 u buf m] by (auto simp: stored_def ultoxn_def xn_loop_num Let_def split: prod.splits)

lemma signed_text:
  assumes "12 \<le> len" "b = 10 \<or> b = 16"
    "num_loop b (unat (zeroabs v)) buf (len - 1) (m(buf + (len - 1) := 0)) = (k, m1)"
    "(if v <s 0 then (k - 1, m1(buf + (k - 1) := 45)) else (k, m1)) = (l, m')"
  shows "stored ((if sint v < 0 then [45] else []) @ digits b (nat \<bar>sint v\<bar>)) buf len m (l, m')"
proof -
  have u: "cstr m1 (buf + k) (digits b (nat \<bar>sint v\<bar>))" "k + length (digits b (nat \<bar>sint v\<bar>)) + 1 = len" "len \<le> k + 11"
    "\<forall>a. a < buf + k \<or> buf + len \<le> a \<longrightarrow> m1 a = m a"
    using unsigned_text [OF _ assms(2,3)] assms(1) by (auto simp: zeroabs_abs)
  have s: "v <s 0 \<longleftrightarrow> sint v < 0" by (simp add: word_sless_alt)
  show ?thesis
  proof (cases "sint v < 0")
    case True
    have l: "l = k - 1" "m' = m1(buf + (k - 1) := 45)" using assms(4) True s by auto
    have "Suc (buf + (k - 1)) = buf + k" using u(3) assms(1) by simp
    then have "cstr m' (buf + l) (45 # digits b (nat \<bar>sint v\<bar>))"
      unfolding l using u(1) by (intro cstr_cons_upd) simp_all
    moreover have "\<forall>a. a < buf + l \<or> buf + len \<le> a \<longrightarrow> m' a = m a"
      using u l assms(1) by auto
    moreover have "l + 1 = k" using l(1) u(3) assms(1) by simp
    ultimately show ?thesis using True u(2) by (simp add: stored_def)
  next
    case False
    then show ?thesis using assms(4) s u by (auto simp: stored_def)
  qed
qed

lemma ltodn_text: "12 \<le> len \<Longrightarrow> stored (sdec v) buf len m (ltodn v buf len m)"
  using signed_text [of len 10 v buf m]
  by (auto simp: ltodn_def dn_loop_num Let_def sdec_def split: prod.splits)

lemma ltoxn_text: "12 \<le> len \<Longrightarrow> stored (shex v) buf len m (ltoxn v buf len m)"
  using signed_text [of len 16 v buf m]
  by (auto simp: ltoxn_def xn_loop_num Let_def shex_def split: prod.splits)

lemma cstr_takeWhile: "cstr m p xs \<Longrightarrow> length xs < n \<Longrightarrow> takeWhile (\<lambda>c. c \<noteq> 0) (block m p n) = xs"
proof (induction xs arbitrary: p n)
  case Nil
  then show ?case by (cases n) auto
next
  case (Cons x xs)
  then show ?case by (cases n) auto
qed

lemma stored_text:
  assumes "stored txt 0 LONGLONGBUFSIZE m r"
  shows "conv_text r = txt"
proof (cases r)
  case (Pair l m')
  then have "cstr m' l txt" "length txt < LONGLONGBUFSIZE" using assms by (auto simp: stored_def)
  then show ?thesis using cstr_takeWhile by (simp add: conv_text_def Pair)
qed

lemma kemit_numbers:
  "kemit (kflags0\<lparr>isdec := True, kval := w\<rparr>) = sdec w"
  "kemit (kflags0\<lparr>isuns := True, isdec := True, kuval := w\<rparr>) = digits 10 (unat w)"
  "kemit (kflags0\<lparr>ishex := True, isuns := True, kuval := w\<rparr>) = digits 16 (unat w)"
  using stored_text [OF ltodn_text, of w "\<lambda>_. 0"] stored_text [OF ultodn_text, of w "\<lambda>_. 0"]
    stored_text [OF ultoxn_text, of w "\<lambda>_. 0"] by (simp_all add: kemit_def kflags0_def LONGLONGBUFSIZE_def)

lemma kprintf_loop_lit:
  assumes "37 \<notin> set s" "kdirective c rest args = Some (KDir t f rest' as)"
  shows "kprintf_loop (s @ 37 # c # rest) args
    = map_option (\<lambda>out. s @ t @ kemit f @ out) (kprintf_loop rest' as)"
proof -
  have "takeWhile (\<lambda>c. c \<noteq> 37) (s @ 37 # c # rest) = s"
    "dropWhile (\<lambda>c. c \<noteq> 37) (s @ 37 # c # rest) = 37 # c # rest"
    using assms(1) by (induction s) auto
  then show ?thesis using assms(2) by (subst kprintf_loop.simps) (simp add: Let_def)
qed

section \<open>Bitmap search\<close>

text \<open>
  The bitmap is a table of longs; right shifts of the signed \<open>long\<close> copy the sign.  The loop
  over one bits ends at a zero bit; on a word of ones it would not.
\<close>

partial_function (option) ones_loop :: "u32 \<Rightarrow> int \<Rightarrow> int option" where
  "ones_loop val ofs =
     (if val AND 1 \<noteq> 0 then ones_loop (signed_drop_bit 1 val) (ofs + 1) else Some ofs)"

function bfind_words :: "(nat \<Rightarrow> u32) \<Rightarrow> nat \<Rightarrow> int \<Rightarrow> int \<Rightarrow> int option" where
  "bfind_words bmap ptr ofs nbit =
     (if ofs < nbit
      then let val = bmap ptr
           in if val = 0 then Some ofs
              else if val \<noteq> - 1
              then (case ones_loop val ofs of
                      None \<Rightarrow> None
                    | Some ofs \<Rightarrow> Some (if ofs < nbit then ofs else - 1))
              else bfind_words bmap (ptr + 1) (ofs + 32) nbit
      else Some (- 1))"
  by pat_completeness auto
termination
  by (relation "measure (\<lambda>(bmap, ptr, ofs, nbit). nat (nbit - ofs))") auto

declare bfind_words.simps [simp del]

definition bfindzerol :: "(nat \<Rightarrow> u32) \<Rightarrow> nat \<Rightarrow> int \<Rightarrow> int option" where
  "bfindzerol bmap ofs nbit =
     (let cnt = ofs mod 2 ^ (LONGSIZELOG2 + 3);
          ndx = ofs div 2 ^ (LONGSIZELOG2 + 3);
          nbit = nbit - int ofs
      in if nbit > 0
         then if cnt \<noteq> 0
              then let val = signed_drop_bit cnt (bmap ndx)
                   in if val \<noteq> - 1
                      then (case ones_loop val (int ofs) of
                              None \<Rightarrow> None
                            | Some ofs \<Rightarrow> Some (if ofs < nbit then ofs else - 1))
                      else bfind_words bmap (ndx + 1) (int ofs + (32 - int cnt)) nbit
              else bfind_words bmap ndx (int ofs) nbit
         else Some (- 1))"

definition bitmap_bit :: "(nat \<Rightarrow> u32) \<Rightarrow> nat \<Rightarrow> bool" where
  "bitmap_bit bmap i = bit (bmap (i div 32)) (i mod 32)"

lemma ones_loop_first_zero:
  "k < 32 \<Longrightarrow> \<not> bit val k \<Longrightarrow> \<forall>i<k. bit val i \<Longrightarrow> ones_loop val ofs = Some (ofs + int k)"
proof (induction k arbitrary: val ofs)
  case 0
  then show ?case by (subst ones_loop.simps) (auto simp: and_one_eq bit_0 even_iff_mod_2_eq_zero)
next
  case (Suc k)
  have "bit val 0" using Suc.prems(3) by blast
  then have o: "val AND 1 \<noteq> 0" by (simp add: and_one_eq bit_0 odd_iff_mod_2_eq_one)
  have b: "bit (signed_drop_bit 1 val) i = bit val (Suc i)" if "i < 31" for i
    using that by (auto simp: bit_signed_drop_bit_iff)
  have "ones_loop (signed_drop_bit 1 val) (ofs + 1) = Some (ofs + 1 + int k)"
    using Suc.prems b by (intro Suc.IH) auto
  then show ?case using o by (subst ones_loop.simps) simp
qed

lemma ones_loop_word:
  assumes "val \<noteq> - 1"
  shows "\<exists>k<32. ones_loop val ofs = Some (ofs + int k) \<and> \<not> bit val k \<and> (\<forall>i<k. bit val i)"
proof -
  have "\<exists>k. k < 32 \<and> \<not> bit val k" using assms by (auto simp: bit_eq_iff)
  then obtain k where k: "k < 32" "\<not> bit val k" "\<forall>i<k. \<not> (i < 32 \<and> \<not> bit val i)"
    using exists_least_iff [of "\<lambda>k. k < 32 \<and> \<not> bit val k"] by blast
  then show ?thesis using ones_loop_first_zero [of k val ofs] by (intro exI [of _ k]) auto
qed

text \<open>What a search from the start has to return.\<close>

definition first_zero :: "(nat \<Rightarrow> u32) \<Rightarrow> nat \<Rightarrow> int \<Rightarrow> bool" where
  "first_zero bmap nbit r \<longleftrightarrow>
     (if \<forall>i<nbit. bitmap_bit bmap i then r = - 1
      else \<exists>k<nbit. r = int k \<and> \<not> bitmap_bit bmap k \<and> (\<forall>i<k. bitmap_bit bmap i))"

lemma first_zero_hit:
  "\<not> bitmap_bit bmap k \<Longrightarrow> \<forall>i<k. bitmap_bit bmap i \<Longrightarrow>
    first_zero bmap nbit (if int k < int nbit then int k else - 1)"
  unfolding first_zero_def by auto

lemma bitmap_word: "i < 32 \<Longrightarrow> bitmap_bit bmap (32 * p + i) = bit (bmap p) i"
  by (simp add: bitmap_bit_def)

lemma bitmap_below:
  assumes "\<forall>i<32 * p. bitmap_bit bmap i" "\<forall>i<k. bit (bmap p) i" "k \<le> 32"
  shows "\<forall>i<32 * p + k. bitmap_bit bmap i"
proof (intro allI impI)
  fix i assume "i < 32 * p + k"
  then show "bitmap_bit bmap i"
    using assms bitmap_word [of "i - 32 * p" bmap p] by (cases "i < 32 * p") auto
qed

lemma bfind_words_first_zero:
  "ofs = int (32 * p) \<Longrightarrow> \<forall>i<32 * p. bitmap_bit bmap i \<Longrightarrow>
    \<exists>r. bfind_words bmap p ofs (int nbit) = Some r \<and> first_zero bmap nbit r"
proof (induction bmap p ofs "int nbit" rule: bfind_words.induct)
  case (1 bmap p ofs)
  consider "\<not> ofs < int nbit" | "ofs < int nbit" "bmap p \<noteq> - 1" | "ofs < int nbit" "bmap p = - 1"
    by blast
  then show ?case
  proof cases
    case 1
    then show ?thesis using \<open>ofs = _\<close> \<open>\<forall>i<32 * p. _\<close>
      by (subst bfind_words.simps) (auto simp: first_zero_def)
  next
    case 2
    obtain k where k: "k < 32" "ones_loop (bmap p) ofs = Some (ofs + int k)" "\<not> bit (bmap p) k"
      "\<forall>i<k. bit (bmap p) i"
      using ones_loop_word [OF 2(2)] by blast
    have "\<not> bitmap_bit bmap (32 * p + k)" "\<forall>i<32 * p + k. bitmap_bit bmap i"
      using k bitmap_word bitmap_below \<open>\<forall>i<32 * p. _\<close> by auto
    from first_zero_hit [OF this, of nbit]
    have f: "first_zero bmap nbit (if ofs + int k < int nbit then ofs + int k else - 1)"
      using \<open>ofs = _\<close> by (simp only: of_nat_add)
    have z: "k = 0" if "bmap p = 0"
      using k(4) that by (cases k) auto
    show ?thesis
    proof (cases "bmap p = 0")
      case True
      then show ?thesis using f z 2(1) by (subst bfind_words.simps) simp
    next
      case False
      then show ?thesis using f k(2) 2 by (subst bfind_words.simps) simp
    qed
  next
    case 3
    have "\<forall>i<32 * (p + 1). bitmap_bit bmap i"
      using bitmap_below [of p bmap 32] \<open>\<forall>i<32 * p. _\<close> 3(2) by (simp add: ac_simps)
    then have "\<exists>r. bfind_words bmap (p + 1) (ofs + 32) (int nbit) = Some r \<and> first_zero bmap nbit r"
      using "1.hyps" [OF 3(1) refl] 3(2) \<open>ofs = _\<close> by simp
    then show ?thesis using 3 by (subst bfind_words.simps) simp
  qed
qed

section \<open>Properties\<close>

text \<open>
  C37: the kernel's four number conversions store, in the last bytes of a buffer of at least twelve
  bytes, the sign and the decimal or hexadecimal digits of the number with a terminating zero, whose
  place is the last byte of the buffer; no other byte of the memory changes, and reading the digits
  gives the number back.
\<close>

theorem number_conversion_roundtrip:
  assumes "12 \<le> len"
  shows "stored ((if sint v < 0 then [45] else []) @ digits 10 (nat \<bar>sint v\<bar>)) buf len m (ltodn v buf len m) \<and>
    stored (digits 10 (unat v)) buf len m (ultodn v buf len m) \<and>
    stored (digits 16 (unat v)) buf len m (ultoxn v buf len m) \<and>
    stored ((if sint v < 0 then [45] else []) @ digits 16 (nat \<bar>sint v\<bar>)) buf len m (ltoxn v buf len m) \<and>
    number_val 10 (digits 10 n) = n \<and> number_val 16 (digits 16 n) = n"
  using ltodn_text [OF assms, of v buf m] ltoxn_text [OF assms, of v buf m] ultodn_text [of len v buf m]
    ultoxn_text [of len v buf m] assms by (simp add: sdec_def shex_def digits_val)

theorem number_conversion_witness: "stored [45, 52, 50] 0 32 (\<lambda>_. 0) (ltodn (- 42) 0 32 (\<lambda>_. 0))"
proof -
  have "digits 10 42 = [52, 50]"
    by (simp add: digits.simps [of 10] ltoxtab_def)
  then show ?thesis using number_conversion_roundtrip [of 32 "- 42" 0 "\<lambda>_. 0" 0] by simp
qed

text \<open>
  Formatted output copies literal text and prints \<open>%d\<close>, \<open>%ld\<close>, \<open>%lu\<close>, \<open>%x\<close> arguments
  as their digits; after the string of a \<open>%s\<close> it prints a blank the format does not ask for,
  and \<open>%uc\<close> prints a blank whatever its argument is.
\<close>

theorem kprintf_directives:
  assumes "37 \<notin> set s" "length s < 2000"
  shows "kprintf (s @ [37, 100]) [KWord w] = Some (s @ sdec w) \<and>
    kprintf (s @ [37, 108, 100]) [KWord w] = Some (s @ sdec w) \<and>
    kprintf (s @ [37, 108, 117]) [KWord w] = Some (s @ digits 10 (unat w)) \<and>
    kprintf (s @ [37, 120]) [KWord w] = Some (s @ digits 16 (unat w)) \<and>
    kprintf (s @ [37, 115]) [KStr (Some t)] = Some (s @ t @ [32]) \<and>
    kprintf (s @ [37, 117, 99]) [KWord w] = Some (s @ [32]) \<and>
    kprintf s as = Some s"
proof -
  have e: "kprintf_loop [] [] = Some []" by (subst kprintf_loop.simps) simp
  have t: "take (MAXPRINTFSTR - 2) (s @ x) = s @ x" if "length x \<le> 3" for x
    using assms(2) that by (simp add: MAXPRINTFSTR_def)
  have d: "takeWhile (\<lambda>c. c \<noteq> 37) s = s" "dropWhile (\<lambda>c. c \<noteq> 37) s = []"
    using assms(1) by (induction s) auto
  have k: "kprintf (s @ 37 # c # x) args = Some (s @ t @ kemit f)"
    if "kdirective c x args = Some (KDir t f [] [])" "length x \<le> 1" for c x args t f
    using kprintf_loop_lit [OF assms(1) that(1)] t [of "37 # c # x"] that(2)
    by (simp add: kprintf_def e)
  have f: "kemit (kflags0\<lparr>isdec := True, ishex := False, isuns := True, kuval := w\<rparr>)
      = digits 10 (unat w)"
    "kemit kflags0 = [32]" "kemit (kflags0\<lparr>isuns := True, isch := True, kuval := v\<rparr>) = [32]" for v
    using kemit_numbers(2) [of w]
    by (simp_all add: kemit_def kflags0_def isprintascii_def word_sle_eq)
  show ?thesis
  proof (intro conjI)
    show "kprintf (s @ [37, 100]) [KWord w] = Some (s @ sdec w)"
      using k [of 100 "[]" "[KWord w]"] by (simp add: kdirective_def va_word_def kemit_numbers)
    show "kprintf (s @ [37, 108, 100]) [KWord w] = Some (s @ sdec w)"
      using k [of 108 "[100]" "[KWord w]"]
      by (simp add: kdirective_def va_word_def skip_d_def kemit_numbers)
    show "kprintf (s @ [37, 108, 117]) [KWord w] = Some (s @ digits 10 (unat w))"
      using k [of 108 "[117]" "[KWord w]"]
      by (simp add: kdirective_def va_word_def skip_d_def f)
    show "kprintf (s @ [37, 120]) [KWord w] = Some (s @ digits 16 (unat w))"
      using k [of 120 "[]" "[KWord w]"] by (simp add: kdirective_def va_word_def kemit_numbers)
    show "kprintf (s @ [37, 115]) [KStr (Some t)] = Some (s @ t @ [32])"
      using k [of 115 "[]" "[KStr (Some t)]"] by (simp add: kdirective_def va_str_def f)
    show "kprintf (s @ [37, 117, 99]) [KWord w] = Some (s @ [32])"
      using k [of 117 "[99]" "[KWord w]"] by (simp add: kdirective_def va_word_def f)
    show "kprintf s as = Some s"
      using d t [of "[]"] unfolding kprintf_def by (subst kprintf_loop.simps) simp
  qed
qed

theorem kprintf_directives_witness:
  "kprintf ([120, 61] @ [37, 100]) [KWord 7] = Some [120, 61, 55]"
proof -
  have "sdec 7 = [55]" by (simp add: sdec_def digits.simps [of 10] ltoxtab_def)
  then show ?thesis using kprintf_directives [of "[120, 61]" 7] by simp
qed

text \<open>
  Searching a bitmap from its start returns the first zero bit below the bound, or -1 if the
  bound comes first.
\<close>

theorem bfindzerol_first_zero:
  "\<exists>r. bfindzerol bmap 0 (int nbit) = Some r \<and> first_zero bmap nbit r"
proof -
  have "bfindzerol bmap 0 (int nbit) = bfind_words bmap 0 0 (int nbit)"
    by (cases "nbit = 0") (simp_all add: bfindzerol_def Let_def bfind_words.simps [of _ _ _ 0])
  then show ?thesis using bfind_words_first_zero [of 0 0 bmap nbit] by simp
qed

text \<open>
  A search that starts past the first half of the bitmap never succeeds, since the bound is
  reduced by the offset and the offset is then compared with the reduced bound.
\<close>

theorem bfindzerol_offset_misses:
  assumes "ofs mod 32 = 0" "nbit \<le> 2 * int ofs"
  shows "bfindzerol bmap ofs nbit = Some (- 1)"
  using assms by (simp add: bfindzerol_def LONGSIZELOG2_def Let_def bfind_words.simps)

theorem bfindzerol_offset_witness: "bfindzerol (\<lambda>_. 0) 64 100 = Some (- 1)"
  by (rule bfindzerol_offset_misses) simp_all

end
