(* ===== verification/Randmt.thy ===== *)
theory Randmt
  imports Prelude
begin

text \<open>
  The two Mersenne Twister generators of the Zero library (usr/lib/zero/randmt32.c and
  usr/lib/zero/randmt64.c): seeding by a number, seeding by a key table, the refill of the state
  buffer with its loops unrolled so that no index is reduced modulo the buffer size, the tempering
  of an output, and the one-time initialisation of the mutex.  The theorems relate the generators
  to the defining recurrence of the Mersenne Twister.  \<open>unsigned long\<close> has 64 bits.
  The state buffer is a list; the mutex calls around the operations do not change it and are
  left out, except for the initialisation protocol, which has its own definition.
\<close>

section \<open>The 32-bit generator\<close>

definition RANDMT32NSTATE :: nat where "RANDMT32NSTATE = 624"
definition RANDMT32MAGIC :: nat where "RANDMT32MAGIC = 397"
definition RANDMT32MATRIX :: u64 where "RANDMT32MATRIX = 0x9908b0df"
definition RANDMT32HIMASK :: u64 where "RANDMT32HIMASK = 0x80000000"
definition RANDMT32LOMASK :: u64 where "RANDMT32LOMASK = 0x7fffffff"
definition RANDMT32DEFSEED :: u64 where "RANDMT32DEFSEED = 5489"
definition RANDMT32TABSEED :: u64 where "RANDMT32TABSEED = 19650218"
definition RANDMT32MULTIPLIER1 :: u64 where "RANDMT32MULTIPLIER1 = 1812433253"
definition RANDMT32MULTIPLIER2 :: u64 where "RANDMT32MULTIPLIER2 = 1664525"
definition RANDMT32MULTIPLIER3 :: u64 where "RANDMT32MULTIPLIER3 = 1566083941"
definition RANDMT32MASK1 :: u64 where "RANDMT32MASK1 = 0x9d2c5680"
definition RANDMT32MASK2 :: u64 where "RANDMT32MASK2 = 0xefc60000"

definition randmt32magic :: "u64 list" where
  "randmt32magic = [0, RANDMT32MATRIX]"

record randmt =
  rstate :: "u64 list"
  curndx :: nat

definition randmt32fresh :: randmt where
  "randmt32fresh = \<lparr>rstate = replicate RANDMT32NSTATE 0, curndx = RANDMT32NSTATE + 1\<rparr>"

function srandmt32loop :: "nat \<Rightarrow> u64 \<Rightarrow> u64 list \<Rightarrow> u64 list" where
  "srandmt32loop ndx tmp st =
     (if ndx < RANDMT32NSTATE
      then let val = (RANDMT32MULTIPLIER1 * (tmp XOR drop_bit 30 tmp) + of_nat ndx) AND 0xffffffff
           in srandmt32loop (ndx + 1) val (st[ndx := val])
      else st)"
  by pat_completeness auto
termination by (relation "measure (\<lambda>(ndx, _). RANDMT32NSTATE - ndx)") auto

declare srandmt32loop.simps [simp del]

definition srandmt32 :: "u64 \<Rightarrow> randmt \<Rightarrow> randmt" where
  "srandmt32 seed r =
     (let tmp = seed AND 0xffffffff;
          st = (rstate r)[0 := tmp]
      in \<lparr>rstate = srandmt32loop 1 tmp st, curndx = RANDMT32NSTATE\<rparr>)"

fun srandmt32tab1 :: "u64 list \<Rightarrow> nat \<Rightarrow> nat \<Rightarrow> nat \<Rightarrow> u64 \<Rightarrow> u64 list \<Rightarrow> nat \<times> u64 list" where
  "srandmt32tab1 key 0 l m tmp st = (l, st)"
| "srandmt32tab1 key (Suc ndx) l m tmp st =
     (let val = st ! l XOR (RANDMT32MULTIPLIER2 * (tmp XOR drop_bit 30 tmp));
          val = (val + (key ! m + of_nat m)) AND 0xffffffff;
          st = st[l := val];
          m = m + 1;
          l = l + 1;
          m = (if m \<ge> length key then 0 else m)
      in if l \<ge> RANDMT32NSTATE
         then let val = st ! (RANDMT32NSTATE - 1)
              in srandmt32tab1 key ndx 1 m val (st[0 := val])
         else srandmt32tab1 key ndx l m val st)"

fun srandmt32tab2 :: "nat \<Rightarrow> nat \<Rightarrow> u64 \<Rightarrow> u64 list \<Rightarrow> u64 list" where
  "srandmt32tab2 0 l tmp st = st"
| "srandmt32tab2 (Suc ndx) l tmp st =
     (let val = st ! l XOR (RANDMT32MULTIPLIER3 * (tmp XOR drop_bit 30 tmp));
          val = (val - of_nat l) AND 0xffffffff;
          st = st[l := val];
          l = l + 1
      in if l \<ge> RANDMT32NSTATE
         then let val = st ! (RANDMT32NSTATE - 1)
              in srandmt32tab2 ndx 1 val (st[0 := val])
         else srandmt32tab2 ndx l val st)"

text \<open>Reading \<open>key[0]\<close> of an empty key is undefined: no result.\<close>

definition srandmt32tab :: "u64 list \<Rightarrow> randmt \<Rightarrow> randmt option" where
  "srandmt32tab key r =
     (if key = [] then None
      else let r1 = srandmt32 RANDMT32TABSEED r;
               (l, st) = srandmt32tab1 key (max (length key) RANDMT32NSTATE) 1 0
                           (rstate r1 ! 0) (rstate r1);
               st = srandmt32tab2 (RANDMT32NSTATE - 1) l (st ! (l - 1)) st
           in Some (r1\<lparr>rstate := st[0 := RANDMT32HIMASK]\<rparr>))"

function randmt32buf1 :: "nat \<Rightarrow> u64 list \<Rightarrow> nat \<times> u64 list" where
  "randmt32buf1 l st =
     (if l < RANDMT32NSTATE - RANDMT32MAGIC
      then let tmp1 = st ! l AND RANDMT32HIMASK;
               tmp2 = st ! (l + 1) AND RANDMT32LOMASK;
               tmp3 = st ! (l + RANDMT32MAGIC);
               val = tmp1 OR tmp2;
               tmp1 = randmt32magic ! unat (val AND 1)
           in randmt32buf1 (l + 1) (st[l := tmp3 XOR drop_bit 1 val XOR tmp1])
      else (l, st))"
  by pat_completeness auto
termination by (relation "measure (\<lambda>(l, _). RANDMT32NSTATE - l)") auto

function randmt32buf2 :: "nat \<Rightarrow> u64 list \<Rightarrow> u64 list" where
  "randmt32buf2 l st =
     (if l < RANDMT32NSTATE - 1
      then let tmp1 = st ! l AND RANDMT32HIMASK;
               tmp2 = st ! (l + 1) AND RANDMT32LOMASK;
               tmp3 = st ! (l + RANDMT32MAGIC - RANDMT32NSTATE);
               val = tmp1 OR tmp2;
               tmp1 = randmt32magic ! unat (val AND 1)
           in randmt32buf2 (l + 1) (st[l := tmp3 XOR drop_bit 1 val XOR tmp1])
      else st)"
  by pat_completeness auto
termination by (relation "measure (\<lambda>(l, _). RANDMT32NSTATE - l)") auto

declare randmt32buf1.simps [simp del]
declare randmt32buf2.simps [simp del]

definition randmt32buf :: "randmt \<Rightarrow> randmt" where
  "randmt32buf r =
     (let (l, st) = randmt32buf1 0 (rstate r);
          st = randmt32buf2 l st;
          tmp1 = st ! (RANDMT32NSTATE - 1) AND RANDMT32HIMASK;
          tmp2 = st ! 0 AND RANDMT32LOMASK;
          tmp3 = st ! (RANDMT32MAGIC - 1);
          val = tmp1 OR tmp2
      in \<lparr>rstate = st[RANDMT32NSTATE - 1 :=
                        tmp3 XOR drop_bit 1 val XOR randmt32magic ! unat (val AND 1)],
          curndx = 0\<rparr>)"

definition temper32 :: "u64 \<Rightarrow> u64" where
  "temper32 x =
     (let x = x XOR drop_bit 11 x;
          x = x XOR (push_bit 7 x AND RANDMT32MASK1);
          x = x XOR (push_bit 15 x AND RANDMT32MASK2)
      in x XOR drop_bit 18 x)"

definition randmt32 :: "randmt \<Rightarrow> u64 \<times> randmt" where
  "randmt32 r =
     (let r = (if curndx r \<ge> RANDMT32NSTATE
               then randmt32buf (if curndx r = RANDMT32NSTATE + 1
                                 then srandmt32 RANDMT32DEFSEED r else r)
               else r)
      in (temper32 (rstate r ! curndx r), r\<lparr>curndx := curndx r + 1\<rparr>))"

section \<open>The 64-bit generator\<close>

definition RANDMT64NSTATE :: nat where "RANDMT64NSTATE = 312"
definition RANDMT64MAGIC :: nat where "RANDMT64MAGIC = 156"
definition RANDMT64MATRIX :: u64 where "RANDMT64MATRIX = 0xB5026F5AA96619E9"
definition RANDMT64HIMASK :: u64 where "RANDMT64HIMASK = 0xFFFFFFFF80000000"
definition RANDMT64LOMASK :: u64 where "RANDMT64LOMASK = 0x7FFFFFFF"
definition RANDMT64DEFSEED :: u64 where "RANDMT64DEFSEED = 5489"
definition RANDMT64TABSEED :: u64 where "RANDMT64TABSEED = 19650218"
definition RANDMT64MULTIPLIER1 :: u64 where "RANDMT64MULTIPLIER1 = 6364136223846793005"
definition RANDMT64MULTIPLIER2 :: u64 where "RANDMT64MULTIPLIER2 = 3935559000370003845"
definition RANDMT64MULTIPLIER3 :: u64 where "RANDMT64MULTIPLIER3 = 2862933555777941757"
definition RANDMT64MASK1 :: u64 where "RANDMT64MASK1 = 0x5555555555555555"
definition RANDMT64MASK2 :: u64 where "RANDMT64MASK2 = 0x71D67FFFEDA60000"
definition RANDMT64MASK3 :: u64 where "RANDMT64MASK3 = 0xFFF7EEE000000000"

definition randmt64magic :: "u64 list" where
  "randmt64magic = [0, RANDMT64MATRIX]"

definition randmt64fresh :: randmt where
  "randmt64fresh = \<lparr>rstate = replicate RANDMT64NSTATE 0, curndx = RANDMT64NSTATE + 1\<rparr>"

function srandmt64loop :: "nat \<Rightarrow> u64 \<Rightarrow> u64 list \<Rightarrow> u64 list" where
  "srandmt64loop ndx tmp st =
     (if ndx < RANDMT64NSTATE
      then let val = RANDMT64MULTIPLIER1 * (tmp XOR drop_bit 62 tmp) + of_nat ndx
           in srandmt64loop (ndx + 1) val (st[ndx := val])
      else st)"
  by pat_completeness auto
termination by (relation "measure (\<lambda>(ndx, _). RANDMT64NSTATE - ndx)") auto

declare srandmt64loop.simps [simp del]

definition srandmt64 :: "u64 \<Rightarrow> randmt \<Rightarrow> randmt" where
  "srandmt64 seed r =
     \<lparr>rstate = srandmt64loop 1 seed ((rstate r)[0 := seed]), curndx = RANDMT64NSTATE\<rparr>"

fun srandmt64tab1 :: "u64 list \<Rightarrow> nat \<Rightarrow> nat \<Rightarrow> nat \<Rightarrow> u64 \<Rightarrow> u64 list \<Rightarrow> nat \<times> u64 list" where
  "srandmt64tab1 key 0 l m tmp st = (l, st)"
| "srandmt64tab1 key (Suc ndx) l m tmp st =
     (let val = st ! l XOR (RANDMT64MULTIPLIER2 * (tmp XOR drop_bit 62 tmp));
          val = val + (key ! m + of_nat m);
          st = st[l := val];
          m = m + 1;
          l = l + 1;
          m = (if m \<ge> length key then 0 else m)
      in if l \<ge> RANDMT64NSTATE
         then let val = st ! (RANDMT64NSTATE - 1)
              in srandmt64tab1 key ndx 1 m val (st[0 := val])
         else srandmt64tab1 key ndx l m val st)"

fun srandmt64tab2 :: "nat \<Rightarrow> nat \<Rightarrow> u64 \<Rightarrow> u64 list \<Rightarrow> u64 list" where
  "srandmt64tab2 0 l tmp st = st"
| "srandmt64tab2 (Suc ndx) l tmp st =
     (let val = st ! l XOR (RANDMT64MULTIPLIER3 * (tmp XOR drop_bit 62 tmp));
          val = val - of_nat l;
          st = st[l := val];
          l = l + 1
      in if l \<ge> RANDMT64NSTATE
         then let val = st ! (RANDMT64NSTATE - 1)
              in srandmt64tab2 ndx 1 val (st[0 := val])
         else srandmt64tab2 ndx l val st)"

definition srandmt64tab :: "u64 list \<Rightarrow> randmt \<Rightarrow> randmt option" where
  "srandmt64tab key r =
     (if key = [] then None
      else let r1 = srandmt64 RANDMT64TABSEED r;
               (l, st) = srandmt64tab1 key (max (length key) RANDMT64NSTATE) 1 0
                           (rstate r1 ! 0) (rstate r1);
               st = srandmt64tab2 (RANDMT64NSTATE - 1) l (st ! (l - 1)) st
           in Some (r1\<lparr>rstate := st[0 := push_bit 63 1]\<rparr>))"

function randmt64buf1 :: "nat \<Rightarrow> u64 list \<Rightarrow> nat \<times> u64 list" where
  "randmt64buf1 ndx st =
     (if ndx < RANDMT64MAGIC
      then let tmp1 = st ! ndx AND RANDMT64HIMASK;
               tmp2 = st ! (ndx + 1) AND RANDMT64LOMASK;
               val = tmp1 OR tmp2;
               tmp1 = st ! (ndx + RANDMT64MAGIC);
               tmp2 = randmt64magic ! unat (val AND 1)
           in randmt64buf1 (ndx + 1) (st[ndx := tmp1 XOR drop_bit 1 val XOR tmp2])
      else (ndx, st))"
  by pat_completeness auto
termination by (relation "measure (\<lambda>(l, _). RANDMT64NSTATE - l)")
    (auto simp: RANDMT64MAGIC_def RANDMT64NSTATE_def)

function randmt64buf2 :: "nat \<Rightarrow> u64 list \<Rightarrow> u64 list" where
  "randmt64buf2 ndx st =
     (if ndx < RANDMT64NSTATE - 1
      then let tmp1 = st ! ndx AND RANDMT64HIMASK;
               tmp2 = st ! (ndx + 1) AND RANDMT64LOMASK;
               val = tmp1 OR tmp2;
               tmp1 = st ! (ndx - RANDMT64MAGIC);
               tmp2 = randmt64magic ! unat (val AND 1)
           in randmt64buf2 (ndx + 1) (st[ndx := tmp1 XOR drop_bit 1 val XOR tmp2])
      else st)"
  by pat_completeness auto
termination by (relation "measure (\<lambda>(l, _). RANDMT64NSTATE - l)") auto

declare randmt64buf1.simps [simp del]
declare randmt64buf2.simps [simp del]

definition randmt64buf :: "randmt \<Rightarrow> randmt" where
  "randmt64buf r =
     (let (ndx, st) = randmt64buf1 0 (rstate r);
          st = randmt64buf2 ndx st;
          tmp1 = st ! (RANDMT64NSTATE - 1) AND RANDMT64HIMASK;
          tmp2 = st ! 0 AND RANDMT64LOMASK;
          val = tmp1 OR tmp2;
          tmp1 = st ! (RANDMT64MAGIC - 1);
          tmp2 = randmt64magic ! unat (val AND 1)
      in \<lparr>rstate = st[RANDMT64NSTATE - 1 := tmp1 XOR drop_bit 1 val XOR tmp2], curndx = 0\<rparr>)"

definition temper64 :: "u64 \<Rightarrow> u64" where
  "temper64 val =
     (let val = val XOR (drop_bit 29 val AND RANDMT64MASK1);
          val = val XOR (push_bit 17 val AND RANDMT64MASK2);
          val = val XOR (push_bit 37 val AND RANDMT64MASK3)
      in val XOR drop_bit 43 val)"

definition randmt64 :: "randmt \<Rightarrow> u64 \<times> randmt" where
  "randmt64 r =
     (let r = (if curndx r \<ge> RANDMT64NSTATE
               then randmt64buf (if curndx r = RANDMT64NSTATE + 1
                                 then srandmt64 RANDMT64DEFSEED r else r)
               else r);
          cur = curndx r
      in (temper64 (rstate r ! cur), r\<lparr>curndx := cur + 1\<rparr>))"

section \<open>Initialisation of the mutex\<close>

text \<open>
  The state of the protocol: the flag \<open>randmt32init\<close>, whether the mutex that guards the
  initialisation is held, and whether \<open>randmt32mtx\<close> has been initialised as a recursive
  mutex.  \<open>pthread_mutex_trylock\<close> returns 0 when it takes the lock and an error number
  when the lock is held.
\<close>

record mtxstate =
  initflag :: bool
  initheld :: bool
  mtxready :: bool

definition pthread_mutex_trylock :: "mtxstate \<Rightarrow> int \<times> mtxstate" where
  "pthread_mutex_trylock s = (if initheld s then (16, s) else (0, s\<lparr>initheld := True\<rparr>))"

definition randmt32init :: "mtxstate \<Rightarrow> mtxstate" where
  "randmt32init s = s\<lparr>mtxready := True\<rparr>"

definition randmt32mtxinit :: "mtxstate \<Rightarrow> mtxstate" where
  "randmt32mtxinit s =
     (if \<not> initflag s
      then let (r, s1) = pthread_mutex_trylock s
           in if r \<noteq> 0
              then (randmt32init s1)\<lparr>initflag := True, initheld := False\<rparr>
              else s1
      else s)"

section \<open>Reference sequences\<close>

text \<open>
  The defining recurrence of the Mersenne Twister: the first values come from the seed, every
  later one from three earlier ones.
\<close>

definition twist32 :: "u64 \<Rightarrow> u64 \<Rightarrow> u64 \<Rightarrow> u64" where
  "twist32 x y z =
     (let v = (x AND RANDMT32HIMASK) OR (y AND RANDMT32LOMASK)
      in z XOR drop_bit 1 v XOR (if bit v 0 then RANDMT32MATRIX else 0))"

primrec seed32 :: "u64 \<Rightarrow> nat \<Rightarrow> u64" where
  "seed32 seed 0 = take_bit 32 seed"
| "seed32 seed (Suc k) =
     take_bit 32 (RANDMT32MULTIPLIER1 * (seed32 seed k XOR drop_bit 30 (seed32 seed k))
                  + of_nat (Suc k))"

fun mt32 :: "u64 \<Rightarrow> nat \<Rightarrow> u64" where
  "mt32 seed k =
     (if k < 624 then seed32 seed k
      else twist32 (mt32 seed (k - 624)) (mt32 seed (k - 623)) (mt32 seed (k - 227)))"

definition twist64 :: "u64 \<Rightarrow> u64 \<Rightarrow> u64 \<Rightarrow> u64" where
  "twist64 x y z =
     (let v = (x AND RANDMT64HIMASK) OR (y AND RANDMT64LOMASK)
      in z XOR drop_bit 1 v XOR (if bit v 0 then RANDMT64MATRIX else 0))"

primrec seed64 :: "u64 \<Rightarrow> nat \<Rightarrow> u64" where
  "seed64 seed 0 = seed"
| "seed64 seed (Suc k) =
     RANDMT64MULTIPLIER1 * (seed64 seed k XOR drop_bit 62 (seed64 seed k)) + of_nat (Suc k)"

fun mt64 :: "u64 \<Rightarrow> nat \<Rightarrow> u64" where
  "mt64 seed k =
     (if k < 312 then seed64 seed k
      else twist64 (mt64 seed (k - 312)) (mt64 seed (k - 311)) (mt64 seed (k - 156)))"

declare mt32.simps [simp del]
declare mt64.simps [simp del]

fun draws :: "('s \<Rightarrow> 'a \<times> 's) \<Rightarrow> nat \<Rightarrow> 's \<Rightarrow> 'a list" where
  "draws rand 0 s = []"
| "draws rand (Suc j) s = (let (x, s') = rand s in x # draws rand j s')"

section \<open>The contract of a twister\<close>

text \<open>
  A buffer of size \<open>n\<close> that is refilled in place by two loops and a last assignment, and
  an output function that reads it.  The refill advances the window the buffer holds of a
  sequence that satisfies the recurrence by \<open>n\<close> places.
\<close>

locale twister =
  fixes n m :: nat
    and tw :: "u64 \<Rightarrow> u64 \<Rightarrow> u64 \<Rightarrow> u64"
    and loop1 :: "nat \<Rightarrow> u64 list \<Rightarrow> nat \<times> u64 list"
    and loop2 :: "nat \<Rightarrow> u64 list \<Rightarrow> u64 list"
    and buf :: "randmt \<Rightarrow> randmt"
    and temper :: "u64 \<Rightarrow> u64"
    and rand :: "randmt \<Rightarrow> u64 \<times> randmt"
  assumes m_pos: "0 < m" and m_less: "m < n"
    and loop1_step: "l < n - m \<Longrightarrow> loop1 l st = loop1 (l + 1) (st[l := tw (st ! l) (st ! (l + 1)) (st ! (l + m))])"
    and loop1_stop: "\<not> l < n - m \<Longrightarrow> loop1 l st = (l, st)"
    and loop2_step: "l < n - 1 \<Longrightarrow> n \<le> l + m \<Longrightarrow> loop2 l st = loop2 (l + 1) (st[l := tw (st ! l) (st ! (l + 1)) (st ! (l + m - n))])"
    and loop2_stop: "\<not> l < n - 1 \<Longrightarrow> loop2 l st = st"
    and buf_eq: "loop1 0 (rstate r) = (l, st1) \<Longrightarrow> loop2 l st1 = st \<Longrightarrow>
        buf r = \<lparr>rstate = st[n - 1 := tw (st ! (n - 1)) (st ! 0) (st ! (m - 1))], curndx = 0\<rparr>"
    and rand_read: "curndx r < n \<Longrightarrow> rand r = (temper (rstate r ! curndx r), r\<lparr>curndx := curndx r + 1\<rparr>)"
    and rand_refill: "curndx r = n \<Longrightarrow> rand r = rand (buf r)"
begin

definition recur :: "(nat \<Rightarrow> u64) \<Rightarrow> bool" where
  "recur s \<longleftrightarrow> (\<forall>j. s (j + n) = tw (s j) (s (j + 1)) (s (j + m)))"

definition window :: "(nat \<Rightarrow> u64) \<Rightarrow> nat \<Rightarrow> nat \<Rightarrow> u64 list \<Rightarrow> bool" where
  "window s k l st \<longleftrightarrow>
     length st = n \<and> (\<forall>i<n. st ! i = (if i < l then s (k + n + i) else s (k + i)))"

lemma window_step:
  assumes "window s k l st" "recur s" "l < n" "x = s (k + l + 1)" "y = s (k + l + m)"
  shows "window s k (l + 1) (st[l := tw (st ! l) x y])"
proof -
  have "tw (st ! l) x y = s (k + n + l)"
    using assms by (simp add: window_def recur_def) (metis add.assoc add.commute)
  then show ?thesis
    using assms by (auto simp: window_def nth_list_update less_Suc_eq)
qed

lemma loop1_window:
  assumes "recur s" "window s k l st" "l \<le> n - m"
  shows "\<exists>st'. loop1 l st = (n - m, st') \<and> window s k (n - m) st'"
  using assms(2,3)
proof (induction "n - m - l" arbitrary: l st)
  case 0
  then have "l = n - m" by simp
  with 0 loop1_stop show ?case by auto
next
  case (Suc d)
  then have l: "l < n - m" by simp
  have "window s k (l + 1) (st[l := tw (st ! l) (st ! (l + 1)) (st ! (l + m))])"
    using l m_pos Suc.prems by (intro window_step [OF _ assms(1)]) (auto simp: window_def add.assoc)
  from Suc.hyps(1) [OF _ this] Suc.hyps(2) l show ?case
    by (simp add: loop1_step)
qed

lemma loop2_window:
  assumes "recur s" "window s k l st" "n - m \<le> l" "l \<le> n - 1"
  shows "window s k (n - 1) (loop2 l st)"
  using assms(2,3,4)
proof (induction "n - 1 - l" arbitrary: l st)
  case 0
  then have "l = n - 1" by simp
  with 0 loop2_stop show ?case by auto
next
  case (Suc d)
  then have l: "l < n - 1" "n \<le> l + m" by auto
  have idx: "k + n + (l + m - n) = k + l + m" and "l + m - n < l"
    using l m_less by auto
  then have "window s k (l + 1) (st[l := tw (st ! l) (st ! (l + 1)) (st ! (l + m - n))])"
    using l m_pos Suc.prems by (intro window_step [OF _ assms(1)]) (auto simp: window_def add.assoc)
  from Suc.hyps(1) [OF _ this] Suc.hyps(2) l show ?case
    by (simp add: loop2_step)
qed

lemma buf_window:
  assumes "recur s" "window s k 0 (rstate r)"
  shows "window s (k + n) 0 (rstate (buf r))" and "curndx (buf r) = 0"
proof -
  obtain st1 where st1: "loop1 0 (rstate r) = (n - m, st1)" "window s k (n - m) st1"
    using loop1_window [OF assms] by auto
  define st where "st = loop2 (n - m) st1"
  have st: "window s k (n - 1) st"
    unfolding st_def using m_pos m_less by (intro loop2_window assms st1) auto
  have idx: "k + n + (m - 1) = k + (n - 1) + m" "k + n = k + (n - 1) + 1"
    using m_pos m_less by auto
  have "window s k (n - 1 + 1) (st[n - 1 := tw (st ! (n - 1)) (st ! 0) (st ! (m - 1))])"
  proof (rule window_step [OF st assms(1)])
    have "st ! 0 = s (k + n)" using st m_pos m_less by (simp add: window_def)
    then show "st ! 0 = s (k + (n - 1) + 1)" by (simp only: idx(2) [symmetric])
    have "m - 1 < n - 1" using m_pos m_less by simp
    then have "st ! (m - 1) = s (k + n + (m - 1))" using st m_pos m_less by (simp add: window_def)
    then show "st ! (m - 1) = s (k + (n - 1) + m)" by (simp only: idx(1))
  qed (use m_less in simp)
  moreover have "buf r = \<lparr>rstate = st[n - 1 := tw (st ! (n - 1)) (st ! 0) (st ! (m - 1))], curndx = 0\<rparr>"
    using buf_eq [OF st1(1) st_def [symmetric]] .
  ultimately show "window s (k + n) 0 (rstate (buf r))" "curndx (buf r) = 0"
    using m_pos m_less by (auto simp: window_def)
qed

text \<open>The generator is about to produce the tempered value number \<open>k\<close> of the sequence.\<close>

definition gen_at :: "(nat \<Rightarrow> u64) \<Rightarrow> nat \<Rightarrow> randmt \<Rightarrow> bool" where
  "gen_at s k r \<longleftrightarrow> (\<exists>b. window s b 0 (rstate r) \<and> curndx r \<le> n \<and> k = b + curndx r)"

lemma rand_gen_at:
  assumes "recur s" "gen_at s k r"
  shows "\<exists>r'. rand r = (temper (s k), r') \<and> gen_at s (k + 1) r'"
proof -
  obtain b where b: "window s b 0 (rstate r)" "curndx r \<le> n" "k = b + curndx r"
    using assms(2) by (auto simp: gen_at_def)
  show ?thesis
  proof (cases "curndx r < n")
    case True
    have "window s b 0 (rstate (r\<lparr>curndx := curndx r + 1\<rparr>))" using b by simp
    moreover have "rstate r ! curndx r = s k" using True b by (simp add: window_def)
    ultimately show ?thesis
      using True b by (auto simp: rand_read gen_at_def intro!: exI [of _ b])
  next
    case False
    then have n: "curndx r = n" using b by simp
    note w = buf_window [OF assms(1) b(1)]
    have "rstate (buf r) ! 0 = s k" using w(1) b n m_less by (simp add: window_def)
    then show ?thesis
      using w n b m_less rand_read [of "buf r"] rand_refill [OF n]
      by (auto simp: gen_at_def intro!: exI [of _ "b + n"])
  qed
qed

lemma draws_gen_at:
  assumes "recur s"
  shows "gen_at s k r \<Longrightarrow> draws rand j r = map (\<lambda>i. temper (s (k + i))) [0..<j]"
proof (induction j arbitrary: k r)
  case 0
  show ?case by simp
next
  case (Suc j)
  obtain r' where r': "rand r = (temper (s k), r')" "gen_at s (k + 1) r'"
    using rand_gen_at [OF assms Suc.prems] by auto
  have "map (\<lambda>i. temper (s (k + i))) [0..<Suc j]
      = temper (s k) # map (\<lambda>i. temper (s (k + 1 + i))) [0..<j]"
    by (simp only: upt_conv_Cons map_Suc_upt [symmetric] list.map map_map o_def) (simp add: map_Suc_upt [symmetric] o_def del: upt_Suc)
  with r' Suc.IH [OF r'(2)] show ?case by simp
qed

end

section \<open>Both generators are twisters\<close>

lemma and_one_index: "unat (v AND 1 :: u64) = of_bool (bit v 0)"
  by (simp add: and_one_eq odd_iff_mod_2_eq_one mod2_eq_if bit_0)

lemma magic32_index: "randmt32magic ! unat (v AND 1 :: u64) = (if bit v 0 then RANDMT32MATRIX else 0)"
  unfolding and_one_index randmt32magic_def by simp

lemma magic64_index: "randmt64magic ! unat (v AND 1 :: u64) = (if bit v 0 then RANDMT64MATRIX else 0)"
  unfolding and_one_index randmt64magic_def by simp

lemmas params32 = RANDMT32NSTATE_def RANDMT32MAGIC_def
lemmas params64 = RANDMT64NSTATE_def RANDMT64MAGIC_def

lemma randmt32_refill: "curndx r = 624 \<Longrightarrow> randmt32 r = randmt32 (randmt32buf r)"
  by (simp add: randmt32_def randmt32buf_def params32 Let_def split: prod.split)

lemma randmt64_refill: "curndx r = 312 \<Longrightarrow> randmt64 r = randmt64 (randmt64buf r)"
  by (simp add: randmt64_def randmt64buf_def params64 Let_def split: prod.split)

interpretation mt32: twister 624 397 twist32 randmt32buf1 randmt32buf2 randmt32buf temper32 randmt32
proof (unfold_locales, goal_cases)
  case (3 l st)
  then show ?case
    by (subst randmt32buf1.simps) (simp add: params32 Let_def twist32_def magic32_index)
next
  case (4 l st)
  then show ?case
    by (subst randmt32buf1.simps) (simp add: params32)
next
  case (5 l st)
  then show ?case
    by (subst randmt32buf2.simps) (simp add: params32 Let_def twist32_def magic32_index)
next
  case (6 l st)
  then show ?case
    by (subst randmt32buf2.simps) (simp add: params32)
next
  case (7 r l st1 st)
  then show ?case
    by (simp add: randmt32buf_def params32 Let_def twist32_def magic32_index)
next
  case (8 r)
  then show ?case by (simp add: randmt32_def params32)
qed (simp_all add: randmt32_refill)

interpretation mt64: twister 312 156 twist64 randmt64buf1 randmt64buf2 randmt64buf temper64 randmt64
proof (unfold_locales, goal_cases)
  case (3 l st)
  then show ?case
    by (subst randmt64buf1.simps) (simp add: params64 Let_def twist64_def magic64_index)
next
  case (4 l st)
  then show ?case
    by (subst randmt64buf1.simps) (simp add: params64)
next
  case (5 l st)
  then have "l + 156 - 312 = l - 156" by simp
  with 5 show ?case
    by (subst randmt64buf2.simps) (simp add: params64 Let_def twist64_def magic64_index)
next
  case (6 l st)
  then show ?case
    by (subst randmt64buf2.simps) (simp add: params64)
next
  case (7 r l st1 st)
  then show ?case
    by (simp add: randmt64buf_def params64 Let_def twist64_def magic64_index)
next
  case (8 r)
  then show ?case by (simp add: randmt64_def params64 Let_def)
qed (simp_all add: randmt64_refill)

section \<open>Seeding\<close>

lemma and_mask32: "(x :: u64) AND 0xffffffff = take_bit 32 x"
  by (simp add: take_bit_eq_mask mask_eq_exp_minus_1)

lemma srandmt32loop_correct:
  assumes "tmp = seed32 seed (ndx - 1)" "1 \<le> ndx" "ndx \<le> 624" "length st = 624"
    "\<forall>i<ndx. st ! i = seed32 seed i"
  shows "length (srandmt32loop ndx tmp st) = 624 \<and>
     (\<forall>i<624. srandmt32loop ndx tmp st ! i = seed32 seed i)"
  using assms
proof (induction ndx tmp st rule: srandmt32loop.induct)
  case (1 ndx tmp st)
  show ?case
  proof (cases "ndx < RANDMT32NSTATE")
    case True
    define val where "val = (RANDMT32MULTIPLIER1 * (tmp XOR drop_bit 30 tmp) + of_nat ndx) AND 0xffffffff"
    have val: "val = seed32 seed ndx"
      using 1(2,3) by (cases ndx) (simp_all add: val_def and_mask32)
    have "srandmt32loop ndx tmp st = srandmt32loop (ndx + 1) val (st[ndx := val])"
      using True by (subst srandmt32loop.simps) (simp add: val_def Let_def)
    moreover have "\<forall>i<ndx + 1. st[ndx := val] ! i = seed32 seed i"
      using 1(5,6) val True by (auto simp: nth_list_update params32 less_Suc_eq)
    ultimately show ?thesis
      using 1(1) [OF True val_def] 1(3,4,5) True val by (simp add: params32)
  next
    case False
    then show ?thesis using 1 by (subst (1 2) srandmt32loop.simps) (simp add: params32)
  qed
qed

lemma srandmt64loop_correct:
  assumes "tmp = seed64 seed (ndx - 1)" "1 \<le> ndx" "ndx \<le> 312" "length st = 312"
    "\<forall>i<ndx. st ! i = seed64 seed i"
  shows "length (srandmt64loop ndx tmp st) = 312 \<and>
     (\<forall>i<312. srandmt64loop ndx tmp st ! i = seed64 seed i)"
  using assms
proof (induction ndx tmp st rule: srandmt64loop.induct)
  case (1 ndx tmp st)
  show ?case
  proof (cases "ndx < RANDMT64NSTATE")
    case True
    define val where "val = RANDMT64MULTIPLIER1 * (tmp XOR drop_bit 62 tmp) + of_nat ndx"
    have val: "val = seed64 seed ndx"
      using 1(2,3) by (cases ndx) (simp_all add: val_def)
    have "srandmt64loop ndx tmp st = srandmt64loop (ndx + 1) val (st[ndx := val])"
      using True by (subst srandmt64loop.simps) (simp add: val_def Let_def)
    moreover have "\<forall>i<ndx + 1. st[ndx := val] ! i = seed64 seed i"
      using 1(5,6) val True by (auto simp: nth_list_update params64 less_Suc_eq)
    ultimately show ?thesis
      using 1(1) [OF True val_def] 1(3,4,5) True val by (simp add: params64)
  next
    case False
    then show ?thesis using 1 by (subst (1 2) srandmt64loop.simps) (simp add: params64)
  qed
qed

lemma mt32_recur: "mt32.recur (mt32 seed)"
proof -
  have "mt32 seed (j + 624) = twist32 (mt32 seed j) (mt32 seed (j + 1)) (mt32 seed (j + 397))" for j
  proof -
    have "j + 624 - 624 = j" "j + 624 - 623 = j + 1" "j + 624 - 227 = j + 397" by simp_all
    then show ?thesis by (subst mt32.simps) (simp only: if_False, simp)
  qed
  then show ?thesis by (simp add: mt32.recur_def)
qed

lemma mt64_recur: "mt64.recur (mt64 seed)"
proof -
  have "mt64 seed (j + 312) = twist64 (mt64 seed j) (mt64 seed (j + 1)) (mt64 seed (j + 156))" for j
  proof -
    have "j + 312 - 312 = j" "j + 312 - 311 = j + 1" "j + 312 - 156 = j + 156" by simp_all
    then show ?thesis by (subst mt64.simps) (simp only: if_False, simp)
  qed
  then show ?thesis by (simp add: mt64.recur_def)
qed

lemma srandmt32_gen_at:
  assumes "length (rstate r) = 624"
  shows "mt32.gen_at (mt32 seed) 624 (srandmt32 seed r)"
proof -
  have "length (rstate (srandmt32 seed r)) = 624 \<and>
     (\<forall>i<624. rstate (srandmt32 seed r) ! i = seed32 seed i)"
    unfolding srandmt32_def Let_def using assms
    by (simp, intro srandmt32loop_correct) (simp_all add: and_mask32)
  then show ?thesis
    by (auto simp: mt32.gen_at_def mt32.window_def mt32.simps srandmt32_def params32 Let_def
        intro!: exI [of _ 0])
qed

lemma srandmt64_gen_at:
  assumes "length (rstate r) = 312"
  shows "mt64.gen_at (mt64 seed) 312 (srandmt64 seed r)"
proof -
  have "length (rstate (srandmt64 seed r)) = 312 \<and>
     (\<forall>i<312. rstate (srandmt64 seed r) ! i = seed64 seed i)"
    unfolding srandmt64_def using assms
    by (simp, intro srandmt64loop_correct) simp_all
  then show ?thesis
    by (auto simp: mt64.gen_at_def mt64.window_def mt64.simps srandmt64_def params64
        intro!: exI [of _ 0])
qed

section \<open>Tempering\<close>

lemma shift_right_inj:
  fixes x y M :: u64
  assumes "0 < k" and eq: "x XOR (drop_bit k x AND M) = y XOR (drop_bit k y AND M)"
  shows "x = y"
proof (rule bit_word_eqI)
  fix i assume "i < LENGTH(64)"
  have step: "bit x j = bit y j" if "bit x (j + k) = bit y (j + k)" for j
  proof -
    have "bit (x XOR (drop_bit k x AND M)) j = bit (y XOR (drop_bit k y AND M)) j"
      by (simp only: eq)
    then show ?thesis using that by (auto simp: bit_simps ac_simps)
  qed
  have "bit x i = bit y i" if "64 - i \<le> d" for d
    using that
  proof (induction d arbitrary: i)
    case 0
    then show ?case using bit_imp_le_length [of x i] bit_imp_le_length [of y i] by auto
  next
    case (Suc d)
    have "bit x (i + k) = bit y (i + k)" using Suc.prems \<open>0 < k\<close> by (intro Suc.IH) simp
    then show ?case by (rule step)
  qed
  then show "bit x i = bit y i" by blast
qed

lemma shift_left_inj:
  fixes x y M :: u64
  assumes "0 < k" and eq: "x XOR (push_bit k x AND M) = y XOR (push_bit k y AND M)"
  shows "x = y"
proof (rule bit_word_eqI)
  have step: "bit x j = bit y j" if "k \<le> j \<Longrightarrow> bit x (j - k) = bit y (j - k)" for j
  proof -
    have "bit (x XOR (push_bit k x AND M)) j = bit (y XOR (push_bit k y AND M)) j"
      by (simp only: eq)
    then show ?thesis using that bit_imp_le_length [of x j] bit_imp_le_length [of y j]
      by (auto simp: bit_simps)
  qed
  show "bit x i = bit y i" for i
    using \<open>0 < k\<close> by (induction i rule: less_induct) (rule step, simp)
qed

lemma shift_right_inj_full:
  "0 < k \<Longrightarrow> x XOR drop_bit k x = y XOR drop_bit k y \<Longrightarrow> x = y" for x y :: u64
  using shift_right_inj [of k x "- 1" y] by simp

lemma temper32_inj: "temper32 x = temper32 y \<Longrightarrow> x = y"
  unfolding temper32_def Let_def
  by (drule shift_right_inj_full [rotated], simp, drule shift_left_inj [rotated], simp,
      drule shift_left_inj [rotated], simp, drule shift_right_inj_full [rotated], simp, simp)

lemma temper64_inj: "temper64 x = temper64 y \<Longrightarrow> x = y"
  unfolding temper64_def Let_def
  by (drule shift_right_inj_full [rotated], simp, drule shift_left_inj [rotated], simp,
      drule shift_left_inj [rotated], simp, drule shift_right_inj [rotated], simp, simp)

text \<open>A value that fits 32 bits: the other bits are clear.\<close>

definition fits32 :: "u64 \<Rightarrow> bool" where
  "fits32 x \<longleftrightarrow> take_bit 32 x = x"

lemma fits32_iff: "fits32 x \<longleftrightarrow> (\<forall>i\<ge>32. \<not> bit x i)"
  unfolding fits32_def bit_eq_iff bit_take_bit_iff
  by (metis bit_imp_possible_bit not_le)

lemma fits32_intros:
  "fits32 x \<Longrightarrow> fits32 y \<Longrightarrow> fits32 (x XOR y)"
  "fits32 x \<Longrightarrow> fits32 y \<Longrightarrow> fits32 (x OR y)"
  "fits32 y \<Longrightarrow> fits32 (x AND y)"
  "fits32 x \<Longrightarrow> fits32 (drop_bit n x)"
  "fits32 (take_bit 32 x)"
  by (auto simp: fits32_iff bit_simps)

lemma fits32_consts:
  "fits32 RANDMT32MATRIX" "fits32 RANDMT32HIMASK" "fits32 RANDMT32LOMASK"
  "fits32 RANDMT32MASK1" "fits32 RANDMT32MASK2" "fits32 0"
  by (simp_all add: fits32_def RANDMT32MATRIX_def RANDMT32HIMASK_def RANDMT32LOMASK_def
      RANDMT32MASK1_def RANDMT32MASK2_def)

lemma fits32_temper: "fits32 x \<Longrightarrow> fits32 (temper32 x)"
  unfolding temper32_def Let_def by (intro fits32_intros fits32_consts)

lemma fits32_twist: "fits32 z \<Longrightarrow> fits32 (twist32 x y z)"
  unfolding twist32_def Let_def by (intro fits32_intros conjI) (auto simp: fits32_consts)

lemma fits32_seed: "fits32 (seed32 seed k)"
  by (cases k) (simp_all add: fits32_intros)

lemma fits32_mt32: "fits32 (mt32 seed k)"
proof (induction k rule: less_induct)
  case (less k)
  show ?case
    by (subst mt32.simps) (auto intro!: fits32_seed fits32_twist less.IH)
qed

lemma fits32_le: "fits32 x \<Longrightarrow> x \<le> 0xffffffff"
  by (metis fits32_def and_mask32 word_and_le1)

section \<open>Seeding by a key table\<close>

text \<open>
  The reference algorithm for seeding with a key: it reads the previous element of the buffer
  where the code carries it along in a variable.
\<close>

fun ref32tab1 :: "u64 list \<Rightarrow> nat \<Rightarrow> nat \<Rightarrow> nat \<Rightarrow> u64 list \<Rightarrow> nat \<times> u64 list" where
  "ref32tab1 key 0 i j mt = (i, mt)"
| "ref32tab1 key (Suc k) i j mt =
     (let p = mt ! (i - 1);
          mt = mt[i := take_bit 32 ((mt ! i XOR (p XOR drop_bit 30 p) * RANDMT32MULTIPLIER2)
                                    + key ! j + of_nat j)];
          j = (j + 1) mod length key
      in if i + 1 = 624 then ref32tab1 key k 1 j (mt[0 := mt ! 623])
         else ref32tab1 key k (i + 1) j mt)"

fun ref32tab2 :: "nat \<Rightarrow> nat \<Rightarrow> u64 list \<Rightarrow> u64 list" where
  "ref32tab2 0 i mt = mt"
| "ref32tab2 (Suc k) i mt =
     (let p = mt ! (i - 1);
          mt = mt[i := take_bit 32 ((mt ! i XOR (p XOR drop_bit 30 p) * RANDMT32MULTIPLIER3)
                                    - of_nat i)]
      in if i + 1 = 624 then ref32tab2 k 1 (mt[0 := mt ! 623])
         else ref32tab2 k (i + 1) mt)"

definition ref32tab :: "u64 list \<Rightarrow> u64 list" where
  "ref32tab key =
     (let (i, mt) = ref32tab1 key (max (length key) 624) 1 0 (map (seed32 19650218) [0..<624])
      in (ref32tab2 623 i mt)[0 := 0x80000000])"

lemma wrap_mod: "j < n \<Longrightarrow> (if Suc j \<ge> n then 0 else Suc j) = Suc j mod n"
  by (cases "Suc j = n") auto

lemma srandmt32tab1_ref:
  assumes "length st = 624" "1 \<le> l" "l < 624" "m < length key" "tmp = st ! (l - 1)"
  shows "srandmt32tab1 key k l m tmp st = ref32tab1 key k l m st
       \<and> 1 \<le> fst (ref32tab1 key k l m st) \<and> fst (ref32tab1 key k l m st) < 624
       \<and> length (snd (ref32tab1 key k l m st)) = 624"
  using assms
proof (induction k arbitrary: l m tmp st)
  case 0
  then show ?case by simp
next
  case (Suc k)
  define st1 where "st1 = st[l := take_bit 32 ((st ! l XOR (tmp XOR drop_bit 30 tmp) * RANDMT32MULTIPLIER2)
                                    + key ! m + of_nat m)]"
  have m: "Suc m mod length key < length key" using Suc.prems(4) by (cases key) auto
  have len: "length st1 = 624" "length (st1[0 := x]) = 624" for x using Suc.prems(1) by (simp_all add: st1_def)
  have v: "st1 ! l = take_bit 32 ((st ! l XOR (tmp XOR drop_bit 30 tmp) * RANDMT32MULTIPLIER2)
                                    + key ! m + of_nat m)"
    using Suc.prems(1,3) by (simp add: st1_def)
  show ?case
  proof (cases "l + 1 = 624")
    case True
    have *: "st1[0 := st1 ! 623] ! (1 - 1) = st1 ! 623" using len by simp
    have "srandmt32tab1 key (Suc k) l m tmp st = srandmt32tab1 key k 1 (Suc m mod length key) (st1 ! 623) (st1[0 := st1 ! 623])"
      using True Suc.prems(4)
      by (simp add: Let_def params32 and_mask32 wrap_mod st1_def ac_simps)
    moreover have "ref32tab1 key (Suc k) l m st = ref32tab1 key k 1 (Suc m mod length key) (st1[0 := st1 ! 623])"
      using True Suc.prems(5) by (simp add: Let_def st1_def)
    ultimately show ?thesis
      using Suc.IH [OF len(2) _ _ m * [symmetric]] by simp
  next
    case False
    have "srandmt32tab1 key (Suc k) l m tmp st = srandmt32tab1 key k (l + 1) (Suc m mod length key) (st1 ! l) st1"
      using False Suc.prems(3,4) unfolding v
      by (simp add: Let_def params32 and_mask32 wrap_mod st1_def ac_simps)
    moreover have "ref32tab1 key (Suc k) l m st = ref32tab1 key k (l + 1) (Suc m mod length key) st1"
      using False Suc.prems(5) by (simp add: Let_def st1_def)
    ultimately show ?thesis
      using Suc.IH [OF len(1) _ _ m, of "l + 1" "st1 ! l"] False Suc.prems(2,3) by simp
  qed
qed

lemma srandmt32tab2_ref:
  assumes "length st = 624" "1 \<le> l" "l < 624" "tmp = st ! (l - 1)"
  shows "srandmt32tab2 k l tmp st = ref32tab2 k l st"
  using assms
proof (induction k arbitrary: l tmp st)
  case 0
  then show ?case by simp
next
  case (Suc k)
  define st1 where "st1 = st[l := take_bit 32 ((st ! l XOR (tmp XOR drop_bit 30 tmp) * RANDMT32MULTIPLIER3)
                                    - of_nat l)]"
  have len: "length st1 = 624" "length (st1[0 := x]) = 624" for x using Suc.prems(1) by (simp_all add: st1_def)
  have v: "st1 ! l = take_bit 32 ((st ! l XOR (tmp XOR drop_bit 30 tmp) * RANDMT32MULTIPLIER3)
                                    - of_nat l)"
    using Suc.prems(1,3) by (simp add: st1_def)
  show ?case
  proof (cases "l + 1 = 624")
    case True
    have *: "st1[0 := st1 ! 623] ! (1 - 1) = st1 ! 623" using len by simp
    have "srandmt32tab2 (Suc k) l tmp st = srandmt32tab2 k 1 (st1 ! 623) (st1[0 := st1 ! 623])"
      using True by (simp add: Let_def params32 and_mask32 st1_def ac_simps)
    moreover have "ref32tab2 (Suc k) l st = ref32tab2 k 1 (st1[0 := st1 ! 623])"
      using True Suc.prems(4) by (simp add: Let_def st1_def)
    ultimately show ?thesis
      using Suc.IH [OF len(2) _ _ * [symmetric]] by simp
  next
    case False
    have "srandmt32tab2 (Suc k) l tmp st = srandmt32tab2 k (l + 1) (st1 ! l) st1"
      using False Suc.prems(3) unfolding v by (simp add: Let_def params32 and_mask32 st1_def ac_simps)
    moreover have "ref32tab2 (Suc k) l st = ref32tab2 k (l + 1) st1"
      using False Suc.prems(4) by (simp add: Let_def st1_def)
    ultimately show ?thesis
      using Suc.IH [OF len(1), of "l + 1" "st1 ! l"] False Suc.prems(2,3) by simp
  qed
qed

lemma srandmt32_state:
  assumes "length (rstate r) = 624"
  shows "rstate (srandmt32 seed r) = map (seed32 seed) [0..<624]"
proof -
  have "length (rstate (srandmt32 seed r)) = 624 \<and>
     (\<forall>i<624. rstate (srandmt32 seed r) ! i = seed32 seed i)"
    unfolding srandmt32_def Let_def using assms
    by (simp, intro srandmt32loop_correct) (simp_all add: and_mask32)
  then show ?thesis by (intro nth_equalityI) auto
qed

lemma randmt32_default:
  assumes "curndx r = 625"
  shows "randmt32 r = randmt32 (srandmt32 5489 r)"
proof -
  have "curndx (srandmt32 5489 r) = 624" by (simp add: srandmt32_def params32 Let_def)
  then show ?thesis
    using assms by (simp add: randmt32_def params32 RANDMT32DEFSEED_def)
qed

lemma randmt64_default:
  assumes "curndx r = 313"
  shows "randmt64 r = randmt64 (srandmt64 5489 r)"
proof -
  have "curndx (srandmt64 5489 r) = 312" by (simp add: srandmt64_def params64)
  then show ?thesis
    using assms by (simp add: randmt64_def params64 RANDMT64DEFSEED_def)
qed

lemma draws_cong: "rand r = rand r' \<Longrightarrow> draws rand j r = draws rand j r'"
  by (cases j) simp_all

section \<open>Properties\<close>

text \<open>
  C30: after \<open>srandmt32(seed)\<close>, however the generator was used before, the successive
  results of \<open>randmt32()\<close> are the tempered values of the Mersenne Twister recurrence for that
  seed, and a generator that was never seeded behaves as if it had been seeded with 5489.
\<close>

theorem randmt32_stream:
  "length (rstate r) = 624 \<Longrightarrow>
   draws randmt32 j (srandmt32 seed r) = map (\<lambda>i. temper32 (mt32 seed (624 + i))) [0..<j]
   \<and> draws randmt32 j randmt32fresh = map (\<lambda>i. temper32 (mt32 5489 (624 + i))) [0..<j]"
proof (rule conjI)
  assume "length (rstate r) = 624"
  then show "draws randmt32 j (srandmt32 seed r) = map (\<lambda>i. temper32 (mt32 seed (624 + i))) [0..<j]"
    by (rule mt32.draws_gen_at [OF mt32_recur srandmt32_gen_at])
next
  have len: "length (rstate randmt32fresh) = 624" "curndx randmt32fresh = 625"
    by (simp_all add: randmt32fresh_def params32)
  have "draws randmt32 j randmt32fresh = draws randmt32 j (srandmt32 5489 randmt32fresh)"
    by (rule draws_cong [OF randmt32_default [OF len(2)]])
  then show "draws randmt32 j randmt32fresh = map (\<lambda>i. temper32 (mt32 5489 (624 + i))) [0..<j]"
    using mt32.draws_gen_at [OF mt32_recur srandmt32_gen_at [OF len(1)]] by simp
qed

theorem randmt32_stream_witness:
  "draws randmt32 3 (srandmt32 42 randmt32fresh) = map (\<lambda>i. temper32 (mt32 42 (624 + i))) [0..<3]"
  using randmt32_stream [of randmt32fresh 3 42] by (simp add: randmt32fresh_def params32)

text \<open>
  After \<open>srandmt64(seed)\<close> the successive results of \<open>randmt64()\<close> are the
  tempered values of the 64-bit Mersenne Twister recurrence, tempering loses no information, and
  a generator that was never seeded behaves as if it had been seeded with 5489.
\<close>

theorem randmt64_stream:
  "length (rstate r) = 312 \<Longrightarrow>
   draws randmt64 j (srandmt64 seed r) = map (\<lambda>i. temper64 (mt64 seed (312 + i))) [0..<j]
   \<and> draws randmt64 j randmt64fresh = map (\<lambda>i. temper64 (mt64 5489 (312 + i))) [0..<j]
   \<and> bij temper64"
proof (intro conjI)
  assume "length (rstate r) = 312"
  then show "draws randmt64 j (srandmt64 seed r) = map (\<lambda>i. temper64 (mt64 seed (312 + i))) [0..<j]"
    by (rule mt64.draws_gen_at [OF mt64_recur srandmt64_gen_at])
next
  have len: "length (rstate randmt64fresh) = 312" "curndx randmt64fresh = 313"
    by (simp_all add: randmt64fresh_def params64)
  have "draws randmt64 j randmt64fresh = draws randmt64 j (srandmt64 5489 randmt64fresh)"
    by (rule draws_cong [OF randmt64_default [OF len(2)]])
  then show "draws randmt64 j randmt64fresh = map (\<lambda>i. temper64 (mt64 5489 (312 + i))) [0..<j]"
    using mt64.draws_gen_at [OF mt64_recur srandmt64_gen_at [OF len(1)]] by simp
next
  have "inj temper64" by (rule injI) (rule temper64_inj)
  then show "bij temper64" by (simp add: bij_def finite_UNIV_inj_surj)
qed

theorem randmt64_stream_witness:
  "draws randmt64 3 (srandmt64 42 randmt64fresh) = map (\<lambda>i. temper64 (mt64 42 (312 + i))) [0..<3]"
  using randmt64_stream [of randmt64fresh 3 42] by (simp add: randmt64fresh_def params64)

text \<open>
  Every number the 32-bit generator returns after seeding is at most
  \<open>RANDMT32_MAX\<close> although it is computed in 64-bit arithmetic, and tempering maps distinct
  state values to distinct outputs.
\<close>

theorem randmt32_range:
  "length (rstate r) = 624 \<Longrightarrow>
   (\<forall>x \<in> set (draws randmt32 j (srandmt32 seed r)). x \<le> 0xffffffff) \<and> inj temper32"
  using fits32_le [OF fits32_temper [OF fits32_mt32]]
  by (auto simp: mt32.draws_gen_at [OF mt32_recur srandmt32_gen_at] intro: injI temper32_inj)

theorem randmt32_range_witness:
  "(\<forall>x \<in> set (draws randmt32 2 (srandmt32 1 randmt32fresh)). x \<le> 0xffffffff) \<and> inj temper32"
  using randmt32_range [of randmt32fresh 2 1] by (simp add: randmt32fresh_def params32)

text \<open>
  Seeding with a non-empty key table leaves in the buffer exactly what the reference
  algorithm computes, whatever the buffer held before, and makes the next call refill it.
\<close>

theorem srandmt32tab_reference:
  assumes "length (rstate r) = 624" "key \<noteq> []"
  shows "srandmt32tab key r = Some \<lparr>rstate = ref32tab key, curndx = 624\<rparr>"
proof -
  define s0 where "s0 = map (seed32 19650218) [0..<624]"
  have s0: "rstate (srandmt32 RANDMT32TABSEED r) = s0" "length s0 = 624"
    using srandmt32_state [OF assms(1)] by (simp_all add: s0_def RANDMT32TABSEED_def)
  have cur: "curndx (srandmt32 RANDMT32TABSEED r) = 624" by (simp add: srandmt32_def params32 Let_def)
  obtain l st where ls: "ref32tab1 key (max (length key) 624) 1 0 s0 = (l, st)" by fastforce
  have 1: "srandmt32tab1 key (max (length key) 624) 1 0 (s0 ! 0) s0 = (l, st)" "1 \<le> l" "l < 624" "length st = 624"
    using srandmt32tab1_ref [OF s0(2), of 1 0 key "s0 ! 0" "max (length key) 624"] assms(2) ls by auto
  have 2: "srandmt32tab2 623 l (st ! (l - 1)) st = ref32tab2 623 l st"
    by (rule srandmt32tab2_ref [OF 1(4,2,3) refl])
  show ?thesis
    using assms(2) 1 2 cur s0 ls
    by (cases "srandmt32 RANDMT32TABSEED r")
      (simp add: srandmt32tab_def ref32tab_def Let_def params32 s0_def [symmetric] RANDMT32HIMASK_def)
qed

theorem srandmt32tab_reference_witness:
  "srandmt32tab [0x123, 0x234, 0x345, 0x456] randmt32fresh
     = Some \<lparr>rstate = ref32tab [0x123, 0x234, 0x345, 0x456], curndx = 624\<rparr>"
  by (rule srandmt32tab_reference) (simp_all add: randmt32fresh_def params32)

text \<open>
  The guard of the one-time initialisation tests the result of \<open>pthread_mutex_trylock\<close>
  with the wrong sense: the first caller takes the guard, leaves it held and returns with
  \<open>randmt32mtx\<close> not initialised; only the next caller, whose attempt fails, initialises it.
\<close>

lemma randmt32mtxinit_first_call:
  "\<not> initflag s \<Longrightarrow> \<not> initheld s \<Longrightarrow>
   randmt32mtxinit s = s\<lparr>initheld := True\<rparr> \<and>
   randmt32mtxinit (randmt32mtxinit s) = s\<lparr>mtxready := True, initflag := True, initheld := False\<rparr>"
  by (simp add: randmt32mtxinit_def pthread_mutex_trylock_def randmt32init_def)

end
