(* ===== verification/Randlag.thy ===== *)
theory Randlag
  imports Prelude
begin

text \<open>
  The lagged Fibonacci generators and Knuth's subtractive generator (usr/lib/zero/randlfg.c, randlfg2.c,
  randk.c).

  The results of \<open>rand\<close> after \<open>srand(1)\<close> are a sequence that is an argument, and so is whether the
  buffer can be allocated.  A null pointer that is followed and an index outside a table give
  \<^const>\<open>None\<close>.  The counter of calls is an integer.
\<close>

section \<open>Lagged Fibonacci generators\<close>

record lfg =
  randinit :: bool
  randbuf :: "nat \<Rightarrow> u32"
  randndx :: int

definition RAND_N :: nat where "RAND_N = 16384"
definition LFG_A :: int where "LFG_A = 471"
definition LFG_B :: int where "LFG_B = 1586"
definition LFG_C :: int where "LFG_C = 6988"
definition LFG_D :: int where "LFG_D = 9689"
definition LFG2_J :: int where "LFG2_J = 9739"
definition LFG2_K :: int where "LFG2_K = 23209"

text \<open>The bitwise and with \<open>RAND_M\<close> is the remainder by \<open>RAND_N\<close>.\<close>

definition lfgidx :: "int \<Rightarrow> nat" where "lfgidx i = nat (i mod int RAND_N)"

definition lfginit :: "bool \<Rightarrow> (nat \<Rightarrow> u32) \<Rightarrow> lfg \<Rightarrow> lfg option" where
  "lfginit mem rnd st =
     (if randinit st then Some st
      else if mem then Some (st\<lparr>randbuf := (\<lambda>i. if i < RAND_N then rnd i else randbuf st i), randinit := True\<rparr>)
      else None)"

definition randlfg :: "bool \<Rightarrow> (nat \<Rightarrow> u32) \<Rightarrow> lfg \<Rightarrow> (u32 \<times> lfg) option" where
  "randlfg mem rnd st = map_option (\<lambda>st.
     let ndx = randndx st + 1;
         val1 = randbuf st (lfgidx (ndx - LFG_A));
         val2 = randbuf st (lfgidx (ndx - LFG_B));
         val3 = randbuf st (lfgidx (ndx - LFG_C));
         val4 = randbuf st (lfgidx (ndx - LFG_D));
         retval = ((val1 XOR val2) XOR val3) XOR val4
     in (retval, st\<lparr>randndx := ndx, randbuf := (randbuf st)(lfgidx ndx := retval)\<rparr>)) (lfginit mem rnd st)"

definition randlfg2 :: "bool \<Rightarrow> (nat \<Rightarrow> u32) \<Rightarrow> lfg \<Rightarrow> (u32 \<times> lfg) option" where
  "randlfg2 mem rnd st = map_option (\<lambda>st.
     let ndx = randndx st + 1;
         val1 = randbuf st (lfgidx (ndx - LFG2_J));
         val2 = randbuf st (lfgidx (ndx - LFG2_K));
         retval = val1 XOR val2
     in (retval, st\<lparr>randndx := ndx, randbuf := (randbuf st)(lfgidx ndx := retval)\<rparr>)) (lfginit mem rnd st)"

section \<open>Knuth's generator\<close>

record randkst =
  kinit :: bool
  inext :: int
  inextp :: int
  randktbl :: "int \<Rightarrow> int"

definition RANDKMBIG :: int where "RANDKMBIG = 1000000000"
definition RANDKMSEED :: int where "RANDKMSEED = 161803398"
definition RANDKNTAB :: int where "RANDKNTAB = 56"

definition inktab :: "int \<Rightarrow> bool" where "inktab i \<longleftrightarrow> 0 \<le> i \<and> i < RANDKNTAB"

definition kwrap :: "int \<Rightarrow> int" where "kwrap v = (if v < 0 then v + RANDKMBIG else v)"

text \<open>The first loop of the seeding: it fills the table in steps of 21.\<close>

fun seed_loop :: "nat \<Rightarrow> int \<Rightarrow> int \<Rightarrow> int \<Rightarrow> (int \<Rightarrow> int) \<Rightarrow> (int \<Rightarrow> int) option" where
  "seed_loop 0 j mj mk tbl = Some tbl"
| "seed_loop (Suc n) j mj mk tbl =
     (let ii = j mod RANDKNTAB - 1 in
      if inktab ii then seed_loop n (j + 21) mk (kwrap (mj - mk)) (tbl(ii := mk)) else None)"

fun warm_loop :: "int list \<Rightarrow> int \<Rightarrow> (int \<Rightarrow> int) \<Rightarrow> (int \<Rightarrow> int) option" where
  "warm_loop [] mt tbl = Some tbl"
| "warm_loop (i # is) mt tbl =
     (let k = mt mod RANDKNTAB - 1 in
      if inktab k then warm_loop is (mt + 1) (tbl(i := kwrap (tbl i - tbl k))) else None)"

definition srandk :: "int \<Rightarrow> randkst \<Rightarrow> randkst option" where
  "srandk seed st =
     (let seedval = (if seed = 0 then 1 else seed);
          mj = \<bar>RANDKMSEED - seedval\<bar> mod RANDKMBIG;
          tbl = (randktbl st)(RANDKNTAB - 1 := mj);
          warm = (\<lambda>t. Option.bind t (warm_loop [1..55] 32))
      in map_option (\<lambda>tbl. \<lparr>kinit = True, inext = 0, inextp = 31, randktbl = tbl\<rparr>)
           (warm (warm (warm (warm (seed_loop 54 21 mj 1 tbl))))))"

definition randk :: "randkst \<Rightarrow> (int \<times> randkst) option" where
  "randk st = Option.bind (if kinit st then Some st else srandk 0 st) (\<lambda>st.
     let i = inext st + 1; i = (if i = RANDKNTAB then 1 else i);
         p = inextp st + 1; p = (if p = RANDKNTAB then 1 else p)
     in if inktab i \<and> inktab p then
          let mj = kwrap (randktbl st i - randktbl st p)
          in Some (mj, st\<lparr>inext := i, inextp := p, randktbl := (randktbl st)(i := mj)\<rparr>)
        else None)"

section \<open>The recurrence\<close>

text \<open>
  The sequence with given lags: the value number \<open>k\<close> is the exclusive or of the earlier ones at the
  lags; the first \<open>RAND_N\<close> values are the results of \<open>rand\<close>.
\<close>

function lagseq :: "nat list \<Rightarrow> (nat \<Rightarrow> u32) \<Rightarrow> nat \<Rightarrow> u32" where
  "lagseq lags rnd k =
     (if k < RAND_N then rnd ((k + 1) mod RAND_N)
      else foldr (XOR) (map (\<lambda>a. if 0 < a \<and> a \<le> k then lagseq lags rnd (k - a) else 0) lags) 0)"
  by pat_completeness auto
termination by (relation "measure (\<lambda>(lags, rnd, k). k)") auto

declare lagseq.simps [simp del]

text \<open>What the generators promise: a step of the recurrence on the buffer.\<close>

locale lagged =
  fixes gen :: "lfg \<Rightarrow> (u32 \<times> lfg) option" and lags :: "nat list"
  assumes lags: "\<forall>a \<in> set lags. 0 < a \<and> a < RAND_N"
    and step: "randinit st \<Longrightarrow> gen st =
      (let ndx = randndx st + 1; v = foldr (XOR) (map (\<lambda>a. randbuf st (lfgidx (ndx - int a))) lags) 0
       in Some (v, st\<lparr>randndx := ndx, randbuf := (randbuf st)(lfgidx ndx := v)\<rparr>))"
begin

text \<open>After \<open>n\<close> calls the buffer holds the last \<open>RAND_N\<close> values of the sequence.\<close>

definition holds :: "(nat \<Rightarrow> u32) \<Rightarrow> nat \<Rightarrow> lfg \<Rightarrow> bool" where
  "holds rnd n st \<longleftrightarrow> randinit st \<and> randndx st = int n \<and>
     (\<forall>k. n \<le> k \<and> k < n + RAND_N \<longrightarrow> randbuf st ((k + 1) mod RAND_N) = lagseq lags rnd k)"

lemma holds_step:
  assumes "holds rnd n st"
  shows "\<exists>st'. gen st = Some (lagseq lags rnd (n + RAND_N), st') \<and> holds rnd (n + 1) st'"
proof -
  have N: "0 < RAND_N" by (simp add: RAND_N_def)
  have i: "lfgidx (int n + 1 - int a) = (n + RAND_N - a + 1) mod RAND_N" if "a \<in> set lags" for a
  proof -
    have "a < RAND_N" using lags that by auto
    then have "int n + 1 - int a + int RAND_N = int (n + RAND_N - a + 1)" by simp
    then have "(int n + 1 - int a) mod int RAND_N = int ((n + RAND_N - a + 1) mod RAND_N)"
      by (metis mod_add_self2 zmod_int)
    then show ?thesis by (simp add: lfgidx_def)
  qed
  have r: "randbuf st ((n + RAND_N - a + 1) mod RAND_N) = lagseq lags rnd (n + RAND_N - a)" if "a \<in> set lags" for a
    using assms lags that by (auto simp: holds_def)
  have le: "0 < a \<and> a \<le> n + RAND_N" if "a \<in> set lags" for a using lags that by (simp add: less_imp_le trans_le_add2)
  have v: "foldr (XOR) (map (\<lambda>a. randbuf st (lfgidx (int n + 1 - int a))) lags) 0 = lagseq lags rnd (n + RAND_N)"
    by (subst lagseq.simps) (use i r le in \<open>auto intro!: arg_cong [where f = "\<lambda>l. foldr (XOR) l 0"]\<close>)
  have x: "lfgidx (int n + 1) = (n + 1) mod RAND_N" by (metis lfgidx_def nat_int of_nat_1 of_nat_add zmod_int)
  define st' where "st' = st\<lparr>randndx := int n + 1, randbuf := (randbuf st)((n + 1) mod RAND_N := lagseq lags rnd (n + RAND_N))\<rparr>"
  have "gen st = Some (lagseq lags rnd (n + RAND_N), st')"
    using step [of st] assms v x by (simp add: holds_def st'_def Let_def)
  moreover have "holds rnd (n + 1) st'"
  proof -
    have "randbuf st' ((k + 1) mod RAND_N) = lagseq lags rnd k" if "n + 1 \<le> k" "k < n + 1 + RAND_N" for k
    proof (cases "k = n + RAND_N")
      case True
      then have "(k + 1) mod RAND_N = (n + 1) mod RAND_N" by (metis add.assoc add.commute mod_add_self2)
      then show ?thesis using True by (simp add: st'_def)
    next
      case False
      have "(k + 1) mod RAND_N \<noteq> (n + 1) mod RAND_N"
      proof
        assume "(k + 1) mod RAND_N = (n + 1) mod RAND_N"
        then have "RAND_N dvd (k + 1) - (n + 1)" using that(1) by (metis mod_eq_dvd_iff_nat add_le_mono1 le_add1 order_trans)
        then show False using that False by (auto dest!: dvd_imp_le)
      qed
      then show ?thesis using assms that False by (simp add: st'_def holds_def)
    qed
    then show ?thesis using assms by (simp add: holds_def st'_def)
  qed
  ultimately show ?thesis by blast
qed

text \<open>The results of a sequence of calls.\<close>

fun calls :: "nat \<Rightarrow> lfg \<Rightarrow> u32 list option" where
  "calls 0 st = Some []"
| "calls (Suc n) st = Option.bind (gen st) (\<lambda>(v, st). map_option (Cons v) (calls n st))"

lemma calls_stream: "holds rnd m st \<Longrightarrow> calls n st = Some (map (lagseq lags rnd) [m + RAND_N..<m + RAND_N + n])"
proof (induction n arbitrary: m st)
  case (Suc n)
  obtain st' where "gen st = Some (lagseq lags rnd (m + RAND_N), st')" "holds rnd (m + 1) st'"
    using holds_step [OF Suc.prems] by blast
  then show ?case using Suc.IH [of "m + 1" st'] by (simp add: upt_conv_Cons del: upt_Suc)
qed simp

end

interpretation lfg: lagged "randlfg True rnd" "[471, 1586, 6988, 9689]"
  by unfold_locales
    (simp_all add: randlfg_def lfginit_def Let_def RAND_N_def LFG_A_def LFG_B_def LFG_C_def LFG_D_def xor.assoc)

text \<open>The second lag of the other generator is longer than the buffer, so that the lag in effect is 6825.\<close>

interpretation lfg2: lagged "randlfg2 True rnd" "[9739, 6825]"
proof unfold_locales
  have "lfgidx (i - 23209) = lfgidx (i - 6825)" for i
  proof -
    have "i - 6825 = (i - 23209) + 16384" by simp
    then have "(i - 6825) mod 16384 = (i - 23209) mod 16384" by (metis mod_add_self2)
    then show ?thesis by (simp add: lfgidx_def RAND_N_def)
  qed
  then show "randlfg2 True rnd st = (let ndx = randndx st + 1;
      v = foldr (XOR) (map (\<lambda>a. randbuf st (lfgidx (ndx - int a))) [9739, 6825]) 0
      in Some (v, st\<lparr>randndx := ndx, randbuf := (randbuf st)(lfgidx ndx := v)\<rparr>))" if "randinit st" for st
    using that by (simp add: randlfg2_def lfginit_def Let_def LFG2_J_def LFG2_K_def)
qed (simp add: RAND_N_def)

text \<open>
  The results of both generators from the first call on: a lagged Fibonacci sequence with the four lags
  of the first, and with the lags 9739 and 6825 of the second.
\<close>

definition lfg0 :: lfg where "lfg0 = \<lparr>randinit = False, randbuf = (\<lambda>_. 0), randndx = 0\<rparr>"

lemma lfginit_holds:
  "\<exists>st. lfginit True rnd lfg0 = Some st \<and> randinit st \<and> randndx st = 0 \<and>
    (\<forall>k<RAND_N. randbuf st ((k + 1) mod RAND_N) = lagseq lags rnd k)"
  by (auto simp: lfginit_def lfg0_def lagseq.simps RAND_N_def)

lemma randlfg_init: "lfginit mem rnd st = Some st' \<Longrightarrow> randlfg mem rnd st = randlfg mem rnd st'"
  "lfginit mem rnd st = Some st' \<Longrightarrow> randlfg2 mem rnd st = randlfg2 mem rnd st'"
  by (auto simp: randlfg_def randlfg2_def lfginit_def split: if_splits)

theorem randlfg_stream:
  "lfg.calls rnd (Suc n) lfg0 = Some (map (lagseq [471, 1586, 6988, 9689] rnd) [RAND_N..<RAND_N + Suc n]) \<and>
   lfg2.calls rnd (Suc n) lfg0 = Some (map (lagseq [9739, 6825] rnd) [RAND_N..<RAND_N + Suc n])"
proof -
  obtain st where st: "lfginit True rnd lfg0 = Some st" "randinit st" "randndx st = 0"
    and b: "\<And>lags. \<forall>k<RAND_N. randbuf st ((k + 1) mod RAND_N) = lagseq lags rnd k"
    using lfginit_holds [of rnd] by (metis option.inject)
  have "lfg.calls rnd (Suc n) lfg0 = lfg.calls rnd (Suc n) st" "lfg2.calls rnd (Suc n) lfg0 = lfg2.calls rnd (Suc n) st"
    using randlfg_init [OF st(1)] by simp_all
  moreover have h: "lfg.holds rnd 0 st" "lfg2.holds rnd 0 st"
    unfolding lfg.holds_def lfg2.holds_def using st(2,3) b by simp_all
  ultimately show ?thesis using lfg.calls_stream [OF h(1), where n = "Suc n"] lfg2.calls_stream [OF h(2), where n = "Suc n"] by simp
qed

section \<open>Knuth's generator\<close>

text \<open>On a table of numbers in the range the generator stays in the table and returns a number in the range.\<close>

definition kst_ok :: "randkst \<Rightarrow> bool" where
  "kst_ok st \<longleftrightarrow> kinit st \<and> 0 \<le> inext st \<and> inext st < RANDKNTAB \<and> 0 \<le> inextp st \<and> inextp st < RANDKNTAB \<and>
     (\<forall>i. inktab i \<longrightarrow> 0 \<le> randktbl st i \<and> randktbl st i < RANDKMBIG)"

lemma randk_range:
  assumes "kst_ok st"
  shows "\<exists>v st'. randk st = Some (v, st') \<and> 0 \<le> v \<and> v < RANDKMBIG \<and> kst_ok st'"
proof -
  define i where "i = (if inext st + 1 = RANDKNTAB then 1 else inext st + 1)"
  define p where "p = (if inextp st + 1 = RANDKNTAB then 1 else inextp st + 1)"
  have ip: "inktab i" "inktab p" using assms by (auto simp: i_def p_def inktab_def kst_ok_def RANDKNTAB_def)
  define v where "v = kwrap (randktbl st i - randktbl st p)"
  have "0 \<le> randktbl st j \<and> randktbl st j < RANDKMBIG" if "inktab j" for j using assms that by (simp add: kst_ok_def)
  from this [OF ip(1)] this [OF ip(2)] have v: "0 \<le> v" "v < RANDKMBIG" by (simp_all add: v_def kwrap_def)
  have "randk st = Some (v, st\<lparr>inext := i, inextp := p, randktbl := (randktbl st)(i := v)\<rparr>)"
    using assms ip by (simp add: randk_def kst_ok_def i_def [symmetric] p_def [symmetric] v_def Let_def)
  then show ?thesis using assms ip v by (auto simp: kst_ok_def inktab_def)
qed

text \<open>The seeding stores in front of the table: \<open>21 * 8\<close> is a multiple of its size.\<close>

lemma srandk_outside: "srandk seed st = None"
proof -
  have "seed_loop 54 21 mj 1 tbl = None" for mj tbl
    by (simp add: eval_nat_numeral inktab_def RANDKNTAB_def Let_def)
  then show ?thesis by (simp add: srandk_def Let_def)
qed

end
