(* ===== verification/Mars.thy ===== *)
theory Mars
  imports Prelude
begin

text \<open>
  The Core War virtual machine (usr/games/corewar/cw.c, cw.h), built without the graphical
  front end (\<open>ZEUS\<close> not defined): operand decoding, the eleven instruction handlers, the
  scheduler that executes one instruction of a program, and the main loop.

  The core is a map from addresses to instructions; an access outside
  \<open>0 .. CWCORESIZE - 1\<close>, and a run queue access outside \<open>0 .. CWNPROC - 1\<close>,
  is undefined in C and is the result \<open>Undef\<close> here.  A call of \<open>exit\<close> with the
  message that a program won is the result \<open>Won\<close>.  The handlers hold a pointer to the
  instruction they execute, so that operand decoding and the scheduler see what a store changed;
  the model rereads the core at the same places.  All \<open>long\<close> values stay below
  \<open>2 ^ 17\<close> and are integers.
\<close>

section \<open>Instructions and machine state\<close>

definition CWNTURN :: int where "CWNTURN = 128 * 1024"
definition CWNPROC :: int where "CWNPROC = 1024"
definition CWCORESIZE :: int where "CWCORESIZE = 8000"
definition CWNONE :: int where "CWNONE = -1"

definition CWOPDAT :: u8 where "CWOPDAT = 0"
definition CWOPMOV :: u8 where "CWOPMOV = 1"
definition CWOPADD :: u8 where "CWOPADD = 2"
definition CWOPSUB :: u8 where "CWOPSUB = 3"
definition CWOPJMP :: u8 where "CWOPJMP = 4"
definition CWOPJMZ :: u8 where "CWOPJMZ = 5"
definition CWOPJMN :: u8 where "CWOPJMN = 6"
definition CWOPCMP :: u8 where "CWOPCMP = 7"
definition CWOPSLT :: u8 where "CWOPSLT = 8"
definition CWOPDJN :: u8 where "CWOPDJN = 9"
definition CWOPSPL :: u8 where "CWOPSPL = 10"

definition CWSIGNBIT :: u8 where "CWSIGNBIT = 0x01"
definition CWRELBIT :: u8 where "CWRELBIT = 0x02"
definition CWIMMBIT :: u8 where "CWIMMBIT = 0x04"
definition CWINDIRBIT :: u8 where "CWINDIRBIT = 0x08"
definition CWPREDECBIT :: u8 where "CWPREDECBIT = 0x10"

lemmas cwops = CWOPDAT_def CWOPMOV_def CWOPADD_def CWOPSUB_def CWOPJMP_def CWOPJMZ_def
  CWOPJMN_def CWOPCMP_def CWOPSLT_def CWOPDJN_def CWOPSPL_def
lemmas cwflags = CWSIGNBIT_def CWRELBIT_def CWIMMBIT_def CWINDIRBIT_def CWPREDECBIT_def
lemmas cwsizes = CWCORESIZE_def CWNPROC_def CWNONE_def

record cwinstr =
  iop :: u8
  iaflg :: u8
  ibflg :: u8
  ipid :: u8
  ia :: u16
  ib :: u16

definition cwnull :: cwinstr where
  "cwnull = \<lparr>iop = 0, iaflg = 0, ibflg = 0, ipid = 0, ia = 0, ib = 0\<rparr>"

record cwmars =
  runqtab :: "int \<Rightarrow> int \<Rightarrow> int"
  proccnt :: "int \<Rightarrow> int"
  curproc :: "int \<Rightarrow> int"
  nturn :: "int \<Rightarrow> int"
  curpid :: int
  prog1name :: string
  prog2name :: string
  pidmap :: "int \<Rightarrow> u8"
  optab :: "int \<Rightarrow> cwinstr"

text \<open>
  \<open>Won n name pc\<close> is the message that program \<open>n\<close>, printed with \<open>name\<close>,
  won, followed by \<open>exit(0)\<close>.
\<close>

datatype 'a cwres = Ret 'a | Won int string int | Tie | Undef

fun cwbind :: "'a cwres \<Rightarrow> ('a \<Rightarrow> 'b cwres) \<Rightarrow> 'b cwres" where
  "cwbind (Ret x) f = f x"
| "cwbind (Won n s pc) f = Won n s pc"
| "cwbind Tie f = Tie"
| "cwbind Undef f = Undef"

definition core_ok :: "int \<Rightarrow> bool" where
  "core_ok i \<longleftrightarrow> 0 \<le> i \<and> i < CWCORESIZE"

definition runq_ok :: "int \<Rightarrow> bool" where
  "runq_ok i \<longleftrightarrow> 0 \<le> i \<and> i < CWNPROC"

text \<open>Reads and writes of the core and of a run queue.\<close>

definition rdcore :: "cwmars \<Rightarrow> int \<Rightarrow> cwinstr cwres" where
  "rdcore m i = (if core_ok i then Ret (optab m i) else Undef)"

definition wrcore :: "cwmars \<Rightarrow> int \<Rightarrow> cwinstr \<Rightarrow> cwmars cwres" where
  "wrcore m i x = (if core_ok i then Ret (m\<lparr>optab := (optab m)(i := x)\<rparr>) else Undef)"

definition wrrunq :: "cwmars \<Rightarrow> int \<Rightarrow> int \<Rightarrow> int \<Rightarrow> cwmars cwres" where
  "wrrunq m pid i v =
     (if runq_ok i
      then Ret (m\<lparr>runqtab := (runqtab m)(pid := (runqtab m pid)(i := v))\<rparr>)
      else Undef)"

definition hasflg :: "u8 \<Rightarrow> u8 \<Rightarrow> bool" where
  "hasflg flg b \<longleftrightarrow> flg AND b \<noteq> 0"

section \<open>Operand decoding\<close>

definition cwgetarg :: "u8 \<Rightarrow> u16 \<Rightarrow> int \<Rightarrow> cwmars \<Rightarrow> (int \<times> cwmars) cwres" where
  "cwgetarg flg fld pc m =
     (if hasflg flg CWIMMBIT then Ret (c_mod (uint fld) CWCORESIZE, m)
      else let tmp = c_mod (pc + uint fld) CWCORESIZE
           in if hasflg flg (CWINDIRBIT OR CWPREDECBIT)
              then cwbind (rdcore m tmp) (\<lambda>p.
                     if hasflg flg CWPREDECBIT
                     then cwbind (wrcore m tmp (p\<lparr>ib := word_of_int (uint (ib p) - 1)\<rparr>)) (\<lambda>m.
                            Ret (c_mod (uint (ib p) - 1 + pc) CWCORESIZE, m))
                     else Ret (c_mod (uint (ib p) + pc) CWCORESIZE, m))
              else Ret (c_mod tmp CWCORESIZE, m))"

definition cwgetargs :: "int \<Rightarrow> cwmars \<Rightarrow> (int \<times> int \<times> cwmars) cwres" where
  "cwgetargs pc m =
     cwbind (cwgetarg (iaflg (optab m pc)) (ia (optab m pc)) pc m) (\<lambda>(arg1, m).
     cwbind (cwgetarg (ibflg (optab m pc)) (ib (optab m pc)) pc m) (\<lambda>(arg2, m).
     Ret (arg1, arg2, m)))"

definition nextpc :: "int \<Rightarrow> int" where
  "nextpc pc = c_mod (pc + 1) CWCORESIZE"

section \<open>Instruction handlers\<close>

definition cwdatop :: "int \<Rightarrow> int \<Rightarrow> cwmars \<Rightarrow> (int \<times> cwmars) cwres" where
  "cwdatop pid pc m =
     (if pid = 0 then Won 2 (prog2name m) pc else Won 1 (prog1name m) pc)"

definition cwmovop :: "int \<Rightarrow> int \<Rightarrow> cwmars \<Rightarrow> (int \<times> cwmars) cwres" where
  "cwmovop pid pc m =
     cwbind (cwgetargs pc m) (\<lambda>(arg1, arg2, m).
     cwbind
       (if hasflg (iaflg (optab m pc)) CWIMMBIT \<and> \<not> hasflg (ibflg (optab m pc)) CWIMMBIT
        then cwbind (rdcore m arg2) (\<lambda>x. wrcore m arg2 (x\<lparr>ib := word_of_int arg1\<rparr>))
        else cwbind (rdcore m arg1) (\<lambda>x. wrcore m arg2 x))
       (\<lambda>m. Ret (nextpc pc, m)))"

definition cwaddop :: "int \<Rightarrow> int \<Rightarrow> cwmars \<Rightarrow> (int \<times> cwmars) cwres" where
  "cwaddop pid pc m =
     cwbind (cwgetargs pc m) (\<lambda>(arg1, arg2, m).
     cwbind
       (if hasflg (iaflg (optab m pc)) CWIMMBIT
        then if hasflg (ibflg (optab m pc)) CWIMMBIT
             then let b = c_mod (arg2 + arg1) CWCORESIZE; x = optab m pc
                  in wrcore m pc (x\<lparr>ibflg := ibflg x AND NOT CWSIGNBIT, ib := word_of_int b\<rparr>)
             else cwbind (rdcore m arg2) (\<lambda>x.
                    let b = c_mod (uint (ib x) + arg1) CWCORESIZE
                    in wrcore m arg2 (x\<lparr>ibflg := ibflg x AND NOT CWSIGNBIT, ib := word_of_int b\<rparr>))
        else if hasflg (ibflg (optab m pc)) CWIMMBIT
        then let b = c_mod (arg2 + arg1) CWCORESIZE
             in wrcore m pc ((optab m pc)\<lparr>ib := word_of_int b\<rparr>)
        else cwbind (rdcore m arg1) (\<lambda>x. cwbind (rdcore m arg2) (\<lambda>y.
               let a = c_mod (uint (ia x) + uint (ia y)) CWCORESIZE;
                   b = c_mod (uint (ib x) + uint (ib y)) CWCORESIZE
               in wrcore m arg2 (y\<lparr>ia := word_of_int a, ib := word_of_int b\<rparr>))))
       (\<lambda>m. Ret (nextpc pc, m)))"

definition wrap_neg :: "int \<Rightarrow> int" where
  "wrap_neg b = (if b < 0 then b + CWCORESIZE else b)"

definition cwsubop :: "int \<Rightarrow> int \<Rightarrow> cwmars \<Rightarrow> (int \<times> cwmars) cwres" where
  "cwsubop pid pc m =
     cwbind (cwgetargs pc m) (\<lambda>(arg1, arg2, m).
     cwbind
       (if hasflg (iaflg (optab m pc)) CWIMMBIT
        then cwbind (rdcore m arg2) (\<lambda>x.
               wrcore m arg2 (x\<lparr>ib := word_of_int (wrap_neg (uint (ib x) - arg1))\<rparr>))
        else cwbind (rdcore m arg1) (\<lambda>x. cwbind (rdcore m arg2) (\<lambda>y.
               wrcore m arg2 (y\<lparr>ia := word_of_int (wrap_neg (uint (ia x) - uint (ia y))),
                                ib := word_of_int (wrap_neg (uint (ib x) - uint (ib y)))\<rparr>))))
       (\<lambda>m. Ret (nextpc pc, m)))"

definition cwjmpop :: "int \<Rightarrow> int \<Rightarrow> cwmars \<Rightarrow> (int \<times> cwmars) cwres" where
  "cwjmpop pid pc m =
     cwbind (cwgetargs pc m) (\<lambda>(arg1, arg2, m).
     let cnt = proccnt m pid
     in if cnt < CWNPROC
        then cwbind (wrrunq m pid (cnt - 1) arg2) (\<lambda>m. Ret (arg2, m))
        else Ret (pc, m))"

definition cwjmzop :: "int \<Rightarrow> int \<Rightarrow> cwmars \<Rightarrow> (int \<times> cwmars) cwres" where
  "cwjmzop pid pc m =
     cwbind (cwgetargs pc m) (\<lambda>(arg1, arg2, m).
     cwbind (rdcore m arg2) (\<lambda>x.
       if ib x = 0
       then cwbind (wrrunq m pid (proccnt m pid - 1) arg1) (\<lambda>m. Ret (arg1, m))
       else Ret (nextpc pc, m)))"

definition cwjmnop :: "int \<Rightarrow> int \<Rightarrow> cwmars \<Rightarrow> (int \<times> cwmars) cwres" where
  "cwjmnop pid pc m =
     cwbind (cwgetargs pc m) (\<lambda>(arg1, arg2, m).
     cwbind (rdcore m arg2) (\<lambda>x.
       if ib x \<noteq> 0
       then cwbind (wrrunq m pid (proccnt m pid - 1) arg1) (\<lambda>m. Ret (arg1, m))
       else Ret (nextpc pc, m)))"

definition cwcmpop :: "int \<Rightarrow> int \<Rightarrow> cwmars \<Rightarrow> (int \<times> cwmars) cwres" where
  "cwcmpop pid pc m =
     cwbind (cwgetargs pc m) (\<lambda>(arg1, arg2, m).
     cwbind
       (if hasflg (iaflg (optab m pc)) CWIMMBIT
        then cwbind (rdcore m arg2) (\<lambda>x. Ret (arg1 = uint (ib x)))
        else cwbind (rdcore m arg1) (\<lambda>x. cwbind (rdcore m arg2) (\<lambda>y.
               Ret (ia x = ia y \<and> ib x = ib y))))
       (\<lambda>skip. let pc = (if skip then pc + 1 else pc) in Ret (nextpc pc, m)))"

definition cwsltop :: "int \<Rightarrow> int \<Rightarrow> cwmars \<Rightarrow> (int \<times> cwmars) cwres" where
  "cwsltop pid pc m =
     cwbind (cwgetargs pc m) (\<lambda>(arg1, arg2, m).
     cwbind (rdcore m arg2) (\<lambda>x.
       let b = uint (ib x);
           skip = (if hasflg (iaflg (optab m pc)) CWIMMBIT then arg1 < b
                   else uint (ib (optab m arg2)) < b);
           pc = (if skip then pc + 1 else pc)
       in Ret (nextpc pc, m)))"

definition cwdjnop :: "int \<Rightarrow> int \<Rightarrow> cwmars \<Rightarrow> (int \<times> cwmars) cwres" where
  "cwdjnop pid pc m =
     cwbind (cwgetargs pc m) (\<lambda>(arg1, arg2, m).
     let arg = (if hasflg (ibflg (optab m pc)) CWIMMBIT then arg1 else arg2)
     in cwbind (rdcore m arg) (\<lambda>x.
        let b = wrap_neg (uint (ib x) - 1)
        in cwbind (wrcore m arg (x\<lparr>ib := word_of_int b\<rparr>)) (\<lambda>m.
           if b \<noteq> 0
           then cwbind (wrrunq m pid (proccnt m pid - 1) arg1) (\<lambda>m. Ret (arg1, m))
           else Ret (pc, m))))"

definition cwsplop :: "int \<Rightarrow> int \<Rightarrow> cwmars \<Rightarrow> (int \<times> cwmars) cwres" where
  "cwsplop pid pc m =
     cwbind (cwgetargs pc m) (\<lambda>(arg1, arg2, m).
     let pc = nextpc pc;
         cnt = proccnt m pid
     in cwbind (wrrunq m pid (curproc m pid) pc) (\<lambda>m.
        if cnt < CWNPROC
        then cwbind (wrrunq m pid cnt arg2) (\<lambda>m.
               Ret (pc, m\<lparr>proccnt := (proccnt m)(pid := cnt + 1)\<rparr>))
        else Ret (pc, m)))"

definition cwfunctab :: "(int \<Rightarrow> int \<Rightarrow> cwmars \<Rightarrow> (int \<times> cwmars) cwres) list" where
  "cwfunctab = [cwdatop, cwmovop, cwaddop, cwsubop, cwjmpop, cwjmzop, cwjmnop, cwcmpop,
                cwsltop, cwdjnop, cwsplop]"

section \<open>Execution\<close>

text \<open>Removal of the run queue entry \<open>l\<close>: the later entries move down by one.\<close>

function cwshift :: "int \<Rightarrow> int \<Rightarrow> (int \<Rightarrow> int) \<Rightarrow> int \<Rightarrow> int" where
  "cwshift l cnt q = (if l < cnt - 1 then cwshift (l + 1) cnt (q(l := q (l + 1))) else q)"
  by pat_completeness auto
termination by (relation "measure (\<lambda>(l, cnt, _). nat (cnt - l))") auto

declare cwshift.simps [simp del]

definition cwdead :: "int \<Rightarrow> int \<Rightarrow> cwmars \<Rightarrow> cwmars cwres" where
  "cwdead pid cur m =
     (let cnt = proccnt m pid
      in if cnt > 1
         then Ret (m\<lparr>runqtab := (runqtab m)(pid := cwshift cur cnt (runqtab m pid)),
                     proccnt := (proccnt m)(pid := cnt - 1)\<rparr>)
         else Won (if pid = 0 then 2 else 1) (prog2name m) CWNONE)"

definition cwexec :: "int \<Rightarrow> cwmars \<Rightarrow> cwmars cwres" where
  "cwexec pid m =
     (let cur = curproc m pid
      in if \<not> runq_ok cur then Undef
         else let pc0 = runqtab m pid cur
              in cwbind (rdcore m pc0) (\<lambda>op.
                 if op = cwnull then Won (if pid = 0 then 2 else 1) (prog2name m) pc0
                 else if unat (iop op) \<ge> length cwfunctab then Undef
                 else cwbind ((cwfunctab ! unat (iop op)) pid pc0 m) (\<lambda>(pc, m).
                      cwbind
                        (if pc = CWNONE then cwbind (cwdead pid cur m) (\<lambda>m. Ret (cur, m))
                         else if iop (optab m pc0) \<noteq> CWOPSPL
                         then cwbind (wrrunq m pid cur pc) (\<lambda>m. Ret (cur + 1, m))
                         else Ret (cur, m))
                        (\<lambda>(cur, m).
                         let cur = (if cur = proccnt m pid then 0 else cur)
                         in Ret (m\<lparr>curproc := (curproc m)(pid := cur)\<rparr>)))))"

text \<open>
  The main loop.  It counts the turns of the program in turn down and leaves when they were used
  up, with the message that the game is a tie; a negative count is never used up, so the loop may
  run forever and is a partial function.
\<close>

partial_function (option) cwloop :: "int \<Rightarrow> cwmars \<Rightarrow> cwmars cwres option" where
  "cwloop pid m =
     (let t = nturn m pid;
          m1 = m\<lparr>nturn := (nturn m)(pid := t - 1)\<rparr>
      in if t = 0 then Some Tie
         else case cwexec pid m1 of
                Ret m2 \<Rightarrow> let pid = (pid + 1) AND 1 in cwloop pid (m2\<lparr>curpid := pid\<rparr>)
              | Won n s pc \<Rightarrow> Some (Won n s pc)
              | Tie \<Rightarrow> Some Tie
              | Undef \<Rightarrow> Some Undef)"

section \<open>Invariant\<close>

text \<open>
  Instructions without a predecrement operand whose fields are addresses of the core, and run
  queues that hold addresses of the core.
\<close>

definition instr_ok :: "cwinstr \<Rightarrow> bool" where
  "instr_ok x \<longleftrightarrow> unat (iop x) \<le> 10
     \<and> \<not> hasflg (iaflg x) CWPREDECBIT \<and> \<not> hasflg (ibflg x) CWPREDECBIT
     \<and> core_ok (uint (ia x)) \<and> core_ok (uint (ib x))"

definition queue_ok :: "(int \<Rightarrow> int) \<Rightarrow> int \<Rightarrow> int \<Rightarrow> bool" where
  "queue_ok q cnt cur \<longleftrightarrow> 1 \<le> cnt \<and> cnt \<le> CWNPROC \<and> 0 \<le> cur \<and> cur < cnt
     \<and> (\<forall>i. 0 \<le> i \<and> i < cnt \<longrightarrow> core_ok (q i))"

definition mars_inv :: "cwmars \<Rightarrow> bool" where
  "mars_inv m \<longleftrightarrow> (\<forall>i. instr_ok (optab m i))
     \<and> queue_ok (runqtab m 0) (proccnt m 0) (curproc m 0)
     \<and> queue_ok (runqtab m 1) (proccnt m 1) (curproc m 1)"

lemma mars_invD:
  assumes "mars_inv m"
  shows "instr_ok (optab m i)" "pid = 0 \<or> pid = 1 \<Longrightarrow> queue_ok (runqtab m pid) (proccnt m pid) (curproc m pid)"
  using assms by (auto simp: mars_inv_def)

lemma mars_inv_optab [intro]:
  "mars_inv m \<Longrightarrow> instr_ok x \<Longrightarrow> mars_inv (m\<lparr>optab := (optab m)(i := x)\<rparr>)"
  by (simp add: mars_inv_def)

lemma mars_inv_runq [intro]:
  assumes "mars_inv m" "core_ok v"
  shows "mars_inv (m\<lparr>runqtab := (runqtab m)(pid := (runqtab m pid)(i := v))\<rparr>)"
  using assms by (auto simp: mars_inv_def queue_ok_def)

lemma core_ok_mod [simp]: "0 \<le> x \<Longrightarrow> core_ok (c_mod x CWCORESIZE)"
  by (simp add: core_ok_def cwsizes)

lemma core_ok_nextpc [simp]: "0 \<le> pc \<Longrightarrow> core_ok (nextpc pc)"
  by (simp add: nextpc_def)

lemma core_ok_nonneg: "core_ok i \<Longrightarrow> 0 \<le> i"
  by (simp add: core_ok_def)

lemma core_ok_store [simp]: "core_ok v \<Longrightarrow> uint (word_of_int v :: u16) = v"
  by (auto simp: core_ok_def cwsizes uint_word_of_int)

lemma core_ok_wrap: "core_ok x \<Longrightarrow> core_ok y \<Longrightarrow> core_ok (wrap_neg (x - y))"
  by (auto simp: wrap_neg_def core_ok_def cwsizes)

lemma core_ok_dec: "core_ok x \<Longrightarrow> core_ok (wrap_neg (x - 1))"
  by (auto simp: wrap_neg_def core_ok_def cwsizes)

lemma hasflg_sign: "hasflg (flg AND NOT CWSIGNBIT) CWPREDECBIT = hasflg flg CWPREDECBIT"
  by (simp add: hasflg_def cwflags and.assoc)

lemma instr_ok_stores [simp]:
  "instr_ok x \<Longrightarrow> core_ok v \<Longrightarrow> instr_ok (x\<lparr>ib := word_of_int v\<rparr>)"
  "instr_ok x \<Longrightarrow> core_ok v \<Longrightarrow> core_ok w \<Longrightarrow> instr_ok (x\<lparr>ia := word_of_int w, ib := word_of_int v\<rparr>)"
  "instr_ok x \<Longrightarrow> core_ok v \<Longrightarrow>
     instr_ok (x\<lparr>ibflg := ibflg x AND NOT CWSIGNBIT, ib := word_of_int v\<rparr>)"
  by (simp_all add: instr_ok_def hasflg_sign)

lemma cwgetarg_plain:
  assumes "\<forall>i. core_ok (uint (ib (optab m i)))" "\<not> hasflg flg CWPREDECBIT" "core_ok pc"
  shows "\<exists>a. cwgetarg flg fld pc m = Ret (a, m) \<and> core_ok a"
proof -
  have pc: "0 \<le> pc" using assms(3) by (rule core_ok_nonneg)
  then have "core_ok (c_mod (pc + uint fld) CWCORESIZE)" by simp
  moreover have "0 \<le> uint (ib (optab m i)) + pc" for i using pc by simp
  ultimately show ?thesis
    using assms(2) by (simp add: cwgetarg_def Let_def rdcore_def core_ok_nonneg)
qed

lemma cwgetargs_safe:
  assumes "mars_inv m" "core_ok pc"
  obtains a1 a2 where "cwgetargs pc m = Ret (a1, a2, m)" "core_ok a1" "core_ok a2"
proof -
  have ok: "instr_ok (optab m i)" for i using assms(1) by (rule mars_invD)
  obtain a1 where a1: "cwgetarg (iaflg (optab m pc)) (ia (optab m pc)) pc m = Ret (a1, m)" "core_ok a1"
    using cwgetarg_plain ok assms(2) unfolding instr_ok_def by blast
  obtain a2 where "cwgetarg (ibflg (optab m pc)) (ib (optab m pc)) pc m = Ret (a2, m)" "core_ok a2"
    using cwgetarg_plain ok assms(2) unfolding instr_ok_def by blast
  with a1 that show ?thesis by (simp add: cwgetargs_def)
qed

section \<open>The contract of an instruction handler\<close>

text \<open>
  What a handler may do to the machine: it leaves the scheduling state of the other program and
  the position in its own run queue alone, never removes a process, and keeps the invariant.
\<close>

definition keeps :: "int \<Rightarrow> cwmars \<Rightarrow> cwmars \<Rightarrow> bool" where
  "keeps pid m m' \<longleftrightarrow> curproc m' = curproc m \<and> nturn m' = nturn m \<and> curpid m' = curpid m
     \<and> (\<forall>q. q \<noteq> pid \<longrightarrow> proccnt m' q = proccnt m q \<and> runqtab m' q = runqtab m q)
     \<and> proccnt m pid \<le> proccnt m' pid"

fun handled :: "int \<Rightarrow> int \<Rightarrow> cwmars \<Rightarrow> (int \<times> cwmars) cwres \<Rightarrow> bool" where
  "handled pid pc m (Ret (pc', m')) = (core_ok pc' \<and> mars_inv m' \<and> keeps pid m m')"
| "handled pid pc m (Won n s p) = (p = pc \<and> n = (if pid = 0 then 2 else 1))"
| "handled pid pc m Tie = False"
| "handled pid pc m Undef = False"

lemma handledE:
  assumes "handled pid pc m r"
  obtains (ret) pc' m' where "r = Ret (pc', m')" "core_ok pc'" "mars_inv m'" "keeps pid m m'"
    | (won) s where "r = Won (if pid = 0 then 2 else 1) s pc"
  using assms by (cases r) auto

lemma keeps_refl [simp]: "keeps pid m m"
  and keeps_optab [simp]: "keeps pid m (m\<lparr>optab := c\<rparr>)"
  and keeps_runq [simp]: "keeps pid m (m\<lparr>runqtab := (runqtab m)(pid := q)\<rparr>)"
  and keeps_optab_runq [simp]: "keeps pid m (m\<lparr>optab := c, runqtab := (runqtab m)(pid := q)\<rparr>)"
  by (simp_all add: keeps_def)

lemma runq_last: "mars_inv m \<Longrightarrow> pid = 0 \<or> pid = 1 \<Longrightarrow> runq_ok (proccnt m pid - 1)"
  using mars_invD(2) [of m pid] by (auto simp: queue_ok_def runq_ok_def)

locale cw_handler =
  fixes h :: "int \<Rightarrow> int \<Rightarrow> cwmars \<Rightarrow> (int \<times> cwmars) cwres"
  assumes safe: "mars_inv m \<Longrightarrow> pid = 0 \<or> pid = 1 \<Longrightarrow> core_ok pc \<Longrightarrow> handled pid pc m (h pid pc m)"
begin

lemma not_undef: "mars_inv m \<Longrightarrow> pid = 0 \<or> pid = 1 \<Longrightarrow> core_ok pc \<Longrightarrow> h pid pc m \<noteq> Undef"
  using safe by fastforce

lemma ret_ok:
  assumes "mars_inv m" "pid = 0 \<or> pid = 1" "core_ok pc" "h pid pc m = Ret (pc', m')"
  shows "core_ok pc'" "mars_inv m'" "keeps pid m m'"
  using safe [OF assms(1-3)] assms(4) by auto

end

lemmas handler_defs = rdcore_def wrcore_def wrrunq_def Let_def

interpretation dat: cw_handler cwdatop
  by unfold_locales (simp add: cwdatop_def)

interpretation mov: cw_handler cwmovop
proof
  fix m pid pc assume m: "mars_inv m" and "core_ok pc"
  then obtain a1 a2 where a: "cwgetargs pc m = Ret (a1, a2, m)" "core_ok a1" "core_ok a2"
    by (rule cwgetargs_safe)
  with m show "handled pid pc m (cwmovop pid pc m)"
    by (auto simp: cwmovop_def handler_defs core_ok_nonneg [OF \<open>core_ok pc\<close>] mars_invD)
qed

interpretation add: cw_handler cwaddop
proof
  fix m pid pc assume m: "mars_inv m" and pc: "core_ok pc"
  then obtain a1 a2 where a: "cwgetargs pc m = Ret (a1, a2, m)" "core_ok a1" "core_ok a2"
    by (rule cwgetargs_safe)
  then have "0 \<le> a1" "0 \<le> a2" "0 \<le> pc" using pc by (auto intro: core_ok_nonneg)
  with m a pc show "handled pid pc m (cwaddop pid pc m)"
    by (auto simp: cwaddop_def handler_defs mars_invD intro!: mars_inv_optab)
qed

interpretation sub: cw_handler cwsubop
proof
  fix m pid pc assume m: "mars_inv m" and pc: "core_ok pc"
  then obtain a1 a2 where a: "cwgetargs pc m = Ret (a1, a2, m)" "core_ok a1" "core_ok a2"
    by (rule cwgetargs_safe)
  have "core_ok (uint (ia (optab m i)))" "core_ok (uint (ib (optab m i)))" for i
    using mars_invD(1) [OF m] by (auto simp: instr_ok_def)
  with m a pc show "handled pid pc m (cwsubop pid pc m)"
    by (auto simp: cwsubop_def handler_defs mars_invD core_ok_wrap core_ok_nonneg intro!: mars_inv_optab)
qed

interpretation jmp: cw_handler cwjmpop
proof
  fix m pid pc assume m: "mars_inv m" "pid = 0 \<or> pid = (1::int)" and pc: "core_ok pc"
  then obtain a1 a2 where a: "cwgetargs pc m = Ret (a1, a2, m)" "core_ok a1" "core_ok a2"
    by (metis cwgetargs_safe)
  with m pc runq_last [OF m] show "handled pid pc m (cwjmpop pid pc m)"
    by (auto simp: cwjmpop_def handler_defs)
qed

interpretation jmz: cw_handler cwjmzop
proof
  fix m pid pc assume m: "mars_inv m" "pid = 0 \<or> pid = (1::int)" and pc: "core_ok pc"
  then obtain a1 a2 where a: "cwgetargs pc m = Ret (a1, a2, m)" "core_ok a1" "core_ok a2"
    by (metis cwgetargs_safe)
  with m pc runq_last [OF m] show "handled pid pc m (cwjmzop pid pc m)"
    by (auto simp: cwjmzop_def handler_defs core_ok_nonneg)
qed

interpretation jmn: cw_handler cwjmnop
proof
  fix m pid pc assume m: "mars_inv m" "pid = 0 \<or> pid = (1::int)" and pc: "core_ok pc"
  then obtain a1 a2 where a: "cwgetargs pc m = Ret (a1, a2, m)" "core_ok a1" "core_ok a2"
    by (metis cwgetargs_safe)
  with m pc runq_last [OF m] show "handled pid pc m (cwjmnop pid pc m)"
    by (auto simp: cwjmnop_def handler_defs core_ok_nonneg)
qed

interpretation cmp: cw_handler cwcmpop
proof
  fix m pid pc assume m: "mars_inv m" and pc: "core_ok pc"
  then obtain a1 a2 where a: "cwgetargs pc m = Ret (a1, a2, m)" "core_ok a1" "core_ok a2"
    by (rule cwgetargs_safe)
  with m core_ok_nonneg [OF pc] show "handled pid pc m (cwcmpop pid pc m)"
    by (auto simp: cwcmpop_def handler_defs)
qed

interpretation slt: cw_handler cwsltop
proof
  fix m pid pc assume m: "mars_inv m" and pc: "core_ok pc"
  then obtain a1 a2 where a: "cwgetargs pc m = Ret (a1, a2, m)" "core_ok a1" "core_ok a2"
    by (rule cwgetargs_safe)
  with m core_ok_nonneg [OF pc] show "handled pid pc m (cwsltop pid pc m)"
    by (auto simp: cwsltop_def handler_defs)
qed

interpretation djn: cw_handler cwdjnop
proof
  fix m pid pc assume m: "mars_inv m" "pid = 0 \<or> pid = (1::int)" and pc: "core_ok pc"
  then obtain a1 a2 where a: "cwgetargs pc m = Ret (a1, a2, m)" "core_ok a1" "core_ok a2"
    by (metis cwgetargs_safe)
  define i where "i = (if hasflg (ibflg (optab m pc)) CWIMMBIT then a1 else a2)"
  define x where "x = (optab m i)\<lparr>ib := word_of_int (wrap_neg (uint (ib (optab m i)) - 1))\<rparr>"
  define m1 where "m1 = m\<lparr>optab := (optab m)(i := x)\<rparr>"
  have i: "core_ok i" using a by (simp add: i_def)
  have "instr_ok x" unfolding x_def
    using mars_invD(1) [OF m(1), of i] by (intro instr_ok_stores core_ok_dec) (simp_all add: instr_ok_def)
  then have m1: "mars_inv m1" unfolding m1_def using m by auto
  have k: "keeps pid m m1" "keeps pid m (m1\<lparr>runqtab := (runqtab m1)(pid := q)\<rparr>)" for q
    by (simp_all add: m1_def keeps_def)
  have "cwdjnop pid pc m = (if wrap_neg (uint (ib (optab m i)) - 1) \<noteq> 0
      then cwbind (wrrunq m1 pid (proccnt m1 pid - 1) a1) (\<lambda>m. Ret (a1, m)) else Ret (pc, m1))"
    using a i unfolding cwdjnop_def
    by (simp add: Let_def rdcore_def wrcore_def i_def [symmetric] x_def [symmetric] m1_def) (simp add: x_def)
  with m1 k a pc runq_last [OF m1 m(2)] show "handled pid pc m (cwdjnop pid pc m)"
    by (auto simp: wrrunq_def)
qed

lemma mars_inv_spawn:
  assumes "mars_inv m" "core_ok v" "core_ok w" "proccnt m pid < CWNPROC"
  shows "mars_inv (m\<lparr>runqtab := (runqtab m)(pid := (runqtab m pid)(j := v, proccnt m pid := w)),
                     proccnt := (proccnt m)(pid := proccnt m pid + 1)\<rparr>)"
  using assms by (auto simp: mars_inv_def queue_ok_def)

interpretation spl: cw_handler cwsplop
proof
  fix m pid pc assume m: "mars_inv m" "pid = 0 \<or> pid = (1::int)" and pc: "core_ok pc"
  then obtain a1 a2 where a: "cwgetargs pc m = Ret (a1, a2, m)" "core_ok a1" "core_ok a2"
    by (metis cwgetargs_safe)
  have q: "runq_ok (curproc m pid)" "0 \<le> proccnt m pid"
    using mars_invD(2) [OF m] by (auto simp: queue_ok_def runq_ok_def)
  have pc': "core_ok (nextpc pc)" using pc by (simp add: core_ok_nonneg)
  define q1 where "q1 = (runqtab m pid)(curproc m pid := nextpc pc)"
  show "handled pid pc m (cwsplop pid pc m)"
  proof (cases "proccnt m pid < CWNPROC")
    case True
    then have "cwsplop pid pc m = Ret (nextpc pc,
        m\<lparr>runqtab := (runqtab m)(pid := q1(proccnt m pid := a2)),
          proccnt := (proccnt m)(pid := proccnt m pid + 1)\<rparr>)"
      using a q by (simp add: cwsplop_def handler_defs q1_def runq_ok_def)
    then show ?thesis
      using mars_inv_spawn [OF m(1) pc' a(3) True, of "curproc m pid"] pc'
      by (simp add: q1_def keeps_def)
  next
    case False
    with a q pc' m show ?thesis by (auto simp: cwsplop_def handler_defs)
  qed
qed

text \<open>Every entry of the handler table keeps the contract.\<close>

lemma functab_handled:
  assumes "mars_inv m" "pid = 0 \<or> pid = 1" "core_ok pc" "k \<le> 10"
  shows "handled pid pc m ((cwfunctab ! k) pid pc m)"
proof -
  have "k = 0 \<or> k = 1 \<or> k = 2 \<or> k = 3 \<or> k = 4 \<or> k = 5 \<or> k = 6 \<or> k = 7 \<or> k = 8 \<or> k = 9 \<or> k = 10"
    using assms(4) by arith
  then show ?thesis
    unfolding cwfunctab_def
    using dat.safe [OF assms(1-3)] mov.safe [OF assms(1-3)] add.safe [OF assms(1-3)]
      sub.safe [OF assms(1-3)] jmp.safe [OF assms(1-3)] jmz.safe [OF assms(1-3)]
      jmn.safe [OF assms(1-3)] cmp.safe [OF assms(1-3)] slt.safe [OF assms(1-3)]
      djn.safe [OF assms(1-3)] spl.safe [OF assms(1-3)]
    by (elim disjE) (simp_all add: nth_Cons')
qed

section \<open>Safety of one step\<close>

lemma mars_inv_curproc:
  assumes "mars_inv m" "0 \<le> c" "c < proccnt m pid"
  shows "mars_inv (m\<lparr>curproc := (curproc m)(pid := c)\<rparr>)"
  using assms by (auto simp: mars_inv_def queue_ok_def)

text \<open>What the scheduler does after the handler returned an address of the core.\<close>

lemma cwexec_finish:
  assumes "mars_inv m" "pid = 0 \<or> pid = 1" "core_ok pc" "cur = curproc m pid"
  shows "\<exists>m'. cwbind (wrrunq m pid cur pc) (\<lambda>m. Ret (cur + 1, m)) = Ret (cur + 1, m')
      \<and> mars_inv (m'\<lparr>curproc := (curproc m')(pid := if cur + 1 = proccnt m' pid then 0 else cur + 1)\<rparr>)
      \<and> nturn m' = nturn m"
proof -
  have q: "0 \<le> cur" "cur < proccnt m pid" "proccnt m pid \<le> CWNPROC"
    using mars_invD(2) [OF assms(1,2)] assms(4) by (auto simp: queue_ok_def)
  define m1 where "m1 = m\<lparr>runqtab := (runqtab m)(pid := (runqtab m pid)(cur := pc))\<rparr>"
  have "wrrunq m pid cur pc = Ret m1"
    using q by (simp add: wrrunq_def runq_ok_def m1_def)
  moreover have "mars_inv m1" using assms by (auto simp: m1_def)
  moreover have "proccnt m1 pid = proccnt m pid" "nturn m1 = nturn m" by (simp_all add: m1_def)
  ultimately show ?thesis
    using q by (auto intro!: mars_inv_curproc)
qed

lemma cwexec_safe_step:
  assumes "mars_inv m" "pid = 0 \<or> pid = 1"
  shows "(\<exists>m'. cwexec pid m = Ret m' \<and> mars_inv m' \<and> nturn m' = nturn m)
    \<or> (\<exists>s. cwexec pid m = Won (if pid = 0 then 2 else 1) s (runqtab m pid (curproc m pid)))"
proof -
  define cur where "cur = curproc m pid"
  define pc0 where "pc0 = runqtab m pid cur"
  have q: "0 \<le> cur" "cur < proccnt m pid" "runq_ok cur" "core_ok pc0"
    using mars_invD(2) [OF assms] by (auto simp: queue_ok_def runq_ok_def cur_def pc0_def)
  show ?thesis
  proof (cases "optab m pc0 = cwnull")
    case True
    then show ?thesis
      using q by (simp add: cwexec_def rdcore_def cur_def [symmetric] pc0_def [symmetric] Let_def)
  next
    case False
    define k where "k = unat (iop (optab m pc0))"
    have k: "k \<le> 10" using mars_invD(1) [OF assms(1), of pc0] by (simp add: instr_ok_def k_def)
    have exec: "cwexec pid m = cwbind ((cwfunctab ! k) pid pc0 m) (\<lambda>(pc, m).
                      cwbind
                        (if pc = CWNONE then cwbind (cwdead pid cur m) (\<lambda>m. Ret (cur, m))
                         else if iop (optab m pc0) \<noteq> CWOPSPL
                         then cwbind (wrrunq m pid cur pc) (\<lambda>m. Ret (cur + 1, m))
                         else Ret (cur, m))
                        (\<lambda>(cur, m).
                         let cur = (if cur = proccnt m pid then 0 else cur)
                         in Ret (m\<lparr>curproc := (curproc m)(pid := cur)\<rparr>)))"
      using q False k
      by (simp add: cwexec_def rdcore_def Let_def cwfunctab_def flip: cur_def pc0_def k_def)
    from functab_handled [OF assms q(4) k] show ?thesis
    proof (cases rule: handledE)
      case h: (ret pc m1)
      have cur: "cur = curproc m1 pid" "nturn m1 = nturn m" "cur < proccnt m1 pid"
        using h(4) q(2) by (auto simp: keeps_def cur_def)
      have pc: "pc \<noteq> CWNONE" using h(2) by (auto simp: core_ok_def cwsizes)
      have stay: "mars_inv (m1\<lparr>curproc := (curproc m1)(pid := cur)\<rparr>)"
        using h(3) q(1) cur(3) by (rule mars_inv_curproc)
      show ?thesis
        using cwexec_finish [OF h(3) assms(2) h(2) cur(1)] stay h(1) pc cur
        by (auto simp: exec Let_def)
    next
      case (won s)
      then show ?thesis by (auto simp: exec cur_def pc0_def)
    qed
  qed
qed

section \<open>The main loop returns\<close>

lemma cwloop_returns:
  assumes "mars_inv m" "pid = 0 \<or> pid = 1" "0 \<le> nturn m 0" "0 \<le> nturn m 1"
  shows "cwloop pid m = Some Tie \<or> (\<exists>n s pc. cwloop pid m = Some (Won n s pc))"
  using assms
proof (induction "nat (nturn m 0) + nat (nturn m 1)" arbitrary: pid m rule: less_induct)
  case less
  define m1 where "m1 = m\<lparr>nturn := (nturn m)(pid := nturn m pid - 1)\<rparr>"
  have m1: "mars_inv m1" using less.prems(1) by (simp add: m1_def mars_inv_def)
  show ?case
  proof (cases "nturn m pid = 0")
    case True
    then show ?thesis by (subst cwloop.simps) (simp add: Let_def)
  next
    case False
    from cwexec_safe_step [OF m1 less.prems(2)] show ?thesis
    proof (elim disjE exE conjE)
      fix m2 assume m2: "cwexec pid m1 = Ret m2" "mars_inv m2" "nturn m2 = nturn m1"
      define pid' where "pid' = (pid + 1) AND (1 :: int)"
      define m3 where "m3 = m2\<lparr>curpid := pid'\<rparr>"
      have step: "cwloop pid m = cwloop pid' m3"
        using False m2(1) by (subst cwloop.simps) (simp add: Let_def m1_def pid'_def m3_def)
      have pid': "pid' = 0 \<or> pid' = 1" using less.prems(2) by (auto simp: pid'_def)
      have "mars_inv m3" using m2(2) by (simp add: m3_def mars_inv_def)
      moreover have "nturn m3 = (nturn m)(pid := nturn m pid - 1)"
        using m2(3) by (simp add: m3_def m1_def)
      ultimately show ?thesis
        unfolding step using less.prems False pid' by (intro less.hyps) auto
    next
      fix s assume "cwexec pid m1 = Won (if pid = 0 then 2 else 1) s (runqtab m1 pid (curproc m1 pid))"
      then show ?thesis
        using False by (subst (2) cwloop.simps) (simp add: Let_def m1_def)
    qed
  qed
qed

section \<open>The game as a state machine\<close>

text \<open>
  The states the main loop passes through: the program in turn and the machine.  A step uses up a
  turn of that program, executes one of its instructions and hands over to the other program.
\<close>

inductive cwreach :: "int \<Rightarrow> cwmars \<Rightarrow> int \<Rightarrow> cwmars \<Rightarrow> bool" for pid0 m0 where
  start: "cwreach pid0 m0 pid0 m0"
| turn: "cwreach pid0 m0 pid m \<Longrightarrow> nturn m pid \<noteq> 0 \<Longrightarrow>
    cwexec pid (m\<lparr>nturn := (nturn m)(pid := nturn m pid - 1)\<rparr>) = Ret m2 \<Longrightarrow>
    cwreach pid0 m0 ((pid + 1) AND 1) (m2\<lparr>curpid := (pid + 1) AND 1\<rparr>)"

inductive_cases cwreach_turnE: "cwreach pid0 m0 pid m"

lemma mars_inv_turns [simp]: "mars_inv (m\<lparr>nturn := t\<rparr>) = mars_inv m"
  and mars_inv_curpid [simp]: "mars_inv (m\<lparr>curpid := p\<rparr>) = mars_inv m"
  by (simp_all add: mars_inv_def)

lemma cwreach_inv:
  assumes "cwreach pid0 m0 pid m" "mars_inv m0" "pid0 = 0 \<or> pid0 = 1"
  shows "mars_inv m \<and> (pid = 0 \<or> pid = 1)"
  using assms
proof (induction rule: cwreach.induct)
  case start
  then show ?case by simp
next
  case (turn pid m m2)
  then have inv: "mars_inv (m\<lparr>nturn := (nturn m)(pid := nturn m pid - 1)\<rparr>)" "pid = 0 \<or> pid = 1" by auto
  from cwexec_safe_step [OF inv] turn(3) inv(2) show ?case by auto
qed

text \<open>Two copies of the warrior that copies itself to the next cell, half the core apart.\<close>

definition imp :: cwinstr where
  "imp = \<lparr>iop = CWOPMOV, iaflg = CWRELBIT, ibflg = 0, ipid = 0, ia = 0, ib = 1\<rparr>"

definition imp_duel :: cwmars where
  "imp_duel = \<lparr>runqtab = (\<lambda>pid i. if pid = 0 then 0 else 4000), proccnt = (\<lambda>_. 1), curproc = (\<lambda>_. 0),
     nturn = (\<lambda>_. CWNTURN), curpid = 0, prog1name = ''imp.rc'', prog2name = ''imp.rc'',
     pidmap = (\<lambda>_. 0), optab = (\<lambda>_. cwnull)(0 := imp, 4000 := imp)\<rparr>"

lemma imp_duel_inv: "mars_inv imp_duel"
  by (simp add: mars_inv_def imp_duel_def instr_ok_def queue_ok_def imp_def cwnull_def hasflg_def
      core_ok_def cwflags cwsizes cwops)

section \<open>Properties\<close>

text \<open>
  C14: in every state that the main loop reaches from a machine whose instructions have no
  predecrement operand and whose fields are addresses of the core, the next instruction executes
  without leaving the core or a run queue, and the machine is again of that form.
\<close>

theorem cwreach_safe:
  assumes "cwreach pid0 m0 pid m" "mars_inv m0" "pid0 = 0 \<or> pid0 = 1"
  shows "mars_inv m \<and> cwexec pid m \<noteq> Undef \<and> cwexec pid m \<noteq> Tie"
  using cwreach_inv [OF assms] cwexec_safe_step [of m pid] by auto

theorem cwreach_safe_witness:
  "mars_inv imp_duel \<and> cwexec 0 imp_duel \<noteq> Undef \<and> cwexec 0 imp_duel \<noteq> Tie"
  by (rule cwreach_safe [OF cwreach.start imp_duel_inv]) simp

text \<open>
  From such a machine the main loop ends: with a tie when the turns are used up, or with one
  program winning; it never gets stuck and never leaves the core.
\<close>

theorem cwloop_ends:
  assumes "mars_inv m" "pid = 0 \<or> pid = 1" "0 \<le> nturn m 0" "0 \<le> nturn m 1"
  shows "\<exists>r. cwloop pid m = Some r \<and> (r = Tie \<or> (\<exists>n s pc. r = Won n s pc))"
  using cwloop_returns [OF assms] by auto

theorem cwloop_ends_witness:
  "\<exists>r. cwloop 1 imp_duel = Some r \<and> (r = Tie \<or> (\<exists>n s pc. r = Won n s pc))"
  by (rule cwloop_ends [OF imp_duel_inv]) (simp_all add: imp_duel_def CWNTURN_def)

lemma mod_core: "0 \<le> x \<Longrightarrow> c_mod x CWCORESIZE = x mod 8000"
  by (simp add: cwsizes)

lemma wrap_neg_mod: "core_ok x \<Longrightarrow> core_ok y \<Longrightarrow> wrap_neg (x - y) = (x - y) mod 8000"
proof -
  assume xy: "core_ok x" "core_ok y"
  show ?thesis
  proof (cases "x < y")
    case True
    then have "(x - y) mod 8000 = (x - y + 8000) mod 8000" by simp
    also have "\<dots> = x - y + 8000" using True xy by (intro mod_pos_pos_trivial) (auto simp: core_ok_def cwsizes)
    finally show ?thesis using True by (simp add: wrap_neg_def cwsizes)
  next
    case False
    then show ?thesis using xy by (simp add: wrap_neg_def core_ok_def cwsizes)
  qed
qed

text \<open>
  ADD and SUB with two address operands work on both fields of the target modulo the core
  size and change no other cell: ADD stores the sums, SUB stores source minus target, and both
  continue with the next cell.
\<close>

theorem cw_add_sub:
  assumes "mars_inv m" "core_ok pc" "cwgetargs pc m = Ret (s, t, m)"
    "\<not> hasflg (iaflg (optab m pc)) CWIMMBIT" "\<not> hasflg (ibflg (optab m pc)) CWIMMBIT"
  shows "\<exists>x y. cwaddop pid pc m = Ret ((pc + 1) mod 8000, m\<lparr>optab := (optab m)(t := x)\<rparr>)
     \<and> cwsubop pid pc m = Ret ((pc + 1) mod 8000, m\<lparr>optab := (optab m)(t := y)\<rparr>)
     \<and> uint (ia x) = (uint (ia (optab m s)) + uint (ia (optab m t))) mod 8000
     \<and> uint (ib x) = (uint (ib (optab m s)) + uint (ib (optab m t))) mod 8000
     \<and> uint (ia y) = (uint (ia (optab m s)) - uint (ia (optab m t))) mod 8000
     \<and> uint (ib y) = (uint (ib (optab m s)) - uint (ib (optab m t))) mod 8000"
proof -
  have st: "core_ok s" "core_ok t"
    using cwgetargs_safe [OF assms(1,2)] assms(3) by auto
  have f: "core_ok (uint (ia (optab m i)))" "core_ok (uint (ib (optab m i)))" for i
    using mars_invD(1) [OF assms(1)] by (auto simp: instr_ok_def)
  have pc: "nextpc pc = (pc + 1) mod 8000"
    using core_ok_nonneg [OF assms(2)] by (simp add: nextpc_def mod_core)
  define x where "x = (optab m t)\<lparr>
     ia := word_of_int (c_mod (uint (ia (optab m s)) + uint (ia (optab m t))) CWCORESIZE),
     ib := word_of_int (c_mod (uint (ib (optab m s)) + uint (ib (optab m t))) CWCORESIZE)\<rparr>"
  define y where "y = (optab m t)\<lparr>
     ia := word_of_int (wrap_neg (uint (ia (optab m s)) - uint (ia (optab m t)))),
     ib := word_of_int (wrap_neg (uint (ib (optab m s)) - uint (ib (optab m t))))\<rparr>"
  have "cwaddop pid pc m = Ret ((pc + 1) mod 8000, m\<lparr>optab := (optab m)(t := x)\<rparr>)"
    using assms st by (simp add: cwaddop_def handler_defs pc x_def)
  moreover have "cwsubop pid pc m = Ret ((pc + 1) mod 8000, m\<lparr>optab := (optab m)(t := y)\<rparr>)"
    using assms st by (simp add: cwsubop_def handler_defs pc y_def)
  moreover have "uint (ia x) = (uint (ia (optab m s)) + uint (ia (optab m t))) mod 8000"
    "uint (ib x) = (uint (ib (optab m s)) + uint (ib (optab m t))) mod 8000"
    by (simp_all add: x_def core_ok_store) (simp_all add: mod_core)
  moreover have "uint (ia y) = (uint (ia (optab m s)) - uint (ia (optab m t))) mod 8000"
    "uint (ib y) = (uint (ib (optab m s)) - uint (ib (optab m t))) mod 8000"
    by (simp_all add: y_def core_ok_wrap f) (simp_all add: wrap_neg_mod f)
  ultimately show ?thesis by blast
qed

text \<open>A machine with an ADD at address 5 that adds cell 6 to cell 7.\<close>

definition add_demo :: cwmars where
  "add_demo = imp_duel\<lparr>optab := (\<lambda>_. cwnull)
     (5 := \<lparr>iop = CWOPADD, iaflg = CWRELBIT, ibflg = 0, ipid = 0, ia = 1, ib = 2\<rparr>,
      6 := \<lparr>iop = 0, iaflg = 0, ibflg = 0, ipid = 0, ia = 7999, ib = 10\<rparr>,
      7 := \<lparr>iop = 0, iaflg = 0, ibflg = 0, ipid = 0, ia = 3, ib = 20\<rparr>)\<rparr>"

lemma add_demo_inv: "mars_inv add_demo"
  by (simp add: add_demo_def mars_inv_def imp_duel_def instr_ok_def queue_ok_def cwnull_def hasflg_def
      core_ok_def cwflags cwsizes cwops)

theorem cw_add_sub_witness:
  "\<exists>x y. cwaddop 0 5 add_demo = Ret (6, add_demo\<lparr>optab := (optab add_demo)(7 := x)\<rparr>)
     \<and> cwsubop 0 5 add_demo = Ret (6, add_demo\<lparr>optab := (optab add_demo)(7 := y)\<rparr>)
     \<and> uint (ia x) = 2 \<and> uint (ib x) = 30 \<and> uint (ia y) = 7996 \<and> uint (ib y) = 7990"
proof -
  have args: "cwgetargs 5 add_demo = Ret (6, 7, add_demo)" "core_ok 5"
    "\<not> hasflg (iaflg (optab add_demo 5)) CWIMMBIT" "\<not> hasflg (ibflg (optab add_demo 5)) CWIMMBIT"
    by (simp_all add: cwgetargs_def cwgetarg_def add_demo_def hasflg_def cwflags cwsizes Let_def core_ok_def)
  show ?thesis
    using cw_add_sub [OF add_demo_inv args(2) args(1) args(3,4), of 0]
    by (simp add: add_demo_def)
qed

lemma cwgetargs_noinv:
  assumes "mars_inv m" "core_ok pc" "cwgetargs pc m = Ret (s, t, m1)"
  shows "m1 = m" "core_ok s" "core_ok t"
  using cwgetargs_safe [OF assms(1,2)] assms(3) by auto

text \<open>
  A jump of one process of a program overwrites the program counter of the process at the
  end of its run queue: when a process other than the last executes JMP, both it and the last one
  continue at the target of the jump.
\<close>

theorem cwjmp_moves_last_process:
  assumes "mars_inv m" "pid = 0 \<or> pid = 1" "curproc m pid < proccnt m pid - 1"
    "proccnt m pid < CWNPROC" "pc = runqtab m pid (curproc m pid)" "iop (optab m pc) = CWOPJMP"
    "cwgetargs pc m = Ret (s, t, m)"
  shows "\<exists>m'. cwexec pid m = Ret m' \<and> runqtab m' pid (curproc m pid) = t
     \<and> runqtab m' pid (proccnt m pid - 1) = t \<and> curproc m' pid = curproc m pid + 1"
proof -
  have q: "runq_ok (curproc m pid)" "core_ok pc" "runq_ok (proccnt m pid - 1)"
    using mars_invD(2) [OF assms(1,2)] assms(5) by (auto simp: queue_ok_def runq_ok_def)
  have t: "t \<noteq> CWNONE"
    using cwgetargs_noinv(3) [OF assms(1) q(2) assms(7)] by (auto simp: core_ok_def cwsizes)
  have op: "optab m pc \<noteq> cwnull" "unat (iop (optab m pc)) = 4"
    using assms(6) by (auto simp: cwnull_def CWOPJMP_def)
  have fn: "cwfunctab ! 4 = cwjmpop" "length cwfunctab = 11" by (simp_all add: cwfunctab_def)
  show ?thesis
    using assms(3,4,7) q t op
    by (simp add: cwexec_def rdcore_def Let_def fn cwjmpop_def wrrunq_def assms(5) [symmetric] assms(6))
      (simp add: CWOPJMP_def CWOPSPL_def)
qed

text \<open>A program with two processes, the first at a JMP to cell 100, the second at cell 200.\<close>

definition jmp_demo :: cwmars where
  "jmp_demo = imp_duel\<lparr>proccnt := (\<lambda>_. 2), runqtab := (\<lambda>_ i. if i = 0 then 0 else 200),
     optab := (\<lambda>_. imp)
     (0 := \<lparr>iop = CWOPJMP, iaflg = CWRELBIT, ibflg = 0, ipid = 0, ia = 0, ib = 100\<rparr>)\<rparr>"

lemma jmp_demo_inv: "mars_inv jmp_demo"
  by (simp add: jmp_demo_def mars_inv_def imp_duel_def imp_def instr_ok_def queue_ok_def hasflg_def
      core_ok_def cwflags cwsizes cwops)

theorem cwjmp_moves_last_process_witness:
  "\<exists>m'. cwexec 0 jmp_demo = Ret m' \<and> runqtab m' 0 0 = 100 \<and> runqtab m' 0 1 = 100 \<and> curproc m' 0 = 1"
proof -
  have "cwgetargs 0 jmp_demo = Ret (0, 100, jmp_demo)"
    by (simp add: cwgetargs_def cwgetarg_def jmp_demo_def hasflg_def cwflags cwsizes Let_def)
  then show ?thesis
    using cwjmp_moves_last_process [OF jmp_demo_inv, of 0 0 0 100]
    by (simp add: jmp_demo_def imp_duel_def cwsizes)
qed

text \<open>
  A predecrement operand of an instruction at address 0 that goes through a zero B-field
  makes MOV write outside the core: the remainder keeps the sign of the negative address.
\<close>

theorem cwmov_predecrement_escapes:
  assumes "iaflg (optab m 0) = CWIMMBIT" "ibflg (optab m 0) = CWPREDECBIT"
    "t = uint (ib (optab m 0)) mod 8000" "ib (optab m t) = 0"
  shows "cwgetargs 0 m = Ret (uint (ia (optab m 0)) mod 8000, -1,
           m\<lparr>optab := (optab m)(t := (optab m t)\<lparr>ib := 0xffff\<rparr>)\<rparr>)
       \<and> cwmovop pid 0 m = Undef"
proof -
  have flg: "\<not> hasflg CWPREDECBIT CWIMMBIT" "hasflg CWPREDECBIT CWPREDECBIT"
    "hasflg CWPREDECBIT (CWINDIRBIT OR CWPREDECBIT)" "hasflg CWIMMBIT CWIMMBIT"
    by (simp_all add: hasflg_def cwflags)
  have t: "c_mod (uint (ib (optab m 0))) CWCORESIZE = t" "core_ok t"
    using assms(3) by (simp_all add: mod_core core_ok_def cwsizes)
  have neg: "c_mod (- 1) CWCORESIZE = - 1" by (simp add: c_mod_sgn cwsizes)
  have minus: "(- 1 :: u16) = 0xffff" by simp
  have args: "cwgetargs 0 m = Ret (uint (ia (optab m 0)) mod 8000, -1,
           m\<lparr>optab := (optab m)(t := (optab m t)\<lparr>ib := 0xffff\<rparr>)\<rparr>)"
    using assms(4) t flg neg
    by (simp add: cwgetargs_def cwgetarg_def assms(1,2) Let_def rdcore_def wrcore_def mod_core minus)
  have "\<not> hasflg (ibflg ((if t = 0 then (optab m t)\<lparr>ib := 0xffff\<rparr> else optab m 0))) CWIMMBIT"
    using flg(1) assms(2) by simp
  moreover have "hasflg (iaflg ((if t = 0 then (optab m t)\<lparr>ib := 0xffff\<rparr> else optab m 0))) CWIMMBIT"
    using flg(4) assms(1) by simp
  ultimately show ?thesis
    using args by (auto simp: cwmovop_def rdcore_def core_ok_def)
qed

definition predec_demo :: cwmars where
  "predec_demo = imp_duel\<lparr>optab := (\<lambda>_. cwnull)
     (0 := \<lparr>iop = CWOPMOV, iaflg = CWIMMBIT, ibflg = CWPREDECBIT, ipid = 0, ia = 7, ib = 1\<rparr>)\<rparr>"

theorem cwmov_predecrement_escapes_witness: "cwmovop 0 0 predec_demo = Undef"
  using cwmov_predecrement_escapes [of predec_demo 1 0]
  by (simp add: predec_demo_def cwnull_def)

text \<open>
  Two more departures from the instruction set the sources refer to: SLT with an address as its
  first operand compares the second operand with itself and never skips, and DJN stays at its own
  address when the counter reaches zero.
\<close>

lemma cwslt_never_skips:
  assumes "cwgetargs pc m = Ret (s, t, m1)" "core_ok t" "\<not> hasflg (iaflg (optab m1 pc)) CWIMMBIT"
  shows "cwsltop pid pc m = Ret (nextpc pc, m1)"
  using assms by (simp add: cwsltop_def rdcore_def Let_def)

lemma cwdjn_stays_at_zero:
  assumes "cwgetargs pc m = Ret (s, t, m1)" "core_ok t" "\<not> hasflg (ibflg (optab m1 pc)) CWIMMBIT"
    "uint (ib (optab m1 t)) = 1"
  shows "cwdjnop pid pc m = Ret (pc, m1\<lparr>optab := (optab m1)(t := (optab m1 t)\<lparr>ib := 0\<rparr>)\<rparr>)"
  using assms by (simp add: cwdjnop_def rdcore_def wrcore_def Let_def wrap_neg_def)

end
