(* ===== verification/Bitmap.thy ===== *)
theory Bitmap
  imports Prelude
begin

text \<open>
  The bitmap macros of usr/lib/zero/trix.h on an array of bytes.  A bitmap is a function from
  byte offsets to bytes, bit \<open>b\<close> is bit \<open>b & 7\<close> of byte \<open>b >> 3\<close>.  The
  macros are used by the Core War start-up code and by the sieves of the prime number tool.
\<close>

definition bitset :: "(int \<Rightarrow> u8) \<Rightarrow> int \<Rightarrow> u8" where
  "bitset p b = p (b div 8) AND push_bit (nat (b mod 8)) 1"

definition setbit :: "(int \<Rightarrow> u8) \<Rightarrow> int \<Rightarrow> int \<Rightarrow> u8" where
  "setbit p b = p(b div 8 := p (b div 8) OR push_bit (nat (b mod 8)) 1)"

definition clrbit :: "(int \<Rightarrow> u8) \<Rightarrow> int \<Rightarrow> int \<Rightarrow> u8" where
  "clrbit p b = p(b div 8 := p (b div 8) AND NOT (push_bit (nat (b mod 8)) 1))"

section \<open>Reading a bit after a write\<close>

lemma bitset_bit: "bitset p b \<noteq> 0 \<longleftrightarrow> bit (p (b div 8)) (nat (b mod 8))"
  by (simp add: bitset_def push_bit_of_1 and_exp_eq_0_iff_not_bit)

lemma same_bit_iff: "i div 8 = b div 8 \<and> nat (i mod 8) = nat (b mod 8) \<longleftrightarrow> i = b" for i b :: int
  by (metis div_mult_mod_eq eq_nat_nat_iff pos_mod_sign zero_less_numeral)

lemma bitset_clrbit: "bitset (clrbit p b) i \<noteq> 0 \<longleftrightarrow> bitset p i \<noteq> 0 \<and> i \<noteq> b"
proof -
  have "nat (b mod 8) < 8" by (simp add: nat_less_iff)
  then show ?thesis
    unfolding bitset_bit clrbit_def same_bit_iff [of i b, symmetric]
    by (auto simp: bit_simps nat_less_iff)
qed

lemma bitset_setbit: "bitset (setbit p b) i \<noteq> 0 \<longleftrightarrow> bitset p i \<noteq> 0 \<or> i = b"
proof -
  have "nat (b mod 8) < 8" by (simp add: nat_less_iff)
  then show ?thesis
    unfolding bitset_bit setbit_def same_bit_iff [of i b, symmetric]
    by (auto simp: bit_simps)
qed

lemma clrbit_outside: "j \<noteq> b div 8 \<Longrightarrow> clrbit p b j = p j"
  by (simp add: clrbit_def)

lemma bitset_ones: "p (b div 8) = 0xff \<Longrightarrow> bitset p b \<noteq> 0"
proof -
  assume p: "p (b div 8) = 0xff"
  have m: "p (b div 8) = mask 8" by (simp add: p mask_eq_exp_minus_1)
  have "nat (b mod 8) < 8" by (simp add: nat_less_iff)
  then show ?thesis unfolding bitset_bit m by (simp add: bit_mask_iff)
qed

end
