(* ===== verification/Redcode.thy ===== *)
theory Redcode
  imports Mars Randmt Bitmap
begin

text \<open>
  The Redcode assembler (usr/games/corewar/rc.c), the disassembler and the start-up code of the
  virtual machine (usr/games/corewar/cw.c).

  A line buffer is the list of the characters the code stored in it.  It ends with a newline and
  has no terminating zero, and the memory behind it is not initialised: a read past the end of
  the list is \<open>RcUndef\<close>, as is the use of a null pointer, an index outside a table and
  signed overflow.  A message on the error stream followed by \<open>exit(1)\<close> is
  \<open>RcExit\<close> with the fixed part of the message; the line that some messages quote is printed up to the
  first zero byte, which is behind its end.  Memory can run out: \<open>heap\<close> is the number of allocations that still
  succeed.  Characters are classified as in the C locale.
\<close>

section \<open>Results and characters\<close>

datatype 'a rcres = RcOk 'a | RcExit string | RcUndef

fun rcbind :: "'a rcres \<Rightarrow> ('a \<Rightarrow> 'b rcres) \<Rightarrow> 'b rcres" where
  "rcbind (RcOk x) f = f x"
| "rcbind (RcExit s) f = RcExit s"
| "rcbind RcUndef f = RcUndef"

definition ord :: "char \<Rightarrow> nat" where "ord c = of_char c"

definition isspace :: "char \<Rightarrow> bool" where
  "isspace c \<longleftrightarrow> ord c = 32 \<or> 9 \<le> ord c \<and> ord c \<le> 13"

definition isdigit :: "char \<Rightarrow> bool" where
  "isdigit c \<longleftrightarrow> 48 \<le> ord c \<and> ord c \<le> 57"

definition isalpha :: "char \<Rightarrow> bool" where
  "isalpha c \<longleftrightarrow> 65 \<le> ord c \<and> ord c \<le> 90 \<or> 97 \<le> ord c \<and> ord c \<le> 122"

definition toupper :: "char \<Rightarrow> char" where
  "toupper c = (if 97 \<le> ord c \<and> ord c \<le> 122 then char_of (ord c - 32) else c)"

section \<open>The mnemonic table\<close>

text \<open>Three levels of tables indexed by a character; an entry that is \<open>None\<close> is a null pointer.\<close>

type_synonym rctab = "char \<Rightarrow> (char \<Rightarrow> (char \<Rightarrow> int option) option) option"

definition rcnargtab :: "int list" where
  "rcnargtab = [1, 2, 2, 2, 1, 2, 2, 2, 2, 2, 1]"

definition rcentry :: "'a option \<Rightarrow> 'a \<Rightarrow> nat \<Rightarrow> ('a \<times> nat) rcres" where
  "rcentry p fresh heap =
     (case p of
        Some x \<Rightarrow> RcOk (x, heap)
      | None \<Rightarrow> if heap = 0 then RcExit ''failed to allocate operation'' else RcOk (fresh, heap - 1))"

definition nth_nul :: "string \<Rightarrow> nat \<Rightarrow> char" where
  "nth_nul s i = (if i < length s then s ! i else CHR 0x00)"

definition rcaddop :: "string \<Rightarrow> int \<Rightarrow> rctab \<times> nat \<Rightarrow> (rctab \<times> nat) rcres" where
  "rcaddop name op = (\<lambda>(tab, heap).
     let n1 = toupper (nth_nul name 0)
     in if n1 = CHR 0x00 then RcOk (tab, heap)
        else if ord n1 \<ge> 128 then RcUndef
        else rcbind (rcentry (tab n1) (\<lambda>_. None) heap) (\<lambda>(t1, heap).
     let n2 = toupper (nth_nul name 1)
     in if n2 = CHR 0x00 then RcOk (tab(n1 \<mapsto> t1), heap)
        else if ord n2 \<ge> 128 then RcUndef
        else rcbind (rcentry (t1 n2) (\<lambda>_. None) heap) (\<lambda>(t2, heap).
     let n3 = toupper (nth_nul name 2)
     in if n3 = CHR 0x00 then RcOk (tab(n1 \<mapsto> t1(n2 \<mapsto> t2)), heap)
        else if ord n3 \<ge> 128 then RcUndef
        else rcbind (rcentry (t2 n3) 0 heap) (\<lambda>(t3, heap).
     RcOk (tab(n1 \<mapsto> t1(n2 \<mapsto> t2(n3 \<mapsto> op))), heap)))))"

definition cwopnametab :: "string list" where
  "cwopnametab = [''DAT'', ''MOV'', ''ADD'', ''SUB'', ''JMP'', ''JMZ'', ''JMN'', ''CMP'',
                  ''SLT'', ''DJN'', ''SPL'']"

definition rcinitop :: "rctab \<times> nat \<Rightarrow> (rctab \<times> nat) rcres" where
  "rcinitop st =
     rcbind (rcaddop ''DAT'' 0 st) (\<lambda>st.
     rcbind (rcaddop ''MOV'' 1 st) (\<lambda>st.
     rcbind (rcaddop ''ADD'' 2 st) (\<lambda>st.
     rcbind (rcaddop ''SUB'' 3 st) (\<lambda>st.
     rcbind (rcaddop ''JMP'' 4 st) (\<lambda>st.
     rcbind (rcaddop ''JMZ'' 5 st) (\<lambda>st.
     rcbind (rcaddop ''JMN'' 6 st) (\<lambda>st.
     rcbind (rcaddop ''CMP'' 7 st) (\<lambda>st.
     rcbind (rcaddop ''SLT'' 8 st) (\<lambda>st.
     rcbind (rcaddop ''DJN'' 9 st) (\<lambda>st.
     rcaddop ''SPL'' 10 st))))))))))"

definition rcread :: "string \<Rightarrow> nat \<Rightarrow> char rcres" where
  "rcread s i = (if i < length s then RcOk (s ! i) else RcUndef)"

text \<open>The operation number, or \<open>CWNONE\<close>, of the mnemonic at the start of a buffer.\<close>

definition rcfindop :: "rctab \<Rightarrow> string \<Rightarrow> int rcres" where
  "rcfindop tab str =
     rcbind (rcread str 0) (\<lambda>c0.
     if ord (toupper c0) \<ge> 128 then RcUndef
     else case tab (toupper c0) of
       None \<Rightarrow> RcOk CWNONE
     | Some t1 \<Rightarrow> rcbind (rcread str 1) (\<lambda>c1.
         if \<not> isalpha c1 then RcOk CWNONE
         else case t1 (toupper c1) of
           None \<Rightarrow> RcOk CWNONE
         | Some t2 \<Rightarrow> rcbind (rcread str 2) (\<lambda>c2.
             if \<not> isalpha c2 then RcOk CWNONE
             else rcbind (rcread str 3) (\<lambda>c3.
               if \<not> isspace c3 then RcOk CWNONE
               else case t2 (toupper c2) of None \<Rightarrow> RcUndef | Some op \<Rightarrow> RcOk op))))"

section \<open>Parsing an instruction\<close>

fun rcskipspace :: "string \<Rightarrow> string rcres" where
  "rcskipspace [] = RcUndef"
| "rcskipspace (c # cs) = (if isspace c then rcskipspace cs else RcOk (c # cs))"

fun rcskipalpha :: "string \<Rightarrow> string rcres" where
  "rcskipalpha [] = RcUndef"
| "rcskipalpha (c # cs) = (if isalpha c then rcskipalpha cs else RcOk (c # cs))"

fun rcdigits :: "int \<Rightarrow> string \<Rightarrow> (int \<times> string) rcres" where
  "rcdigits val [] = RcUndef"
| "rcdigits val (c # cs) =
     (if isdigit c
      then let val = val * 10 + (int (ord c) - 48)
           in if val > 2 ^ 63 - 1 then RcUndef else rcdigits val cs
      else RcOk (val, c # cs))"

text \<open>The addressing mode: the flag it sets and the rest of the buffer; no mark sets \<open>CWRELBIT\<close>.\<close>

fun rcmode :: "string \<Rightarrow> (u8 \<times> string) rcres" where
  "rcmode [] = RcUndef"
| "rcmode (c # cs) =
     (if c = CHR ''#'' then RcOk (CWIMMBIT, cs)
      else if c = CHR ''@'' then RcOk (CWINDIRBIT, cs)
      else if c = CHR ''<'' then RcOk (CWPREDECBIT, cs)
      else if c = CHR ''$'' then RcOk (0, cs)
      else RcOk (CWRELBIT, c # cs))"

text \<open>A number with its sign: the sign flag, the value of the field and the rest of the buffer.\<close>

definition rcnumber :: "string \<Rightarrow> string \<Rightarrow> (u8 \<times> int \<times> string) rcres" where
  "rcnumber err str =
     rcbind (rcread str 0) (\<lambda>c.
     let sign = (c = CHR ''-'');
         str = (if sign then tl str else str)
     in rcbind (rcread str 0) (\<lambda>c.
        if \<not> isdigit c then RcExit err
        else rcbind (rcdigits 0 str) (\<lambda>(val, rest).
             if sign then RcOk (CWSIGNBIT, CWCORESIZE - val, rest) else RcOk (0, val, rest))))"

definition rcafield :: "cwinstr \<Rightarrow> string \<Rightarrow> (cwinstr \<times> string) rcres" where
  "rcafield instr str =
     rcbind (rcmode str) (\<lambda>(mode, str).
     rcbind (rcnumber ''invalid A-field'' str) (\<lambda>(sign, val, str).
     RcOk (instr\<lparr>iaflg := iaflg instr OR mode OR sign, ia := word_of_int val\<rparr>, str)))"

definition rcbfield :: "cwinstr \<Rightarrow> string \<Rightarrow> (cwinstr \<times> string) rcres" where
  "rcbfield instr str =
     rcbind (rcmode str) (\<lambda>(mode, str).
     rcbind (rcnumber ''invalid B-field'' str) (\<lambda>(sign, val, str).
     RcOk (if mode = CWRELBIT
           then instr\<lparr>iaflg := iaflg instr OR CWRELBIT, ibflg := ibflg instr OR sign,
                      ib := word_of_int val\<rparr>
           else instr\<lparr>ibflg := ibflg instr OR mode OR sign, ib := word_of_int val\<rparr>, str)))"

definition rcoperands :: "int \<Rightarrow> cwinstr \<Rightarrow> string \<Rightarrow> cwinstr rcres" where
  "rcoperands narg instr cp =
     rcbind (if narg = 2 then rcafield instr cp else RcOk (instr, cp)) (\<lambda>(instr, cp).
     rcbind (rcskipspace cp) (\<lambda>cp.
     rcbind (if hd cp = CHR '','' then rcskipspace (tl cp) else RcOk cp) (\<lambda>cp.
     rcbind (rcbfield instr cp) (\<lambda>(instr, cp). RcOk instr))))"

definition rcgetop :: "rctab \<Rightarrow> string \<Rightarrow> nat \<Rightarrow> (cwinstr \<times> nat) rcres" where
  "rcgetop tab str heap =
     (if heap = 0 then RcExit ''failed to allocate instruction''
      else rcbind (rcskipspace str) (\<lambda>cp.
           rcbind (if isalpha (hd cp) then rcfindop tab cp else RcOk CWNONE) (\<lambda>op.
           if op = CWNONE then RcExit ''invalid mnemonic''
           else let instr = cwnull\<lparr>iop := word_of_int op\<rparr>; narg = rcnargtab ! nat op
                in rcbind (rcskipalpha cp) (\<lambda>cp.
                   if hd cp = CHR 0x00 then RcOk (instr, heap - 1)
                   else rcbind (rcskipspace cp) (\<lambda>cp.
                   if hd cp = CHR 0x00 then RcOk (instr, heap - 1)
                   else rcbind (rcoperands narg instr cp) (\<lambda>instr. RcOk (instr, heap - 1)))))))"

section \<open>Reading lines\<close>

definition rcgrow :: "nat \<Rightarrow> nat \<Rightarrow> nat \<Rightarrow> (nat \<times> nat) rcres" where
  "rcgrow ndx n heap =
     (if ndx = n
      then if heap = 0 then RcExit ''failed to allocate line buffer'' else RcOk (2 * n, heap - 1)
      else RcOk (n, heap))"

fun rclineloop :: "nat \<Rightarrow> nat \<Rightarrow> string \<Rightarrow> string \<Rightarrow> (string \<times> string \<times> nat) rcres" where
  "rclineloop n heap buf [] =
     rcbind (rcgrow (length buf) n heap) (\<lambda>(n, heap). RcOk (buf @ [CHR 0x0A], [], heap))"
| "rclineloop n heap buf (ch # inp) =
     rcbind (rcgrow (length buf) n heap) (\<lambda>(n, heap).
       if ch = CHR 0x0A
       then rcbind (rcgrow (length buf) n heap) (\<lambda>(n, heap). RcOk (buf @ [CHR 0x0A], inp, heap))
       else rclineloop n heap (buf @ [ch]) inp)"

text \<open>
  The next line with the rest of the input, or no line at the end of the input; a failed
  allocation gives no line either, with one character lost.
\<close>

definition rcgetline :: "string \<Rightarrow> nat \<Rightarrow> (string option \<times> string \<times> nat) rcres" where
  "rcgetline inp heap =
     (case inp of
        [] \<Rightarrow> RcOk (None, [], heap)
      | ch # rest \<Rightarrow>
          if heap = 0 then RcOk (None, rest, heap)
          else rcbind (rclineloop 32 (heap - 1) [] inp) (\<lambda>(buf, rest, heap). RcOk (Some buf, rest, heap)))"

section \<open>Translating a program\<close>

text \<open>White space at the start of a line; \<open>wrap\<close> records that a newline was seen.\<close>

fun rcblank :: "bool \<Rightarrow> string \<Rightarrow> (bool \<times> string) rcres" where
  "rcblank wrap [] = RcUndef"
| "rcblank wrap (c # cs) =
     (if isspace c then rcblank (wrap \<or> c = CHR 0x0A) cs else RcOk (wrap, c # cs))"

text \<open>
  What is done with one instruction: it is stored in an empty cell, the first one that is not DAT
  is the entry point, and the ownership bitmap is updated.
\<close>

definition rcstore :: "int \<Rightarrow> cwinstr \<Rightarrow> int \<Rightarrow> int \<Rightarrow> cwmars \<Rightarrow> (int \<times> int \<times> cwmars) rcres" where
  "rcstore pid instr pc ret m =
     (let op = instr\<lparr>ipid := word_of_int pid\<rparr>
      in if \<not> core_ok pc then RcUndef
         else if optab m pc \<noteq> cwnull then RcExit ''programs overlap''
         else let m = m\<lparr>optab := (optab m)(pc := op)\<rparr>;
                  ret = (if ret < 0 \<and> iop op \<noteq> CWOPDAT then pc else ret);
                  m = m\<lparr>pidmap := (if pid \<noteq> 0 then setbit (pidmap m) pc else clrbit (pidmap m) pc)\<rparr>
              in RcOk (nextpc pc, ret, m))"

text \<open>
  The loop over the lines: it ends at the end of the input or at a line that starts with neither
  a letter nor a semicolon.  The result is the entry point, or -1, and the address after the last
  instruction.
\<close>

lemma rclineloop_shorter:
  "rclineloop n heap buf inp = RcOk (line, rest, heap') \<Longrightarrow> inp \<noteq> [] \<Longrightarrow> length rest < length inp"
proof (induction inp arbitrary: n heap buf)
  case Nil
  then show ?case by simp
next
  case (Cons ch inp)
  obtain n1 heap1 where g: "rcgrow (length buf) n heap = RcOk (n1, heap1)"
    using Cons.prems(1) by (cases "rcgrow (length buf) n heap") auto
  show ?case
  proof (cases "ch = CHR 0x0A")
    case True
    with Cons.prems(1) g show ?thesis
      by (cases "rcgrow (length buf) n1 heap1") auto
  next
    case False
    with Cons.prems(1) g have l: "rclineloop n1 heap1 (buf @ [ch]) inp = RcOk (line, rest, heap')" by simp
    show ?thesis
    proof (cases "inp = []")
      case True
      with l show ?thesis by (cases "rcgrow (length (buf @ [ch])) n1 heap1") auto
    next
      case False
      with Cons.IH [OF l] show ?thesis by simp
    qed
  qed
qed

lemma rcgetline_shorter:
  "rcgetline inp heap = RcOk (Some line, rest, heap') \<Longrightarrow> length rest < length inp"
proof (cases inp)
  case Nil
  moreover assume "rcgetline inp heap = RcOk (Some line, rest, heap')"
  ultimately show ?thesis by (simp add: rcgetline_def)
next
  case (Cons ch cs)
  moreover assume "rcgetline inp heap = RcOk (Some line, rest, heap')"
  ultimately show ?thesis
    by (cases "rclineloop 32 (heap - 1) [] inp")
      (auto simp: rcgetline_def simp del: rclineloop.simps split: if_splits dest: rclineloop_shorter)
qed

function rcxloop :: "rctab \<Rightarrow> int \<Rightarrow> string \<Rightarrow> bool \<Rightarrow> int \<Rightarrow> int \<Rightarrow> cwmars \<Rightarrow> nat
    \<Rightarrow> (int \<times> int \<times> cwmars \<times> nat) rcres" where
  "rcxloop tab pid inp wrap pc ret m heap =
     (case rcgetline inp heap of
        RcOk (Some line, rest, heap) \<Rightarrow>
          (case rcblank wrap line of
             RcOk (wrap, cp) \<Rightarrow>
               if hd cp = CHR '';'' then rcxloop tab pid rest wrap pc ret m heap
               else if isalpha (hd cp)
               then (case rcgetop tab cp heap of
                       RcOk (instr, heap) \<Rightarrow>
                         (case rcstore pid instr pc ret m of
                            RcOk (pc, ret, m) \<Rightarrow> rcxloop tab pid rest wrap pc ret m heap
                          | RcExit s \<Rightarrow> RcExit s
                          | RcUndef \<Rightarrow> RcUndef)
                     | RcExit s \<Rightarrow> RcExit s
                     | RcUndef \<Rightarrow> RcUndef)
               else if wrap then rcxloop tab pid rest wrap pc ret m heap
               else RcOk (ret, pc, m, heap)
           | RcExit s \<Rightarrow> RcExit s
           | RcUndef \<Rightarrow> RcUndef)
      | RcOk (None, rest, heap) \<Rightarrow> RcOk (ret, pc, m, heap)
      | RcExit s \<Rightarrow> RcExit s
      | RcUndef \<Rightarrow> RcUndef)"
  by pat_completeness auto
termination
  by (relation "measure (\<lambda>(_, _, inp, _). length inp)") (auto dest: rcgetline_shorter)

declare rcxloop.simps [simp del]

definition rcxlate :: "rctab \<Rightarrow> string \<Rightarrow> int \<Rightarrow> int \<Rightarrow> cwmars \<Rightarrow> nat \<Rightarrow> (int \<times> int \<times> cwmars \<times> nat) rcres" where
  "rcxlate tab inp pid base m heap = rcxloop tab pid inp False base (- 1) m heap"

section \<open>Disassembly\<close>

text \<open>The digits of a natural number and the conversion \<open>%d\<close>.\<close>

fun decimal :: "nat \<Rightarrow> string" where
  "decimal n = (if n < 10 then [char_of (48 + n)] else decimal (n div 10) @ [char_of (48 + n mod 10)])"

declare decimal.simps [simp del]

definition fmt_d :: "int \<Rightarrow> string" where
  "fmt_d i = (if i < 0 then CHR ''-'' # decimal (nat (- i)) else decimal (nat i))"

definition dismode :: "u8 \<Rightarrow> u8 \<Rightarrow> char" where
  "dismode flg preflg =
     (if hasflg flg CWIMMBIT then CHR ''#''
      else if hasflg flg CWINDIRBIT then CHR ''@''
      else if hasflg preflg CWPREDECBIT then CHR ''<''
      else CHR 0x00)"

text \<open>
  The text written to the stream the caller passes and the text written to the error stream: the
  number of an unsigned second operand goes to the latter.  The mark of a predecrement of the
  second operand is chosen by the flags of the first.
\<close>

definition cwdisasm :: "cwinstr \<Rightarrow> string \<times> string" where
  "cwdisasm op =
     (let tab = CHR 0x09;
          out = tab # (cwopnametab ! unat (iop op)) @ [tab];
          ch = dismode (iaflg op) (iaflg op);
          out = out @
            (if rcnargtab ! unat (iop op) = 2
             then (if ch = CHR 0x00 then [] else [ch])
                  @ (if hasflg (iaflg op) CWSIGNBIT then fmt_d (uint (ia op) - CWCORESIZE)
                     else fmt_d (uint (ia op)))
             else []);
          ch = dismode (ibflg op) (iaflg op);
          out = out @ (if ch = CHR 0x00 then [tab] else [tab, ch])
      in if hasflg (ibflg op) CWSIGNBIT
         then (out @ fmt_d (uint (ib op) - CWCORESIZE) @ [CHR 0x0A], [])
         else (out, fmt_d (uint (ib op)) @ [CHR 0x0A]))"

section \<open>Start-up\<close>

text \<open>
  Registration of the instructions with the machine and the assembler; the handler table itself is
  \<^const>\<open>cwfunctab\<close>, and \<^const>\<open>rcinitop\<close> repeats the registration of the mnemonics.
\<close>

definition cwinitop :: "rctab \<times> nat \<Rightarrow> (rctab \<times> nat) rcres" where
  "cwinitop st =
     rcbind (rcaddop ''DAT'' 0 st) (\<lambda>st.
     rcbind (rcaddop ''MOV'' 1 st) (\<lambda>st.
     rcbind (rcaddop ''ADD'' 2 st) (\<lambda>st.
     rcbind (rcaddop ''SUB'' 3 st) (\<lambda>st.
     rcbind (rcaddop ''JMP'' 4 st) (\<lambda>st.
     rcbind (rcaddop ''JMZ'' 5 st) (\<lambda>st.
     rcbind (rcaddop ''JMN'' 6 st) (\<lambda>st.
     rcbind (rcaddop ''CMP'' 7 st) (\<lambda>st.
     rcbind (rcaddop ''SLT'' 8 st) (\<lambda>st.
     rcbind (rcaddop ''DJN'' 9 st) (\<lambda>st.
     rcaddop ''SPL'' 10 st))))))))))"

definition cwseed :: "u64 \<Rightarrow> u64 \<Rightarrow> u64 \<Rightarrow> u64 \<Rightarrow> u64" where
  "cwseed t1 t2 t3 t4 =
     (push_bit 24 (t1 AND 0xff) OR push_bit 16 (t2 AND 0xff) OR push_bit 8 (t3 AND 0xff) OR (t4 AND 0xff))"

text \<open>The bitmap and the core are two allocations; only the second is checked.\<close>

definition cwinit :: "u64 \<Rightarrow> nat \<Rightarrow> (randmt \<times> rctab \<times> (int \<Rightarrow> cwinstr) \<times> nat) rcres" where
  "cwinit seed heap =
     (let rnd = srandmt32 seed randmt32fresh
      in rcbind (cwinitop ((\<lambda>_. None), heap)) (\<lambda>st.
         rcbind (rcinitop st) (\<lambda>(tab, heap).
         let heap = heap - 1
         in if heap = 0 then RcExit ''failed to allocate core''
            else RcOk (rnd, tab, (\<lambda>_. cwnull), heap - 1))))"

definition cwbase :: "u64 \<Rightarrow> int" where
  "cwbase x = uint (x mod 8000)"

text \<open>
  The program from its two source files: translate each at a random address, start both with one
  process, and run the main loop.  A translated program without an entry point is reported.
\<close>

definition cwmain :: "u64 \<Rightarrow> nat \<Rightarrow> string \<times> string \<Rightarrow> string \<times> string \<Rightarrow> cwmars cwres option rcres" where
  "cwmain seed heap = (\<lambda>(name1, text1) (name2, text2).
     rcbind (cwinit seed heap) (\<lambda>(rnd, tab, core, heap).
     let m = \<lparr>runqtab = (\<lambda>_ _. 0), proccnt = (\<lambda>_. 0), curproc = (\<lambda>_. 0), nturn = (\<lambda>_. 0), curpid = 0,
              prog1name = [], prog2name = [], pidmap = (\<lambda>_. 0), optab = core\<rparr>;
         (x1, rnd) = randmt32 rnd
     in rcbind (rcxlate tab text1 0 (cwbase x1) m heap) (\<lambda>(pc1, lim, m, heap).
        if pc1 < 0 then RcExit (''failed to translate '' @ name1)
        else let (x2, rnd) = randmt32 rnd
        in rcbind (rcxlate tab text2 1 (cwbase x2) m heap) (\<lambda>(pc2, lim, m, heap).
           if pc2 < 0 then RcExit (''failed to translate '' @ name1)
           else let (x3, rnd) = randmt32 rnd;
                    pid = uint (x3 AND 1);
                    m = m\<lparr>proccnt := (proccnt m)(0 := 1, 1 := 1),
                          curproc := (curproc m)(0 := 0, 1 := 0),
                          nturn := (nturn m)(0 := CWNTURN, 1 := CWNTURN),
                          runqtab := (runqtab m)(0 := (runqtab m 0)(0 := pc1),
                                                 1 := (runqtab m 1)(0 := pc2)),
                          curpid := pid, prog1name := name1, prog2name := name2\<rparr>
                in RcOk (cwloop pid m)))))"

section \<open>The mnemonic table as a finite map\<close>

definition rclookup :: "rctab \<Rightarrow> string \<Rightarrow> int option" where
  "rclookup tab s =
     (case s of
        [a, b, c] \<Rightarrow> Option.bind (tab a) (\<lambda>t1. Option.bind (t1 b) (\<lambda>t2. t2 c))
      | _ \<Rightarrow> None)"

definition upper3 :: "string \<Rightarrow> bool" where
  "upper3 s \<longleftrightarrow> length s = 3 \<and> (\<forall>c \<in> set s. 65 \<le> ord c \<and> ord c \<le> 90)"

text \<open>
  What the assembler relies on: registering a mnemonic makes it known and changes no other one,
  and takes at most three allocations.
\<close>

locale mnemonics =
  fixes lk :: "'t \<Rightarrow> string \<Rightarrow> int option"
    and add :: "string \<Rightarrow> int \<Rightarrow> 't \<times> nat \<Rightarrow> ('t \<times> nat) rcres"
  assumes add_ok: "upper3 s \<Longrightarrow> 3 \<le> heap \<Longrightarrow>
      \<exists>t' heap'. add s op (t, heap) = RcOk (t', heap') \<and> heap \<le> heap' + 3
        \<and> lk t' = (lk t)(s \<mapsto> op)"
begin

fun addall :: "(string \<times> int) list \<Rightarrow> 't \<times> nat \<Rightarrow> ('t \<times> nat) rcres" where
  "addall [] st = RcOk st"
| "addall ((s, op) # xs) st = rcbind (add s op st) (addall xs)"

lemma addall_fun:
  "addall [] = RcOk"
  "addall ((s, op) # xs) = (\<lambda>st. rcbind (add s op st) (addall xs))"
  by (simp_all add: fun_eq_iff)

lemma addall_ok:
  "\<forall>(s, op) \<in> set xs. upper3 s \<Longrightarrow> 3 * length xs \<le> heap \<Longrightarrow>
   \<exists>t' heap'. addall xs (t, heap) = RcOk (t', heap') \<and> heap \<le> heap' + 3 * length xs
     \<and> lk t' = lk t ++ map_of (rev xs)"
proof (induction xs arbitrary: t heap)
  case Nil
  then show ?case by simp
next
  case (Cons x xs)
  obtain s op where x: "x = (s, op)" by fastforce
  obtain t1 heap1 where 1: "add s op (t, heap) = RcOk (t1, heap1)" "heap \<le> heap1 + 3"
      "lk t1 = (lk t)(s \<mapsto> op)"
    using add_ok [of s heap op t] Cons.prems x by auto
  obtain t2 heap2 where 2: "addall xs (t1, heap1) = RcOk (t2, heap2)" "heap1 \<le> heap2 + 3 * length xs"
      "lk t2 = lk t1 ++ map_of (rev xs)"
    using Cons.IH [of heap1 t1] Cons.prems 1(2) x by auto
  show ?case using 1 2 x by (simp add: map_add_def fun_eq_iff split: option.split)
qed

end

lemma toupper_upper: "65 \<le> ord c \<Longrightarrow> ord c \<le> 90 \<Longrightarrow> toupper c = c"
  by (simp add: toupper_def)

lemma rcentry_ok: "0 < heap \<Longrightarrow> \<exists>heap'. rcentry p fresh heap = RcOk (case p of Some x \<Rightarrow> x | None \<Rightarrow> fresh, heap')
    \<and> heap \<le> heap' + 1"
  by (auto simp: rcentry_def split: option.split)

lemma rcaddop_ok:
  assumes "upper3 s" "3 \<le> heap"
  shows "\<exists>t' heap'. rcaddop s op (t, heap) = RcOk (t', heap') \<and> heap \<le> heap' + 3
        \<and> rclookup t' = (rclookup t)(s \<mapsto> op)"
proof -
  obtain a b c where s: "s = [a, b, c]"
    using assms(1) by (auto simp: upper3_def length_Suc_conv numeral_3_eq_3)
  have up: "toupper a = a" "toupper b = b" "toupper c = c" "ord a < 128" "ord b < 128" "ord c < 128"
      "a \<noteq> CHR 0x00" "b \<noteq> CHR 0x00" "c \<noteq> CHR 0x00"
    using assms(1) by (auto simp: upper3_def s toupper_upper ord_def)
  have nth: "nth_nul s 0 = a" "nth_nul s 1 = b" "nth_nul s 2 = c" by (simp_all add: nth_nul_def s)
  define t1 where "t1 = (case t a of Some x \<Rightarrow> x | None \<Rightarrow> (\<lambda>_. None))"
  define t2 where "t2 = (case t1 b of Some x \<Rightarrow> x | None \<Rightarrow> (\<lambda>_. None))"
  obtain h1 where h1: "rcentry (t a) (\<lambda>_. None) heap = RcOk (t1, h1)" "heap \<le> h1 + 1"
    using rcentry_ok [of heap "t a" "\<lambda>_. None"] assms(2) unfolding t1_def by auto
  obtain h2 where h2: "rcentry (t1 b) (\<lambda>_. None) h1 = RcOk (t2, h2)" "h1 \<le> h2 + 1"
    using rcentry_ok [of h1 "t1 b" "\<lambda>_. None"] assms(2) h1(2) unfolding t2_def by auto
  obtain t3 h3 where h3: "rcentry (t2 c) 0 h2 = RcOk (t3, h3)" "h2 \<le> h3 + 1"
    using rcentry_ok [of h2 "t2 c" 0] assms(2) h1(2) h2(2) by auto
  have r: "rcaddop s op (t, heap) = RcOk (t(a \<mapsto> t1(b \<mapsto> t2(c \<mapsto> op))), h3)"
    unfolding rcaddop_def nth using up h1(1) h2(1) h3(1) by (simp add: Let_def)
  have "rclookup (t(a \<mapsto> t1(b \<mapsto> t2(c \<mapsto> op)))) w = ((rclookup t)(s \<mapsto> op)) w" for w
    by (auto simp: rclookup_def s t1_def t2_def split: list.splits option.splits)
  with r h1(2) h2(2) h3(2) show ?thesis
    by (intro exI [of _ "t(a \<mapsto> t1(b \<mapsto> t2(c \<mapsto> op)))"] exI [of _ h3]) auto
qed

interpretation ops: mnemonics rclookup rcaddop
  by unfold_locales (rule rcaddop_ok)

definition mnemonic_list :: "(string \<times> int) list" where
  "mnemonic_list = [(''DAT'', 0), (''MOV'', 1), (''ADD'', 2), (''SUB'', 3), (''JMP'', 4), (''JMZ'', 5),
     (''JMN'', 6), (''CMP'', 7), (''SLT'', 8), (''DJN'', 9), (''SPL'', 10)]"

lemma rcbind_assoc: "rcbind (rcbind r f) g = rcbind r (\<lambda>x. rcbind (f x) g)"
  by (cases r) auto

lemma rcbind_RcOk [simp]: "rcbind r RcOk = r"
  by (cases r) auto

lemma rcinitop_addall: "rcinitop st = ops.addall mnemonic_list st"
  unfolding rcinitop_def mnemonic_list_def ops.addall_fun rcbind_RcOk ..

lemma cwinitop_addall: "cwinitop st = ops.addall mnemonic_list st"
  unfolding cwinitop_def mnemonic_list_def ops.addall_fun rcbind_RcOk ..

lemma mnemonic_list_upper: "\<forall>(s, op) \<in> set mnemonic_list. upper3 s" "length mnemonic_list = 11"
  by (simp_all add: mnemonic_list_def upper3_def ord_def)

lemma mnemonics_map: "k < 11 \<Longrightarrow> map_of (rev mnemonic_list) (cwopnametab ! k) = Some (int k)"
  by (simp only: numeral_nat less_Suc_eq_0_disj) (auto simp: mnemonic_list_def cwopnametab_def)

text \<open>After the start-up registration every mnemonic is found under its number.\<close>

definition tab_ok :: "rctab \<Rightarrow> bool" where
  "tab_ok tab \<longleftrightarrow> (\<forall>k<11. rclookup tab (cwopnametab ! k) = Some (int k))"

lemma rcinitop_ok:
  assumes "33 \<le> heap"
  shows "\<exists>tab' heap'. rcinitop (tab, heap) = RcOk (tab', heap') \<and> heap \<le> heap' + 33 \<and> tab_ok tab'"
  using ops.addall_ok [OF mnemonic_list_upper(1), of heap tab] assms mnemonics_map
  by (auto simp: rcinitop_addall mnemonic_list_upper(2) tab_ok_def map_add_def)

lemma cwinitop_ok:
  assumes "33 \<le> heap"
  shows "\<exists>tab' heap'. cwinitop (tab, heap) = RcOk (tab', heap') \<and> heap \<le> heap' + 33 \<and> tab_ok tab'"
  using rcinitop_ok [OF assms] by (simp add: cwinitop_addall rcinitop_addall)

lemma rcfindop_known:
  assumes "tab_ok tab" "k < 11" "isspace c"
  shows "rcfindop tab (cwopnametab ! k @ c # rest) = RcOk (int k)"
proof -
  have "cwopnametab ! k \<in> set cwopnametab" using assms(2) by (intro nth_mem) (simp add: cwopnametab_def)
  then obtain x y z where w: "cwopnametab ! k = [x, y, z]"
      and l: "toupper x = x" "toupper y = y" "toupper z = z" "isalpha y" "isalpha z" "ord x < 128"
    by (auto simp: cwopnametab_def toupper_def isalpha_def ord_def)
  have "rclookup tab [x, y, z] = Some (int k)" using assms(1,2) w unfolding tab_ok_def by metis
  then obtain t1 t2 where "tab x = Some t1" "t1 y = Some t2" "t2 z = Some (int k)"
    by (auto simp: rclookup_def bind_eq_Some_conv)
  with w l assms(3) show ?thesis by (simp add: rcfindop_def rcread_def)
qed

section \<open>Numbers and operands\<close>

lemma ord_digit [simp]: "d < 10 \<Longrightarrow> ord (char_of (48 + d :: nat)) = 48 + d"
  by (simp add: ord_def)

lemma isdigit_digit [simp]: "d < 10 \<Longrightarrow> isdigit (char_of (48 + d :: nat))"
  by (simp add: isdigit_def)

lemma decimal_head: "\<exists>c cs. decimal n = c # cs \<and> isdigit c"
proof (induction n rule: decimal.induct)
  case (1 n)
  show ?case
  proof (cases "n < 10")
    case True
    then show ?thesis by (simp add: decimal.simps [of n])
  next
    case False
    then show ?thesis using 1 by (subst decimal.simps) auto
  qed
qed

lemma rcdigits_decimal:
  assumes "int n \<le> 2 ^ 63 - 1"
  shows "rcdigits 0 (decimal n @ rest) = rcdigits (int n) rest"
  using assms
proof (induction n arbitrary: rest rule: decimal.induct)
  case (1 n)
  show ?case
  proof (cases "n < 10")
    case True
    then show ?thesis by (simp add: decimal.simps [of n])
  next
    case False
    have "int (n div 10) \<le> 2 ^ 63 - 1" using 1(2) by simp
    from 1(1) [OF False this, of "char_of (48 + n mod 10) # rest"]
    have "rcdigits 0 (decimal n @ rest) = rcdigits (int (n div 10)) (char_of (48 + n mod 10) # rest)"
      using False by (simp add: decimal.simps [of n])
    moreover have "int (n div 10) * 10 + (int (48 + n mod 10) - 48) = int n"
      by (simp add: zdiv_int zmod_int)
    ultimately show ?thesis using 1(2) by (simp add: Let_def del: of_nat_add)
  qed
qed

datatype amode = Plain | Immediate | Indirect

fun amode_bit :: "amode \<Rightarrow> u8" where
  "amode_bit Plain = 0"
| "amode_bit Immediate = CWIMMBIT"
| "amode_bit Indirect = CWINDIRBIT"

fun amark :: "amode \<Rightarrow> string" where
  "amark Plain = []"
| "amark Immediate = ''#''"
| "amark Indirect = ''@''"

definition sgnbit :: "int \<Rightarrow> u8" where
  "sgnbit v = (if v < 0 then CWSIGNBIT else 0)"

definition field :: "int \<Rightarrow> int" where
  "field v = (if v < 0 then 8000 + v else v)"

definition small :: "int \<Rightarrow> bool" where
  "small v \<longleftrightarrow> - 8000 < v \<and> v < 8000"

lemma field_small: "small v \<Longrightarrow> core_ok (field v)"
  by (simp add: small_def field_def core_ok_def cwsizes)

lemma fmt_d_head: "\<exists>c cs. fmt_d v = c # cs \<and> (isdigit c \<or> c = CHR ''-'')"
  using decimal_head [of "nat v"] by (auto simp: fmt_d_def)

lemma isdigit_not:
  "isdigit c \<Longrightarrow> c \<noteq> CHR ''-'' \<and> c \<noteq> CHR ''#'' \<and> c \<noteq> CHR ''@'' \<and> c \<noteq> CHR ''<'' \<and> c \<noteq> CHR ''$''
     \<and> c \<noteq> CHR '','' \<and> c \<noteq> CHR 0x00 \<and> \<not> isspace c \<and> \<not> isalpha c"
  by (auto simp: isdigit_def isspace_def isalpha_def ord_def)

lemma rcnumber_fmt_d:
  assumes "small v" "\<not> isdigit c"
  shows "rcnumber err (fmt_d v @ c # cs) = RcOk (sgnbit v, field v, c # cs)"
proof -
  obtain d ds where d: "decimal (nat \<bar>v\<bar>) = d # ds" "isdigit d" using decimal_head by blast
  have "rcdigits 0 (decimal (nat \<bar>v\<bar>) @ c # cs) = RcOk (\<bar>v\<bar>, c # cs)"
    using assms by (subst rcdigits_decimal) (auto simp: small_def)
  with d show ?thesis
    by (auto simp: rcnumber_def fmt_d_def rcread_def Let_def sgnbit_def field_def cwsizes
        dest: isdigit_not simp del: rcdigits.simps)
qed

definition optext :: "amode \<Rightarrow> int \<Rightarrow> string" where
  "optext am v = amark am @ fmt_d v"

lemma optext_head:
  "\<exists>c cs. optext am v = c # cs \<and> \<not> isspace c \<and> c \<noteq> CHR '','' \<and> c \<noteq> CHR 0x00"
  using fmt_d_head [of v] by (cases am) (auto simp: optext_def isspace_def ord_def dest: isdigit_not)

lemma rcmode_optext:
  "rcmode (optext am v @ rest) = RcOk (if am = Plain then CWRELBIT else amode_bit am, fmt_d v @ rest)"
proof (cases am)
  case Plain
  obtain c cs where "fmt_d v = c # cs" "isdigit c \<or> c = CHR ''-''" using fmt_d_head by blast
  then show ?thesis using Plain by (auto simp: optext_def dest: isdigit_not)
qed (simp_all add: optext_def)

text \<open>
  The instructions the assembler makes from operands that are plain, immediate or indirect, with
  numbers in the range of the core.  A plain second operand sets \<open>CWRELBIT\<close> in the flags of
  the first.
\<close>

definition asm :: "nat \<Rightarrow> amode \<Rightarrow> int \<Rightarrow> amode \<Rightarrow> int \<Rightarrow> cwinstr" where
  "asm k am a bm b =
     (if rcnargtab ! k = 2
      then \<lparr>iop = of_nat k,
            iaflg = amode_bit am OR (if am = Plain \<or> bm = Plain then CWRELBIT else 0) OR sgnbit a,
            ibflg = amode_bit bm OR sgnbit b, ipid = 0,
            ia = word_of_int (field a), ib = word_of_int (field b)\<rparr>
      else \<lparr>iop = of_nat k, iaflg = (if bm = Plain then CWRELBIT else 0),
            ibflg = amode_bit bm OR sgnbit b, ipid = 0, ia = 0, ib = word_of_int (field b)\<rparr>)"

definition asmtext :: "nat \<Rightarrow> amode \<Rightarrow> int \<Rightarrow> amode \<Rightarrow> int \<Rightarrow> string" where
  "asmtext k am a bm b =
     CHR 0x09 # cwopnametab ! k @ CHR 0x09 # (if rcnargtab ! k = 2 then optext am a else [])
       @ CHR 0x09 # optext bm b @ [CHR 0x0A]"

lemma flag_facts:
  "hasflg (amode_bit am OR r OR sgnbit a) CWIMMBIT = (am = Immediate)"
  "hasflg (amode_bit am OR r OR sgnbit a) CWINDIRBIT = (am = Indirect)"
  "hasflg (amode_bit am OR r OR sgnbit a) CWPREDECBIT = False"
  "hasflg (amode_bit am OR r OR sgnbit a) CWSIGNBIT = (a < 0)"
  "hasflg r CWPREDECBIT = False"
  if "r = 0 \<or> r = CWRELBIT"
  using that by (cases am; auto simp: hasflg_def cwflags sgnbit_def)+

lemmas flag_facts0 = flag_facts(1-4) [of 0, simplified]

lemma dismode_asm:
  assumes "r = 0 \<or> r = CWRELBIT" "\<not> hasflg q CWPREDECBIT"
  shows "(if dismode (amode_bit am OR r OR sgnbit a) q = CHR 0x00 then []
          else [dismode (amode_bit am OR r OR sgnbit a) q]) = amark am"
  using assms(2) by (cases am) (simp_all only: dismode_def flag_facts [OF assms(1)], simp_all)

lemma fmt_field:
  assumes "small v"
  shows "(if v < 0 then fmt_d (uint (word_of_int (field v) :: u16) - CWCORESIZE)
          else fmt_d (uint (word_of_int (field v) :: u16))) = fmt_d v"
  using core_ok_store [OF field_small [OF assms]] by (auto simp: field_def cwsizes)

lemma unat_opcode: "k < 11 \<Longrightarrow> unat (of_nat k :: u8) = k"
  by (simp add: unat_of_nat)

lemma dismode_tab:
  "(if dismode f q = CHR 0x00 then [c] else [c, dismode f q])
    = c # (if dismode f q = CHR 0x00 then [] else [dismode f q])"
  by simp

text \<open>
  What the disassembler writes for such an instruction, on both streams: the number of an unsigned second
  operand and the end of the line go to the error stream.
\<close>

definition asmhead :: "nat \<Rightarrow> amode \<Rightarrow> int \<Rightarrow> amode \<Rightarrow> string" where
  "asmhead k am a bm =
     CHR 0x09 # cwopnametab ! k @ CHR 0x09 # (if rcnargtab ! k = 2 then optext am a else []) @ CHR 0x09 # amark bm"

lemma cwdisasm_asm:
  assumes "k < 11" "small a" "small b"
  shows "cwdisasm (asm k am a bm b) =
    (if b < 0 then (asmtext k am a bm b, []) else (asmhead k am a bm, fmt_d b @ [CHR 0x0A]))"
proof (cases "rcnargtab ! k = 2")
  case True
  define r :: u8 where "r = (if am = Plain \<or> bm = Plain then CWRELBIT else 0)"
  have r: "r = 0 \<or> r = CWRELBIT" by (simp add: r_def)
  note fa = flag_facts(1-4) [OF r, of am a]
  have np: "\<not> hasflg (amode_bit am OR r OR sgnbit a) CWPREDECBIT" using fa(3) by simp
  show ?thesis
    using True fmt_field [OF assms(2)] fmt_field [OF assms(3)] dismode_asm [OF r np, of am a]
      dismode_asm [OF disjI1 [OF refl] np, of bm b, simplified] fa flag_facts0 [of bm b]
    by (auto simp: cwdisasm_def asm_def asmtext_def asmhead_def optext_def unat_opcode [OF assms(1)] Let_def
        r_def [symmetric] split: if_splits)
next
  case False
  define r :: u8 where "r = (if bm = Plain then CWRELBIT else 0)"
  have r: "r = 0 \<or> r = CWRELBIT" by (simp add: r_def)
  show ?thesis
    using False fmt_field [OF assms(3)] dismode_asm [of 0 r bm b, simplified] flag_facts(5) [OF r] flag_facts0 [of bm b]
    by (auto simp: cwdisasm_def asm_def asmtext_def asmhead_def optext_def unat_opcode [OF assms(1)] Let_def
        r_def [symmetric] split: if_splits)
qed

lemma opname_letters:
  assumes "k < 11"
  obtains x y z where "cwopnametab ! k = [x, y, z]" "isalpha x" "isalpha y" "isalpha z"
proof -
  have "cwopnametab ! k \<in> set cwopnametab" using assms by (intro nth_mem) (simp add: cwopnametab_def)
  then show ?thesis using that by (auto simp: cwopnametab_def isalpha_def ord_def)
qed

lemma char_facts: "isspace (CHR 0x09)" "isspace (CHR 0x0A)" "\<not> isalpha (CHR 0x09)" "\<not> isdigit (CHR 0x09)" "\<not> isdigit (CHR 0x0A)"
  by (simp_all add: isspace_def isalpha_def isdigit_def ord_def)

lemma isalpha_not_space: "isalpha c \<Longrightarrow> \<not> isspace c"
  by (auto simp: isalpha_def isspace_def)

lemma rcskipspace_optext: "rcskipspace (optext am v @ rest) = RcOk (optext am v @ rest)"
  using optext_head [of am v] by auto

lemma rcafield_optext:
  assumes "small a"
  shows "rcafield instr (optext am a @ CHR 0x09 # rest) =
    RcOk (instr\<lparr>iaflg := iaflg instr OR (if am = Plain then CWRELBIT else amode_bit am) OR sgnbit a,
                ia := word_of_int (field a)\<rparr>, CHR 0x09 # rest)"
  by (simp add: rcafield_def rcmode_optext rcnumber_fmt_d [OF assms char_facts(4)])

lemma rcbfield_optext:
  assumes "small b"
  shows "rcbfield instr (optext bm b @ [CHR 0x0A]) =
    RcOk (if bm = Plain
          then instr\<lparr>iaflg := iaflg instr OR CWRELBIT, ibflg := ibflg instr OR sgnbit b,
                     ib := word_of_int (field b)\<rparr>
          else instr\<lparr>ibflg := ibflg instr OR amode_bit bm OR sgnbit b, ib := word_of_int (field b)\<rparr>,
          [CHR 0x0A])"
  by (cases bm) (simp_all add: rcbfield_def rcmode_optext rcnumber_fmt_d [OF assms char_facts(5)] cwflags)

lemma optext_hd:
  "hd (optext am v @ rest) \<noteq> CHR 0x00" "hd (optext am v @ rest) \<noteq> CHR '',''" "optext am v @ rest \<noteq> []"
  using optext_head [of am v] by auto

lemma rcskipspace_spaces: "list_all isspace sp \<Longrightarrow> rcskipspace (sp @ s) = rcskipspace s"
  by (induction sp) simp_all

lemma rcskipalpha_word: "list_all isalpha w \<Longrightarrow> \<not> isalpha c \<Longrightarrow> rcskipalpha (w @ c # s) = RcOk (c # s)"
  by (induction w) simp_all

text \<open>A line with a word of letters, after the search of the word among the mnemonics.\<close>

lemma rcgetop_word:
  assumes "list_all isspace sp" "list_all isalpha w" "w \<noteq> []" "\<not> isalpha c" "0 < heap"
  shows "rcgetop tab (sp @ w @ c # s) heap =
    rcbind (rcfindop tab (w @ c # s)) (\<lambda>op.
      if op = CWNONE then RcExit ''invalid mnemonic''
      else let instr = cwnull\<lparr>iop := word_of_int op\<rparr>
           in if c = CHR 0x00 then RcOk (instr, heap - 1)
              else rcbind (rcskipspace (c # s)) (\<lambda>cp.
                   if hd cp = CHR 0x00 then RcOk (instr, heap - 1)
                   else rcbind (rcoperands (rcnargtab ! nat op) instr cp) (\<lambda>instr. RcOk (instr, heap - 1))))"
proof -
  obtain x xs where w: "w = x # xs" "isalpha x" using assms(2,3) by (cases w) auto
  then have "rcskipspace (sp @ w @ c # s) = RcOk (w @ c # s)"
    by (simp add: rcskipspace_spaces [OF assms(1)] isalpha_not_space)
  moreover have "rcskipalpha (w @ c # s) = RcOk (c # s)" using rcskipalpha_word [OF assms(2,4)] .
  moreover have "isalpha (hd (w @ c # s))" using w by simp
  ultimately show ?thesis using assms(5) by (simp add: rcgetop_def Let_def del: rcskipspace.simps rcskipalpha.simps cong: if_cong)
qed

lemma rcgetop_line:
  assumes "tab_ok tab" "k < 11" "0 < heap"
  shows "rcgetop tab (CHR 0x09 # cwopnametab ! k @ CHR 0x09 # s) heap =
    rcbind (rcskipspace s) (\<lambda>cp.
      if hd cp = CHR 0x00 then RcOk (cwnull\<lparr>iop := of_nat k\<rparr>, heap - 1)
      else rcbind (rcoperands (rcnargtab ! k) (cwnull\<lparr>iop := of_nat k\<rparr>) cp) (\<lambda>instr. RcOk (instr, heap - 1)))"
proof -
  obtain x y z where w: "cwopnametab ! k = [x, y, z]" "isalpha x" "isalpha y" "isalpha z"
    using assms(2) by (rule opname_letters)
  have "rcfindop tab (cwopnametab ! k @ CHR 0x09 # s) = RcOk (int k)"
    by (rule rcfindop_known [OF assms(1,2) char_facts(1)])
  then show ?thesis
    using rcgetop_word [of "[CHR 0x09]" "cwopnametab ! k" "CHR 0x09" heap tab s] assms(3) w
    by (simp add: char_facts CWNONE_def Let_def cong: if_cong)
qed

lemma rcgetop_asmtext:
  assumes "tab_ok tab" "k < 11" "small a" "small b" "0 < heap"
  shows "rcgetop tab (asmtext k am a bm b) heap = RcOk (asm k am a bm b, heap - 1)"
proof (cases "rcnargtab ! k = 2")
  case True
  have "rcoperands 2 (cwnull\<lparr>iop := of_nat k\<rparr>) (optext am a @ CHR 0x09 # optext bm b @ [CHR 0x0A]) = RcOk (asm k am a bm b)"
    using True by (cases bm; cases am) (simp_all add: rcoperands_def rcafield_optext [OF assms(3)] char_facts
        rcskipspace_optext optext_hd rcbfield_optext [OF assms(4)] asm_def cwnull_def ac_simps)
  then show ?thesis
    using True rcgetop_line [OF assms(1,2,5)] by (simp add: asmtext_def rcskipspace_optext optext_hd)
next
  case False
  have "rcoperands (rcnargtab ! k) (cwnull\<lparr>iop := of_nat k\<rparr>) (optext bm b @ [CHR 0x0A]) = RcOk (asm k am a bm b)"
    using False by (cases bm) (simp_all add: rcoperands_def rcskipspace_optext optext_hd rcbfield_optext [OF assms(4)]
        asm_def cwnull_def ac_simps)
  then show ?thesis
    using False rcgetop_line [OF assms(1,2,5)] by (simp add: asmtext_def rcskipspace_optext optext_hd char_facts)
qed

text \<open>Without the number the line is read past its end.\<close>

lemma rcbfield_amark: "bm \<noteq> Plain \<Longrightarrow> rcbfield instr (amark bm) = RcUndef"
  by (cases bm) (simp_all add: rcbfield_def rcnumber_def rcread_def)

lemma rcskipspace_amark: "rcskipspace (CHR 0x09 # amark bm) = (if bm = Plain then RcUndef else RcOk (amark bm))"
  by (cases bm) (simp_all add: char_facts isspace_def ord_def)

lemma amark_hd: "bm \<noteq> Plain \<Longrightarrow> hd (amark bm) \<noteq> CHR 0x00 \<and> hd (amark bm) \<noteq> CHR '',''"
  by (cases bm) simp_all

lemma rcoperands_amark: "bm \<noteq> Plain \<Longrightarrow> narg \<noteq> 2 \<Longrightarrow> rcoperands narg instr (amark bm) = RcUndef"
  using rcbfield_amark [of bm] amark_hd [of bm] rcskipspace_amark [of bm]
  by (simp add: rcoperands_def char_facts)

lemma rcgetop_asmhead:
  assumes "tab_ok tab" "k < 11" "small a" "0 < heap"
  shows "rcgetop tab (asmhead k am a bm) heap = RcUndef"
proof (cases "rcnargtab ! k = 2")
  case True
  have "rcoperands 2 instr (optext am a @ CHR 0x09 # amark bm) = RcUndef" for instr
    using rcbfield_amark [of bm] amark_hd [of bm]
    by (simp add: rcoperands_def rcafield_optext [OF assms(3)] rcskipspace_amark del: rcskipspace.simps)
  then show ?thesis using True rcgetop_line [OF assms(1,2,4)] by (simp add: asmhead_def rcskipspace_optext optext_hd)
next
  case False
  then show ?thesis
    using rcgetop_line [OF assms(1,2,4)] rcoperands_amark [of bm] amark_hd [of bm] rcskipspace_amark [of bm]
    by (simp add: asmhead_def del: rcskipspace.simps)
qed

section \<open>Loading a program\<close>

text \<open>A source line: operation number, and mode and number of both operands.\<close>

type_synonym asmline = "nat \<times> amode \<times> int \<times> amode \<times> int"

fun line_ok :: "asmline \<Rightarrow> bool" where
  "line_ok (k, am, a, bm, b) \<longleftrightarrow> k < 11 \<and> small a \<and> small b"

fun line_text :: "asmline \<Rightarrow> string" where
  "line_text (k, am, a, bm, b) = asmtext k am a bm b"

fun line_instr :: "asmline \<Rightarrow> cwinstr" where
  "line_instr (k, am, a, bm, b) = asm k am a bm b"

definition source :: "asmline list \<Rightarrow> string" where
  "source prog = concat (map line_text prog)"

lemma source_simps [simp]: "source [] = []" "source (x # xs) = line_text x @ source xs"
  by (simp_all add: source_def)

fun storeall :: "int \<Rightarrow> cwinstr list \<Rightarrow> int \<Rightarrow> int \<Rightarrow> cwmars \<Rightarrow> (int \<times> int \<times> cwmars) rcres" where
  "storeall pid [] pc ret m = RcOk (ret, pc, m)"
| "storeall pid (x # xs) pc ret m =
     rcbind (rcstore pid x pc ret m) (\<lambda>(pc, ret, m). storeall pid xs pc ret m)"

lemma decimal_length: "n < 10 ^ Suc d \<Longrightarrow> length (decimal n) \<le> Suc d"
proof (induction d arbitrary: n)
  case 0
  then show ?case by (simp add: decimal.simps [of n])
next
  case (Suc d)
  then have "n div 10 < 10 ^ Suc d" by simp
  from Suc.IH [OF this] show ?case by (subst decimal.simps) simp
qed

lemma decimal_digits: "c \<in> set (decimal n) \<Longrightarrow> isdigit c"
proof (induction n rule: decimal.induct)
  case (1 n)
  then show ?case by (cases "n < 10") (auto simp: decimal.simps [of n])
qed

lemma fmt_d_length: "small v \<Longrightarrow> length (fmt_d v) \<le> 5"
  using decimal_length [of "nat (- v)" 3] decimal_length [of "nat v" 3]
  by (auto simp: fmt_d_def small_def nat_less_iff)

lemma no_newline_fmt_d: "CHR 0x0A \<notin> set (fmt_d v)"
  using decimal_digits [of "CHR 0x0A"] by (auto simp: fmt_d_def char_facts)

lemma optext_line: "small v \<Longrightarrow> length (optext am v) \<le> 6 \<and> CHR 0x0A \<notin> set (optext am v)"
  using fmt_d_length [of v] no_newline_fmt_d [of v] by (cases am) (auto simp: optext_def)

lemma line_text_shape:
  assumes "line_ok x"
  obtains l where "line_text x = l @ [CHR 0x0A]" "CHR 0x0A \<notin> set l" "length l < 32"
proof -
  obtain k am a bm b where x: "x = (k, am, a, bm, b)" by (metis prod_cases5)
  with assms have ok: "k < 11" "small a" "small b" by auto
  obtain c1 c2 c3 where w: "cwopnametab ! k = [c1, c2, c3]" "isalpha c1" "isalpha c2" "isalpha c3"
    using ok(1) by (rule opname_letters)
  define l where "l = CHR 0x09 # cwopnametab ! k @ CHR 0x09 # (if rcnargtab ! k = 2 then optext am a else [])
       @ CHR 0x09 # optext bm b"
  have "CHR 0x0A \<notin> set l"
    using w optext_line [OF ok(2), of am] optext_line [OF ok(3), of bm]
    by (auto simp: l_def isalpha_def ord_def)
  moreover have "length l < 32"
    using w(1) optext_line [OF ok(2), of am] optext_line [OF ok(3), of bm] by (simp add: l_def)
  ultimately show ?thesis using that by (simp add: x asmtext_def l_def)
qed

lemma rclineloop_line:
  assumes "CHR 0x0A \<notin> set l" "length buf + length l < n"
  shows "rclineloop n heap buf (l @ CHR 0x0A # rest) = RcOk (buf @ l @ [CHR 0x0A], rest, heap)"
  using assms
proof (induction l arbitrary: buf)
  case Nil
  then show ?case by (simp add: rcgrow_def)
next
  case (Cons c l)
  then have "c \<noteq> CHR 0x0A" by auto
  with Cons show ?case by (simp add: rcgrow_def)
qed

lemma rcgetline_line:
  assumes "line_ok x" "0 < heap"
  shows "rcgetline (line_text x @ rest) heap = RcOk (Some (line_text x), rest, heap - 1)"
proof -
  obtain l where l: "line_text x = l @ [CHR 0x0A]" "CHR 0x0A \<notin> set l" "length l < 32"
    using assms(1) by (rule line_text_shape)
  have "line_text x @ rest = l @ CHR 0x0A # rest" using l(1) by simp
  moreover obtain c cs where "l @ CHR 0x0A # rest = c # cs" by (cases l) auto
  moreover have "rclineloop 32 (heap - 1) [] (l @ CHR 0x0A # rest) = RcOk (l @ [CHR 0x0A], rest, heap - 1)"
    using rclineloop_line [OF l(2), of "[]" 32 "heap - 1" rest] l(3) by simp
  ultimately show ?thesis using assms(2) l(1) by (simp add: rcgetline_def)
qed

lemma rcgetop_space: "isspace c \<Longrightarrow> rcgetop tab (c # s) heap = rcgetop tab s heap"
  by (simp add: rcgetop_def)

lemma line_parse:
  assumes "tab_ok tab" "line_ok x" "0 < heap"
  obtains cp where "rcblank False (line_text x) = RcOk (False, cp)" "isalpha (hd cp)"
    "hd cp \<noteq> CHR '';''" "rcgetop tab cp heap = RcOk (line_instr x, heap - 1)"
proof -
  obtain k am a bm b where x: "x = (k, am, a, bm, b)" by (metis prod_cases5)
  with assms(2) have ok: "k < 11" "small a" "small b" by auto
  obtain c1 c2 c3 where w: "cwopnametab ! k = [c1, c2, c3]" "isalpha c1" "isalpha c2" "isalpha c3"
    using ok(1) by (rule opname_letters)
  define cp where "cp = tl (line_text x)"
  have cp: "line_text x = CHR 0x09 # cp" "hd cp = c1" "cp \<noteq> []"
    using w(1) by (simp_all add: cp_def x asmtext_def)
  have "rcblank False (line_text x) = RcOk (False, cp)"
    using cp w(2) by (cases cp) (simp_all add: char_facts isalpha_not_space)
  moreover have "rcgetop tab cp heap = RcOk (line_instr x, heap - 1)"
    using rcgetop_asmtext [OF assms(1) ok assms(3), of am bm] cp(1) rcgetop_space [OF char_facts(1)]
    by (simp add: x)
  moreover have "c1 \<noteq> CHR '';''" using w(2) by (auto simp: isalpha_def ord_def)
  ultimately show ?thesis using that cp(2) w(2) by simp
qed

text \<open>The loop over the lines of such a source stores the instructions one after the other.\<close>

lemma rcxloop_source:
  assumes "tab_ok tab" "\<forall>x \<in> set prog. line_ok x" "2 * length prog \<le> heap"
  shows "rcxloop tab pid (source prog) False pc ret m heap =
    rcbind (storeall pid (map line_instr prog) pc ret m)
      (\<lambda>(ret, pc, m). RcOk (ret, pc, m, heap - 2 * length prog))"
  using assms(2,3)
proof (induction prog arbitrary: pc ret m heap)
  case Nil
  then show ?case by (subst rcxloop.simps) (simp add: rcgetline_def)
next
  case (Cons x prog)
  then have ok: "line_ok x" "0 < heap" "0 < heap - 1" by auto
  obtain cp where cp: "rcblank False (line_text x) = RcOk (False, cp)" "isalpha (hd cp)"
    "hd cp \<noteq> CHR '';''" "rcgetop tab cp (heap - 1) = RcOk (line_instr x, heap - 1 - 1)"
    using assms(1) ok(1,3) by (rule line_parse)
  have "rcxloop tab pid (source (x # prog)) False pc ret m heap =
    (case rcstore pid (line_instr x) pc ret m of
       RcOk (pc, ret, m) \<Rightarrow> rcxloop tab pid (source prog) False pc ret m (heap - 2)
     | RcExit s \<Rightarrow> RcExit s | RcUndef \<Rightarrow> RcUndef)"
    using cp by (subst rcxloop.simps) (simp add: rcgetline_line [OF ok(1,2)] numeral_2_eq_2 split: rcres.split)
  then show ?case
    using Cons by (cases "rcstore pid (line_instr x) pc ret m") auto
qed

text \<open>The cell a run of instructions starting at \<open>base\<close> uses for its \<open>j\<close>-th one.\<close>

definition cell :: "int \<Rightarrow> nat \<Rightarrow> int" where
  "cell base j = (base + int j) mod 8000"

lemma cell_core_ok [simp]: "core_ok (cell base j)"
  by (simp add: cell_def core_ok_def cwsizes)

lemma cell_nextpc: "core_ok base \<Longrightarrow> nextpc base = cell base 1"
  by (simp add: nextpc_def cell_def core_ok_nonneg mod_core)

lemma cell_Suc: "cell (cell base 1) j = cell base (Suc j)" "cell (cell base (Suc 0)) j = cell base (Suc j)"
  by (simp_all add: cell_def mod_simps ac_simps)

lemma cell_0: "core_ok base \<Longrightarrow> cell base 0 = base"
  by (simp add: cell_def core_ok_def cwsizes)

lemma cell_inj: "cell base i = cell base j \<Longrightarrow> i < 8000 \<Longrightarrow> j < 8000 \<Longrightarrow> i = j"
proof -
  assume eq: "cell base i = cell base j" and b: "i < 8000" "j < 8000"
  have "(base + int i - base) mod 8000 = (base + int j - base) mod 8000"
    using eq unfolding cell_def by (metis mod_diff_left_eq)
  then show "i = j" using b by simp
qed

text \<open>The entry point: the cell of the first instruction that is not DAT.\<close>

definition entry :: "int \<Rightarrow> cwinstr list \<Rightarrow> int" where
  "entry base xs = cell base (length (takeWhile (\<lambda>x. iop x = CWOPDAT) xs))"

definition has_code :: "cwinstr list \<Rightarrow> bool" where
  "has_code xs \<longleftrightarrow> (\<exists>x \<in> set xs. iop x \<noteq> CWOPDAT)"

lemma entry_Cons: "core_ok base \<Longrightarrow>
    entry base (x # xs) = (if iop x = CWOPDAT then entry (cell base 1) xs else base)"
  by (simp add: entry_def cell_Suc cell_0)

lemma storeall_empty:
  assumes "core_ok base" "length xs \<le> 8000" "\<forall>j<length xs. optab m (cell base j) = cwnull"
  shows "\<exists>m'. storeall pid xs base ret m =
        RcOk (if ret < 0 \<and> has_code xs then entry base xs else ret, cell base (length xs), m')
      \<and> (\<forall>j<length xs. optab m' (cell base j) = (xs ! j)\<lparr>ipid := word_of_int pid\<rparr>)
      \<and> (\<forall>i. (\<forall>j<length xs. i \<noteq> cell base j) \<longrightarrow> optab m' i = optab m i)"
  using assms
proof (induction xs arbitrary: base ret m)
  case Nil
  then show ?case by (simp add: has_code_def cell_0)
next
  case (Cons x xs)
  define m1 where "m1 = m\<lparr>optab := (optab m)(base := x\<lparr>ipid := word_of_int pid\<rparr>),
     pidmap := (if pid \<noteq> 0 then setbit (pidmap m) base else clrbit (pidmap m) base)\<rparr>"
  define ret1 where "ret1 = (if ret < 0 \<and> iop x \<noteq> CWOPDAT then base else ret)"
  have "optab m (cell base 0) = cwnull" using Cons.prems(3) by blast
  then have "optab m base = cwnull" by (simp add: cell_0 [OF Cons.prems(1)])
  then have st: "rcstore pid x base ret m = RcOk (cell base 1, ret1, m1)"
    using Cons.prems(1) by (simp add: rcstore_def m1_def ret1_def Let_def cell_nextpc)
  have other: "cell base (Suc j) \<noteq> base" if "j < length xs" for j
    using cell_inj [of base "Suc j" 0] cell_0 [OF Cons.prems(1)] that Cons.prems(2) by auto
  have free: "\<forall>j<length xs. optab m1 (cell (cell base 1) j) = cwnull"
    using Cons.prems(3) other by (auto simp: m1_def cell_Suc)
  obtain m' where m': "storeall pid xs (cell base 1) ret1 m1 =
        RcOk (if ret1 < 0 \<and> has_code xs then entry (cell base 1) xs else ret1, cell (cell base 1) (length xs), m')"
      "\<forall>j<length xs. optab m' (cell (cell base 1) j) = (xs ! j)\<lparr>ipid := word_of_int pid\<rparr>"
      "\<forall>i. (\<forall>j<length xs. i \<noteq> cell (cell base 1) j) \<longrightarrow> optab m' i = optab m1 i"
    using Cons.IH [OF cell_core_ok _ free, of ret1] Cons.prems(2) by auto
  have nn: "\<not> base < 0" using core_ok_nonneg [OF Cons.prems(1)] by simp
  have r: "(if ret1 < 0 \<and> has_code xs then entry (cell base 1) xs else ret1)
      = (if ret < 0 \<and> has_code (x # xs) then entry base (x # xs) else ret)"
  proof (cases "ret < 0 \<and> iop x \<noteq> CWOPDAT")
    case True
    then show ?thesis using nn by (simp add: ret1_def entry_Cons [OF Cons.prems(1)] has_code_def)
  next
    case False
    then show ?thesis by (cases "ret < 0") (simp_all add: ret1_def entry_Cons [OF Cons.prems(1)] has_code_def)
  qed
  have b: "optab m' base = x\<lparr>ipid := word_of_int pid\<rparr>"
  proof -
    have "\<forall>j<length xs. base \<noteq> cell (cell base 1) j" using other unfolding cell_Suc by metis
    then have "optab m' base = optab m1 base" using m'(3) by blast
    then show ?thesis by (simp add: m1_def)
  qed
  have "optab m' (cell base j) = ((x # xs) ! j)\<lparr>ipid := word_of_int pid\<rparr>" if "j < length (x # xs)" for j
    using that m'(2) b by (cases j) (auto simp: cell_0 [OF Cons.prems(1)] cell_Suc)
  moreover have "optab m' i = optab m i" if i: "\<forall>j<length (x # xs). i \<noteq> cell base j" for i
  proof -
    have "i \<noteq> base" using i cell_0 [OF Cons.prems(1)] by force
    moreover have "\<forall>j<length xs. i \<noteq> cell (cell base 1) j" using i by (auto simp: cell_Suc)
    ultimately show ?thesis using m'(3) by (simp add: m1_def)
  qed
  moreover have "storeall pid (x # xs) base ret m =
      RcOk (if ret < 0 \<and> has_code (x # xs) then entry base (x # xs) else ret, cell base (length (x # xs)), m')"
    using st m'(1) r by (simp add: cell_Suc)
  ultimately show ?case by blast
qed

lemma storeall_safe:
  assumes "core_ok base" "\<forall>x \<in> set xs. instr_ok x" "\<forall>i. instr_ok (optab m i)" "ret < 0 \<or> core_ok ret"
  shows "storeall pid xs base ret m = RcExit ''programs overlap''
    \<or> (\<exists>ret' pc' m'. storeall pid xs base ret m = RcOk (ret', pc', m') \<and> (\<forall>i. instr_ok (optab m' i))
        \<and> (has_code xs \<or> core_ok ret \<longrightarrow> core_ok ret'))"
  using assms
proof (induction xs arbitrary: base ret m)
  case Nil
  then show ?case by (auto simp: has_code_def)
next
  case (Cons x xs)
  define m1 where "m1 = m\<lparr>optab := (optab m)(base := x\<lparr>ipid := word_of_int pid\<rparr>),
     pidmap := (if pid \<noteq> 0 then setbit (pidmap m) base else clrbit (pidmap m) base)\<rparr>"
  define ret1 where "ret1 = (if ret < 0 \<and> iop x \<noteq> CWOPDAT then base else ret)"
  show ?case
  proof (cases "optab m base = cwnull")
    case True
    then have st: "rcstore pid x base ret m = RcOk (cell base 1, ret1, m1)"
      using Cons.prems(1) by (simp add: rcstore_def m1_def ret1_def Let_def cell_nextpc)
    have "\<forall>i. instr_ok (optab m1 i)" using Cons.prems(2,3) by (simp add: m1_def instr_ok_def)
    moreover have "ret1 < 0 \<or> core_ok ret1" using Cons.prems(1,4) by (auto simp: ret1_def)
    moreover have "has_code (x # xs) \<or> core_ok ret \<Longrightarrow> has_code xs \<or> core_ok ret1"
      using Cons.prems(1,4) by (auto simp: has_code_def ret1_def core_ok_def)
    ultimately show ?thesis
      using Cons.IH [OF cell_core_ok _ \<open>\<forall>i. instr_ok (optab m1 i)\<close>, of ret1 base 1] Cons.prems(2) st by auto
  next
    case False
    then show ?thesis using Cons.prems(1) by (simp add: rcstore_def Let_def)
  qed
qed

lemma asm_instr_ok:
  assumes "line_ok x"
  shows "instr_ok (line_instr x)"
proof -
  obtain k am a bm b where x: "x = (k, am, a, bm, b)" by (metis prod_cases5)
  with assms have ok: "k < 11" "small a" "small b" by auto
  define r :: u8 where "r = (if am = Plain \<or> bm = Plain then CWRELBIT else 0)"
  have r: "r = 0 \<or> r = CWRELBIT" by (simp add: r_def)
  have "\<not> hasflg (amode_bit am OR r OR sgnbit a) CWPREDECBIT" using flag_facts(3) [OF r] by simp
  moreover have "\<not> hasflg (amode_bit bm OR sgnbit b) CWPREDECBIT" using flag_facts0(3) by simp
  moreover have "\<not> hasflg CWRELBIT CWPREDECBIT" "\<not> hasflg 0 CWPREDECBIT" "core_ok 0"
    by (simp_all add: hasflg_def cwflags core_ok_def cwsizes)
  ultimately show ?thesis
    using ok field_small by (simp add: x asm_def instr_ok_def unat_opcode flip: r_def)
qed

section \<open>Properties\<close>

text \<open>
  C16: an instruction with plain, immediate or indirect operands (no predecrement) and numbers in the
  range of the core is disassembled as follows.  When its second number is negative, the whole line goes
  to the stream of the caller, and the assembler reads it back as the same instruction.  Otherwise the
  second number goes to the error stream: both streams together read back as the same instruction, and
  the stream of the caller alone is read past its end.
\<close>

theorem disassemble_assemble:
  assumes "tab_ok tab" "k < 11" "small a" "small b" "0 < heap" "cwdisasm (asm k am a bm b) = (out, err)"
  shows "if b < 0 then rcgetop tab out heap = RcOk (asm k am a bm b, heap - 1)
    else rcgetop tab (out @ err) heap = RcOk (asm k am a bm b, heap - 1) \<and> rcgetop tab out heap = RcUndef"
proof (cases "b < 0")
  case True
  then show ?thesis using cwdisasm_asm [OF assms(2-4), of am bm] rcgetop_asmtext [OF assms(1-5)] assms(6) by simp
next
  case False
  then have "out = asmhead k am a bm" "out @ err = asmtext k am a bm b"
    using cwdisasm_asm [OF assms(2-4), of am bm] assms(6) by (simp_all add: asmhead_def asmtext_def optext_def)
  then show ?thesis using False rcgetop_asmtext [OF assms(1-5)] rcgetop_asmhead [OF assms(1-3,5)] by simp
qed

theorem disassemble_assemble_witness:
  "\<exists>tab out err. cwdisasm (asm 1 Immediate (- 5) Indirect 12) = (out, err) \<and>
     rcgetop tab (out @ err) 1 = RcOk (asm 1 Immediate (- 5) Indirect 12, 0) \<and> rcgetop tab out 1 = RcUndef"
proof -
  obtain tab heap where tab: "rcinitop ((\<lambda>_. None), 33) = RcOk (tab, heap)" "tab_ok tab"
    using rcinitop_ok [of 33 "\<lambda>_. None"] by auto
  obtain out err where d: "cwdisasm (asm 1 Immediate (- 5) Indirect 12) = (out, err)" by fastforce
  show ?thesis using disassemble_assemble [OF tab(2) _ _ _ _ d, of 1] d by (auto simp: small_def)
qed

text \<open>
  Translating a source of such lines into empty cells, with enough memory, stores the
  instructions in consecutive cells modulo the core size, marked with the program's number,
  changes no other cell, and returns the cell of the first instruction that is not DAT (or -1)
  and the cell after the last one.
\<close>

theorem rcxlate_loads:
  assumes "tab_ok tab" "\<forall>x \<in> set prog. line_ok x" "2 * length prog \<le> heap" "core_ok base"
    "length prog \<le> 8000" "\<forall>j<length prog. optab m (cell base j) = cwnull"
  shows "\<exists>m'. rcxlate tab (source prog) pid base m heap =
       RcOk (if has_code (map line_instr prog) then entry base (map line_instr prog) else - 1,
             cell base (length prog), m', heap - 2 * length prog)
     \<and> (\<forall>j<length prog. optab m' (cell base j) = (line_instr (prog ! j))\<lparr>ipid := word_of_int pid\<rparr>)
     \<and> (\<forall>i. (\<forall>j<length prog. i \<noteq> cell base j) \<longrightarrow> optab m' i = optab m i)"
  using storeall_empty [OF assms(4), of "map line_instr prog" m pid "- 1"] assms(5,6)
    rcxloop_source [OF assms(1-3), of pid base "- 1" m]
  by (auto simp: rcxlate_def)

text \<open>The source of the self-copying warrior and of one that jumps to itself.\<close>

definition imp_source :: "asmline list" where
  "imp_source = [(1, Plain, 0, Plain, 1)]"

definition jmp_source :: "asmline list" where
  "jmp_source = [(0, Plain, 0, Immediate, 3), (4, Plain, 0, Plain, 0)]"

lemma demo_sources:
  "\<forall>x \<in> set imp_source. line_ok x" "\<forall>x \<in> set jmp_source. line_ok x"
  "has_code (map line_instr imp_source)" "has_code (map line_instr jmp_source)"
  by (simp_all add: imp_source_def jmp_source_def small_def has_code_def asm_def cwops)

theorem rcxlate_loads_witness:
  "\<exists>tab m'. rcxlate tab (source imp_source) 0 7999 (imp_duel\<lparr>optab := (\<lambda>_. cwnull)\<rparr>) 2 = RcOk (7999, 0, m', 0)
     \<and> optab m' 7999 = asm 1 Plain 0 Plain 1"
proof -
  obtain tab heap where tab: "tab_ok tab" using rcinitop_ok [of 33 "\<lambda>_. None"] by auto
  have "entry 7999 (map line_instr imp_source) = 7999" "length imp_source = 1" "cell 7999 1 = 0" "cell 7999 0 = 7999"
    by (simp_all add: entry_def imp_source_def asm_def rcnargtab_def cwops cell_def)
  then show ?thesis
    using rcxlate_loads [OF tab demo_sources(1), of 2 7999 "imp_duel\<lparr>optab := (\<lambda>_. cwnull)\<rparr>" 0] demo_sources(3)
    by (auto simp: core_ok_def cwsizes imp_source_def asm_def rcnargtab_def intro!: exI [of _ tab])
qed

lemma rcxlate_source_safe:
  assumes "tab_ok tab" "\<forall>x \<in> set prog. line_ok x" "2 * length prog \<le> heap" "core_ok base"
    "\<forall>i. instr_ok (optab m i)" "has_code (map line_instr prog)"
  shows "rcxlate tab (source prog) pid base m heap = RcExit ''programs overlap''
    \<or> (\<exists>pc lim m'. rcxlate tab (source prog) pid base m heap = RcOk (pc, lim, m', heap - 2 * length prog)
        \<and> core_ok pc \<and> (\<forall>i. instr_ok (optab m' i)))"
proof -
  have "\<forall>x \<in> set (map line_instr prog). instr_ok x" using assms(2) asm_instr_ok by auto
  from storeall_safe [OF assms(4) this assms(5), of "- 1" pid]
  show ?thesis
    using rcxloop_source [OF assms(1-3), of pid base "- 1" m] assms(6) by (auto simp: rcxlate_def)
qed

lemma cwinit_ok:
  assumes "68 \<le> heap"
  shows "\<exists>rnd tab heap'. cwinit seed heap = RcOk (rnd, tab, (\<lambda>_. cwnull), heap') \<and> heap \<le> heap' + 68 \<and> tab_ok tab"
proof -
  obtain t1 h1 where 1: "cwinitop ((\<lambda>_. None), heap) = RcOk (t1, h1)" "heap \<le> h1 + 33"
    using cwinitop_ok [of heap "\<lambda>_. None"] assms by auto
  obtain t2 h2 where 2: "rcinitop (t1, h1) = RcOk (t2, h2)" "h1 \<le> h2 + 33" "tab_ok t2"
    using rcinitop_ok [of h1 t1] assms 1(2) by auto
  show ?thesis using 1 2 assms by (auto simp: cwinit_def Let_def)
qed

lemma cwbase_core: "core_ok (cwbase x)"
proof -
  have "x mod 8000 < 8000" by (rule word_mod_less_divisor) simp
  then have "uint (x mod 8000) < 8000" by (simp add: word_less_def)
  then show ?thesis by (simp add: cwbase_def core_ok_def cwsizes)
qed

lemma cwnull_ok: "instr_ok cwnull"
  by (simp add: instr_ok_def cwnull_def hasflg_def core_ok_def cwsizes)

text \<open>
  C5: started on two sources whose lines have the form that the disassembler prints, with plain, immediate
  or indirect operands (no predecrement) and numbers in the range of the core, and which both contain an
  instruction other than DAT, with memory for every allocation and whatever the random seed, the game
  either reports that the programs overlap or is played to its end: a tie or a win.
\<close>

theorem corewar_game_ends:
  assumes "\<forall>x \<in> set p1. line_ok x" "\<forall>x \<in> set p2. line_ok x"
    "has_code (map line_instr p1)" "has_code (map line_instr p2)"
    "68 + 2 * length p1 + 2 * length p2 \<le> heap"
  shows "cwmain seed heap (n1, source p1) (n2, source p2) = RcExit ''programs overlap''
    \<or> (\<exists>r. cwmain seed heap (n1, source p1) (n2, source p2) = RcOk (Some r)
        \<and> (r = Tie \<or> (\<exists>n s pc. r = Won n s pc)))"
proof -
  obtain rnd tab h where init: "cwinit seed heap = RcOk (rnd, tab, (\<lambda>_. cwnull), h)" "heap \<le> h + 68" "tab_ok tab"
    using cwinit_ok [of heap seed] assms(5) by auto
  obtain x1 rnd1 where x1: "randmt32 rnd = (x1, rnd1)" by fastforce
  obtain x2 rnd2 where x2: "randmt32 rnd1 = (x2, rnd2)" by fastforce
  obtain x3 rnd3 where x3: "randmt32 rnd2 = (x3, rnd3)" by fastforce
  define m0 where "m0 = \<lparr>runqtab = (\<lambda>_ _. 0), proccnt = (\<lambda>_. 0), curproc = (\<lambda>_. 0), nturn = (\<lambda>_. 0),
     curpid = 0, prog1name = [], prog2name = [], pidmap = (\<lambda>_. 0), optab = (\<lambda>_. cwnull)\<rparr>"
  have m0: "\<forall>i. instr_ok (optab m0 i)" by (simp add: m0_def cwnull_ok)
  have h: "2 * length p1 \<le> h" using assms(5) init(2) by simp
  from rcxlate_source_safe [OF init(3) assms(1) h cwbase_core m0 assms(3), of 0 x1]
  consider (overlap) "rcxlate tab (source p1) 0 (cwbase x1) m0 h = RcExit ''programs overlap''"
    | (ok) pc1 lim m1 where "rcxlate tab (source p1) 0 (cwbase x1) m0 h = RcOk (pc1, lim, m1, h - 2 * length p1)"
      "core_ok pc1" "\<forall>i. instr_ok (optab m1 i)" by blast
  then show ?thesis
  proof cases
    case overlap
    then show ?thesis using init(1) x1 by (simp add: cwmain_def m0_def [symmetric])
  next
    case ok1: ok
    have h2: "2 * length p2 \<le> h - 2 * length p1" using assms(5) init(2) by simp
    from rcxlate_source_safe [OF init(3) assms(2) h2 cwbase_core ok1(3) assms(4), of 1 x2]
    consider (overlap) "rcxlate tab (source p2) 1 (cwbase x2) m1 (h - 2 * length p1) = RcExit ''programs overlap''"
      | (ok) pc2 lim2 m2 h3 where "rcxlate tab (source p2) 1 (cwbase x2) m1 (h - 2 * length p1) = RcOk (pc2, lim2, m2, h3)"
        "core_ok pc2" "\<forall>i. instr_ok (optab m2 i)" by blast
    then show ?thesis
    proof cases
      case overlap
      then show ?thesis
        using init(1) x1 x2 ok1 core_ok_nonneg [OF ok1(2)] by (simp add: cwmain_def m0_def [symmetric])
    next
      case ok2: ok
      define pid where "pid = uint (x3 AND 1)"
      define m where "m = m2\<lparr>proccnt := (proccnt m2)(0 := 1, 1 := 1),
                          curproc := (curproc m2)(0 := 0, 1 := 0),
                          nturn := (nturn m2)(0 := CWNTURN, 1 := CWNTURN),
                          runqtab := (runqtab m2)(0 := (runqtab m2 0)(0 := pc1),
                                                 1 := (runqtab m2 1)(0 := pc2)),
                          curpid := pid, prog1name := n1, prog2name := n2\<rparr>"
      have main: "cwmain seed heap (n1, source p1) (n2, source p2) = RcOk (cwloop pid m)"
        using init(1) x1 x2 x3 ok1 ok2 core_ok_nonneg [OF ok1(2)] core_ok_nonneg [OF ok2(2)]
        by (simp add: cwmain_def m0_def [symmetric] m_def pid_def Let_def)
      have "mars_inv m"
        using ok2(3) ok1(2) ok2(2) by (auto simp: m_def mars_inv_def queue_ok_def cwsizes)
      moreover have "pid = 0 \<or> pid = 1" by (simp add: pid_def and_one_eq mod2_eq_if)
      ultimately show ?thesis
        using cwloop_returns [of m pid] by (auto simp: main m_def CWNTURN_def)
    qed
  qed
qed

theorem corewar_game_ends_witness:
  "cwmain 42 1000 (''imp.rc'', source imp_source) (''jmp.rc'', source jmp_source) = RcExit ''programs overlap''
    \<or> (\<exists>r. cwmain 42 1000 (''imp.rc'', source imp_source) (''jmp.rc'', source jmp_source) = RcOk (Some r)
        \<and> (r = Tie \<or> (\<exists>n s pc. r = Won n s pc)))"
  by (rule corewar_game_ends [OF demo_sources]) (simp add: imp_source_def jmp_source_def)

lemma rcinitop_exact:
  assumes "33 \<le> heap" "rcinitop ((\<lambda>_. None), heap) = RcOk (tab, heap')"
  shows "rclookup tab = map_of (rev mnemonic_list)"
proof -
  have "rclookup (\<lambda>_. None) = Map.empty" by (auto simp: rclookup_def fun_eq_iff split: list.splits)
  then show ?thesis
    using ops.addall_ok [OF mnemonic_list_upper(1), of heap "\<lambda>_. None"] assms
    by (auto simp: rcinitop_addall mnemonic_list_upper(2))
qed

text \<open>The first two letters of the mnemonics in the table.\<close>

definition known2 :: "rctab \<Rightarrow> string set" where
  "known2 tab = {[a, b] | a b. \<exists>t1. tab a = Some t1 \<and> t1 b \<noteq> None}"

lemma rcentry_value: "rcentry p fresh heap = RcOk (x, heap') \<Longrightarrow> x = (case p of Some x \<Rightarrow> x | None \<Rightarrow> fresh)"
  by (auto simp: rcentry_def split: option.splits if_splits)

lemma rcbind_RcOk_conv: "rcbind r f = RcOk y \<longleftrightarrow> (\<exists>x. r = RcOk x \<and> f x = RcOk y)"
  by (cases r) auto

lemma rcaddop_known2:
  assumes "upper3 s" "rcaddop s op (t, heap) = RcOk (t', heap')"
  shows "known2 t' = insert (take 2 s) (known2 t)"
proof -
  obtain a b c where s: "s = [a, b, c]"
    using assms(1) by (auto simp: upper3_def length_Suc_conv numeral_3_eq_3)
  have up: "toupper a = a" "toupper b = b" "toupper c = c" "a \<noteq> CHR 0x00" "b \<noteq> CHR 0x00" "c \<noteq> CHR 0x00"
    using assms(1) by (auto simp: upper3_def s toupper_upper ord_def)
  have nth: "nth_nul s 0 = a" "nth_nul s 1 = b" "nth_nul s 2 = c" by (simp_all add: nth_nul_def s)
  obtain t1 t2 where "t1 = (case t a of Some x \<Rightarrow> x | None \<Rightarrow> (\<lambda>_. None))" "t' = t(a \<mapsto> t1(b \<mapsto> t2))"
    using assms(2) unfolding rcaddop_def nth
    by (auto simp: up Let_def rcbind_RcOk_conv split: if_splits dest!: rcentry_value)
  then have "[x, y] \<in> known2 t' \<longleftrightarrow> [x, y] = [a, b] \<or> [x, y] \<in> known2 t" for x y
    by (cases "t a"; cases "x = a"; cases "y = b") (auto simp: known2_def)
  moreover have "\<exists>x y. z = [x, y]" if "z \<in> known2 u" for z u using that by (auto simp: known2_def)
  ultimately show ?thesis unfolding s by (simp add: set_eq_iff) metis
qed

lemma addall_known2:
  "\<forall>(s, op) \<in> set xs. upper3 s \<Longrightarrow> ops.addall xs (t, heap) = RcOk (t', heap') \<Longrightarrow>
   known2 t' = known2 t \<union> (\<lambda>(s, op). take 2 s) ` set xs"
proof (induction xs arbitrary: t heap)
  case (Cons x xs)
  obtain s op where x: "x = (s, op)" by fastforce
  then obtain t1 heap1 where "rcaddop s op (t, heap) = RcOk (t1, heap1)" "ops.addall xs (t1, heap1) = RcOk (t', heap')"
    using Cons.prems(2) by (auto simp: rcbind_RcOk_conv)
  then show ?case using Cons.IH Cons.prems(1) rcaddop_known2 [of s op t heap t1 heap1] x by auto
qed simp

lemma rcinitop_known2:
  assumes "rcinitop ((\<lambda>_. None), heap) = RcOk (tab, heap')"
  shows "known2 tab = take 2 ` set cwopnametab"
proof -
  have "known2 (\<lambda>_. None) = {}" by (simp add: known2_def)
  then show ?thesis
    using addall_known2 [OF mnemonic_list_upper(1), of "\<lambda>_. None" heap tab heap'] assms
    by (simp add: rcinitop_addall mnemonic_list_def cwopnametab_def)
qed

text \<open>The search for a word of letters that ends with the character \<open>c\<close>.\<close>

lemma isalpha_ascii: "isalpha c \<Longrightarrow> \<not> 128 \<le> ord (toupper c) \<and> \<not> isspace c"
  by (auto simp: isalpha_def toupper_def ord_def isspace_def)

lemma rcfindop_word:
  assumes "list_all isalpha w" "w \<noteq> []" "\<not> isalpha c"
  shows "rcfindop tab (w @ c # s) =
    (if length w = 3 \<and> isspace c \<and> take 2 (map toupper w) \<in> known2 tab
     then (case rclookup tab (map toupper w) of Some op \<Rightarrow> RcOk op | None \<Rightarrow> RcUndef) else RcOk CWNONE)"
proof -
  consider x where "w = [x]" | x y where "w = [x, y]" | x y z where "w = [x, y, z]"
    | x y z u us where "w = x # y # z # u # us" using assms(2) by (metis list.exhaust)
  then show ?thesis
    using assms(1,3)
    by cases (auto simp: rcfindop_def rcread_def known2_def rclookup_def isalpha_ascii split: option.splits)
qed

lemma rcfindop_mnemonic:
  assumes "tab_ok tab" "k < 11" "list_all isalpha w" "\<not> isalpha c" "map toupper w = cwopnametab ! k" "isspace c"
  shows "rcfindop tab (w @ c # s) = RcOk (int k)"
proof -
  obtain x y z where n: "cwopnametab ! k = [x, y, z]" using assms(2) by (rule opname_letters)
  then have w: "length w = 3" "w \<noteq> []" using arg_cong [OF assms(5), of length] by auto
  have lk: "rclookup tab [x, y, z] = Some (int k)" using assms(1,2) n unfolding tab_ok_def by metis
  then have "[x, y] \<in> known2 tab" by (auto simp: rclookup_def known2_def bind_eq_Some_conv)
  then show ?thesis using rcfindop_word [OF assms(3) w(2) assms(4), of tab s] w(1) assms(5,6) n lk by simp
qed

text \<open>
  An operand that does not have a number where one has to be: a mark of an addressing mode, a sign, both or
  none of them, and then the character \<open>d\<close>.
\<close>

definition badfield :: "string \<Rightarrow> string \<Rightarrow> char \<Rightarrow> bool" where
  "badfield mk sg d \<longleftrightarrow> mk \<in> {'''', ''#'', ''@'', ''<'', ''$''} \<and> sg \<in> {'''', ''-''} \<and> \<not> isdigit d \<and>
     (sg = '''' \<longrightarrow> d \<noteq> CHR ''-'') \<and>
     (mk = '''' \<and> sg = '''' \<longrightarrow> \<not> isspace d \<and> d \<notin> {CHR 0x00, CHR '','', CHR ''#'', CHR ''@'', CHR ''<'', CHR ''$''})"

lemma badfield_number: "badfield mk sg d \<Longrightarrow> rcnumber err (sg @ d # s) = RcExit err"
  by (auto simp: badfield_def rcnumber_def rcread_def)

lemma badfield_mode: "badfield mk sg d \<Longrightarrow> \<exists>mode. rcmode (mk @ sg @ d # s) = RcOk (mode, sg @ d # s)"
  by (auto simp: badfield_def)

lemma badfield_head:
  assumes "badfield mk sg d"
  shows "rcskipspace (mk @ sg @ d # s) = RcOk (mk @ sg @ d # s)" "hd (mk @ sg @ d # s) \<noteq> CHR 0x00" "hd (mk @ sg @ d # s) \<noteq> CHR '',''"
  using assms by (auto simp: badfield_def isspace_def ord_def)

lemma badfield_operands:
  assumes "badfield mk sg d"
  shows "rcoperands narg instr (mk @ sg @ d # s) = RcExit (if narg = 2 then ''invalid A-field'' else ''invalid B-field'')"
  using badfield_mode [OF assms, of s] badfield_number [OF assms] badfield_head [OF assms, of s]
  by (auto simp: rcoperands_def rcafield_def rcbfield_def)

lemma rcskipspace_end: "list_all isspace sp \<Longrightarrow> rcskipspace sp = RcUndef"
  by (induction sp) simp_all

lemma rcblank_spaces: "list_all isspace sp \<Longrightarrow> rcblank wrap sp = RcUndef"
  by (induction sp arbitrary: wrap) simp_all

lemma blank_line:
  assumes "list_all isspace sp" "CHR 0x0A \<notin> set sp" "length sp < 32" "0 < heap"
  shows "rcxlate tab (sp @ CHR 0x0A # rest) pid base m heap = RcUndef"
proof -
  obtain ch cs where "sp @ CHR 0x0A # rest = ch # cs" by (cases sp) auto
  then have "rcgetline (sp @ CHR 0x0A # rest) heap = RcOk (Some (sp @ [CHR 0x0A]), rest, heap - 1)"
    using rclineloop_line [OF assms(2), of "[]" 32 "heap - 1" rest] assms(3,4) by (simp add: rcgetline_def del: rclineloop.simps)
  moreover have "rcblank False (sp @ [CHR 0x0A]) = RcUndef" using assms(1) char_facts by (intro rcblank_spaces) simp
  ultimately show ?thesis by (simp add: rcxlate_def rcxloop.simps [of tab pid "sp @ CHR 0x0A # rest"])
qed



end
