(* ===== verification/Fastidiv.thy ===== *)
theory Fastidiv
  imports Trixbits
begin

text \<open>
  Division of 16-bit numbers by multiplication with precomputed reciprocals
  (usr/lib/zero/fastidiv.h and usr/lib/zero/fastidiv.c), which the scheduler uses instead of the
  division instruction: the generation of the table and the division routine, and the theorem
  that it computes the quotient for every dividend and every divisor from 1.

  The table is a list of entries; entry 0 holds the number of entries used, entry 1 is never
  written.  \<open>uint16_t\<close> operands are promoted as in C; the conversions back to 16 bits are
  written out.
\<close>

definition FASTU32DIVSHIFTMASK :: u32 where "FASTU32DIVSHIFTMASK = 0x1f"
definition FASTU32DIVADDBIT :: u32 where "FASTU32DIVADDBIT = 0x20"
definition FASTU32DIVSHIFTBIT :: u32 where "FASTU32DIVSHIFTBIT = 0x40"

record divu16 =
  magic :: u16
  info :: u16

definition mulhiu32 :: "u32 \<Rightarrow> u32 \<Rightarrow> u32" where
  "mulhiu32 val1 val2 =
     (let v1 = ucast val1 :: u64;
          v2 = ucast val2 :: u64;
          res = v1 * 2
      in ucast (drop_bit 32 res))"

definition mulhiu16 :: "u16 \<Rightarrow> u16 \<Rightarrow> u16" where
  "mulhiu16 val1 val2 =
     (let v1 = ucast val1 :: u32;
          v2 = ucast val2 :: u32;
          res = v1 * v2
      in ucast (drop_bit 16 res))"

definition fastu16div16 :: "u16 \<Rightarrow> u16 \<Rightarrow> divu16 list \<Rightarrow> u16" where
  "fastu16div16 num div16 tab =
     (let entry = tab ! unat div16;
          lim = (ucast (magic (tab ! 0)) :: u32)
      in if div16 = 1 then num
         else if (ucast div16 :: u32) \<ge> lim then num div div16
         else let inf = (ucast (info entry) :: u32);
                  mag = magic entry
              in if inf AND FASTU32DIVSHIFTBIT = 0
                 then let quot = (ucast (mulhiu16 mag num) :: u32)
                      in if inf AND FASTU32DIVADDBIT \<noteq> 0
                         then let num = (ucast ((ucast num :: u32) - quot) :: u16);
                                  inf = inf AND FASTU32DIVSHIFTMASK;
                                  num = drop_bit 1 num;
                                  quot = quot + ucast num
                              in ucast (drop_bit (unat inf) quot)
                         else ucast (drop_bit (unat inf) quot)
                 else let inf = inf AND FASTU32DIVSHIFTMASK
                      in ucast (drop_bit (unat inf) (ucast num :: u32)))"

text \<open>The entry computed for one divisor.\<close>

definition fastu16div16entry :: "u32 \<Rightarrow> divu16" where
  "fastu16div16entry dv =
     (let val = (of_nat (lzero32 dv) :: u32) - 16;
          shift = unat (15 - val)
      in if \<not> powerof2 dv
         then let lim = push_bit shift 1 :: u32;
                  val32 = push_bit 16 lim;
                  mag = val32 div dv;
                  val32 = val32 - mag * dv;
                  e = dv - val32
              in if e < lim
                 then \<lparr>magic = ucast (mag + 1), info = of_nat shift\<rparr>
                 else let rem = push_bit 1 val32;
                          mag = push_bit 1 mag;
                          mag = (if rem \<ge> dv \<or> rem < val32 then mag + 1 else mag)
                      in \<lparr>magic = ucast (mag + 1), info = ucast ((of_nat shift :: u32) OR FASTU32DIVADDBIT)\<rparr>
         else \<lparr>magic = 0, info = ucast ((of_nat shift :: u32) OR FASTU32DIVSHIFTBIT)\<rparr>)"

text \<open>The loop over the divisors; the caller provides a table of more than \<open>lim16\<close> entries.\<close>

function fastu16div16loop :: "nat \<Rightarrow> nat \<Rightarrow> divu16 list \<Rightarrow> divu16 list" where
  "fastu16div16loop dv lim16 tab =
     (if dv \<le> lim16 then fastu16div16loop (dv + 1) lim16 (tab[dv := fastu16div16entry (of_nat dv)])
      else tab)"
  by pat_completeness auto
termination by (relation "measure (\<lambda>(dv, lim16, _). Suc lim16 - dv)") auto

declare fastu16div16loop.simps [simp del]

definition fastu16div16gentab :: "divu16 list \<Rightarrow> u32 \<Rightarrow> divu16 list" where
  "fastu16div16gentab tab lim16 =
     fastu16div16loop 2 (unat lim16) (tab[0 := \<lparr>magic = ucast lim16, info = 0\<rparr>])"

section \<open>The arithmetic of reciprocals\<close>

text \<open>
  A multiplier that exceeds \<open>2 ^ k / d\<close> by at most \<open>2 ^ (k - 16) / d\<close> gives the exact
  quotient of every 16-bit number.
\<close>

lemma reciprocal_exact:
  fixes n d m e N :: nat
  assumes "m * d = N * 65536 + e" "e \<le> N" "n < 65536" "0 < d" "0 < N"
  shows "n * m div (N * 65536) = n div d"
proof (rule div_nat_eqI)
  define q where "q = n div d"
  define r where "r = n mod d"
  have n: "n = q * d + r" "r < d" using assms(4) by (simp_all add: q_def r_def)
  have "N * 65536 * q * d \<le> n * m * d"
  proof -
    have "n * m * d = n * (N * 65536 + e)" by (simp only: mult.assoc assms(1))
    also have "\<dots> = N * 65536 * n + n * e" by (simp add: algebra_simps)
    finally have nmd: "n * m * d = N * 65536 * n + n * e" .
    have "q * d \<le> n" using n(1) by simp
    then have "N * 65536 * (q * d) \<le> N * 65536 * n" by (rule mult_left_mono) simp
    then have "N * 65536 * (q * d) \<le> n * m * d" unfolding nmd by (rule trans_le_add1)
    then show ?thesis by (simp only: mult.assoc)
  qed
  then show "N * 65536 * (n div d) \<le> n * m" using assms(4) by (simp add: q_def)
  have "n * m * d < N * 65536 * Suc q * d"
  proof -
    have "n * m * d = n * (N * 65536 + e)" by (simp only: mult.assoc assms(1))
    then have "n * m * d = N * 65536 * n + n * e" by (simp add: algebra_simps)
    moreover have "n * e < N * 65536"
    proof (cases "e = 0")
      case True
      then show ?thesis using assms(5) by simp
    next
      case False
      have "n * e < 65536 * e" using assms(3) False by simp
      also have "\<dots> \<le> N * 65536" using assms(2) by simp
      finally show ?thesis .
    qed
    moreover have "n + 1 \<le> Suc q * d" using n by simp
    then have "N * 65536 * (n + 1) \<le> N * 65536 * (Suc q * d)" by (rule mult_left_mono) simp
    ultimately show ?thesis by (simp add: algebra_simps)
  qed
  then show "n * m < N * 65536 * Suc (n div d)" by (simp add: q_def)
qed

section \<open>The table entries\<close>

lemma lzero32_bounds:
  assumes "x \<noteq> 0"
  shows "lzero32 x < 32" "2 ^ (31 - lzero32 x) \<le> unat x" "unat x < 2 ^ (32 - lzero32 x)"
proof -
  have clz: "is_clz x (lzero32 x)" using lzero32_clz [of x] assms by simp
  then show lt: "lzero32 x < 32" by (simp add: is_clz_def)
  obtain t where t: "t < 32" "2 ^ t \<le> unat x" "unat x < 2 ^ Suc t" "bit x t"
    using top_bit [OF assms] by auto
  have "t = 31 - lzero32 x"
  proof (rule antisym)
    have "\<not> 32 \<le> t + lzero32 x" using clz t(4) by (auto simp: is_clz_def)
    then show "t \<le> 31 - lzero32 x" by simp
    have "bit x (31 - lzero32 x)" using clz by (simp add: is_clz_def)
    then have "odd (unat x div 2 ^ (31 - lzero32 x))" by (simp add: bit_unat_div)
    then have "2 ^ (31 - lzero32 x) \<le> unat x" by (metis div_less even_zero not_le)
    with t(3) have "(2::nat) ^ (31 - lzero32 x) < 2 ^ Suc t" by linarith
    then have "31 - lzero32 x < Suc t" by (rule power_less_imp_less_exp [rotated]) simp
    then show "31 - lzero32 x \<le> t" by simp
  qed
  with t lt show "2 ^ (31 - lzero32 x) \<le> unat x" "unat x < 2 ^ (32 - lzero32 x)"
    by (simp_all add: Suc_diff_le [symmetric])
qed

text \<open>The position of the highest bit of a divisor, as the code computes it.\<close>

lemma entry_shift:
  assumes "2 \<le> d" "d < 65536"
  defines "s \<equiv> unat (15 - ((of_nat (lzero32 (of_nat d)) :: u32) - 16))"
  shows "s < 16" "2 ^ s \<le> d" "d < 2 ^ Suc s"
proof -
  have "unat (of_nat d :: u32) = d" using assms(2) by (simp add: unat_of_nat)
  moreover from this have "(of_nat d :: u32) \<noteq> 0" using assms(1) by force
  ultimately have d: "unat (of_nat d :: u32) = d" "(of_nat d :: u32) \<noteq> 0" by auto
  note b = lzero32_bounds [OF d(2), unfolded d(1)]
  have "(15 :: u32) - (of_nat (lzero32 (of_nat d)) - 16) = of_nat (31 - lzero32 (of_nat d))"
    using b(1) by (simp add: of_nat_diff)
  then have "s = unat (of_nat (31 - lzero32 (of_nat d)) :: u32)" by (simp only: s_def)
  then have s: "s = 31 - lzero32 (of_nat d)" by (simp only: unat_of_nat) simp
  then show "2 ^ s \<le> d" "d < 2 ^ Suc s" using b by (simp_all add: Suc_diff_le [symmetric])
  then have "(2::nat) ^ s < 2 ^ 16" using assms(2) by simp
  then show "s < 16" by (rule power_less_imp_less_exp [rotated]) simp
qed

definition entry_exact :: "nat \<Rightarrow> divu16 \<Rightarrow> bool" where
  "entry_exact d x \<longleftrightarrow>
     (\<exists>s<16. (info x = ucast ((of_nat s :: u32) OR FASTU32DIVSHIFTBIT) \<and> d = 2 ^ s)
       \<or> (\<exists>e. info x = of_nat s \<and> unat (magic x) * d = 2 ^ s * 65536 + e \<and> e \<le> 2 ^ s)
       \<or> (\<exists>e. info x = ucast ((of_nat s :: u32) OR FASTU32DIVADDBIT)
            \<and> (65536 + unat (magic x)) * d = 2 ^ Suc s * 65536 + e \<and> e \<le> 2 ^ Suc s))"

lemma entry_exact_mulI:
  "s < 16 \<Longrightarrow> info x = of_nat s \<Longrightarrow> unat (magic x) * d = 2 ^ s * 65536 + e \<Longrightarrow> e \<le> 2 ^ s \<Longrightarrow> entry_exact d x"
  unfolding entry_exact_def by blast

lemma entry_exact_addI:
  "s < 16 \<Longrightarrow> info x = ucast ((of_nat s :: u32) OR FASTU32DIVADDBIT) \<Longrightarrow>
   (65536 + unat (magic x)) * d = 2 ^ Suc s * 65536 + e \<Longrightarrow> e \<le> 2 ^ Suc s \<Longrightarrow> entry_exact d x"
  unfolding entry_exact_def by blast

lemma magic_fits:
  fixes d s :: nat
  assumes "2 ^ s < d" "s < 16"
  shows "2 ^ s * 65536 div d + 1 < 65536"
proof -
  have "2 ^ s * 65536 < 65535 * d"
  proof -
    have "(2::nat) ^ s \<le> 2 ^ 15" using assms(2) by (intro power_increasing) auto
    moreover have "65535 * (2 ^ s + 1) \<le> 65535 * d" using assms(1) by simp
    ultimately show ?thesis by simp
  qed
  then have "2 ^ s * 65536 div d < 65535" by (simp add: div_less_iff_less_mult)
  then show ?thesis by simp
qed

lemma double_div:
  fixes a d :: nat
  assumes "0 < d"
  shows "2 * a div d = 2 * (a div d) + (if d \<le> 2 * (a mod d) then 1 else 0)"
proof -
  define q where "q = a div d"
  define r where "r = a mod d"
  have a: "a = d * q + r" "r < d" using assms by (simp_all add: q_def r_def)
  have "2 * (d * q + r) div d = 2 * q + (if d \<le> 2 * r then 1 else 0)"
    using a(2) by (intro div_nat_eqI) (auto simp: algebra_simps)
  then show ?thesis unfolding q_def r_def by simp
qed

lemma Suc_div_mult:
  fixes a d :: nat
  assumes "0 < d"
  shows "(a div d + 1) * d = a + (d - a mod d)"
proof -
  have "a mod d \<le> d" using assms by (simp add: less_imp_le)
  moreover have "(a div d + 1) * d = d * (a div d) + d" by simp
  moreover have "d * (a div d) + a mod d = a" by simp
  ultimately show ?thesis by linarith
qed

lemma entry_exact_gen:
  assumes "2 \<le> d" "d < 65536"
  shows "entry_exact d (fastu16div16entry (of_nat d))"
proof -
  define dv where "dv = (of_nat d :: u32)"
  define s where "s = unat (15 - ((of_nat (lzero32 dv) :: u32) - 16))"
  have s: "s < 16" "2 ^ s \<le> d" "d < 2 ^ Suc s"
    using entry_shift [OF assms] unfolding s_def dv_def by auto
  have "unat dv = d" using assms(2) by (simp add: dv_def unat_of_nat)
  moreover from this have "dv \<noteq> 0" using assms(1) by force
  ultimately have d: "unat dv = d" "dv \<noteq> 0" by auto
  show ?thesis
  proof (cases "powerof2 dv")
    case True
    then obtain t where t: "d = 2 ^ t" using powerof2_exp [of dv] d by auto
    have "t = s"
      using s(2,3) unfolding t by (metis le_less_Suc_eq linorder_not_less not_less_eq one_less_numeral_iff power_strict_increasing_iff semiring_norm(76))
    moreover have "fastu16div16entry dv = \<lparr>magic = 0, info = ucast ((of_nat s :: u32) OR FASTU32DIVSHIFTBIT)\<rparr>"
      using True by (simp only: fastu16div16entry_def Let_def s_def simp_thms if_False)
    ultimately show ?thesis
      using t s(1) unfolding entry_exact_def dv_def [symmetric] by (intro exI [of _ s] conjI disjI1) simp_all
  next
    case False
    have "d \<noteq> 2 ^ s"
    proof
      assume "d = 2 ^ s"
      then have "dv = 2 ^ s" by (simp add: dv_def)
      moreover have "powerof2 (2 ^ s :: u32)"
        unfolding powerof2_def mask_eq_exp_minus_1 [symmetric]
        by (rule bit_word_eqI) (auto simp: bit_simps)
      ultimately show False using False by simp
    qed
    then have lt: "2 ^ s < d" using s(2) by simp
    define lim where "lim = (push_bit s 1 :: u32)"
    define v where "v = push_bit 16 lim"
    define mag where "mag = v div dv"
    define r where "r = v - mag * dv"
    have p15: "(2::nat) ^ s \<le> 32768" using power_increasing [of s 15 "2::nat"] s(1) by simp
    have lim: "unat lim = 2 ^ s" 
    proof -
      have "(2::nat) ^ s < 2 ^ 32" using s(1) by (intro power_strict_increasing) auto
      moreover have "lim = of_nat (2 ^ s)" by (simp add: lim_def push_bit_eq_mult)
      ultimately show ?thesis by (simp only: unat_of_nat) simp
    qed
    have v: "unat v = 2 ^ s * 65536"
      using p15 lim by (simp add: v_def push_bit_eq_mult unat_mult_small)
    have mag: "unat mag = 2 ^ s * 65536 div d" by (simp add: mag_def unat_div v d)
    have le: "unat mag * d \<le> 2 ^ s * 65536" unfolding mag by (metis div_times_less_eq_dividend)
    have md: "unat (mag * dv) = unat mag * d"
      using le p15 d by (intro trans [OF unat_mult_small]) auto
    have r: "unat r = 2 ^ s * 65536 mod d"
      using le by (simp add: r_def unat_sub_small md v mag minus_div_mult_eq_mod)
    have rd: "unat r < d" using r assms(1) by simp
    have e: "unat (dv - r) = d - unat r" using rd d by (simp add: unat_sub_small)
    show ?thesis
    proof (cases "dv - r < lim")
      case True
      then have el: "d - unat r < 2 ^ s" by (simp add: word_less_nat_alt e lim)
      have fit: "unat mag + 1 < 65536" using magic_fits [OF lt s(1)] by (simp add: mag)
      then have "unat (ucast (mag + 1) :: u16) = unat mag + 1"
        by (simp add: unat_ucast_mod unat_add_small)
      moreover have "(unat mag + 1) * d = 2 ^ s * 65536 + (d - unat r)"
        using Suc_div_mult [of d "2 ^ s * 65536"] assms(1) by (simp add: mag r)
      moreover have "fastu16div16entry dv = \<lparr>magic = ucast (mag + 1), info = of_nat s\<rparr>"
        using False True
        by (simp only: fastu16div16entry_def Let_def s_def lim_def v_def mag_def r_def simp_thms if_True)
      ultimately show ?thesis
        using el s(1) unfolding dv_def [symmetric] by (intro entry_exact_mulI [of s _ _ "d - unat r"]) simp_all
    next
      case b: False
      define M where "M = 2 * (2 ^ s * 65536) div d"
      have rem: "unat (push_bit 1 r) = 2 * unat r"
        using rd assms(2) by (simp add: push_bit_eq_mult unat_mult_small)
      have m2: "unat (push_bit 1 mag) = 2 * unat mag"
        using magic_fits [OF lt s(1)] by (simp add: push_bit_eq_mult unat_mult_small mag)
      define mag2 where "mag2 = (if push_bit 1 r \<ge> dv \<or> push_bit 1 r < r then push_bit 1 mag + 1 else push_bit 1 mag)"
      have "unat mag2 = 2 * unat mag + (if d \<le> 2 * unat r then 1 else 0)"
        using magic_fits [OF lt s(1)] m2 rem
        by (auto simp: mag2_def word_le_nat_alt word_less_nat_alt d mag unat_add_small)
      then have M: "unat mag2 = M" using double_div [of d "2 ^ s * 65536"] assms(1) by (simp add: M_def mag r)
      have "65536 * d \<le> 2 * (2 ^ s * 65536)" using s(3) by simp
      then have Mlo: "65536 \<le> M" unfolding M_def using assms(1) by (simp add: less_eq_div_iff_mult_less_eq)
      have "M \<le> 2 * unat mag + 1" using M \<open>unat mag2 = 2 * unat mag + _\<close> by (simp split: if_splits)
      then have Mhi: "M + 1 < 131072" using magic_fits [OF lt s(1)] by (simp add: mag)
      have "unat (mag2 + 1) = M + 1" using Mhi M by (simp add: unat_add_small)
      then have "unat (ucast (mag2 + 1) :: u16) = (M + 1) mod 65536" by (simp add: unat_ucast_mod)
      also have "\<dots> = M + 1 - 65536" using Mlo Mhi by (simp add: mod_if)
      finally have fit: "65536 + unat (ucast (mag2 + 1) :: u16) = M + 1" using Mlo by simp
      have "(M + 1) * d = 2 ^ Suc s * 65536 + (d - 2 * (2 ^ s * 65536) mod d)"
        using Suc_div_mult [of d "2 * (2 ^ s * 65536)"] assms(1) by (simp add: M_def)
      moreover have "d - 2 * (2 ^ s * 65536) mod d \<le> 2 ^ Suc s" using s(3) by simp
      moreover have "fastu16div16entry dv =
          \<lparr>magic = ucast (mag2 + 1), info = ucast ((of_nat s :: u32) OR FASTU32DIVADDBIT)\<rparr>"
        using False b
        by (simp only: fastu16div16entry_def Let_def s_def lim_def v_def mag_def r_def mag2_def simp_thms
            if_True if_False)
      ultimately show ?thesis
        using s(1) fit unfolding dv_def [symmetric]
        by (intro entry_exact_addI [of s _ _ "d - 2 * (2 ^ s * 65536) mod d"]) (simp_all only: divu16.simps)
    qed
  qed
qed

section \<open>The division routine\<close>

lemma info_bits_all:
  "\<forall>s \<in> set [0..<16]. (ucast (of_nat s :: u16) :: u32) AND FASTU32DIVSHIFTBIT = 0
    \<and> (ucast (of_nat s :: u16) :: u32) AND FASTU32DIVADDBIT = 0
    \<and> unat (ucast (of_nat s :: u16) :: u32) = s
    \<and> (ucast (ucast ((of_nat s :: u32) OR FASTU32DIVADDBIT) :: u16) :: u32) AND FASTU32DIVSHIFTBIT = 0
    \<and> (ucast (ucast ((of_nat s :: u32) OR FASTU32DIVADDBIT) :: u16) :: u32) AND FASTU32DIVADDBIT \<noteq> 0
    \<and> unat ((ucast (ucast ((of_nat s :: u32) OR FASTU32DIVADDBIT) :: u16) :: u32) AND FASTU32DIVSHIFTMASK) = s
    \<and> (ucast (ucast ((of_nat s :: u32) OR FASTU32DIVSHIFTBIT) :: u16) :: u32) AND FASTU32DIVSHIFTBIT \<noteq> 0
    \<and> unat ((ucast (ucast ((of_nat s :: u32) OR FASTU32DIVSHIFTBIT) :: u16) :: u32) AND FASTU32DIVSHIFTMASK) = s"
  by code_simp

lemma info_bits:
  assumes "s < 16"
  shows "(ucast (of_nat s :: u16) :: u32) AND FASTU32DIVSHIFTBIT = 0"
    "(ucast (of_nat s :: u16) :: u32) AND FASTU32DIVADDBIT = 0"
    "unat (ucast (of_nat s :: u16) :: u32) = s"
    "(ucast (ucast ((of_nat s :: u32) OR FASTU32DIVADDBIT) :: u16) :: u32) AND FASTU32DIVSHIFTBIT = 0"
    "(ucast (ucast ((of_nat s :: u32) OR FASTU32DIVADDBIT) :: u16) :: u32) AND FASTU32DIVADDBIT \<noteq> 0"
    "unat ((ucast (ucast ((of_nat s :: u32) OR FASTU32DIVADDBIT) :: u16) :: u32) AND FASTU32DIVSHIFTMASK) = s"
    "(ucast (ucast ((of_nat s :: u32) OR FASTU32DIVSHIFTBIT) :: u16) :: u32) AND FASTU32DIVSHIFTBIT \<noteq> 0"
    "unat ((ucast (ucast ((of_nat s :: u32) OR FASTU32DIVSHIFTBIT) :: u16) :: u32) AND FASTU32DIVSHIFTMASK) = s"
  using info_bits_all assms by auto

lemma mulhiu16_nat: "unat (mulhiu16 a b) = unat a * unat b div 65536"
proof -
  have "unat a * unat b \<le> 65535 * 65535"
    using unat_u16_bound [of a] unat_u16_bound [of b] by (intro mult_mono) auto
  moreover from this have "unat a * unat b div 65536 < 65536" by (simp add: div_less_iff_less_mult)
  moreover from calculation(1) have "unat ((ucast a :: u32) * ucast b) = unat a * unat b"
    by (subst unat_mult_small) (simp_all add: unat_u16_u32)
  ultimately show ?thesis
    by (simp add: mulhiu16_def Let_def unat_ucast_mod unat_drop_bit_div)
qed

lemma halve_sum: "q \<le> n \<Longrightarrow> (n - q) div 2 + q = (n + q) div 2" for n q :: nat
  by (induction q arbitrary: n) auto

lemma fastu16div16_entry:
  assumes "entry_exact d (tab ! d)" "d = unat dv" "2 \<le> d" "d < unat (magic (tab ! 0))"
  shows "unat (fastu16div16 num dv tab) = unat num div d"
proof -
  have n: "unat num < 65536" by (rule unat_u16_bound)
  have g: "dv \<noteq> 1" "\<not> (ucast dv :: u32) \<ge> ucast (magic (tab ! 0))"
    using assms(2-4) by (auto simp: word_le_nat_alt unat_u16_u32)
  have small: "unat (ucast (w :: u32) :: u16) = unat w" if "unat w \<le> unat num" for w
    using that n by (simp add: unat_ucast_mod)
  obtain s where s: "s < 16" and cs: "(info (tab ! d) = ucast ((of_nat s :: u32) OR FASTU32DIVSHIFTBIT) \<and> d = 2 ^ s)
       \<or> (\<exists>e. info (tab ! d) = of_nat s \<and> unat (magic (tab ! d)) * d = 2 ^ s * 65536 + e \<and> e \<le> 2 ^ s)
       \<or> (\<exists>e. info (tab ! d) = ucast ((of_nat s :: u32) OR FASTU32DIVADDBIT)
            \<and> (65536 + unat (magic (tab ! d))) * d = 2 ^ Suc s * 65536 + e \<and> e \<le> 2 ^ Suc s)"
    using assms(1) unfolding entry_exact_def by blast
  from cs show ?thesis
  proof (elim disjE exE conjE)
    assume i: "info (tab ! d) = ucast ((of_nat s :: u32) OR FASTU32DIVSHIFTBIT)" and "d = 2 ^ s"
    then show ?thesis
      using g info_bits(7,8) [OF s]
      by (simp add: fastu16div16_def Let_def assms(2) [symmetric] i small unat_drop_bit_div unat_u16_u32)
  next
    fix e assume i: "info (tab ! d) = of_nat s" and m: "unat (magic (tab ! d)) * d = 2 ^ s * 65536 + e" "e \<le> 2 ^ s"
    have "unat num * unat (magic (tab ! d)) div (2 ^ s * 65536) = unat num div d"
      by (rule reciprocal_exact [OF m n]) (use assms(3) in simp_all)
    then have q: "unat (magic (tab ! d)) * unat num div 65536 div 2 ^ s = unat num div d"
      by (simp add: div_mult2_eq [symmetric] ac_simps)
    have "unat (drop_bit s (ucast (mulhiu16 (magic (tab ! d)) num) :: u32)) = unat num div d"
      by (simp add: unat_drop_bit_div unat_u16_u32 mulhiu16_nat q)
    then show ?thesis
      using g info_bits(1,2,3) [OF s]
      by (simp add: fastu16div16_def Let_def assms(2) [symmetric] i small)
  next
    fix e assume i: "info (tab ! d) = ucast ((of_nat s :: u32) OR FASTU32DIVADDBIT)"
      and m: "(65536 + unat (magic (tab ! d))) * d = 2 ^ Suc s * 65536 + e" "e \<le> 2 ^ Suc s"
    define mg where "mg = unat (magic (tab ! d))"
    define q where "q = mg * unat num div 65536"
    have "mg * unat num \<le> 65536 * unat num"
      using unat_u16_bound [of "magic (tab ! d)"] by (intro mult_right_mono) (auto simp: mg_def)
    then have qn: "q \<le> unat num" unfolding q_def by (metis div_le_mono nonzero_mult_div_cancel_left zero_neq_numeral)
    have "unat num * (65536 + mg) div (2 ^ Suc s * 65536) = unat num div d"
      using m unfolding mg_def by (intro reciprocal_exact [OF _ _ n]) (use assms(3) in simp_all)
    moreover have "unat num + q = unat num * (65536 + mg) div 65536"
      by (simp add: q_def algebra_simps)
    moreover have "2 ^ Suc s * 65536 = 65536 * (2 * 2 ^ s :: nat)" by simp
    ultimately have r: "(unat num + q) div 2 div 2 ^ s = unat num div d"
      by (simp only: div_mult2_eq)
    define quot where "quot = (ucast (mulhiu16 (magic (tab ! d)) num) :: u32)"
    have quot: "unat quot = q" by (simp add: quot_def unat_u16_u32 mulhiu16_nat q_def mg_def)
    define nn where "nn = drop_bit (Suc 0) (ucast ((ucast num :: u32) - quot) :: u16)"
    have "unat ((ucast num :: u32) - quot) = unat num - q"
      using qn by (simp add: unat_sub_small unat_u16_u32 quot)
    then have nn: "unat nn = (unat num - q) div 2" by (simp add: nn_def unat_drop_bit_div small)
    have sum: "unat (quot + ucast nn) = (unat num + q) div 2"
      using qn n halve_sum [OF qn] by (simp add: unat_add_small unat_u16_u32 quot nn)
    have "unat (drop_bit s (quot + ucast nn)) = unat num div d"
      by (simp add: unat_drop_bit_div sum r)
    then show ?thesis
      using g info_bits(4,5,6) [OF s]
      by (simp add: fastu16div16_def Let_def assms(2) [symmetric] i small quot_def [symmetric] nn_def [symmetric])
  qed
qed

section \<open>Generation of the table\<close>

lemma fastu16div16loop_spec:
  assumes "lim16 < length tab" "1 \<le> dv"
  shows "length (fastu16div16loop dv lim16 tab) = length tab \<and>
    (\<forall>i. fastu16div16loop dv lim16 tab ! i =
      (if dv \<le> i \<and> i \<le> lim16 then fastu16div16entry (of_nat i) else tab ! i))"
  using assms
proof (induction dv lim16 tab rule: fastu16div16loop.induct)
  case (1 dv lim16 tab)
  show ?case
  proof (cases "dv \<le> lim16")
    case True
    define t1 where "t1 = tab[dv := fastu16div16entry (of_nat dv)]"
    have "fastu16div16loop dv lim16 tab = fastu16div16loop (dv + 1) lim16 t1"
      using True by (subst fastu16div16loop.simps) (simp add: t1_def)
    then show ?thesis
      using 1(1) [OF True] 1(2,3) True by (auto simp: t1_def nth_list_update)
  next
    case False
    then show ?thesis by (subst (1 2) fastu16div16loop.simps) auto
  qed
qed

section \<open>Properties\<close>

lemma fastu16div16_quotient:
  assumes "unat lim16 < 65536" "2 \<le> unat lim16" "unat lim16 < length tab" "dv \<noteq> 0"
  shows "fastu16div16 num dv (fastu16div16gentab tab lim16) = num div dv"
proof -
  define t1 where "t1 = fastu16div16gentab tab lim16"
  have spec: "t1 ! i = (if 2 \<le> i \<and> i \<le> unat lim16 then fastu16div16entry (of_nat i)
      else tab[0 := \<lparr>magic = ucast lim16, info = 0\<rparr>] ! i)" for i
    unfolding t1_def fastu16div16gentab_def
    using fastu16div16loop_spec [of "unat lim16" "tab[0 := \<lparr>magic = ucast lim16, info = 0\<rparr>]" 2] assms(3) by simp
  have lim: "unat (magic (t1 ! 0)) = unat lim16"
    using assms(1,3) spec [of 0] by (cases tab) (simp_all add: unat_ucast_mod)
  show ?thesis
  proof (cases "dv = 1 \<or> (ucast dv :: u32) \<ge> ucast (magic (t1 ! 0))")
    case True
    then show ?thesis by (auto simp: fastu16div16_def Let_def t1_def [symmetric])
  next
    case False
    then have "unat dv < unat lim16" "dv \<noteq> 1" by (auto simp: word_le_nat_alt unat_u16_u32 lim)
    moreover from this assms(4) have "2 \<le> unat dv"
      by (metis One_nat_def Suc_1 Suc_leI le_neq_implies_less less_one not_le unat_1 unat_eq_zero word_unat_eq_iff)
    ultimately have "unat (fastu16div16 num dv t1) = unat num div unat dv"
      using assms(1) spec [of "unat dv"] lim entry_exact_gen [of "unat dv"]
      by (intro fastu16div16_entry) simp_all
    then show ?thesis by (simp add: word_unat_eq_iff unat_div t1_def)
  qed
qed

text \<open>
  C25: with the table generated for a limit below 65536 into a buffer with room for it, the
  division routine returns the exact quotient of every 16-bit dividend by every 16-bit divisor
  except zero.
\<close>

theorem fastu16div16_exact:
  assumes "unat lim16 < 65536" "2 \<le> unat lim16" "unat lim16 < length tab" "dv \<noteq> 0"
  shows "unat (fastu16div16 num dv (fastu16div16gentab tab lim16)) = unat num div unat dv"
  using fastu16div16_quotient [OF assms] by (simp add: unat_div)

theorem fastu16div16_exact_witness:
  "unat (fastu16div16 54321 7 (fastu16div16gentab (replicate 4096 \<lparr>magic = 0, info = 0\<rparr>) 2250)) = 7760"
  using fastu16div16_exact [of 2250 "replicate 4096 \<lparr>magic = 0, info = 0\<rparr>" 7 54321] by simp

text \<open>
  The 32-bit helper does not use its second argument: it doubles the first instead of multiplying.
\<close>

lemma mulhiu32_ignores_factor: "mulhiu32 a b = mulhiu32 a c"
  by (simp add: mulhiu32_def Let_def)

end
