(* ===== verification/Taskparm.thy ===== *)
theory Taskparm
  imports Fastidiv
begin

text \<open>
  The scheduling parameters of a task: the constants of kern/sched.h and the calculations of
  kern/bits/sched.h that bound the recorded history, score the interactivity of a task and derive
  its priority, with the nice and time slice tables of kern/proc/sched.c, at the configuration of
  kern/conf.h (one processor, 250 ticks a second).

  A task is a record of the fields that these functions read or write.  \<open>long\<close> values are
  integers, and results of arithmetic that can leave the 32 bits of a \<open>long\<close> of the ia32 are
  reduced; arguments of the 16-bit division are reduced to 16 bits as in the code, which matters.
\<close>

section \<open>Constants\<close>

definition HZ :: int where "HZ = 250"

definition SCHEDNCLASSPRIO :: int where "SCHEDNCLASSPRIO = 64"
definition SCHEDNQUEUESHIFT :: nat where "SCHEDNQUEUESHIFT = 1"
definition SCHEDNCLASSQUEUE :: int where "SCHEDNCLASSQUEUE = SCHEDNCLASSPRIO div 2 ^ SCHEDNQUEUESHIFT"
definition SCHEDREALTIME :: int where "SCHEDREALTIME = 1"
definition SCHEDDEADLINE :: int where "SCHEDDEADLINE = - SCHEDREALTIME - 1"
definition SCHEDREALTIMERR :: int where "SCHEDREALTIMERR = - SCHEDREALTIME"
definition SCHEDTRAP :: int where "SCHEDTRAP = 0"
definition SCHEDSYSTEM :: int where "SCHEDSYSTEM = 2"
definition SCHEDRESPONSIVE :: int where "SCHEDRESPONSIVE = 3"
definition SCHEDNORMAL :: int where "SCHEDNORMAL = 4"
definition SCHEDBATCH :: int where "SCHEDBATCH = 5"
definition SCHEDNCLASS :: int where "SCHEDNCLASS = 6"
definition SCHEDIDLE :: int where "SCHEDIDLE = SCHEDNCLASS"
definition SCHEDNQUEUE :: int where "SCHEDNQUEUE = SCHEDNCLASS * SCHEDNCLASSQUEUE"
definition SCHEDNIDLE :: int where "SCHEDNIDLE = SCHEDNCLASSQUEUE"
definition SCHEDNTOTALQUEUE :: int where "SCHEDNTOTALQUEUE = SCHEDNQUEUE + SCHEDNIDLE"

definition schedclassminprio :: "int \<Rightarrow> int" where
  "schedclassminprio c = c * SCHEDNCLASSPRIO"

definition schedclassmaxprio :: "int \<Rightarrow> int" where
  "schedclassmaxprio c = schedclassminprio c + SCHEDNCLASSPRIO - 1"

definition schedclassminqueue :: "int \<Rightarrow> int" where
  "schedclassminqueue c = c * SCHEDNCLASSQUEUE"

definition SCHEDNICEMIN :: int where "SCHEDNICEMIN = - (SCHEDNCLASSQUEUE * 2)"
definition SCHEDNICEMAX :: int where "SCHEDNICEMAX = SCHEDNCLASSQUEUE * 2 - 1"
definition SCHEDNICERANGE :: int where "SCHEDNICERANGE = SCHEDNICEMAX - SCHEDNICEMIN + 1"
definition SCHEDNICEHALF :: int where "SCHEDNICEHALF = SCHEDNICERANGE div 2"
definition SCHEDUSERPRIOMIN :: int where "SCHEDUSERPRIOMIN = schedclassminprio SCHEDRESPONSIVE"
definition SCHEDUSERPRIOMAX :: int where
  "SCHEDUSERPRIOMAX = schedclassmaxprio SCHEDBATCH - SCHEDNICEHALF"
definition SCHEDUSERRANGE :: int where "SCHEDUSERRANGE = SCHEDUSERPRIOMAX - SCHEDUSERPRIOMIN + 1"
definition SCHEDPRIORANGE :: int where "SCHEDPRIORANGE = SCHEDUSERPRIOMAX - SCHEDUSERPRIOMIN"
definition SCHEDINTPRIOMIN :: int where "SCHEDINTPRIOMIN = SCHEDUSERPRIOMIN"
definition SCHEDINTRANGE :: int where "SCHEDINTRANGE = SCHEDUSERPRIOMAX - SCHEDINTPRIOMIN + 1"
definition SCHEDSCOREMAX :: int where "SCHEDSCOREMAX = 128"
definition SCHEDSCOREINTLIM :: int where "SCHEDSCOREINTLIM = 32"
definition SCHEDSCOREHALF :: int where "SCHEDSCOREHALF = SCHEDSCOREMAX div 2"
definition SCHEDHISTORYNSEC :: int where "SCHEDHISTORYNSEC = 8"
definition SCHEDHISTORYNTICK :: int where "SCHEDHISTORYNTICK = SCHEDHISTORYNSEC * HZ"
definition SCHEDHISTORYSIZE :: int where "SCHEDHISTORYSIZE = SCHEDHISTORYNTICK + HZ"
definition SCHEDTICKSHIFT :: nat where "SCHEDTICKSHIFT = 10"
definition SCHEDRECTIMEMAX :: int where "SCHEDRECTIMEMAX = (HZ * 4) * 2 ^ SCHEDTICKSHIFT"
definition SCHEDRECTIMEFORKMAX :: int where "SCHEDRECTIMEFORKMAX = (HZ * 2) * 2 ^ SCHEDTICKSHIFT"

lemmas sched_consts = HZ_def SCHEDNCLASSPRIO_def SCHEDNQUEUESHIFT_def SCHEDNCLASSQUEUE_def
  SCHEDREALTIME_def SCHEDDEADLINE_def SCHEDREALTIMERR_def SCHEDTRAP_def SCHEDSYSTEM_def
  SCHEDRESPONSIVE_def SCHEDNORMAL_def SCHEDBATCH_def SCHEDNCLASS_def SCHEDIDLE_def
  SCHEDNQUEUE_def SCHEDNIDLE_def SCHEDNTOTALQUEUE_def schedclassminprio_def schedclassmaxprio_def
  schedclassminqueue_def SCHEDNICEMIN_def SCHEDNICEMAX_def SCHEDNICERANGE_def SCHEDNICEHALF_def
  SCHEDUSERPRIOMIN_def SCHEDUSERPRIOMAX_def SCHEDUSERRANGE_def SCHEDPRIORANGE_def
  SCHEDINTPRIOMIN_def SCHEDINTRANGE_def SCHEDSCOREMAX_def SCHEDSCOREINTLIM_def SCHEDSCOREHALF_def
  SCHEDHISTORYNSEC_def SCHEDHISTORYNTICK_def SCHEDHISTORYSIZE_def SCHEDTICKSHIFT_def
  SCHEDRECTIMEMAX_def SCHEDRECTIMEFORKMAX_def

definition schedistimeshare :: "int \<Rightarrow> bool" where
  "schedistimeshare sched \<longleftrightarrow> sched \<ge> SCHEDRESPONSIVE \<and> sched \<le> SCHEDBATCH"

definition schedisinteract :: "int \<Rightarrow> bool" where
  "schedisinteract score \<longleftrightarrow> score < SCHEDSCOREINTLIM"

section \<open>Tasks and processes\<close>

text \<open>Conversion of a result to \<open>long\<close> and to \<open>unsigned long\<close>, 32 bits on the ia32.\<close>

definition long32 :: "int \<Rightarrow> int" where
  "long32 x = (x + 2 ^ 31) mod 2 ^ 32 - 2 ^ 31"

definition ulong32 :: "int \<Rightarrow> int" where
  "ulong32 x = x mod 2 ^ 32"

lemma long32_small [simp]: "- (2 ^ 31) \<le> x \<Longrightarrow> x < 2 ^ 31 \<Longrightarrow> long32 x = x"
  by (simp add: long32_def)

lemma ulong32_small [simp]: "0 \<le> x \<Longrightarrow> x < 2 ^ 32 \<Longrightarrow> ulong32 x = x"
  by (simp add: ulong32_def)

record proc =
  nice :: int
  niceval :: int
  ppid :: int

record task =
  tid :: int
  tunit :: int
  sched :: int
  tflg :: int
  runprio :: int
  prio :: int
  tstate :: int
  score :: int
  slice :: int
  runtime :: int
  slptime :: int
  slptick :: int
  ntick :: int
  lastrun :: int
  firstrun :: int
  waitchan :: int
  timelim :: int

definition TASKREADY :: int where "TASKREADY = 1"

definition TASKHASINPUT :: int where "TASKHASINPUT = 1"

section \<open>Nice values\<close>

text \<open>The initialisers of both tables; the rest of the \<open>SCHEDNICERANGE\<close> elements is zero.\<close>

definition schednicetab :: "int list" where
  "schednicetab =
     [0, 0, 0, 0, 0, 0, 0, 0, 0,
      0, 0, 0, -64, -60, -57, -54, -51,
      -47, -44, -41, -38, -35, -31, -28, -25,
      -22, -19, -15, -12, -9, -6, -3, 0,
      3, 6, 9, 13, 16, 19, 23, 26,
      29, 33, 36, 39, 43, 46, 49, 53,
      56, 59, 63, 0, 0, 0, 0, 0,
      0, 0, 0, 0, 0, 0, 0, 0] @ replicate 63 0"

definition schedslicetab :: "int list" where
  "schedslicetab =
     [0, 0, 0, 0, 0, 0, 0, 0,
      0, 0, 0, 0, 1, 1, 2, 2,
      3, 3, 4, 4, 5, 5, 6, 6,
      7, 7, 8, 8, 9, 9, 10, 10,
      11, 11, 12, 12, 13, 13, 14, 14,
      15, 15, 16, 16, 17, 17, 18, 18,
      19, 19, 20, 20, 0, 0, 0, 0,
      0, 0, 0, 0, 0, 0, 0] @ replicate 65 0"

text \<open>A read of a table; an index outside it is undefined.\<close>

definition tabread :: "int list \<Rightarrow> int \<Rightarrow> int option" where
  "tabread tab i = (if 0 \<le> i \<and> i < int (length tab) then Some (tab ! nat i) else None)"

definition schedniceptr :: "int \<Rightarrow> int option" where
  "schedniceptr i = tabread schednicetab (SCHEDNICEHALF + i)"

definition schedsliceptr :: "int \<Rightarrow> int option" where
  "schedsliceptr i = tabread schedslicetab (SCHEDNICEHALF + i)"

definition schedcalcnice :: "int \<Rightarrow> int option" where
  "schedcalcnice val = tabread schednicetab val"

definition schedsetnice :: "int \<Rightarrow> proc \<Rightarrow> proc option" where
  "schedsetnice val p =
     (let val = max (-20) val;
          val = min 19 val
      in map_option (\<lambda>n. p\<lparr>nice := n, niceval := val\<rparr>) (schedniceptr val))"

section \<open>Division by table\<close>

definition schedtab :: "divu16 list" where
  "schedtab = fastu16div16gentab (replicate 4096 \<lparr>magic = 0, info = 0\<rparr>) 2250"

definition fastdiv :: "int \<Rightarrow> int \<Rightarrow> int" where
  "fastdiv num dv = uint (fastu16div16 (word_of_int num) (word_of_int dv) schedtab)"

section \<open>History of a task\<close>

text \<open>\<open>tick\<close> is the tick counter of the current processor.\<close>

definition schedadjcpupct :: "int \<Rightarrow> bool \<Rightarrow> task \<Rightarrow> task" where
  "schedadjcpupct tick run t =
     (let last = ulong32 (lastrun t);
          diff = long32 (tick - last);
          t = (if diff \<ge> SCHEDHISTORYNTICK
               then t\<lparr>ntick := 0, firstrun := tick - SCHEDHISTORYNTICK\<rparr>
               else let first = ulong32 (firstrun t); delta = long32 (tick - first)
                    in if delta \<ge> SCHEDHISTORYSIZE
                       then let dv = long32 (last - first);
                                val = tick - SCHEDHISTORYNTICK;
                                last = ulong32 (last - val);
                                n = long32 (fastdiv (ntick t) dv * last)
                            in t\<lparr>firstrun := val, ntick := n\<rparr>
                       else t);
          t = (if run then t\<lparr>ntick := diff div 2 ^ SCHEDTICKSHIFT\<rparr> else t)
      in t\<lparr>lastrun := tick\<rparr>)"

definition schedadjintparm :: "task \<Rightarrow> task" where
  "schedadjintparm t =
     (let run = runtime t; slp = slptime t; sum = long32 (run + slp)
      in if sum < SCHEDRECTIMEMAX then t
         else if sum > 2 * SCHEDRECTIMEMAX
         then if run > slp then t\<lparr>runtime := SCHEDRECTIMEMAX, slptime := 1\<rparr>
              else t\<lparr>runtime := 1, slptime := SCHEDRECTIMEMAX\<rparr>
         else if sum > (SCHEDRECTIMEMAX div 8) * 9
         then t\<lparr>runtime := run div 2, slptime := slp div 2\<rparr>
         else t\<lparr>runtime := run div 4 * 3, slptime := slp div 4 * 3\<rparr>)"

definition schedadjforkintparm :: "task \<Rightarrow> task" where
  "schedadjforkintparm t =
     (let run = runtime t; slp = slptime t; sum = long32 (run + slp)
      in if sum > SCHEDRECTIMEFORKMAX
         then t\<lparr>runtime := run div 8 + run div 4, slptime := slp div 8 + slp div 4\<rparr>
         else t)"

section \<open>Score and priority\<close>

definition schedcalcscore :: "task \<Rightarrow> int \<times> task" where
  "schedcalcscore t =
     (let run = runtime t; slp = slptime t
      in if SCHEDSCOREINTLIM \<le> SCHEDSCOREHALF \<and> run \<ge> slp
         then (SCHEDSCOREHALF, t\<lparr>score := SCHEDSCOREHALF\<rparr>)
         else if run > slp
         then let run = run div 2 ^ 6;
                  dv = max 1 run;
                  res = SCHEDSCOREMAX - fastdiv slp dv
              in (res, t\<lparr>score := res\<rparr>)
         else if slp > run
         then let slp = slp div 2 ^ 6;
                  dv = max 1 slp;
                  res = fastdiv run dv
              in (res, t\<lparr>score := res\<rparr>)
         else if run \<noteq> 0 then (SCHEDSCOREHALF, t\<lparr>score := SCHEDSCOREHALF\<rparr>)
         else (0, t\<lparr>score := 0\<rparr>))"

definition schedcalcuserprio :: "task \<Rightarrow> int" where
  "schedcalcuserprio t =
     (let time = ntick t div 2 ^ SCHEDTICKSHIFT;
          val = max (lastrun t - firstrun t) HZ;
          val = fastdiv (val + (SCHEDPRIORANGE - 1)) SCHEDPRIORANGE
      in fastdiv time val)"

definition schedcalcprio :: "proc \<Rightarrow> task \<Rightarrow> task option" where
  "schedcalcprio p t =
     (let (sc, t) = schedcalcscore t
      in case schedcalcnice (nice p) of
           None \<Rightarrow> None
         | Some n \<Rightarrow>
             let sc = max 0 (sc + n)
             in if sc < SCHEDSCOREINTLIM
                then Some (t\<lparr>prio := SCHEDINTPRIOMIN + SCHEDINTRANGE div 2 ^ 5 * sc\<rparr>)
                else let pr = SCHEDUSERPRIOMIN;
                         pr = (if ntick t \<noteq> 0
                               then pr + min (schedcalcuserprio t) (SCHEDUSERRANGE - 1) else pr);
                         pr = pr + n
                     in Some (t\<lparr>prio := min (runprio t) pr\<rparr>))"

definition roundup :: "int \<Rightarrow> int \<Rightarrow> int" where
  "roundup a b = c_div (a + (b - 1)) b * b"

text \<open>The new priority, the score, and the task with its score recorded.\<close>

definition schedcalcintparm :: "proc \<Rightarrow> task \<Rightarrow> int \<times> int \<times> task" where
  "schedcalcintparm p t =
     (let (sc, t) = schedcalcscore t;
          sc = max 0 (sc + nice p)
      in if sc < SCHEDSCOREINTLIM
         then (SCHEDINTPRIOMIN + SCHEDINTRANGE div 2 ^ 5 * sc, sc, t)
         else if ntick t \<noteq> 0
         then let total = lastrun t - firstrun t;
                  tickhz = ntick t div 2 ^ SCHEDTICKSHIFT;
                  diff = SCHEDUSERPRIOMAX + SCHEDNICEHALF;
                  res = SCHEDUSERPRIOMIN - SCHEDNICEHALF;
                  total = max total HZ;
                  range = diff - res + 1;
                  tmp = roundup total range;
                  res = res + nice p;
                  dv = fastdiv total tmp;
                  range = range - 1;
                  total = fastdiv tickhz dv
              in (res + min total range, sc, t)
         else (0, sc, t))"

text \<open>
  Waking a task on processor \<open>unit\<close>: what happens before the jump into it.  The lookup of
  the nice value may be undefined.
\<close>

definition taskwakeup :: "int \<Rightarrow> int \<Rightarrow> proc \<Rightarrow> task \<Rightarrow> task option" where
  "taskwakeup unit tick p t =
     (let stick = slptick t;
          t = t\<lparr>slptick := 0\<rparr>;
          t = (if stick \<noteq> 0 \<and> stick \<noteq> tick
               then schedadjcpupct tick False
                      (schedadjintparm (t\<lparr>slptime := long32 ((tick - stick) * 2 ^ SCHEDTICKSHIFT)\<rparr>))
               else t);
          t = t\<lparr>slice := 0\<rparr>
      in map_option (\<lambda>t. t\<lparr>tstate := TASKREADY, tunit := unit\<rparr>)
           (if schedistimeshare (sched t) then schedcalcprio p t else Some t))"

section \<open>Division within the table\<close>

lemma uint_of_int16: "0 \<le> a \<Longrightarrow> a < 65536 \<Longrightarrow> uint (word_of_int a :: u16) = a"
  by (simp add: uint_word_of_int)

lemma fastdiv_exact:
  assumes "0 \<le> a" "a < 65536" "0 < b" "b < 65536"
  shows "fastdiv a b = a div b"
proof -
  have nz: "(word_of_int b :: u16) \<noteq> 0"
  proof
    assume "(word_of_int b :: u16) = 0"
    then have "uint (word_of_int b :: u16) = 0" by (simp only: unsigned_0)
    then show False using uint_of_int16 [of b] assms(3,4) by linarith
  qed
  have "fastu16div16 (word_of_int a) (word_of_int b) schedtab = (word_of_int a :: u16) div word_of_int b"
    unfolding schedtab_def by (rule fastu16div16_quotient) (simp_all add: nz)
  then show ?thesis using assms by (simp add: fastdiv_def uint_div uint_of_int16)
qed

lemma fastdiv_range: "0 \<le> fastdiv a b" "fastdiv a b < 65536"
  using uint_bounded [of "fastu16div16 (word_of_int a) (word_of_int b) schedtab"]
  by (simp_all add: fastdiv_def)

section \<open>The recorded history\<close>

definition history_ok :: "int \<Rightarrow> task \<Rightarrow> bool" where
  "history_ok tick t \<longleftrightarrow>
     0 \<le> firstrun t \<and> firstrun t \<le> lastrun t \<and> lastrun t \<le> tick \<and>
     lastrun t - firstrun t < SCHEDHISTORYSIZE \<and>
     0 \<le> runtime t \<and> 0 \<le> slptime t \<and> runtime t + slptime t \<le> SCHEDRECTIMEMAX + 1"

lemma schedadjcpupct_times [simp]:
  "runtime (schedadjcpupct tick run t) = runtime t" "slptime (schedadjcpupct tick run t) = slptime t"
  "lastrun (schedadjcpupct tick run t) = tick" "sched (schedadjcpupct tick run t) = sched t"
  "runprio (schedadjcpupct tick run t) = runprio t" "slptick (schedadjcpupct tick run t) = slptick t"
  by (simp_all add: schedadjcpupct_def Let_def)

lemma schedadjcpupct_window:
  assumes "0 \<le> firstrun t" "firstrun t \<le> lastrun t" "lastrun t \<le> tick" "tick < 2 ^ 31"
  shows "0 \<le> firstrun (schedadjcpupct tick run t)" "firstrun (schedadjcpupct tick run t) \<le> tick"
    "tick - firstrun (schedadjcpupct tick run t) < SCHEDHISTORYSIZE"
  using assms by (auto simp: schedadjcpupct_def Let_def sched_consts)

lemma schedadjintparm_other [simp]:
  "firstrun (schedadjintparm t) = firstrun t" "lastrun (schedadjintparm t) = lastrun t"
  "sched (schedadjintparm t) = sched t" "runprio (schedadjintparm t) = runprio t"
  "slptick (schedadjintparm t) = slptick t"
  by (simp_all add: schedadjintparm_def Let_def)

lemma schedadjintparm_bounds:
  assumes "0 \<le> runtime t" "0 \<le> slptime t" "runtime t + slptime t < 2 ^ 31"
  shows "0 \<le> runtime (schedadjintparm t)" "0 \<le> slptime (schedadjintparm t)"
    "runtime (schedadjintparm t) + slptime (schedadjintparm t) \<le> SCHEDRECTIMEMAX + 1"
  using assms by (simp_all add: schedadjintparm_def Let_def sched_consts) linarith

lemma schedadjforkintparm_scaled:
  assumes "0 \<le> runtime t" "0 \<le> slptime t" "runtime t + slptime t \<le> SCHEDRECTIMEMAX + 1"
  shows "0 \<le> runtime (schedadjforkintparm t)" "0 \<le> slptime (schedadjforkintparm t)"
    "runtime (schedadjforkintparm t) + slptime (schedadjforkintparm t) \<le> SCHEDRECTIMEFORKMAX"
  using assms by (simp_all add: schedadjforkintparm_def Let_def sched_consts) linarith

section \<open>Scores\<close>

text \<open>The score of the ULE scheduler that the code follows, with an exact division.\<close>

definition interact_score :: "int \<Rightarrow> int \<Rightarrow> int" where
  "interact_score run slp =
     (if run \<ge> slp then SCHEDSCOREHALF else run div max 1 (slp div SCHEDSCOREHALF))"

lemma interact_score_range:
  assumes "0 \<le> run"
  shows "0 \<le> interact_score run slp" "interact_score run slp \<le> SCHEDSCOREMAX - 2"
proof -
  have "run div max 1 (slp div 64) \<le> 126" if "run < slp"
  proof (cases "slp < 64")
    case True
    then have "max 1 (slp div 64) = 1" using assms that by simp
    then show ?thesis using True that by simp
  next
    case False
    define q where "q = slp div 64"
    have q: "1 \<le> q" "slp < 64 * q + 64" using False by (simp_all add: q_def)
    have "run \<le> 126 * q + (q - 1)" using q that by linarith
    then have "run div q \<le> (126 * q + (q - 1)) div q" using q(1) by (intro zdiv_mono1) auto
    also have "\<dots> = 126 + (q - 1) div q" using q(1) by (intro div_mult_self3) simp
    also have "\<dots> = 126" using q(1) by (simp add: div_pos_pos_trivial)
    finally have "run div q \<le> 126" .
    then show ?thesis using q(1) by (simp add: q_def)
  qed
  then show "interact_score run slp \<le> SCHEDSCOREMAX - 2"
    by (simp add: interact_score_def sched_consts)
  show "0 \<le> interact_score run slp"
    using assms by (simp add: interact_score_def sched_consts pos_imp_zdiv_nonneg_iff)
qed

lemma schedcalcscore_task:
  "snd (schedcalcscore t) = t\<lparr>score := fst (schedcalcscore t)\<rparr>"
  by (simp add: schedcalcscore_def Let_def)

lemma schedcalcscore_exact:
  assumes "0 \<le> runtime t" "runtime t < 65536" "0 \<le> slptime t" "slptime t < 2 ^ 22"
  shows "fst (schedcalcscore t) = interact_score (runtime t) (slptime t)"
proof (cases "runtime t \<ge> slptime t")
  case True
  then show ?thesis by (simp add: schedcalcscore_def interact_score_def sched_consts)
next
  case False
  have "fastdiv (runtime t) (max 1 (slptime t div 64)) = runtime t div max 1 (slptime t div 64)"
    using assms by (intro fastdiv_exact) auto
  then show ?thesis using False by (simp add: schedcalcscore_def interact_score_def sched_consts Let_def)
qed

lemma schedcalcscore_range: "0 \<le> fst (schedcalcscore t)"
  using fastdiv_range by (simp add: schedcalcscore_def sched_consts Let_def)

section \<open>Priorities\<close>

lemma schednicetab_range: "i < 128 \<Longrightarrow> -64 \<le> schednicetab ! i \<and> schednicetab ! i \<le> 63"
proof -
  have "\<forall>x\<in>set schednicetab. -64 \<le> x \<and> x \<le> 63" by (simp add: schednicetab_def)
  moreover have "length schednicetab = 128" by (simp add: schednicetab_def)
  ultimately show "i < 128 \<Longrightarrow> ?thesis" by (metis nth_mem)
qed

lemma schednicetab_upper: "i < 128 \<Longrightarrow> 32 \<le> i \<Longrightarrow> 0 \<le> schednicetab ! i"
proof -
  assume i: "i < 128" "32 \<le> i"
  have "\<forall>x\<in>set (drop 32 schednicetab). 0 \<le> x" by (simp add: schednicetab_def)
  moreover have "length (drop 32 schednicetab) = 96" by (simp add: schednicetab_def)
  moreover have "i - 32 < 96" using i by simp
  ultimately have "0 \<le> drop 32 schednicetab ! (i - 32)" using nth_mem [of "i - 32" "drop 32 schednicetab"] by simp
  moreover have "drop 32 schednicetab ! (i - 32) = schednicetab ! i"
    using i by (subst nth_drop) (simp_all add: schednicetab_def)
  ultimately show ?thesis by simp
qed

lemma schedcalcnice_range: "schedcalcnice v = Some n \<Longrightarrow> -64 \<le> n \<and> n \<le> 63"
  using schednicetab_range [of "nat v"]
  by (auto simp: schedcalcnice_def tabread_def schednicetab_def split: if_splits)

lemma schedcalcnice_defined: "0 \<le> v \<Longrightarrow> v < 128 \<Longrightarrow> schedcalcnice v \<noteq> None"
  by (simp add: schedcalcnice_def tabread_def schednicetab_def)

lemma schedsetnice_defined:
  obtains n where "schedsetnice val p = Some (p\<lparr>nice := n, niceval := min 19 (max (-20) val)\<rparr>)" "0 \<le> n" "n \<le> 63"
proof -
  define v where "v = min 19 (max (-20) val)"
  have v: "-20 \<le> v" "v \<le> 19" by (simp_all add: v_def)
  have "schedniceptr v = Some (schednicetab ! nat (64 + v))"
    using v by (simp add: schedniceptr_def tabread_def sched_consts schednicetab_def)
  moreover have "nat (64 + v) < 128" "32 \<le> nat (64 + v)" using v by auto
  ultimately show ?thesis
    using that [of "schednicetab ! nat (64 + v)"] schednicetab_range schednicetab_upper
    by (simp add: schedsetnice_def Let_def v_def [symmetric])
qed

lemma schedcalcprio_bounds:
  assumes "schedcalcprio p t = Some t'"
  shows "min (runprio t) (SCHEDUSERPRIOMIN - 64) \<le> prio t'" "prio t' < SCHEDIDLE * SCHEDNCLASSPRIO"
    "\<exists>sc pr. t' = t\<lparr>score := sc, prio := pr\<rparr>"
proof -
  obtain n where n: "schedcalcnice (nice p) = Some n"
    using assms by (auto simp: schedcalcprio_def split: option.splits prod.splits)
  have r: "-64 \<le> n" "n \<le> 63" using schedcalcnice_range [OF n] by auto
  have u: "0 \<le> schedcalcuserprio x" for x using fastdiv_range by (simp add: schedcalcuserprio_def Let_def)
  obtain s where s: "schedcalcscore t = (s, t\<lparr>score := s\<rparr>)"
    using schedcalcscore_task [of t] by (metis prod.collapse)
  note eq = assms [unfolded schedcalcprio_def n s Let_def]
  show "min (runprio t) (SCHEDUSERPRIOMIN - 64) \<le> prio t'"
    using eq r u [of "t\<lparr>score := s\<rparr>"] by (auto simp: sched_consts min_def max_def split: if_splits)
  show "prio t' < SCHEDIDLE * SCHEDNCLASSPRIO"
    using eq r by (auto simp: sched_consts min_def max_def split: if_splits)
  show "\<exists>sc pr. t' = t\<lparr>score := sc, prio := pr\<rparr>" using eq by (auto split: if_splits)
qed

lemma schedcalcprio_defined: "0 \<le> nice p \<Longrightarrow> nice p < 128 \<Longrightarrow> schedcalcprio p t \<noteq> None"
  using schedcalcnice_defined [of "nice p"] by (auto simp: schedcalcprio_def Let_def split: prod.splits)

section \<open>Properties\<close>

lemma taskwakeup_history:
  assumes "history_ok tick0 t" "tick0 \<le> tick" "tick < 2 ^ 31"
    "0 \<le> slptick t" "slptick t \<le> tick" "(tick - slptick t) * 2 ^ SCHEDTICKSHIFT + SCHEDRECTIMEMAX + 1 < 2 ^ 31"
    "t1 = (if slptick t \<noteq> 0 \<and> slptick t \<noteq> tick
           then schedadjcpupct tick False (schedadjintparm
                  (t\<lparr>slptick := 0, slptime := long32 ((tick - slptick t) * 2 ^ SCHEDTICKSHIFT)\<rparr>))
           else t\<lparr>slptick := 0\<rparr>)"
  shows "history_ok tick t1" "sched t1 = sched t" "runprio t1 = runprio t"
proof -
  define slp where "slp = (tick - slptick t) * 2 ^ SCHEDTICKSHIFT"
  define u where "u = schedadjintparm (t\<lparr>slptick := 0, slptime := slp\<rparr>)"
  have slp: "0 \<le> slp" "slp < 2 ^ 31" "slp + SCHEDRECTIMEMAX + 1 < 2 ^ 31"
    using assms(5,6) by (simp_all add: slp_def sched_consts)
  have long: "long32 slp = slp" using slp by simp
  have ok: "0 \<le> firstrun t" "firstrun t \<le> lastrun t" "lastrun t \<le> tick" "0 \<le> runtime t" "0 \<le> slptime t"
    "runtime t + slptime t \<le> SCHEDRECTIMEMAX + 1" "lastrun t - firstrun t < SCHEDHISTORYSIZE"
    using assms(1,2) by (auto simp: history_ok_def)
  have b: "0 \<le> runtime u" "0 \<le> slptime u" "runtime u + slptime u \<le> SCHEDRECTIMEMAX + 1"
    unfolding u_def using slp ok by (auto intro!: schedadjintparm_bounds)
  have f: "firstrun u = firstrun t" "lastrun u = lastrun t" by (simp_all add: u_def)
  note w = schedadjcpupct_window [of u tick False, unfolded f, OF ok(1-3) assms(3)]
  have "history_ok tick (schedadjcpupct tick False u)" using b w by (simp add: history_ok_def)
  moreover have "history_ok tick (t\<lparr>slptick := 0\<rparr>)" using ok by (simp add: history_ok_def)
  moreover have "t1 = schedadjcpupct tick False u \<or> t1 = t\<lparr>slptick := 0\<rparr>"
    unfolding assms(7) u_def slp_def [symmetric] long by simp
  ultimately show "history_ok tick t1" "sched t1 = sched t" "runprio t1 = runprio t"
    by (auto simp: u_def)
qed

lemma taskwakeup_class:
  assumes "t1 = (if slptick t \<noteq> 0 \<and> slptick t \<noteq> tick
           then schedadjcpupct tick False (schedadjintparm
                  (t\<lparr>slptick := 0, slptime := long32 ((tick - slptick t) * 2 ^ SCHEDTICKSHIFT)\<rparr>))
           else t\<lparr>slptick := 0\<rparr>)"
  shows "sched t1 = sched t" "runprio t1 = runprio t" "slptick t1 = 0"
  using assms by (simp_all add: schedadjintparm_def Let_def)

text \<open>From \<open>2 ^ 21\<close> ticks on the shifted number of ticks has its sign bit set.\<close>

lemma long_sleep_negative:
  assumes "0 \<le> runtime t" "runtime t \<le> SCHEDRECTIMEMAX + 1" "2 ^ 21 \<le> d" "d < 2 ^ 22 - 1024"
  shows "slptime (schedadjintparm (t\<lparr>slptick := 0, slptime := long32 (d * 2 ^ SCHEDTICKSHIFT)\<rparr>)) < 0"
proof -
  have "(d * 1024 + 2147483648) mod 4294967296 = d * 1024 - 2147483648"
    using assms(3,4) by (intro int_mod_pos_eq [of _ _ 1]) auto
  then have l: "long32 (d * 1024) = d * 1024 - 4294967296" by (simp add: long32_def)
  then have "long32 (runtime t + long32 (d * 1024)) = runtime t + (d * 1024 - 4294967296)"
    using assms by (intro trans [OF long32_small]) (auto simp: sched_consts)
  then show ?thesis using assms by (simp add: schedadjintparm_def sched_consts l Let_def)
qed

text \<open>
  C38: waking a task whose process has a nice value set by \<open>schedsetnice\<close> never reads outside the
  nice table, leaves the task ready with no sleep pending, and gives a timeshare task a priority below
  the idle class and not more than 64 below the lowest user priority, unless its running priority is
  already smaller.  The bounds of the recorded history are kept when the sleep, in units of \<open>2 ^ -10\<close>
  ticks, and the longest history together are below \<open>2 ^ 31\<close>, which is a sleep of up to 2096151
  ticks.  After a sleep of \<open>2 ^ 21\<close> ticks or more (and less than \<open>2 ^ 22 - 1024\<close>) they are not: the
  recorded sleep time is negative.
\<close>

theorem taskwakeup_invariant:
  assumes "history_ok tick0 t" "tick0 \<le> tick" "tick < 2 ^ 31" "0 \<le> slptick t" "slptick t \<le> tick"
    "schedsetnice val p0 = Some p"
  shows "\<exists>t'. taskwakeup unit tick p t = Some t' \<and> tstate t' = TASKREADY \<and> slptick t' = 0 \<and> slice t' = 0 \<and>
     (schedistimeshare (sched t) \<longrightarrow>
        min (runprio t) (SCHEDUSERPRIOMIN - 64) \<le> prio t' \<and> prio t' < SCHEDIDLE * SCHEDNCLASSPRIO) \<and>
     ((tick - slptick t) * 2 ^ SCHEDTICKSHIFT + SCHEDRECTIMEMAX + 1 < 2 ^ 31 \<longrightarrow> history_ok tick t') \<and>
     (slptick t \<noteq> 0 \<and> 2 ^ 21 \<le> tick - slptick t \<and> tick - slptick t < 2 ^ 22 - 1024 \<longrightarrow> slptime t' < 0)"
proof -
  obtain n where "p = p0\<lparr>nice := n, niceval := min 19 (max (-20) val)\<rparr>" "0 \<le> n" "n \<le> 63"
    using schedsetnice_defined [of val p0] assms(6) by (metis option.inject)
  then have nice: "0 \<le> nice p" "nice p < 128" by auto
  define t1 where "t1 = (if slptick t \<noteq> 0 \<and> slptick t \<noteq> tick
           then schedadjcpupct tick False (schedadjintparm
                  (t\<lparr>slptick := 0, slptime := long32 ((tick - slptick t) * 2 ^ SCHEDTICKSHIFT)\<rparr>))
           else t\<lparr>slptick := 0\<rparr>)"
  note same1 = taskwakeup_class [OF t1_def]
  have hist: "history_ok tick t1" if "(tick - slptick t) * 2 ^ SCHEDTICKSHIFT + SCHEDRECTIMEMAX + 1 < 2 ^ 31"
    using taskwakeup_history [OF assms(1-5) that t1_def] by simp
  have neg: "slptime t1 < 0" if "slptick t \<noteq> 0" "2 ^ 21 \<le> tick - slptick t" "tick - slptick t < 2 ^ 22 - 1024"
    using long_sleep_negative [OF _ _ that(2,3), of t] that assms(1) by (simp add: t1_def history_ok_def)
  define t2 where "t2 = t1\<lparr>slice := 0\<rparr>"
  obtain t3 where t3: "(if schedistimeshare (sched t2) then schedcalcprio p t2 else Some t2) = Some t3"
    using schedcalcprio_defined [OF nice, of t2] by (cases "schedistimeshare (sched t2)") auto
  have same: "\<exists>sc pr. t3 = t2\<lparr>score := sc, prio := pr\<rparr>"
  proof (cases "schedistimeshare (sched t2)")
    case True
    then show ?thesis using t3 schedcalcprio_bounds(3) [of p t2 t3] by simp
  next
    case False
    then have "t3 = t2\<lparr>score := score t2, prio := prio t2\<rparr>" using t3 by simp
    then show ?thesis by blast
  qed
  have wake: "taskwakeup unit tick p t = Some (t3\<lparr>tstate := TASKREADY, tunit := unit\<rparr>)"
    unfolding taskwakeup_def Let_def t1_def [symmetric] t2_def [symmetric] t3 by simp
  have "schedistimeshare (sched t) \<Longrightarrow> min (runprio t) (SCHEDUSERPRIOMIN - 64) \<le> prio t3 \<and>
      prio t3 < SCHEDIDLE * SCHEDNCLASSPRIO"
    using t3 schedcalcprio_bounds(1,2) [of p t2 t3] same1 by (simp add: t2_def)
  then show ?thesis
    using wake same same1 hist neg by (auto simp: history_ok_def t2_def)
qed

definition sleeper :: task where
  "sleeper = \<lparr>tid = 7, tunit = 0, sched = SCHEDNORMAL, tflg = 0, runprio = 300, prio = 256, tstate = 2,
     score = 0, slice = 3, runtime = 4000, slptime = 20000, slptick = 900, ntick = 0, lastrun = 900,
     firstrun = 10, waitchan = 0, timelim = 0\<rparr>"

theorem taskwakeup_invariant_witness:
  "\<exists>t'. taskwakeup 0 1000 \<lparr>nice = 39, niceval = -20, ppid = 1\<rparr> sleeper = Some t' \<and> history_ok 1000 t' \<and>
     128 \<le> prio t' \<and> prio t' < 384"
proof -
  have h: "history_ok 950 sleeper" by (simp add: sleeper_def history_ok_def sched_consts)
  have n: "schedsetnice (-20) \<lparr>nice = 0, niceval = 0, ppid = 1\<rparr> = Some \<lparr>nice = 39, niceval = -20, ppid = 1\<rparr>"
    by (simp add: schedsetnice_def schedniceptr_def tabread_def sched_consts schednicetab_def)
  show ?thesis
    using taskwakeup_invariant [OF h, of 1000 "-20" "\<lparr>nice = 0, niceval = 0, ppid = 1\<rparr>"
        "\<lparr>nice = 39, niceval = -20, ppid = 1\<rparr>" 0] n
    by (simp add: sleeper_def sched_consts schedistimeshare_def) blast
qed

text \<open>
  The interactivity score of a task that ran for less than 65536 units and slept for less than
  \<open>2 ^ 22\<close> is the score of the reference definition, lies between 0 and 126 and is recorded in the
  task.
\<close>

theorem schedcalcscore_reference:
  assumes "0 \<le> runtime t" "runtime t < 65536" "0 \<le> slptime t" "slptime t < 2 ^ 22"
  shows "schedcalcscore t = (interact_score (runtime t) (slptime t), t\<lparr>score := interact_score (runtime t) (slptime t)\<rparr>) \<and>
    0 \<le> interact_score (runtime t) (slptime t) \<and> interact_score (runtime t) (slptime t) \<le> SCHEDSCOREMAX - 2"
  using schedcalcscore_exact [OF assms] schedcalcscore_task [of t] interact_score_range [OF assms(1)]
  by (metis prod.collapse)

theorem schedcalcscore_reference_witness: "fst (schedcalcscore sleeper) = 12"
  using schedcalcscore_reference [of sleeper] by (simp add: sleeper_def interact_score_def sched_consts)

text \<open>
  Above 65535 the run time is cut to 16 bits, although the history allows up to 1024001: a task that
  ran almost half of its time gets the score of a fully interactive one.
\<close>

lemma schedcalcscore_truncates:
  assumes "runtime t = 65536" "slptime t = 65600"
  shows "fst (schedcalcscore t) = 0" "interact_score (runtime t) (slptime t) = 63"
proof -
  have "(word_of_int 65536 :: u16) = word_of_int 0" by (rule word_uint_eqI) (simp add: uint_word_of_int)
  then have "fastdiv 65536 1025 = 0"
    using fastdiv_exact [of 0 1025] by (simp only: fastdiv_def)
  then show "fst (schedcalcscore t) = 0" using assms by (simp add: schedcalcscore_def sched_consts)
  show "interact_score (runtime t) (slptime t) = 63" using assms by (simp add: interact_score_def sched_consts)
qed

text \<open>
  The nice table is centred at element 32, the pointer at element 64: the most favourable nice value
  gives a positive offset and every nice value from 0 gives none.  The offset is then used as an index
  into the table once more when the priority is calculated.
\<close>

lemma schedsetnice_off_centre:
  "schedsetnice (-20) p = Some (p\<lparr>nice := 39, niceval := -20\<rparr>)"
  "0 \<le> v \<Longrightarrow> v \<le> 19 \<Longrightarrow> schedsetnice v p = Some (p\<lparr>nice := 0, niceval := v\<rparr>)"
  "schedcalcnice 39 = Some 23"
proof -
  show "schedsetnice (-20) p = Some (p\<lparr>nice := 39, niceval := -20\<rparr>)" "schedcalcnice 39 = Some 23"
    by (simp_all add: schedsetnice_def schedniceptr_def schedcalcnice_def tabread_def sched_consts schednicetab_def)
  assume v: "0 \<le> v" "v \<le> 19"
  have "\<forall>i\<in>set [64..<84]. schednicetab ! i = 0" by code_simp
  moreover have "nat (64 + v) \<in> set [64..<84]" using v unfolding set_upt by auto
  ultimately have "schednicetab ! nat (64 + v) = 0" by blast
  then show "schedsetnice v p = Some (p\<lparr>nice := 0, niceval := v\<rparr>)"
    using v by (simp add: schedsetnice_def schedniceptr_def tabread_def sched_consts schednicetab_def)
qed

end
