(* ===== verification/Sched.thy ===== *)
theory Sched
  imports Deq Taskparm
begin

text \<open>
  The task queues of the scheduler (kern/proc/sched.c, kern/proc/sleep.c and the insertion of
  kern/proc/wait.c) on the ia32 with one processor: the ready queues with their bit maps, the
  deadline table, the wait table, the sleep queue and the choice of the next task.

  Tasks are addresses with their fields in \<open>tasks\<close> and their links in \<open>lnk\<close>.  The two static
  ready tables and maps are named by a truth value, so that the pointers \<open>cur\<close>, \<open>next\<close>,
  \<open>curmap\<close> and \<open>nextmap\<close> of the queue set can share a table.  Arrays are functions and
  every access checks its index; an access outside an array and a dereference of a null pointer are
  the result \<^const>\<open>None\<close>.  Locks are left out: one processor runs these functions to their end, and
  each of them releases the lock it takes on every path.
\<close>

section \<open>State\<close>

definition CLSIZE :: int where "CLSIZE = 32"
definition NTASK :: int where "NTASK = 4096"

definition SCHEDREADYMAPNWORD :: int where
  "SCHEDREADYMAPNWORD = max (SCHEDNQUEUE div (8 * 4)) (CLSIZE div 4)"
definition SCHEDIDLEMAPNWORD :: int where
  "SCHEDIDLEMAPNWORD = max (SCHEDNIDLE div (8 * 4)) (CLSIZE div 4)"
definition SCHEDIDLECOREMAPNWORD :: int where
  "SCHEDIDLECOREMAPNWORD = max (1 div (8 * 4)) (CLSIZE div 4)"
definition SCHEDLOADMAPNWORD :: int where
  "SCHEDLOADMAPNWORD = max (SCHEDNTOTALQUEUE div (8 * 4)) (CLSIZE div 4)"

lemmas map_consts = CLSIZE_def NTASK_def SCHEDREADYMAPNWORD_def SCHEDIDLEMAPNWORD_def
  SCHEDIDLECOREMAPNWORD_def SCHEDLOADMAPNWORD_def

definition TASKNEW :: int where "TASKNEW = 0"
definition TASKSLEEPING :: int where "TASKSLEEPING = 2"
definition TASKSTOPPED :: int where "TASKSTOPPED = 3"
definition TASKZOMBIE :: int where "TASKZOMBIE = 4"

lemmas task_states = TASKNEW_def TASKREADY_def TASKSLEEPING_def TASKSTOPPED_def TASKZOMBIE_def

record schedstate =
  tasks :: "ptr \<Rightarrow> task"
  procof :: "ptr \<Rightarrow> ptr"
  procs :: "ptr \<Rightarrow> proc"
  lnk :: links
  readytab :: "bool \<Rightarrow> int \<Rightarrow> ptr"
  idletab :: "int \<Rightarrow> ptr"
  readymap :: "bool \<Rightarrow> int \<Rightarrow> u32"
  idlemap :: "int \<Rightarrow> u32"
  idlecoremap :: "int \<Rightarrow> u32"
  loadmap :: "int \<Rightarrow> int"
  cur :: bool
  nextset :: bool
  curmap :: bool
  nextmap :: bool
  stoppedtab :: "int \<Rightarrow> ptr"
  zombietab :: "int \<Rightarrow> ptr"
  sleepqueue :: ptr
  deadlinetab :: "int \<Rightarrow> ptr"
  waittab :: "int \<Rightarrow> ptr"
  tabmem :: "ptr \<Rightarrow> int \<Rightarrow> ptr"
  qlist :: "ptr \<Rightarrow> int \<Rightarrow> ptr"
  qlock :: "ptr \<Rightarrow> int"
  allocs :: "ptr list"

section \<open>Bit maps\<close>

definition setbitl :: "int \<Rightarrow> (int \<Rightarrow> u32) \<Rightarrow> int \<Rightarrow> (int \<Rightarrow> u32) option" where
  "setbitl nword m b =
     (if 0 \<le> b \<and> b div 32 < nword
      then Some (m(b div 32 := m (b div 32) OR push_bit (nat (b mod 32)) 1)) else None)"

definition clrbitl :: "int \<Rightarrow> (int \<Rightarrow> u32) \<Rightarrow> int \<Rightarrow> (int \<Rightarrow> u32) option" where
  "clrbitl nword m b =
     (if 0 \<le> b \<and> b div 32 < nword
      then Some (m(b div 32 := m (b div 32) AND NOT (push_bit (nat (b mod 32)) 1))) else None)"

definition bitsetl :: "(int \<Rightarrow> u32) \<Rightarrow> int \<Rightarrow> bool" where
  "bitsetl m b \<longleftrightarrow> m (b div 32) AND push_bit (nat (b mod 32)) 1 \<noteq> 0"

section \<open>Start-up and idle processors\<close>

text \<open>With fewer processors than bits of a word the loop over the words of the map is empty.\<close>

definition schedinitset :: "int \<Rightarrow> schedstate \<Rightarrow> schedstate option" where
  "schedinitset unit s =
     map_option (\<lambda>m. s\<lparr>idlecoremap := m, curmap := False, nextmap := True, cur := False, nextset := True\<rparr>)
       (clrbitl SCHEDIDLECOREMAPNWORD (idlecoremap s) unit)"

text \<open>The search of the units \<open>0..<nunit\<close>: the processor returned and the unit stored in \<open>retcore\<close>.\<close>

definition schedfindidlecore :: "int \<Rightarrow> int \<Rightarrow> (int \<Rightarrow> u32) \<Rightarrow> (int \<times> int) option" where
  "schedfindidlecore nunit unit m =
     map_option (\<lambda>ndx. (unit, ndx)) (find (\<lambda>ndx. ndx \<noteq> unit \<and> bitsetl m ndx) [0..nunit - 1])"

section \<open>Queue numbers\<close>

definition schedcalctrapqueue :: "int \<Rightarrow> int" where
  "schedcalctrapqueue pri = pri"

text \<open>
  The parameter of the macro is misspelt, so it uses the variable \<open>type\<close> of its caller, which is
  the argument here.
\<close>

definition schedcalcqueue :: "int \<Rightarrow> int \<Rightarrow> int" where
  "schedcalcqueue type pri =
     (pri - type * SCHEDNCLASSPRIO) div 2 ^ SCHEDNQUEUESHIFT + schedclassminqueue type"

section \<open>Ready queues\<close>

datatype place = CurSet | NextSet | IdleSet

text \<open>The set, the queue number and the updated task of \<open>schedsetready\<close>.\<close>

definition schedplace :: "proc \<Rightarrow> task \<Rightarrow> place \<times> int \<times> task" where
  "schedplace p t =
     (let sch = sched t; pr = prio t
      in if sch \<le> SCHEDSYSTEM
         then let type = (if sch = SCHEDREALTIMERR then SCHEDREALTIME else sch)
              in if type = SCHEDTRAP then (CurSet, schedcalctrapqueue pr, t)
                 else if type = SCHEDREALTIME then (CurSet, schedcalcqueue type pr, t)
                 else let lim = schedclassmaxprio SCHEDSYSTEM;
                          t = (if pr < lim then t\<lparr>prio := pr + 1\<rparr> else t)
                      in (CurSet, schedcalcqueue type (prio t), t)
         else if sch < SCHEDIDLE
         then let (type, pr, sc, t) =
                    (if sch = SCHEDRESPONSIVE
                     then let lim = schedclassmaxprio SCHEDRESPONSIVE; pr = pr + 1
                          in (if pr = lim then SCHEDNORMAL else sch, pr, 0, t)
                     else if tflg t AND TASKHASINPUT \<noteq> 0
                     then (sch, schedclassminprio SCHEDRESPONSIVE, 0, t)
                     else let (pr, sc, t) = schedcalcintparm p t in (sch, pr, sc, t));
                  t = t\<lparr>sched := type, prio := pr\<rparr>
              in (if schedisinteract sc then CurSet else NextSet, schedcalcqueue type pr, t)
         else let lim = SCHEDNCLASS * SCHEDNCLASSPRIO + SCHEDNIDLE - 1;
                  t = (if pr < lim then t\<lparr>prio := pr + 1\<rparr> else t)
              in (IdleSet, schedcalcqueue sch (prio t), t))"

text \<open>Appending to one queue of a table and marking it in the map.\<close>

definition readyappend :: "bool \<Rightarrow> bool \<Rightarrow> int \<Rightarrow> ptr \<Rightarrow> schedstate \<Rightarrow> schedstate option" where
  "readyappend tab mp qid a s =
     (if 0 \<le> qid \<and> qid < SCHEDNQUEUE
      then case setbitl SCHEDREADYMAPNWORD (readymap s mp) qid of
             None \<Rightarrow> None
           | Some m \<Rightarrow>
               let (h, q) = deqappend a (lnk s, readytab s tab qid)
               in Some (s\<lparr>readymap := (readymap s)(mp := m), lnk := h,
                          readytab := (readytab s)(tab := (readytab s tab)(qid := q))\<rparr>)
      else None)"

definition idleappend :: "int \<Rightarrow> ptr \<Rightarrow> schedstate \<Rightarrow> schedstate option" where
  "idleappend ndx a s =
     (if 0 \<le> ndx \<and> ndx < SCHEDNIDLE
      then case setbitl SCHEDIDLEMAPNWORD (idlemap s) ndx of
             None \<Rightarrow> None
           | Some m \<Rightarrow>
               let (h, q) = deqappend a (lnk s, idletab s ndx)
               in Some (s\<lparr>idlemap := m, lnk := h, idletab := (idletab s)(ndx := q)\<rparr>)
      else None)"

text \<open>
  \<open>deqpush\<close>, which tasks of the class \<open>SCHEDREALTIMERR\<close> are queued with, and \<open>deqappend\<close> are the
  same function on the single-type queue, although the comment on \<open>deqpush\<close> says that it adds to the
  beginning.  The load counters are as many as the words of a bit map.
\<close>

definition addload :: "int \<Rightarrow> schedstate \<Rightarrow> schedstate option" where
  "addload qid s =
     (if 0 \<le> qid \<and> qid < SCHEDLOADMAPNWORD
      then Some (s\<lparr>loadmap := (loadmap s)(qid := loadmap s qid + 1)\<rparr>) else None)"

section \<open>Deadline table\<close>

definition taskdlkey0 :: "int \<Rightarrow> int" where "taskdlkey0 dl = dl div 2 ^ 16 mod 2 ^ 16"
definition taskdlkey1 :: "int \<Rightarrow> int" where "taskdlkey1 dl = dl div 2 ^ 8 mod 2 ^ 8"
definition taskdlkey2 :: "int \<Rightarrow> int" where "taskdlkey2 dl = dl mod 2 ^ 8"

text \<open>
  The allocator is code of another component: the list \<open>allocs\<close> holds the blocks it will return,
  0 for a failure; a list that has run out fails.  \<open>kbzero\<close> follows every successful allocation.
\<close>

definition alloctab :: "schedstate \<Rightarrow> ptr \<times> schedstate" where
  "alloctab s =
     (let p = (case allocs s of [] \<Rightarrow> 0 | x # _ \<Rightarrow> x);
          s = s\<lparr>allocs := tl (allocs s)\<rparr>
      in (p, if p \<noteq> 0 then s\<lparr>tabmem := (tabmem s)(p := (\<lambda>_. 0))\<rparr> else s))"

definition allocqueue :: "schedstate \<Rightarrow> ptr \<times> schedstate" where
  "allocqueue s =
     (let p = (case allocs s of [] \<Rightarrow> 0 | x # _ \<Rightarrow> x);
          s = s\<lparr>allocs := tl (allocs s)\<rparr>
      in (p, if p \<noteq> 0 then s\<lparr>qlist := (qlist s)(p := (\<lambda>_. 0)), qlock := (qlock s)(p := 0)\<rparr> else s))"

definition settab :: "ptr \<Rightarrow> int \<Rightarrow> ptr \<Rightarrow> schedstate \<Rightarrow> schedstate" where
  "settab p i v s = s\<lparr>tabmem := (tabmem s)(p := (tabmem s p)(i := v))\<rparr>"

text \<open>\<open>tab->nref++\<close> on a table, its first word, and on an array of queues, the lock of the first.\<close>

definition tabref :: "ptr \<Rightarrow> schedstate \<Rightarrow> schedstate option" where
  "tabref p s = (if p = 0 then None else Some (settab p 0 (tabmem s p 0 + 1) s))"

definition queueref :: "ptr \<Rightarrow> schedstate \<Rightarrow> schedstate option" where
  "queueref p s = (if p = 0 then None else Some (s\<lparr>qlock := (qlock s)(p := qlock s p + 1)\<rparr>))"

definition queueappend :: "ptr \<Rightarrow> int \<Rightarrow> ptr \<Rightarrow> schedstate \<Rightarrow> schedstate option" where
  "queueappend queue key a s =
     (if queue = 0 then None
      else let (h, q) = deqappend a (lnk s, qlist s queue key)
           in Some (s\<lparr>lnk := h, qlist := (qlist s)(queue := (qlist s queue)(key := q))\<rparr>))"

definition schedsetdeadline :: "ptr \<Rightarrow> schedstate \<Rightarrow> schedstate option" where
  "schedsetdeadline a s =
     (let deadline = timelim (tasks s a);
          key0 = taskdlkey0 deadline; key1 = taskdlkey1 deadline; key2 = taskdlkey2 deadline;
          p = deadlinetab s key0;
          (p, ptab0, s) =
            (if p = 0
             then let (p, s) = alloctab s
                  in (p, p, s\<lparr>deadlinetab := (deadlinetab s)(key0 := p)\<rparr>)
             else (p, 0, s))
      in if p = 0 then Some s
         else let (queue, ptab1, s) =
                    (if tabmem s p key1 = 0
                     then let (q, s) = allocqueue s in (q, q, settab p key1 q s)
                     else (tabmem s p key1, 0, s))
              in Option.bind (queueappend queue key2 a s) (\<lambda>s.
                 Option.bind (tabref ptab0 s) (\<lambda>s.
                 queueref ptab1 (settab ptab0 1 ptab1 s))))"

section \<open>Wait table\<close>

definition taskwaitkey0 :: "int \<Rightarrow> int" where "taskwaitkey0 wc = wc div 2 ^ 24 mod 2 ^ 8"
definition taskwaitkey1 :: "int \<Rightarrow> int" where "taskwaitkey1 wc = wc div 2 ^ 16 mod 2 ^ 8"
definition taskwaitkey2 :: "int \<Rightarrow> int" where "taskwaitkey2 wc = wc div 2 ^ 8 mod 2 ^ 8"
definition taskwaitkey3 :: "int \<Rightarrow> int" where "taskwaitkey3 wc = wc mod 2 ^ 8"

definition schedsetwait :: "ptr \<Rightarrow> schedstate \<Rightarrow> schedstate option" where
  "schedsetwait a s =
     (let wtchan = waitchan (tasks s a);
          key0 = taskwaitkey0 wtchan; key1 = taskwaitkey1 wtchan;
          key2 = taskwaitkey2 wtchan; key3 = taskwaitkey3 wtchan;
          p = waittab s key0;
          (p, ptab0, s) =
            (if p = 0
             then let (p, s) = alloctab s
                  in (p, p, s\<lparr>waittab := (waittab s)(key0 := p)\<rparr>)
             else (p, 0, s))
      in if p = 0 then Some s
         else let (p1, s) = (if tabmem s p key1 = 0 then alloctab s else (tabmem s p key1, s));
                  s = settab p key1 p1 s;
                  ptab1 = p1
              in if p1 = 0 then Some s
                 else let (queue, ptab2, s) =
                            (if tabmem s p1 key2 = 0
                             then let (q, s) = allocqueue s in (q, q, settab p1 key2 q s)
                             else (tabmem s p1 key2, 0, s))
                      in Option.bind (queueappend queue key3 a s) (\<lambda>s.
                         Option.bind (tabref ptab0 s) (\<lambda>s.
                         Option.bind (tabref ptab1 (settab ptab0 1 ptab1 s)) (\<lambda>s.
                         queueref ptab2 (settab ptab1 1 ptab2 s)))))"

section \<open>Sleep queue\<close>

text \<open>
  The walk along the sleep queue ends at its last task; on a cyclic list it would not end, which is
  the value \<^const>\<open>None\<close>.
\<close>

partial_function (option) sleepwalk :: "ptr \<Rightarrow> ptr \<Rightarrow> schedstate \<Rightarrow> schedstate option" where
  "sleepwalk a sl s =
     (if sl \<noteq> 0 \<and> nxt (lnk s) sl \<noteq> 0
      then if timelim (tasks s a) < timelim (tasks s sl)
           then Some (s\<lparr>lnk := set_prev sl a (set_next a sl (set_prev a (prv (lnk s) sl) (lnk s)))\<rparr>)
           else sleepwalk a (nxt (lnk s) sl) s
      else Some (s\<lparr>lnk := set_next sl a (set_next a 0 (set_prev a sl (lnk s)))\<rparr>))"

definition schedsetsleep :: "ptr \<Rightarrow> schedstate \<Rightarrow> schedstate option" where
  "schedsetsleep a s =
     (if waitchan (tasks s a) \<noteq> 0 then schedsetwait a s
      else if sleepqueue s \<noteq> 0 then sleepwalk a (sleepqueue s) s
      else Some (s\<lparr>lnk := set_next a 0 (set_prev a 0 (lnk s)), sleepqueue := a\<rparr>))"

section \<open>Stopped tasks and zombies\<close>

definition schedsetstopped :: "ptr \<Rightarrow> schedstate \<Rightarrow> schedstate option" where
  "schedsetstopped a s =
     (let i = tid (tasks s a)
      in if 0 \<le> i \<and> i < NTASK then Some (s\<lparr>stoppedtab := (stoppedtab s)(i := a)\<rparr>) else None)"

definition schedsetzombie :: "ptr \<Rightarrow> schedstate \<Rightarrow> schedstate option" where
  "schedsetzombie pa s =
     (let qid = ppid (procs s pa)
      in if 0 \<le> qid \<and> qid < NTASK then Some (s\<lparr>zombietab := (zombietab s)(qid := pa)\<rparr>) else None)"

section \<open>Making a task ready\<close>

definition schedsetready :: "ptr \<Rightarrow> schedstate \<Rightarrow> schedstate option" where
  "schedsetready a s =
     (if sched (tasks s a) = SCHEDDEADLINE then schedsetdeadline a s
      else let (place, qid, t) = schedplace (procs s (procof s a)) (tasks s a);
               s = s\<lparr>tasks := (tasks s)(a := t)\<rparr>
           in Option.bind
                (case place of
                   CurSet \<Rightarrow> readyappend (cur s) (curmap s) qid a s
                 | NextSet \<Rightarrow> readyappend (nextset s) (nextmap s) qid a s
                 | IdleSet \<Rightarrow> idleappend (qid - schedclassminqueue SCHEDIDLE) a s)
                (addload qid))"

section \<open>Switching\<close>

definition schedswapqueues :: "schedstate \<Rightarrow> schedstate" where
  "schedswapqueues s =
     (let s = s\<lparr>nextset := cur s\<rparr>;
          s = s\<lparr>cur := nextset s\<rparr>;
          s = s\<lparr>nextmap := curmap s\<rparr>
      in s\<lparr>curmap := nextmap s\<rparr>)"

text \<open>
  The first marked queue of a map of \<open>lim\<close> words from word \<open>ndx\<close>; the offset always is
  within the table, so the loop ends at the first word that is not zero.
\<close>

function firstbit :: "int \<Rightarrow> int \<Rightarrow> (int \<Rightarrow> u32) \<Rightarrow> int option" where
  "firstbit ndx lim m =
     (if ndx < lim
      then if m ndx \<noteq> 0 then Some (ndx * 32 + int (tzero32 (m ndx))) else firstbit (ndx + 1) lim m
      else None)"
  by pat_completeness auto
termination by (relation "measure (\<lambda>(ndx, lim, _). nat (lim - ndx))") auto

declare firstbit.simps [simp del]

text \<open>One pass over the current ready table: the task returned, if the pass returns.\<close>

definition scanready :: "schedstate \<Rightarrow> (ptr \<times> schedstate) option" where
  "scanready s =
     (case firstbit 0 (SCHEDNQUEUE div 2 ^ 5) (readymap s (curmap s)) of
        Some ofs \<Rightarrow>
          let (a, h, q) = deqpop (lnk s, readytab s (cur s) ofs)
          in Some (a, s\<lparr>lnk := h, readytab := (readytab s)(cur s := (readytab s (cur s))(ofs := q))\<rparr>)
      | None \<Rightarrow> None)"

definition scanidle :: "schedstate \<Rightarrow> (ptr \<times> schedstate) option" where
  "scanidle s =
     (case firstbit 0 (SCHEDNIDLE div 2 ^ 5) (idlemap s) of
        Some ofs \<Rightarrow>
          let (a, h, q) = deqpop (lnk s, idletab s ofs)
          in Some (a, s\<lparr>lnk := h, idletab := (idletab s)(ofs := q)\<rparr>)
      | None \<Rightarrow> None)"

text \<open>
  The outer loop: two passes over the ready tables with \<open>schedswapqueues\<close> between them, then the
  idle queues; when nothing is found the processor \<open>unit\<close> is marked in the map of the idle queues
  and waits for an interrupt, whose handlers are the parameter \<open>intr\<close>.
\<close>

partial_function (option) schedloop ::
  "(schedstate \<Rightarrow> schedstate) \<Rightarrow> int \<Rightarrow> schedstate \<Rightarrow> (ptr \<times> schedstate) option" where
  "schedloop intr unit s =
     (case scanready s of
        Some r \<Rightarrow> Some r
      | None \<Rightarrow>
          let s = schedswapqueues s
          in case scanready s of
               Some r \<Rightarrow> Some r
             | None \<Rightarrow>
                 (case scanidle s of
                    Some r \<Rightarrow> Some r
                  | None \<Rightarrow>
                      (case setbitl SCHEDIDLEMAPNWORD (idlemap s) unit of
                         None \<Rightarrow> None
                       | Some m \<Rightarrow> schedloop intr unit (intr (s\<lparr>idlemap := m\<rparr>)))))"

text \<open>A null current task returns at once; an unknown state ends in \<open>panic\<close>.\<close>

datatype switched = Task ptr schedstate | Panic | Undef

definition schedswitchtask :: "(schedstate \<Rightarrow> schedstate) \<Rightarrow> int \<Rightarrow> ptr \<Rightarrow> schedstate \<Rightarrow> switched" where
  "schedswitchtask intr unit a s =
     (if a = 0 then Task 0 s
      else let st = tstate (tasks s a);
               go = (\<lambda>r. case Option.bind r (schedloop intr unit) of
                           None \<Rightarrow> Undef | Some (t, s) \<Rightarrow> Task t s)
           in if st = TASKNEW \<or> st = TASKREADY then go (schedsetready a s)
              else if st = TASKSLEEPING then go (schedsetsleep a s)
              else if st = TASKSTOPPED then go (schedsetstopped a s)
              else if st = TASKZOMBIE then go (schedsetzombie (procof s a) s)
              else Panic)"

section \<open>Facts on bit maps\<close>

definition marked :: "(int \<Rightarrow> u32) \<Rightarrow> int \<Rightarrow> bool" where
  "marked m i \<longleftrightarrow> bit (m (i div 32)) (nat (i mod 32))"

lemma bit_pow2: "bit (2 ^ n :: u32) k \<longleftrightarrow> k = n \<and> n < 32"
  by (auto simp: bit_exp_iff)

lemma same_bit: "i div 32 = (j :: int) div 32 \<Longrightarrow> nat (i mod 32) = nat (j mod 32) \<Longrightarrow> i = j"
  by (metis div_mult_mod_eq eq_nat_nat_iff pos_mod_sign zero_less_numeral)

lemma bitsetl_marked: "bitsetl m b \<longleftrightarrow> marked m b"
  by (simp add: bitsetl_def marked_def and_exp_eq_0_iff_not_bit)

lemma setbitl_marked:
  assumes "setbitl n m b = Some m'"
  shows "marked m' i \<longleftrightarrow> marked m i \<or> i = b"
proof -
  have b: "m' = m(b div 32 := m (b div 32) OR push_bit (nat (b mod 32)) 1)"
    using assms by (simp add: setbitl_def split: if_splits)
  have "nat (b mod 32) < 32" by (simp add: nat_less_iff)
  then show ?thesis
    using same_bit [of i b] by (auto simp: b marked_def bit_or_iff bit_pow2)
qed

lemma firstbit_spec:
  assumes "0 \<le> ndx"
  shows "case firstbit ndx lim m of
      Some ofs \<Rightarrow> ndx * 32 \<le> ofs \<and> ofs < lim * 32 \<and> marked m ofs \<and> (\<forall>j. ndx * 32 \<le> j \<and> j < ofs \<longrightarrow> \<not> marked m j)
    | None \<Rightarrow> \<forall>j. ndx * 32 \<le> j \<and> j < lim * 32 \<longrightarrow> \<not> marked m j"
  using assms
proof (induction ndx lim m rule: firstbit.induct)
  case (1 ndx lim m)
  have word: "j div 32 = ndx" if "ndx * 32 \<le> j" "j < ndx * 32 + 32" for j
    using that by (intro int_div_pos_eq [of _ _ _ "j - ndx * 32"]) auto
  show ?case
  proof (cases "ndx < lim \<and> m ndx = 0")
    case True
    then have none: "\<not> marked m j" if "ndx * 32 \<le> j" "j < ndx * 32 + 32" for j
      using word [OF that] by (simp add: marked_def)
    have eq: "firstbit ndx lim m = firstbit (ndx + 1) lim m" using True by (simp add: firstbit.simps [of ndx])
    have "case firstbit (ndx + 1) lim m of
        Some ofs \<Rightarrow> (ndx + 1) * 32 \<le> ofs \<and> ofs < lim * 32 \<and> marked m ofs \<and>
          (\<forall>j. (ndx + 1) * 32 \<le> j \<and> j < ofs \<longrightarrow> \<not> marked m j)
      | None \<Rightarrow> \<forall>j. (ndx + 1) * 32 \<le> j \<and> j < lim * 32 \<longrightarrow> \<not> marked m j"
      using True 1 by simp
    moreover have "j < ndx * 32 + 32 \<or> (ndx + 1) * 32 \<le> j" for j by presburger
    ultimately show ?thesis unfolding eq using none by (auto split: option.splits)
  next
    case False
    show ?thesis
    proof (cases "ndx < lim")
      case True
      define z where "z = tzero32 (m ndx)"
      have ctz: "is_ctz (m ndx) z" using tzero32_ctz [of "m ndx"] False True by (simp add: z_def)
      then have b: "bit (m ndx) z" "\<And>i. i < z \<Longrightarrow> \<not> bit (m ndx) i" by (auto simp: is_ctz_def)
      have z: "z < 32" using b(1) bit_imp_le_length [of "m ndx" z] by simp
      have fb: "firstbit ndx lim m = Some (ndx * 32 + int z)"
        using False True by (simp add: firstbit.simps [of ndx] z_def)
      have mk: "marked m (ndx * 32 + int i) \<longleftrightarrow> bit (m ndx) i" if "i < 32" for i
        using that by (simp add: marked_def)
      have "\<not> marked m j" if "ndx * 32 \<le> j" "j < ndx * 32 + int z" for j
        using mk [of "nat (j - ndx * 32)"] b(2) [of "nat (j - ndx * 32)"] that z by auto
      then show ?thesis using fb mk [OF z] b(1) z True by auto
    next
      case no: False
      then show ?thesis by (auto simp: firstbit.simps [of ndx])
    qed
  qed
qed

section \<open>Banks of queues in one heap\<close>

text \<open>
  Several queues whose items share the link fields.  The contract: an operation on one queue touches
  only links of its own items, so that the other queues of the bank are unchanged.  \<open>rest\<close> is what a
  removal leaves of the remaining items.
\<close>

definition bank :: "(links \<times> ptr \<Rightarrow> ptr list \<Rightarrow> bool) \<Rightarrow> links \<Rightarrow> ('i \<Rightarrow> ptr) \<Rightarrow> ('i \<Rightarrow> ptr list) \<Rightarrow> 'i set \<Rightarrow> bool" where
  "bank rep h heads Q V \<longleftrightarrow>
     (\<forall>i\<in>V. rep (h, heads i) (Q i)) \<and>
     (\<forall>i\<in>V. \<forall>j\<in>V. i \<noteq> j \<longrightarrow> set (Q i) \<inter> set (Q j) = {})"

lemma bankI:
  assumes "\<And>i. i \<in> V \<Longrightarrow> rep (h, heads i) (Q i)"
    "\<And>i j. i \<in> V \<Longrightarrow> j \<in> V \<Longrightarrow> i \<noteq> j \<Longrightarrow> set (Q i) \<inter> set (Q j) = {}"
  shows "bank rep h heads Q V"
  using assms by (simp add: bank_def)

lemma bankD:
  assumes "bank rep h heads Q V" "i \<in> V"
  shows "rep (h, heads i) (Q i)" "j \<in> V \<Longrightarrow> i \<noteq> j \<Longrightarrow> set (Q i) \<inter> set (Q j) = {}"
  using assms unfolding bank_def by blast+

locale queue_bank =
  fixes rep :: "links \<times> ptr \<Rightarrow> ptr list \<Rightarrow> bool"
    and append_op :: "ptr \<Rightarrow> links \<times> ptr \<Rightarrow> links \<times> ptr"
    and pop_op :: "links \<times> ptr \<Rightarrow> ptr \<times> links \<times> ptr"
    and rest :: "ptr list \<Rightarrow> ptr list"
  assumes append_law: "rep s xs \<Longrightarrow> x \<notin> set xs \<Longrightarrow> x \<noteq> 0 \<Longrightarrow> rep (append_op x s) (xs @ [x])"
    and pop_law: "rep s (x # xs) \<Longrightarrow> fst (pop_op s) = x \<and> rep (snd (pop_op s)) (rest xs)"
    and rest_law: "set (rest xs) \<subseteq> set xs"
    and append_frame: "rep (h, q) xs \<Longrightarrow> frame (insert x (set xs)) h (fst (append_op x (h, q)))"
    and pop_frame: "rep (h, q) xs \<Longrightarrow> frame (set xs) h (fst (snd (pop_op (h, q))))"
    and frame_law: "frame A h h' \<Longrightarrow> A \<inter> set ys = {} \<Longrightarrow> rep (h', q) ys = rep (h, q) ys"
begin

lemma bank_append:
  assumes b: "bank rep h heads Q V" and i: "i \<in> V" and x: "x \<noteq> 0" "\<And>j. j \<in> V \<Longrightarrow> x \<notin> set (Q j)"
    and op: "append_op x (h, heads i) = (h', q)"
  shows "bank rep h' (heads(i := q)) (Q(i := Q i @ [x])) V"
proof (rule bankI)
  have fr: "frame (insert x (set (Q i))) h h'" using append_frame [OF bankD(1) [OF b i], of x] op by simp
  have new: "rep (h', q) (Q i @ [x])" using append_law [OF bankD(1) [OF b i] x(2) [OF i] x(1)] op by simp
  show "rep (h', (heads(i := q)) j) ((Q(i := Q i @ [x])) j)" if "j \<in> V" for j
    using new frame_law [OF fr, of "Q j" "heads j"] bankD(1) [OF b that] bankD(2) [OF b i that] x(2) [OF that]
    by auto
  show "set ((Q(i := Q i @ [x])) j) \<inter> set ((Q(i := Q i @ [x])) k) = {}"
    if "j \<in> V" "k \<in> V" "j \<noteq> k" for j k
    using that bankD(2) [OF b that] x(2) by auto
qed

lemma bank_pop:
  assumes b: "bank rep h heads Q V" and i: "i \<in> V" and Q: "Q i = x # xs"
    and op: "pop_op (h, heads i) = (y, h', q)"
  shows "y = x \<and> bank rep h' (heads(i := q)) (Q(i := rest xs)) V"
proof
  have r: "rep (h, heads i) (x # xs)" using bankD(1) [OF b i] Q by simp
  have fr: "frame (set (x # xs)) h h'" using pop_frame [OF r] op by simp
  have new: "y = x" "rep (h', q) (rest xs)" using pop_law [OF r] op by simp_all
  show "y = x" by (rule new)
  show "bank rep h' (heads(i := q)) (Q(i := rest xs)) V"
  proof (rule bankI)
    show "rep (h', (heads(i := q)) j) ((Q(i := rest xs)) j)" if "j \<in> V" for j
      using new frame_law [OF fr, of "Q j" "heads j"] bankD(1) [OF b that] bankD(2) [OF b i that] Q by auto
    show "set ((Q(i := rest xs)) j) \<inter> set ((Q(i := rest xs)) k) = {}" if "j \<in> V" "k \<in> V" "j \<noteq> k" for j k
      using that bankD(2) [OF b that] rest_law [of xs] Q by auto blast+
  qed
qed

end

definition deqrest :: "ptr list \<Rightarrow> ptr list" where
  "deqrest xs = (if length xs = 1 then [] else xs)"

interpretation sbank: queue_bank deq_rep deqappend deqpop deqrest
proof unfold_locales
  show "deq_rep s (x # xs) \<Longrightarrow> fst (deqpop s) = x \<and> deq_rep (snd (deqpop s)) (deqrest xs)" for s x xs
    unfolding deqrest_def by (rule deqpop_rep)
  show "set (deqrest xs) \<subseteq> set xs" for xs by (simp add: deqrest_def)
qed (fact deqappend_rep deqappend_frame deqpop_frame frame_rep)+

section \<open>The queues of the scheduler as lists\<close>

datatype qref = RQ bool int | IQ int

definition allqueues :: "qref set" where
  "allqueues = {RQ b i | b i. 0 \<le> i \<and> i < SCHEDNQUEUE} \<union> {IQ i | i. 0 \<le> i \<and> i < SCHEDNIDLE}"

fun qhead :: "schedstate \<Rightarrow> qref \<Rightarrow> ptr" where
  "qhead s (RQ b i) = readytab s b i"
| "qhead s (IQ i) = idletab s i"

fun qmark :: "schedstate \<Rightarrow> qref \<Rightarrow> bool" where
  "qmark s (RQ b i) = marked (readymap s b) i"
| "qmark s (IQ i) = marked (idlemap s) i"

definition sched_rep :: "schedstate \<Rightarrow> (qref \<Rightarrow> ptr list) \<Rightarrow> bool" where
  "sched_rep s Q \<longleftrightarrow>
     bank deq_rep (lnk s) (qhead s) Q allqueues \<and> curmap s = cur s \<and> nextmap s = nextset s \<and>
     (\<forall>q\<in>allqueues. Q q \<noteq> [] \<longrightarrow> qmark s q)"

definition target :: "schedstate \<Rightarrow> place \<Rightarrow> int \<Rightarrow> qref" where
  "target s pl qid =
     (case pl of CurSet \<Rightarrow> RQ (cur s) qid | NextSet \<Rightarrow> RQ (nextset s) qid
               | IdleSet \<Rightarrow> IQ (qid - schedclassminqueue SCHEDIDLE))"

lemma allqueues_simps [simp]:
  "RQ b i \<in> allqueues \<longleftrightarrow> 0 \<le> i \<and> i < SCHEDNQUEUE" "IQ i \<in> allqueues \<longleftrightarrow> 0 \<le> i \<and> i < SCHEDNIDLE"
  by (auto simp: allqueues_def)

lemma sched_repD:
  assumes "sched_rep s Q"
  shows "bank deq_rep (lnk s) (qhead s) Q allqueues" "curmap s = cur s" "nextmap s = nextset s"
    "\<And>q. q \<in> allqueues \<Longrightarrow> Q q \<noteq> [] \<Longrightarrow> qmark s q"
  using assms unfolding sched_rep_def by blast+

lemma sched_repI:
  assumes "bank deq_rep (lnk s) (qhead s) Q allqueues" "curmap s = cur s" "nextmap s = nextset s"
    "\<And>q. q \<in> allqueues \<Longrightarrow> Q q \<noteq> [] \<Longrightarrow> qmark s q"
  shows "sched_rep s Q"
  using assms unfolding sched_rep_def by blast

lemma sched_rep_cong:
  assumes "sched_rep s Q" "lnk s' = lnk s" "readytab s' = readytab s" "idletab s' = idletab s"
    "readymap s' = readymap s" "idlemap s' = idlemap s" "curmap s' = curmap s" "cur s' = cur s"
    "nextmap s' = nextmap s" "nextset s' = nextset s"
  shows "sched_rep s' Q"
proof -
  have "qhead s' = qhead s" by (rule ext, case_tac x) (simp_all add: assms)
  moreover have "qmark s' = qmark s" by (rule ext, case_tac x) (simp_all add: assms)
  ultimately show ?thesis using assms by (simp add: sched_rep_def)
qed

lemma sched_rep_enqueue:
  assumes rep: "sched_rep s Q" and q: "q \<in> allqueues" and a: "a \<noteq> 0" "\<forall>q\<in>allqueues. a \<notin> set (Q q)"
    and op: "deqappend a (lnk s, qhead s q) = (h, p)"
    and st: "lnk s' = h" "qhead s' = (qhead s)(q := p)" "\<And>r. qmark s r \<or> r = q \<longleftrightarrow> qmark s' r"
      "curmap s' = curmap s" "cur s' = cur s" "nextmap s' = nextmap s" "nextset s' = nextset s"
  shows "sched_rep s' (Q(q := Q q @ [a]))"
proof -
  have b: "bank deq_rep (lnk s) (qhead s) Q allqueues" using rep by (simp add: sched_rep_def)
  have "bank deq_rep h ((qhead s)(q := p)) (Q(q := Q q @ [a])) allqueues"
    using sbank.bank_append [OF b q a(1) _ op] a(2) by blast
  moreover have "\<forall>r\<in>allqueues. (Q(q := Q q @ [a])) r \<noteq> [] \<longrightarrow> qmark s' r"
    using rep st(3) by (auto simp: sched_rep_def)
  ultimately show ?thesis using rep st(1,2,4-7) by (simp add: sched_rep_def)
qed

lemma readyappend_rep:
  assumes "sched_rep s Q" "RQ tab qid \<in> allqueues" "a \<noteq> 0" "\<forall>q\<in>allqueues. a \<notin> set (Q q)"
  shows "\<exists>s'. readyappend tab tab qid a s = Some s' \<and> sched_rep s' (Q(RQ tab qid := Q (RQ tab qid) @ [a])) \<and>
    tasks s' = tasks s \<and> loadmap s' = loadmap s \<and> cur s' = cur s \<and> (\<forall>r. qmark s' r \<longleftrightarrow> qmark s r \<or> r = RQ tab qid)"
proof -
  have r: "0 \<le> qid" "qid < SCHEDNQUEUE" using assms(2) by simp_all
  then have "qid div 32 < SCHEDREADYMAPNWORD" by (simp add: sched_consts map_consts)
  then obtain m where m: "setbitl SCHEDREADYMAPNWORD (readymap s tab) qid = Some m"
    using r by (simp add: setbitl_def)
  obtain h p where op: "deqappend a (lnk s, qhead s (RQ tab qid)) = (h, p)" by (meson surj_pair)
  define s' where "s' = s\<lparr>readymap := (readymap s)(tab := m), lnk := h,
      readytab := (readytab s)(tab := (readytab s tab)(qid := p))\<rparr>"
  have "readyappend tab tab qid a s = Some s'" using m op r by (simp add: readyappend_def s'_def)
  moreover have mk: "qmark s' r \<longleftrightarrow> qmark s r \<or> r = RQ tab qid" for r
    using setbitl_marked [OF m] by (cases r) (auto simp: s'_def)
  moreover have "sched_rep s' (Q(RQ tab qid := Q (RQ tab qid) @ [a]))"
  proof (rule sched_rep_enqueue [OF assms(1,2,3,4) op])
    show "qhead s' = (qhead s)(RQ tab qid := p)" by (rule ext, case_tac x) (auto simp: s'_def)
    show "qmark s r \<or> r = RQ tab qid \<longleftrightarrow> qmark s' r" for r using mk [of r] by blast
  qed (simp_all add: s'_def)
  ultimately show ?thesis by (auto simp: s'_def)
qed

lemma idleappend_rep:
  assumes "sched_rep s Q" "IQ ndx \<in> allqueues" "a \<noteq> 0" "\<forall>q\<in>allqueues. a \<notin> set (Q q)"
  shows "\<exists>s'. idleappend ndx a s = Some s' \<and> sched_rep s' (Q(IQ ndx := Q (IQ ndx) @ [a])) \<and>
    tasks s' = tasks s \<and> loadmap s' = loadmap s \<and> cur s' = cur s \<and> (\<forall>r. qmark s' r \<longleftrightarrow> qmark s r \<or> r = IQ ndx)"
proof -
  have r: "0 \<le> ndx" "ndx < SCHEDNIDLE" using assms(2) by simp_all
  then have "ndx div 32 < SCHEDIDLEMAPNWORD" by (simp add: sched_consts map_consts)
  then obtain m where m: "setbitl SCHEDIDLEMAPNWORD (idlemap s) ndx = Some m"
    using r by (simp add: setbitl_def)
  obtain h p where op: "deqappend a (lnk s, qhead s (IQ ndx)) = (h, p)" by (meson surj_pair)
  define s' where "s' = s\<lparr>idlemap := m, lnk := h, idletab := (idletab s)(ndx := p)\<rparr>"
  have "idleappend ndx a s = Some s'" using m op r by (simp add: idleappend_def s'_def)
  moreover have mk: "qmark s' r \<longleftrightarrow> qmark s r \<or> r = IQ ndx" for r
    using setbitl_marked [OF m] by (cases r) (auto simp: s'_def)
  moreover have "sched_rep s' (Q(IQ ndx := Q (IQ ndx) @ [a]))"
  proof (rule sched_rep_enqueue [OF assms(1,2,3,4) op])
    show "qhead s' = (qhead s)(IQ ndx := p)" by (rule ext, case_tac x) (auto simp: s'_def)
    show "qmark s r \<or> r = IQ ndx \<longleftrightarrow> qmark s' r" for r using mk [of r] by blast
  qed (simp_all add: s'_def)
  ultimately show ?thesis by (auto simp: s'_def)
qed

lemma schedsetready_rep:
  assumes rep: "sched_rep s Q" and a: "a \<noteq> 0" "\<forall>q\<in>allqueues. a \<notin> set (Q q)"
    and sch: "sched (tasks s a) \<noteq> SCHEDDEADLINE"
    and pl: "schedplace (procs s (procof s a)) (tasks s a) = (pl, qid, t)"
    and q: "q = target s pl qid" "q \<in> allqueues" "qid < SCHEDLOADMAPNWORD"
  shows "\<exists>s'. schedsetready a s = Some s' \<and> sched_rep s' (Q(q := Q q @ [a])) \<and>
     tasks s' = (tasks s)(a := t) \<and> loadmap s' = (loadmap s)(qid := loadmap s qid + 1) \<and>
     cur s' = cur s \<and> (\<forall>r. qmark s' r \<longleftrightarrow> qmark s r \<or> r = q)"
proof -
  define s1 where "s1 = s\<lparr>tasks := (tasks s)(a := t)\<rparr>"
  have rep1: "sched_rep s1 Q" by (rule sched_rep_cong [OF rep]) (simp_all add: s1_def)
  have mk1: "qmark s1 r = qmark s r" for r by (cases r) (simp_all add: s1_def)
  have pair: "curmap s1 = cur s1" "nextmap s1 = nextset s1" using rep1 by (simp_all add: sched_rep_def)
  define res where "res = (case pl of
                   CurSet \<Rightarrow> readyappend (cur s1) (curmap s1) qid a s1
                 | NextSet \<Rightarrow> readyappend (nextset s1) (nextmap s1) qid a s1
                 | IdleSet \<Rightarrow> idleappend (qid - schedclassminqueue SCHEDIDLE) a s1)"
  have q0: "0 \<le> qid" using q by (cases pl) (simp_all add: target_def sched_consts)
  have tq: "q = target s1 pl qid" by (cases pl) (simp_all add: q(1) target_def s1_def)
  have "\<exists>s2. res = Some s2 \<and> sched_rep s2 (Q(q := Q q @ [a])) \<and>
      tasks s2 = tasks s1 \<and> loadmap s2 = loadmap s1 \<and> cur s2 = cur s1 \<and> (\<forall>r. qmark s2 r \<longleftrightarrow> qmark s1 r \<or> r = q)"
  proof (cases pl)
    case CurSet
    then show ?thesis using readyappend_rep [OF rep1 _ a, of "cur s1" qid] tq q(2) by (simp add: res_def target_def pair)
  next
    case NextSet
    then show ?thesis using readyappend_rep [OF rep1 _ a, of "nextset s1" qid] tq q(2) by (simp add: res_def target_def pair)
  next
    case IdleSet
    then show ?thesis using idleappend_rep [OF rep1 _ a, of "qid - schedclassminqueue SCHEDIDLE"] tq q(2)
      by (simp add: res_def target_def)
  qed
  then obtain s2 where s2: "res = Some s2" "sched_rep s2 (Q(q := Q q @ [a]))"
      "tasks s2 = tasks s1" "loadmap s2 = loadmap s1" "cur s2 = cur s1" "\<forall>r. qmark s2 r \<longleftrightarrow> qmark s1 r \<or> r = q"
    by blast
  define s3 where "s3 = s2\<lparr>loadmap := (loadmap s2)(qid := loadmap s2 qid + 1)\<rparr>"
  have "schedsetready a s = Option.bind res (addload qid)"
    using sch pl by (cases pl) (simp_all add: schedsetready_def res_def s1_def)
  then have "schedsetready a s = Some s3" using s2(1) q(3) q0 by (simp add: addload_def s3_def)
  moreover have "sched_rep s3 (Q(q := Q q @ [a]))"
    by (rule sched_rep_cong [OF s2(2)]) (simp_all add: s3_def)
  moreover have "qmark s3 r = qmark s2 r" for r by (cases r) (simp_all add: s3_def)
  moreover have "tasks s3 = (tasks s)(a := t)" "cur s3 = cur s" "loadmap s3 = (loadmap s)(qid := loadmap s qid + 1)"
    using s2(3-5) by (simp_all add: s3_def s1_def)
  ultimately show ?thesis using s2(6) mk1 by auto
qed

lemma schedsetready_outside:
  assumes "sched (tasks s a) \<noteq> SCHEDDEADLINE" "schedplace (procs s (procof s a)) (tasks s a) = (pl, qid, t)"
    and "SCHEDLOADMAPNWORD \<le> qid"
  shows "schedsetready a s = None"
  using assms by (cases pl) (simp_all add: schedsetready_def addload_def [abs_def] bind_eq_None_conv)

lemma firstbit_unique:
  assumes "marked m i" "0 \<le> i" "i < SCHEDNQUEUE" "\<forall>j. 0 \<le> j \<and> j < i \<longrightarrow> \<not> marked m j"
  shows "firstbit 0 (SCHEDNQUEUE div 2 ^ 5) m = Some i"
proof -
  note sp = firstbit_spec [of 0 "SCHEDNQUEUE div 2 ^ 5" m, simplified]
  have lim: "i < SCHEDNQUEUE div 32 * 32" using assms(3) by (simp add: sched_consts)
  show ?thesis
  proof (cases "firstbit 0 (SCHEDNQUEUE div 2 ^ 5) m")
    case None
    then show ?thesis using sp lim assms(1,2) by simp
  next
    case (Some ofs)
    then have "0 \<le> ofs" "marked m ofs" "\<not> i < ofs" using sp assms(1,2) by auto
    then show ?thesis using assms(4) Some by (cases "ofs < i") auto
  qed
qed

lemma scanready_first:
  assumes rep: "sched_rep s Q" and i: "0 \<le> i" "i < SCHEDNQUEUE" and Q: "Q (RQ (cur s) i) = x # xs"
    and low: "\<forall>j. 0 \<le> j \<and> j < i \<longrightarrow> \<not> qmark s (RQ (cur s) j)"
  shows "\<exists>s'. scanready s = Some (x, s') \<and> sched_rep s' (Q(RQ (cur s) i := deqrest xs)) \<and>
    cur s' = cur s \<and> curmap s' = curmap s \<and> readymap s' = readymap s"
proof -
  have b: "bank deq_rep (lnk s) (qhead s) Q allqueues" and cm: "curmap s = cur s"
    and mi: "marked (readymap s (cur s)) i"
    using sched_repD(1,2) [OF rep] sched_repD(4) [OF rep, of "RQ (cur s) i"] i Q by simp_all
  have "firstbit 0 (SCHEDNQUEUE div 2 ^ 5) (readymap s (cur s)) = Some i"
    using firstbit_unique [OF mi i] low by simp
  moreover obtain y h p where op: "deqpop (lnk s, qhead s (RQ (cur s) i)) = (y, h, p)" by (metis prod.collapse)
  ultimately have sc: "scanready s = Some (y, s\<lparr>lnk := h, readytab := (readytab s)(cur s := (readytab s (cur s))(i := p))\<rparr>)"
    by (simp add: scanready_def cm)
  define s' where "s' = s\<lparr>lnk := h, readytab := (readytab s)(cur s := (readytab s (cur s))(i := p))\<rparr>"
  have pop: "y = x" "bank deq_rep h ((qhead s)(RQ (cur s) i := p)) (Q(RQ (cur s) i := deqrest xs)) allqueues"
    using sbank.bank_pop [OF b _ Q op] i by auto
  have "qhead s' = (qhead s)(RQ (cur s) i := p)" by (rule ext, case_tac x) (auto simp: s'_def)
  moreover have "qmark s' r = qmark s r" for r by (cases r) (simp_all add: s'_def)
  moreover have "qmark s r" if "r \<in> allqueues" "(Q(RQ (cur s) i := deqrest xs)) r \<noteq> []" for r
    using sched_repD(4) [OF rep that(1)] that(2) mi by (cases "r = RQ (cur s) i") auto
  moreover have "lnk s' = h" "curmap s' = cur s'" "nextmap s' = nextset s'"
    using sched_repD(2,3) [OF rep] by (simp_all add: s'_def)
  ultimately have "sched_rep s' (Q(RQ (cur s) i := deqrest xs))"
    using pop(2) by (intro sched_repI) simp_all
  then show ?thesis using sc pop(1) by (auto simp: s'_def)
qed

text \<open>The mark of an empty queue ends the search with the null task.\<close>

lemma scanready_stale:
  assumes rep: "sched_rep s Q" and i: "0 \<le> i" "i < SCHEDNQUEUE" and Q: "Q (RQ (cur s) i) = []"
    and mk: "qmark s (RQ (cur s) i)" and low: "\<forall>j. 0 \<le> j \<and> j < i \<longrightarrow> \<not> qmark s (RQ (cur s) j)"
  shows "\<exists>s'. scanready s = Some (0, s') \<and> sched_rep s' Q"
proof -
  have cm: "curmap s = cur s" and z: "readytab s (cur s) i = 0"
    using sched_repD(2) [OF rep] bankD(1) [OF sched_repD(1) [OF rep], of "RQ (cur s) i"] i Q
    by (simp_all add: deq_rep_def)
  have "firstbit 0 (SCHEDNQUEUE div 2 ^ 5) (readymap s (curmap s)) = Some i"
    using firstbit_unique [of "readymap s (cur s)" i] i mk low cm by simp
  then have "scanready s = Some (0, s)" using z by (simp add: scanready_def cm deqpop_def fun_upd_idem)
  then show ?thesis using rep by blast
qed

section \<open>Properties\<close>

text \<open>
  C40: a task of any class but the deadline class is made ready as follows.  When the number of the
  queue that its class and priority select is below the number of load counters, which is 8, the task
  becomes the last one of that queue, also where the code calls \<open>deqpush\<close>; the queue is marked and its
  load counter raised, and every other queue keeps its tasks.  For every other queue number the load
  counter that is read and written lies outside the array.
\<close>

theorem schedsetready_enqueues:
  assumes "sched_rep s Q" "a \<noteq> 0" "\<forall>q\<in>allqueues. a \<notin> set (Q q)"
    and "sched (tasks s a) \<noteq> SCHEDDEADLINE"
    and "schedplace (procs s (procof s a)) (tasks s a) = (pl, qid, t)"
    and "target s pl qid \<in> allqueues"
  shows "if qid < SCHEDLOADMAPNWORD
    then \<exists>s'. schedsetready a s = Some s' \<and>
           sched_rep s' (Q(target s pl qid := Q (target s pl qid) @ [a])) \<and> qmark s' (target s pl qid) \<and>
           tasks s' = (tasks s)(a := t) \<and> loadmap s' = (loadmap s)(qid := loadmap s qid + 1)
    else schedsetready a s = None"
  using schedsetready_rep [OF assms(1-5) refl assms(6)] schedsetready_outside [OF assms(4,5)] by fastforce

definition idle_sched :: schedstate where
  "idle_sched = \<lparr>tasks = (\<lambda>_. sleeper\<lparr>sched := SCHEDTRAP, prio := 5, tstate := TASKREADY\<rparr>),
     procof = (\<lambda>_. 9), procs = (\<lambda>_. \<lparr>nice = 0, niceval = 0, ppid = 1\<rparr>),
     lnk = \<lparr>nxt = (\<lambda>_. 0), prv = (\<lambda>_. 0)\<rparr>, readytab = (\<lambda>_ _. 0), idletab = (\<lambda>_. 0),
     readymap = (\<lambda>_ _. 0), idlemap = (\<lambda>_. 0), idlecoremap = (\<lambda>_. 0), loadmap = (\<lambda>_. 0),
     cur = False, nextset = True, curmap = False, nextmap = True, stoppedtab = (\<lambda>_. 0), zombietab = (\<lambda>_. 0),
     sleepqueue = 0, deadlinetab = (\<lambda>_. 0), waittab = (\<lambda>_. 0), tabmem = (\<lambda>_ _. 0), qlist = (\<lambda>_ _. 0),
     qlock = (\<lambda>_. 0), allocs = [1000, 2000]\<rparr>"

lemma idle_sched_rep: "sched_rep idle_sched (\<lambda>_. [])"
proof (rule sched_repI)
  have "qhead idle_sched q = 0" for q by (cases q) (simp_all add: idle_sched_def)
  then show "bank deq_rep (lnk idle_sched) (qhead idle_sched) (\<lambda>_. []) allqueues"
    by (simp add: bank_def deq_rep_def)
qed (simp_all add: idle_sched_def)

lemma idle_sched_place:
  "schedplace (procs idle_sched (procof idle_sched 5)) (tasks idle_sched 5) = (CurSet, 5, tasks idle_sched 5)"
  by (simp add: schedplace_def schedcalctrapqueue_def idle_sched_def sched_consts)

theorem schedsetready_enqueues_witness:
  "\<exists>s'. schedsetready 5 idle_sched = Some s' \<and> sched_rep s' ((\<lambda>_. [])(RQ False 5 := [5])) \<and> loadmap s' 5 = 1"
  using schedsetready_enqueues [OF idle_sched_rep, of 5 CurSet 5 "tasks idle_sched 5"] idle_sched_place
  by (simp add: target_def idle_sched_def sched_consts map_consts) fastforce

text \<open>
  C39: a ready task that yields is put on the queue its class and priority select, unless the number of
  that queue is 8 or more, where the load counter lies outside its array.  Then the first queue of the
  current set that is marked decides.  When it has tasks, the first of them is switched to; the others
  stay, except that a single one is lost.  When it is empty, as its mark is never cleared, the null
  task is returned whatever waits in the queues behind.
\<close>

theorem schedswitchtask_highest:
  assumes "sched_rep s Q" "a \<noteq> 0" "\<forall>q\<in>allqueues. a \<notin> set (Q q)"
    and "tstate (tasks s a) = TASKREADY" "sched (tasks s a) \<noteq> SCHEDDEADLINE"
    and "schedplace (procs s (procof s a)) (tasks s a) = (pl, qid, t)"
    and "q = target s pl qid" "q \<in> allqueues" "Q1 = Q(q := Q q @ [a])"
    and "0 \<le> i" "i < SCHEDNQUEUE" "qmark s (RQ (cur s) i) \<or> RQ (cur s) i = q"
    and "\<forall>j. 0 \<le> j \<and> j < i \<longrightarrow> \<not> qmark s (RQ (cur s) j) \<and> RQ (cur s) j \<noteq> q"
  shows "if qid < SCHEDLOADMAPNWORD
    then \<exists>s'. case Q1 (RQ (cur s) i) of
        [] \<Rightarrow> schedswitchtask intr unit a s = Task 0 s' \<and> sched_rep s' Q1
      | x # xs \<Rightarrow> schedswitchtask intr unit a s = Task x s' \<and>
          sched_rep s' (Q1(RQ (cur s) i := (if length xs = 1 then [] else xs)))
    else schedswitchtask intr unit a s = Undef"
proof (cases "qid < SCHEDLOADMAPNWORD")
  case True
  obtain s1 where s1: "schedsetready a s = Some s1" "sched_rep s1 Q1" "cur s1 = cur s"
      "\<And>r. qmark s1 r \<longleftrightarrow> qmark s r \<or> r = q"
    using schedsetready_rep [OF assms(1-3,5-8) True] unfolding assms(9) by blast
  have low: "\<forall>j. 0 \<le> j \<and> j < i \<longrightarrow> \<not> qmark s1 (RQ (cur s1) j)" and mk: "qmark s1 (RQ (cur s1) i)"
    using assms(12,13) unfolding s1(3) s1(4) by blast+
  have sw: "schedswitchtask intr unit a s = Task x s'" if "scanready s1 = Some (x, s')" for x s'
    using that s1(1) assms(2,4) by (simp add: schedswitchtask_def task_states schedloop.simps [of _ _ s1])
  show ?thesis
  proof (cases "Q1 (RQ (cur s) i)")
    case Nil
    then show ?thesis
      using scanready_stale [OF s1(2) assms(10,11) _ mk low] sw s1(3) True by auto
  next
    case (Cons x xs)
    then obtain s' where "scanready s1 = Some (x, s')" "sched_rep s' (Q1(RQ (cur s) i := deqrest xs))"
      using scanready_first [OF s1(2) assms(10,11) _ low] unfolding s1(3) by blast
    then show ?thesis using sw Cons True by (auto simp: deqrest_def)
  qed
next
  case False
  then show ?thesis
    using schedsetready_outside [OF assms(5,6)] assms(2,4) by (simp add: schedswitchtask_def task_states)
qed

theorem schedswitchtask_highest_witness:
  "\<exists>s'. schedswitchtask (\<lambda>s. s) 0 5 idle_sched = Task 5 s' \<and> sched_rep s' (\<lambda>_. [])"
proof -
  have m: "\<not> qmark idle_sched (RQ b j)" for b j by (simp add: idle_sched_def marked_def)
  have c: "cur idle_sched = False" "tstate (tasks idle_sched 5) = TASKREADY" "sched (tasks idle_sched 5) \<noteq> SCHEDDEADLINE"
    "target idle_sched CurSet 5 = RQ False 5" "RQ False 5 \<in> allqueues" "5 < SCHEDLOADMAPNWORD"
    by (simp_all add: idle_sched_def target_def sched_consts map_consts)
  have "\<exists>s'. schedswitchtask (\<lambda>s. s) 0 5 idle_sched = Task 5 s' \<and>
      sched_rep s' (((\<lambda>_. [])(RQ False 5 := [5]))(RQ False 5 := []))"
    using schedswitchtask_highest [OF idle_sched_rep _ _ c(2,3) idle_sched_place refl _ refl, of 5 "\<lambda>s. s" 0]
      c m by (simp add: sched_consts)
  then show ?thesis by (simp add: fun_upd_idem)
qed

section \<open>What the code loses\<close>

text \<open>
  The mark of a queue is never cleared, since the pointer tested is the address of a table element.
  After the last task of a queue has been taken the next switch returns a null task, whatever waits in
  the queues behind.
\<close>

lemma schedloop_stale_mark:
  assumes "sched_rep s Q" "0 \<le> i" "i < SCHEDNQUEUE" "Q (RQ (cur s) i) = []" "qmark s (RQ (cur s) i)"
    and "\<forall>j. 0 \<le> j \<and> j < i \<longrightarrow> \<not> qmark s (RQ (cur s) j)"
  shows "\<exists>s'. schedloop intr unit s = Some (0, s')"
  using scanready_stale [OF assms] by (subst schedloop.simps) auto

text \<open>\<open>schedswapqueues\<close> overwrites \<open>next\<close> before it is read: the tasks queued there are lost.\<close>

lemma schedswapqueues_loses_next:
  "nextset (schedswapqueues s) = cur s" "cur (schedswapqueues s) = cur s"
  "scanready s = None \<Longrightarrow> scanready (schedswapqueues s) = None"
proof -
  have "schedswapqueues s = s\<lparr>nextset := cur s, nextmap := curmap s\<rparr>"
    by (simp add: schedswapqueues_def Let_def)
  then show "nextset (schedswapqueues s) = cur s" "cur (schedswapqueues s) = cur s"
    "scanready s = None \<Longrightarrow> scanready (schedswapqueues s) = None"
    by (auto simp: scanready_def split: option.splits prod.splits)
qed

text \<open>
  With every queue empty the loop marks the processor in the map of the idle queues and, after the
  interrupt, takes that mark for an idle task: it returns a null task in the second pass.
\<close>

lemma scanready_none: "(\<And>j. \<not> marked (readymap s (curmap s)) j) \<Longrightarrow> scanready s = None"
  using firstbit_spec [of 0 "SCHEDNQUEUE div 2 ^ 5" "readymap s (curmap s)"]
  by (auto simp: scanready_def split: option.splits)

lemma schedloop_idle_returns_null:
  assumes "\<And>b j. \<not> marked (readymap s b) j" "\<And>j. \<not> marked (idlemap s) j" "\<And>j. idletab s j = 0"
  shows "\<exists>s'. schedloop (\<lambda>s. s) 0 s = Some (0, s')"
proof -
  define s1 where "s1 = schedswapqueues s"
  have swap: "s1 = s\<lparr>nextset := cur s, nextmap := curmap s\<rparr>" by (simp add: s1_def schedswapqueues_def Let_def)
  have i0: "scanidle s1 = None"
    using firstbit_spec [of 0 "SCHEDNIDLE div 2 ^ 5" "idlemap s1"] assms(2)
    by (auto simp: scanidle_def swap split: option.splits)
  obtain m where m: "setbitl SCHEDIDLEMAPNWORD (idlemap s1) 0 = Some m" by (simp add: setbitl_def map_consts sched_consts)
  define s2 where "s2 = s1\<lparr>idlemap := m\<rparr>"
  have none: "scanready s = None" "scanready s1 = None" "scanready s2 = None" "scanready (schedswapqueues s2) = None"
    using assms(1) by (auto intro!: scanready_none schedswapqueues_loses_next(3) simp: swap s2_def)
  have "firstbit 0 (SCHEDNIDLE div 2 ^ 5) m = Some 0"
  proof -
    have "marked m 0" using setbitl_marked [OF m, of 0] by simp
    then show ?thesis using firstbit_spec [of 0 "SCHEDNIDLE div 2 ^ 5" m]
        setbitl_marked [OF m] assms(2) by (auto simp: swap sched_consts split: option.splits)
  qed
  then have "\<exists>s'. scanidle (schedswapqueues s2) = Some (0, s')"
    using assms(3) by (simp add: scanidle_def schedswapqueues_def Let_def s2_def swap deqpop_def)
  then have "\<exists>s'. schedloop (\<lambda>s. s) 0 s2 = Some (0, s')"
    using none by (subst schedloop.simps) (auto simp: Let_def)
  moreover have "schedloop (\<lambda>s. s) 0 s = schedloop (\<lambda>s. s) 0 s2"
    using none i0 m by (subst schedloop.simps) (simp add: Let_def s1_def [symmetric] s2_def)
  ultimately show ?thesis by simp
qed

text \<open>Interrupt tasks of the upper half of their class share the queues of the realtime class.\<close>

lemma trap_queue_overlaps:
  assumes "32 \<le> pri" "pri < 64"
  shows "schedcalctrapqueue pri = schedcalcqueue SCHEDREALTIME (2 * pri)"
    "schedclassminprio SCHEDREALTIME \<le> 2 * pri" "2 * pri \<le> schedclassmaxprio SCHEDREALTIME"
  using assms by (auto simp: schedcalctrapqueue_def schedcalcqueue_def sched_consts)

text \<open>
  A batch task that is not interactive and has no ticks recorded gets priority 0, the priority of
  the most urgent interrupt.
\<close>

lemma batch_task_becomes_urgent:
  assumes "sched t = SCHEDBATCH" "tflg t = 0" "runtime t = 5000" "slptime t = 4000" "ntick t = 0" "nice p = 0"
  shows "schedplace p t = (NextSet, 0, t\<lparr>score := 64, prio := 0\<rparr>)"
  using assms by (simp add: schedplace_def schedcalcintparm_def schedcalcscore_def schedcalcqueue_def
      schedisinteract_def sched_consts)

text \<open>
  A second deadline task with the same upper bits of its deadline writes through a null pointer: the
  table pointer is recorded for the reference count only when the table has just been allocated.  The
  wait table has the same defect.
\<close>

lemma schedsetdeadline_second:
  "deadlinetab s (taskdlkey0 (timelim (tasks s a))) \<noteq> 0 \<Longrightarrow> schedsetdeadline a s = None"
  by (auto simp: schedsetdeadline_def Let_def tabref_def split: prod.splits bind_splits)

lemma schedsetwait_second:
  assumes "p = waittab s (taskwaitkey0 (waitchan (tasks s a)))" "p \<noteq> 0"
    "tabmem s p (taskwaitkey1 (waitchan (tasks s a))) \<noteq> 0"
  shows "schedsetwait a s = None"
  using assms by (auto simp: schedsetwait_def Let_def tabref_def split: prod.splits bind_splits)

text \<open>The sleep queue from a task on, ended by a null link.\<close>

fun slist :: "links \<Rightarrow> ptr \<Rightarrow> ptr list \<Rightarrow> bool" where
  "slist h p [] \<longleftrightarrow> p = 0"
| "slist h p (x # xs) \<longleftrightarrow> p = x \<and> x \<noteq> 0 \<and> slist h (nxt h x) xs"

lemma slist_cong: "(\<And>x. x \<in> set xs \<Longrightarrow> nxt h' x = nxt h x) \<Longrightarrow> slist h' p xs = slist h p xs"
  by (induction xs arbitrary: p) auto

lemma sleepwalk_appends:
  assumes "slist (lnk s) sl xs" "xs \<noteq> []" "distinct (a # xs)" "a \<noteq> 0"
    "\<forall>x\<in>set (butlast xs). timelim (tasks s x) \<le> timelim (tasks s a)"
  shows "\<exists>h. sleepwalk a sl s = Some (s\<lparr>lnk := h\<rparr>) \<and> slist h sl (xs @ [a]) \<and>
    (\<forall>x. x \<notin> set (a # xs) \<longrightarrow> nxt h x = nxt (lnk s) x)"
  using assms
proof (induction xs arbitrary: sl)
  case (Cons x xs)
  show ?case
  proof (cases xs)
    case Nil
    define h where "h = set_next x a (set_next a 0 (set_prev a x (lnk s)))"
    have "sleepwalk a sl s = Some (s\<lparr>lnk := h\<rparr>)"
      using Cons.prems Nil by (subst sleepwalk.simps) (simp add: h_def)
    then show ?thesis using Cons.prems Nil by (auto simp: h_def)
  next
    case (Cons y ys)
    have step: "sleepwalk a sl s = sleepwalk a (nxt (lnk s) x) s"
      using Cons.prems Cons by (subst sleepwalk.simps) auto
    obtain h where h: "sleepwalk a (nxt (lnk s) x) s = Some (s\<lparr>lnk := h\<rparr>)" "slist h (nxt (lnk s) x) (xs @ [a])"
        "\<forall>z. z \<notin> set (a # xs) \<longrightarrow> nxt h z = nxt (lnk s) z"
      using Cons.IH [of "nxt (lnk s) x"] Cons.prems Cons by auto
    then have "slist h sl ((x # xs) @ [a])" using Cons.prems by auto
    then show ?thesis using step h by auto
  qed
qed simp

text \<open>
  A task that goes to sleep without a wait channel, after every task of the sleep queue but the
  last in the order of wake-up times, becomes the last task of the queue.
\<close>

theorem schedsetsleep_appends:
  assumes "waitchan (tasks s a) = 0" "a \<noteq> 0" "slist (lnk s) (sleepqueue s) xs" "distinct (a # xs)"
    "\<forall>x\<in>set (butlast xs). timelim (tasks s x) \<le> timelim (tasks s a)"
  shows "\<exists>s'. schedsetsleep a s = Some s' \<and> slist (lnk s') (sleepqueue s') (xs @ [a]) \<and> tasks s' = tasks s"
proof (cases xs)
  case Nil
  then show ?thesis using assms by (auto simp: schedsetsleep_def)
next
  case (Cons x ys)
  then have "sleepqueue s \<noteq> 0" "xs \<noteq> []" using assms(3) by auto
  then show ?thesis
    using sleepwalk_appends [OF assms(3) _ assms(4,2,5)] assms(1) by (auto simp: schedsetsleep_def)
qed

theorem schedsetsleep_appends_witness:
  "\<exists>s'. schedsetsleep 6 (idle_sched\<lparr>sleepqueue := 5\<rparr>) = Some s' \<and> slist (lnk s') (sleepqueue s') [5, 6]"
  using schedsetsleep_appends [of "idle_sched\<lparr>sleepqueue := 5\<rparr>" 6 "[5]"]
  by (simp add: idle_sched_def sleeper_def) blast

text \<open>
  A task that has to wake before the first of several sleepers is not linked in: neither the list
  head nor a forward link leads to it.
\<close>

lemma schedsetsleep_loses_earliest:
  assumes "waitchan (tasks s a) = 0" "sleepqueue s \<noteq> 0" "nxt (lnk s) (sleepqueue s) \<noteq> 0"
    "timelim (tasks s a) < timelim (tasks s (sleepqueue s))"
  shows "\<exists>s'. schedsetsleep a s = Some s' \<and> sleepqueue s' = sleepqueue s \<and>
    nxt (lnk s') = (nxt (lnk s))(a := sleepqueue s)"
proof -
  have "sleepwalk a (sleepqueue s) s = Some (s\<lparr>lnk := set_prev (sleepqueue s) a
      (set_next a (sleepqueue s) (set_prev a (prv (lnk s) (sleepqueue s)) (lnk s)))\<rparr>)"
    using assms by (subst sleepwalk.simps) simp
  then show ?thesis using assms(1,2) by (simp add: schedsetsleep_def)
qed

end
