(* ===== verification/Qsort.thy ===== *)
theory Qsort
  imports Prelude "HOL-Library.Multiset"
begin

text \<open>
  Sorting and searching of the C library (usr/lib/c/qsort.c and usr/lib/c/bsearch.c).

  The array is the list of its items, a pointer into it the number of the item it points to.  The
  comparison function is a parameter, as in C.  Reading an item outside the array, pushing on a full
  stack and a loop that does not end are the result \<^const>\<open>None\<close>.  The two loops that move bytes,
  the macro \<open>_swapgen\<close> and the rotation of the insertion sort, are defined on bytes and proved to
  exchange and to move items.
\<close>

section \<open>Items\<close>

type_synonym 'a cmpfun = "'a \<Rightarrow> 'a \<Rightarrow> int"

definition MAXTHRES :: nat where "MAXTHRES = 4"
definition STKSIZE :: nat where "STKSIZE = 8 * 8"

definition lessat :: "'a cmpfun \<Rightarrow> 'a list \<Rightarrow> nat \<Rightarrow> nat \<Rightarrow> bool option" where
  "lessat cmp xs i j = (if i < length xs \<and> j < length xs then Some (cmp (xs ! i) (xs ! j) < 0) else None)"

definition qswap :: "'a list \<Rightarrow> nat \<Rightarrow> nat \<Rightarrow> 'a list" where
  "qswap xs i j = xs[i := xs ! j, j := xs ! i]"

definition qmove :: "'a list \<Rightarrow> nat \<Rightarrow> nat \<Rightarrow> 'a list" where
  "qmove xs tmp run = take tmp xs @ [xs ! run] @ drop tmp (take run xs) @ drop (Suc run) xs"

section \<open>Quicksort\<close>

text \<open>The order of the first, the middle and the last item of a segment.\<close>

definition qmedian :: "'a cmpfun \<Rightarrow> 'a list \<Rightarrow> nat \<Rightarrow> nat \<Rightarrow> nat \<Rightarrow> 'a list option" where
  "qmedian cmp xs lo mid hi =
     Option.bind (lessat cmp xs mid lo) (\<lambda>b.
     let xs = (if b then qswap xs mid lo else xs)
     in Option.bind (lessat cmp xs hi mid) (\<lambda>b.
        if b
        then let xs = qswap xs mid hi
             in Option.bind (lessat cmp xs mid lo) (\<lambda>b. Some (if b then qswap xs mid lo else xs))
        else Some xs))"

text \<open>The two inner loops; a pointer moved below the first item is read at once.\<close>

function qscanup :: "'a cmpfun \<Rightarrow> 'a list \<Rightarrow> nat \<Rightarrow> nat \<Rightarrow> nat option" where
  "qscanup cmp xs mid l =
     (if l < length xs \<and> mid < length xs
      then if cmp (xs ! l) (xs ! mid) < 0 then qscanup cmp xs mid (l + 1) else Some l
      else None)"
  by pat_completeness auto
termination by (relation "measure (\<lambda>(_, xs, _, l). length xs - l)") auto

function qscandown :: "'a cmpfun \<Rightarrow> 'a list \<Rightarrow> nat \<Rightarrow> nat \<Rightarrow> nat option" where
  "qscandown cmp xs mid r =
     (if r < length xs \<and> mid < length xs
      then if cmp (xs ! mid) (xs ! r) < 0
           then if r = 0 then None else qscandown cmp xs mid (r - 1)
           else Some r
      else None)"
  by pat_completeness auto
termination by (relation "measure (\<lambda>(_, _, _, r). r)") auto

declare qscanup.simps [simp del] qscandown.simps [simp del]

partial_function (option) qpart ::
  "'a cmpfun \<Rightarrow> 'a list \<Rightarrow> nat \<Rightarrow> nat \<Rightarrow> nat \<Rightarrow> ('a list \<times> nat \<times> nat) option" where
  "qpart cmp xs mid l r =
     Option.bind (qscanup cmp xs mid l) (\<lambda>l.
     Option.bind (qscandown cmp xs mid r) (\<lambda>r.
       if l < r
       then let xs = qswap xs l r;
                mid = (if mid = l then r else if mid = r then l else mid);
                l = l + 1;
                r = r - 1
            in if l \<le> r then qpart cmp xs mid l r else Some (xs, l, r)
       else if l = r then Some (xs, l + 1, r - 1)
       else Some (xs, l, r)))"

text \<open>
  The test of a part against the threshold compares unsigned differences, so that a pointer behind
  the other one would count as a large part.
\<close>

definition qsmall :: "nat \<Rightarrow> nat \<Rightarrow> bool" where
  "qsmall lo hi \<longleftrightarrow> lo \<le> hi \<and> hi - lo \<le> MAXTHRES"

partial_function (option) qloop ::
  "'a cmpfun \<Rightarrow> 'a list \<Rightarrow> nat \<Rightarrow> nat \<Rightarrow> (nat \<times> nat) list \<Rightarrow> 'a list option" where
  "qloop cmp xs lo hi stk =
     (if stk = [] then Some xs
      else let mid = lo + (hi - lo) div 2
           in Option.bind (qmedian cmp xs lo mid hi) (\<lambda>xs.
              Option.bind (qpart cmp xs mid (lo + 1) (hi - 1)) (\<lambda>(xs, l, r).
                if qsmall lo r
                then if qsmall l hi then qloop cmp xs (fst (hd stk)) (snd (hd stk)) (tl stk)
                     else qloop cmp xs l hi stk
                else if qsmall l hi then qloop cmp xs lo r stk
                else if STKSIZE \<le> length stk then None
                else if int r - int lo > int hi - int l then qloop cmp xs l hi ((lo, r) # stk)
                else qloop cmp xs lo r ((l, hi) # stk))))"

section \<open>Insertion sort\<close>

definition qfirstmin :: "'a cmpfun \<Rightarrow> 'a list \<Rightarrow> nat \<Rightarrow> nat" where
  "qfirstmin cmp xs thres =
     foldl (\<lambda>tmp run. if cmp (xs ! run) (xs ! tmp) < 0 then run else tmp) 0 [1..<Suc thres]"

function qback :: "'a cmpfun \<Rightarrow> 'a list \<Rightarrow> nat \<Rightarrow> nat \<Rightarrow> nat option" where
  "qback cmp xs run tmp =
     (if run < length xs \<and> tmp < length xs
      then if cmp (xs ! run) (xs ! tmp) < 0
           then if tmp = 0 then None else qback cmp xs run (tmp - 1)
           else Some (tmp + 1)
      else None)"
  by pat_completeness auto
termination by (relation "measure (\<lambda>(_, _, _, tmp). tmp)") auto

function qinsloop :: "'a cmpfun \<Rightarrow> nat \<Rightarrow> 'a list \<Rightarrow> nat \<Rightarrow> 'a list option" where
  "qinsloop cmp lim xs run =
     (if run \<le> lim
      then case qback cmp xs run (run - 1) of
             None \<Rightarrow> None
           | Some tmp \<Rightarrow> qinsloop cmp lim (if tmp \<noteq> run then qmove xs tmp run else xs) (run + 1)
      else Some xs)"
  by pat_completeness auto
termination by (relation "measure (\<lambda>(_, lim, _, run). Suc lim - run)") auto

declare qback.simps [simp del] qinsloop.simps [simp del]

definition qinsert :: "'a cmpfun \<Rightarrow> 'a list \<Rightarrow> 'a list option" where
  "qinsert cmp xs =
     (let lim = length xs - 1;
          thres = min lim MAXTHRES;
          tmp = qfirstmin cmp xs thres;
          xs = (if tmp \<noteq> 0 then qswap xs tmp 0 else xs)
      in qinsloop cmp lim xs 2)"

text \<open>The threshold for quicksort is compared with the number of items, but counts bytes.\<close>

definition qsort :: "'a cmpfun \<Rightarrow> nat \<Rightarrow> 'a list \<Rightarrow> 'a list option" where
  "qsort cmp sz xs =
     (let nitems = length xs; maxthres = MAXTHRES * sz
      in if nitems \<le> 1 then Some xs
         else Option.bind
                (if nitems > maxthres then qloop cmp xs 0 (nitems - 1) [(0, 0)] else Some xs)
                (qinsert cmp))"

section \<open>Binary search\<close>

function bsearchloop :: "('a \<Rightarrow> int) \<Rightarrow> 'a list \<Rightarrow> nat \<Rightarrow> nat \<Rightarrow> nat option" where
  "bsearchloop cmpkey xs l lim =
     (if l < lim
      then let ndx = (l + lim) div 2; cmpres = cmpkey (xs ! ndx)
           in if cmpres < 0 then bsearchloop cmpkey xs l ndx
              else if cmpres > 0 then bsearchloop cmpkey xs (ndx + 1) lim
              else Some ndx
      else None)"
  by pat_completeness auto
termination by (relation "measure (\<lambda>(_, _, l, lim). lim - l)") auto

declare bsearchloop.simps [simp del]

definition bsearch :: "'a cmpfun \<Rightarrow> 'a \<Rightarrow> 'a list \<Rightarrow> nat option" where
  "bsearch cmp key xs = bsearchloop (cmp key) xs 0 (length xs)"

section \<open>The loops that move bytes\<close>

text \<open>The memory from the base of the array on; the macro is used with an item size of at least one.\<close>

primrec swapgen :: "nat \<Rightarrow> (nat \<Rightarrow> u8) \<Rightarrow> nat \<Rightarrow> nat \<Rightarrow> nat \<Rightarrow> u8" where
  "swapgen 0 m ap bp = m"
| "swapgen (Suc sz) m ap bp = (let tmp = m ap in swapgen sz (m(ap := m bp, bp := tmp)) (ap + 1) (bp + 1))"

function shiftcol :: "nat \<Rightarrow> nat \<Rightarrow> (nat \<Rightarrow> u8) \<Rightarrow> nat \<Rightarrow> nat \<times> (nat \<Rightarrow> u8)" where
  "shiftcol sz tmp m hi =
     (if 0 < sz \<and> tmp + sz \<le> hi then shiftcol sz tmp (m(hi := m (hi - sz))) (hi - sz) else (hi, m))"
  by pat_completeness auto
termination by (relation "measure (\<lambda>(_, _, _, hi). hi)") auto

declare shiftcol.simps [simp del]

text \<open>The columns \<open>0..<k\<close> of the item at \<open>run\<close>, from the last to the first.\<close>

primrec rotbytes :: "nat \<Rightarrow> nat \<Rightarrow> (nat \<Rightarrow> u8) \<Rightarrow> nat \<Rightarrow> nat \<Rightarrow> nat \<Rightarrow> u8" where
  "rotbytes 0 sz m tmp run = m"
| "rotbytes (Suc k) sz m tmp run =
     (let u8 = m (run + k);
          (hi, m) = shiftcol sz tmp m (run + k)
      in rotbytes k sz (m(hi := u8)) tmp run)"

section \<open>The order of a comparison function\<close>

definition le :: "'a cmpfun \<Rightarrow> 'a \<Rightarrow> 'a \<Rightarrow> bool" where
  "le cmp x y \<longleftrightarrow> \<not> cmp y x < 0"

text \<open>What C requires of the comparison function: it orders the items.\<close>

definition comparator :: "'a cmpfun \<Rightarrow> bool" where
  "comparator cmp \<longleftrightarrow>
     (\<forall>x y. cmp x y < 0 \<longrightarrow> \<not> cmp y x < 0) \<and>
     (\<forall>x y z. le cmp x y \<longrightarrow> le cmp y z \<longrightarrow> le cmp x z)"

lemma cle_trans: "comparator cmp \<Longrightarrow> le cmp x y \<Longrightarrow> le cmp y z \<Longrightarrow> le cmp x z"
  unfolding comparator_def by blast

lemma cless_le: "comparator cmp \<Longrightarrow> cmp x y < 0 \<Longrightarrow> le cmp x y"
  unfolding comparator_def le_def by blast

lemma cle_refl: "comparator cmp \<Longrightarrow> le cmp x x"
  unfolding comparator_def le_def by blast

section \<open>Exchanging and moving items\<close>

lemma length_qswap [simp]: "length (qswap xs i j) = length xs"
  by (simp add: qswap_def)

lemma mset_qswap [simp]: "i < length xs \<Longrightarrow> j < length xs \<Longrightarrow> mset (qswap xs i j) = mset xs"
  unfolding qswap_def by (rule mset_swap)

lemma qswap_nth:
  assumes "i < length xs" "j < length xs"
  shows "qswap xs i j ! k = (if k = j then xs ! i else if k = i then xs ! j else xs ! k)"
  using assms by (simp add: qswap_def nth_list_update)

section \<open>The partition\<close>

lemma qscanup_stops:
  assumes "l \<le> k" "k < length xs" "mid < length xs" "\<not> cmp (xs ! k) (xs ! mid) < 0"
  shows "\<exists>l'. qscanup cmp xs mid l = Some l' \<and> l \<le> l' \<and> l' \<le> k \<and>
    (\<forall>i. l \<le> i \<and> i < l' \<longrightarrow> cmp (xs ! i) (xs ! mid) < 0) \<and> \<not> cmp (xs ! l') (xs ! mid) < 0"
  using assms
proof (induction cmp xs mid l rule: qscanup.induct)
  case (1 cmp xs mid l)
  show ?case
  proof (cases "cmp (xs ! l) (xs ! mid) < 0")
    case True
    then have "l < k" using "1.prems" by (cases "l = k") auto
    then obtain l' where l': "qscanup cmp xs mid (l + 1) = Some l'" "l + 1 \<le> l'" "l' \<le> k"
        "\<forall>i. l + 1 \<le> i \<and> i < l' \<longrightarrow> cmp (xs ! i) (xs ! mid) < 0" "\<not> cmp (xs ! l') (xs ! mid) < 0"
      using 1 True by auto
    have "cmp (xs ! i) (xs ! mid) < 0" if "l \<le> i" "i < l'" for i
      using that l'(4) True by (cases "i = l") auto
    then show ?thesis using l' True "1.prems" by (subst qscanup.simps) auto
  next
    case False
    then show ?thesis using "1.prems" by (subst qscanup.simps) auto
  qed
qed

lemma qscandown_stops:
  assumes "k \<le> r" "r < length xs" "mid < length xs" "\<not> cmp (xs ! mid) (xs ! k) < 0"
  shows "\<exists>r'. qscandown cmp xs mid r = Some r' \<and> k \<le> r' \<and> r' \<le> r \<and>
    (\<forall>i. r' < i \<and> i \<le> r \<longrightarrow> cmp (xs ! mid) (xs ! i) < 0) \<and> \<not> cmp (xs ! mid) (xs ! r') < 0"
  using assms
proof (induction cmp xs mid r rule: qscandown.induct)
  case (1 cmp xs mid r)
  show ?case
  proof (cases "cmp (xs ! mid) (xs ! r) < 0")
    case True
    then have "k < r" using "1.prems" by (cases "k = r") auto
    then have "\<exists>r'. qscandown cmp xs mid (r - 1) = Some r' \<and> k \<le> r' \<and> r' \<le> r - 1 \<and>
        (\<forall>i. r' < i \<and> i \<le> r - 1 \<longrightarrow> cmp (xs ! mid) (xs ! i) < 0) \<and> \<not> cmp (xs ! mid) (xs ! r') < 0"
      using 1 True by simp
    then obtain r' where r': "qscandown cmp xs mid (r - 1) = Some r'" "k \<le> r'" "r' \<le> r - 1"
        "\<forall>i. r' < i \<and> i \<le> r - 1 \<longrightarrow> cmp (xs ! mid) (xs ! i) < 0" "\<not> cmp (xs ! mid) (xs ! r') < 0" by blast
    have "cmp (xs ! mid) (xs ! i) < 0" if "r' < i" "i \<le> r" for i
      using that r'(4) True by (cases "i = r") auto
    then show ?thesis using r' True "1.prems" \<open>k < r\<close> by (subst qscandown.simps) auto
  next
    case False
    then show ?thesis using "1.prems" by (subst qscandown.simps) auto
  qed
qed

definition part_inv :: "'a cmpfun \<Rightarrow> nat \<Rightarrow> nat \<Rightarrow> 'a \<Rightarrow> 'a list \<Rightarrow> nat \<Rightarrow> nat \<Rightarrow> nat \<Rightarrow> bool" where
  "part_inv cmp lo hi p xs mid l r \<longleftrightarrow>
     lo < l \<and> r < hi \<and> hi < length xs \<and> lo \<le> mid \<and> mid \<le> hi \<and> xs ! mid = p \<and>
     (\<forall>i. lo \<le> i \<and> i < l \<longrightarrow> le cmp (xs ! i) p) \<and> (\<forall>j. r < j \<and> j \<le> hi \<longrightarrow> le cmp p (xs ! j))"

definition part_post :: "'a cmpfun \<Rightarrow> nat \<Rightarrow> nat \<Rightarrow> 'a \<Rightarrow> 'a list \<Rightarrow> 'a list \<Rightarrow> nat \<Rightarrow> nat \<Rightarrow> bool" where
  "part_post cmp lo hi p xs ys l r \<longleftrightarrow>
     mset ys = mset xs \<and> (\<forall>i. i < lo \<or> hi < i \<longrightarrow> ys ! i = xs ! i) \<and> lo \<le> r \<and> r < l \<and> l \<le> hi \<and>
     (\<forall>i. lo \<le> i \<and> i \<le> r \<longrightarrow> le cmp (ys ! i) p) \<and> (\<forall>j. r < j \<and> j \<le> hi \<longrightarrow> le cmp p (ys ! j))"

lemma part_post_trans:
  "part_post cmp lo hi p ys zs l r \<Longrightarrow> mset ys = mset xs \<Longrightarrow> (\<forall>i. i < lo \<or> hi < i \<longrightarrow> ys ! i = xs ! i) \<Longrightarrow>
   part_post cmp lo hi p xs zs l r"
  unfolding part_post_def by auto

text \<open>One pass of the outer loop, up to its exchange.\<close>

lemma part_inv_swap:
  assumes inv: "part_inv cmp lo hi p xs mid l r"
    and l': "l \<le> l'" "\<forall>i. l \<le> i \<and> i < l' \<longrightarrow> le cmp (xs ! i) p" "le cmp p (xs ! l')"
    and r': "r' \<le> r" "\<forall>j. r' < j \<and> j \<le> r \<longrightarrow> le cmp p (xs ! j)" "le cmp (xs ! r') p"
    and lt: "l' < r'"
  shows "part_inv cmp lo hi p (qswap xs l' r') (if mid = l' then r' else if mid = r' then l' else mid) (l' + 1) (r' - 1)"
proof -
  have b: "lo < l" "r < hi" "hi < length xs" "lo \<le> mid" "mid \<le> hi" "xs ! mid = p"
    and lows: "\<And>i. lo \<le> i \<Longrightarrow> i < l \<Longrightarrow> le cmp (xs ! i) p" and highs: "\<And>j. r < j \<Longrightarrow> j \<le> hi \<Longrightarrow> le cmp p (xs ! j)"
    using inv by (auto simp: part_inv_def)
  have n: "l' < length xs" "r' < length xs" using b lt r'(1) by auto
  note sw = qswap_nth [OF n]
  have lo: "le cmp (qswap xs l' r' ! i) p" if "lo \<le> i" "i < l' + 1" for i
  proof (cases "i = l'")
    case True
    then show ?thesis using r'(3) lt by (simp add: sw)
  next
    case False
    then have "qswap xs l' r' ! i = xs ! i" using that lt by (simp add: sw)
    then show ?thesis using lows [of i] l'(2) that False by (cases "i < l") auto
  qed
  have hi: "le cmp p (qswap xs l' r' ! j)" if "r' - 1 < j" "j \<le> hi" for j
  proof (cases "j = r'")
    case True
    then show ?thesis using l'(3) by (simp add: sw)
  next
    case False
    then have "r' < j" using that lt by linarith
    then have "qswap xs l' r' ! j = xs ! j" using lt by (simp add: sw)
    then show ?thesis using highs [of j] r'(2) that False lt by (cases "r < j") auto
  qed
  show ?thesis
    unfolding part_inv_def using b lo hi lt l'(1) r'(1) by (auto simp: sw)
qed

lemma qpart_correct:
  assumes "comparator cmp" "part_inv cmp lo hi p xs mid l r" "l \<le> r"
  shows "\<exists>ys l' r'. qpart cmp xs mid l r = Some (ys, l', r') \<and> part_post cmp lo hi p xs ys l' r'"
  using assms(2,3)
proof (induction "r - l" arbitrary: xs mid l r rule: less_induct)
  case less
  have b: "lo < l" "r < hi" "hi < length xs" "lo \<le> mid" "mid \<le> hi" "xs ! mid = p"
    and lows: "\<And>i. lo \<le> i \<Longrightarrow> i < l \<Longrightarrow> le cmp (xs ! i) p" and highs: "\<And>j. r < j \<Longrightarrow> j \<le> hi \<Longrightarrow> le cmp p (xs ! j)"
    using less.prems by (auto simp: part_inv_def)
  have "\<not> cmp (xs ! hi) (xs ! mid) < 0" "\<not> cmp (xs ! mid) (xs ! lo) < 0"
    using highs [of hi] lows [of lo] b by (auto simp: le_def)
  then obtain l' r' where l': "qscanup cmp xs mid l = Some l'" "l \<le> l'" "l' \<le> hi"
        "\<forall>i. l \<le> i \<and> i < l' \<longrightarrow> cmp (xs ! i) p < 0" "\<not> cmp (xs ! l') p < 0"
      and r': "qscandown cmp xs mid r = Some r'" "lo \<le> r'" "r' \<le> r"
        "\<forall>j. r' < j \<and> j \<le> r \<longrightarrow> cmp p (xs ! j) < 0" "\<not> cmp p (xs ! r') < 0"
    using qscanup_stops [of l hi xs mid cmp] qscandown_stops [of lo r xs mid cmp] b less.prems(2) by auto
  have mid: "\<forall>i. l \<le> i \<and> i < l' \<longrightarrow> le cmp (xs ! i) p" "\<forall>j. r' < j \<and> j \<le> r \<longrightarrow> le cmp p (xs ! j)"
    using l'(4) r'(4) cless_le [OF assms(1)] by blast+
  have ends: "le cmp p (xs ! l')" "le cmp (xs ! r') p" using l'(5) r'(5) by (simp_all add: le_def)
  have lows': "le cmp (xs ! i) p" if "lo \<le> i" "i < l'" for i using lows mid(1) that by (cases "i < l") auto
  have highs': "le cmp p (xs ! j)" if "r' < j" "j \<le> hi" for j using highs mid(2) that by (cases "r < j") auto
  show ?case
  proof (cases "l' < r'")
    case True
    define ys where "ys = qswap xs l' r'"
    define m where "m = (if mid = l' then r' else if mid = r' then l' else mid)"
    have inv: "part_inv cmp lo hi p ys m (l' + 1) (r' - 1)"
      unfolding ys_def m_def by (rule part_inv_swap [OF less.prems(1) l'(2) mid(1) ends(1) r'(3) mid(2) ends(2) True])
    have n: "l' < length xs" "r' < length xs" using b True r'(3) by auto
    have ys: "mset ys = mset xs" "\<forall>i. i < lo \<or> hi < i \<longrightarrow> ys ! i = xs ! i"
      using n b l'(2,3) r'(2,3) True by (auto simp: ys_def qswap_nth [OF n])
    have eq: "qpart cmp xs mid l r = (if l' + 1 \<le> r' - 1 then qpart cmp ys m (l' + 1) (r' - 1) else Some (ys, l' + 1, r' - 1))"
      using l'(1) r'(1) True by (subst qpart.simps) (simp add: ys_def m_def Let_def)
    show ?thesis
    proof (cases "l' + 1 \<le> r' - 1")
      case True
      have "\<exists>zs u v. qpart cmp ys m (l' + 1) (r' - 1) = Some (zs, u, v) \<and> part_post cmp lo hi p ys zs u v"
        by (rule less.hyps [OF _ inv True]) (use True l'(2) r'(3) in linarith)
      then show ?thesis using eq True part_post_trans [OF _ ys] by auto
    next
      case False
      then have r1: "r' - 1 = l'" using \<open>l' < r'\<close> by linarith
      have "part_post cmp lo hi p ys ys (l' + 1) (r' - 1)"
        using inv r1 l'(2) b \<open>l' < r'\<close> r'(3) unfolding part_post_def part_inv_def by auto
      then show ?thesis using eq False part_post_trans [OF _ ys] by auto
    qed
  next
    case False
    show ?thesis
    proof (cases "l' = r'")
      case True
      have "part_post cmp lo hi p xs xs (l' + 1) (r' - 1)"
        unfolding part_post_def
      proof (intro conjI allI impI)
        show "le cmp (xs ! i) p" if "lo \<le> i \<and> i \<le> r' - 1" for i
          using lows' [of i] that True l'(2) b(1) by linarith
        show "le cmp p (xs ! j)" if "r' - 1 < j \<and> j \<le> hi" for j
          using highs' [of j] that True ends(1) by (cases "j = r'") auto
      qed (use True l'(2) b r'(3) in auto)
      then show ?thesis using l'(1) r'(1) True by (subst qpart.simps) simp
    next
      case no: False
      have "part_post cmp lo hi p xs xs l' r'"
        unfolding part_post_def using False no r'(2) l'(3) lows' highs' by auto
      then show ?thesis using l'(1) r'(1) False no by (subst qpart.simps) simp
    qed
  qed
qed

lemma qmedian_correct:
  assumes "comparator cmp" "lo < mid" "mid < hi" "hi < length xs"
  shows "\<exists>ys. qmedian cmp xs lo mid hi = Some ys \<and> mset ys = mset xs \<and>
    (\<forall>i. i < lo \<or> hi < i \<longrightarrow> ys ! i = xs ! i) \<and> le cmp (ys ! lo) (ys ! mid) \<and> le cmp (ys ! mid) (ys ! hi)"
proof -
  have n: "lo < length xs" "mid < length xs" using assms by auto
  define ys where "ys = (if cmp (xs ! mid) (xs ! lo) < 0 then qswap xs mid lo else xs)"
  have ys: "mset ys = mset xs" "length ys = length xs" "\<forall>i. i < lo \<or> hi < i \<longrightarrow> ys ! i = xs ! i"
      "le cmp (ys ! lo) (ys ! mid)"
    using n assms cless_le [OF assms(1), of "xs ! mid" "xs ! lo"]
    by (auto simp: ys_def qswap_nth le_def [of cmp "xs ! lo"])
  have b1: "lessat cmp xs mid lo = Some (cmp (xs ! mid) (xs ! lo) < 0)" using n by (simp add: lessat_def)
  have b2: "lessat cmp ys hi mid = Some (cmp (ys ! hi) (ys ! mid) < 0)" using n assms ys(2) by (simp add: lessat_def)
  define zs where "zs = qswap ys mid hi"
  have zs: "mset zs = mset xs" "length zs = length xs" "\<forall>i. i < lo \<or> hi < i \<longrightarrow> zs ! i = xs ! i"
      "zs ! lo = ys ! lo" "zs ! mid = ys ! hi" "zs ! hi = ys ! mid"
    using n assms ys by (auto simp: zs_def qswap_nth)
  have b3: "lessat cmp zs mid lo = Some (cmp (zs ! mid) (zs ! lo) < 0)" using n zs(2) by (simp add: lessat_def)
  define us where "us = (if cmp (zs ! mid) (zs ! lo) < 0 then qswap zs mid lo else zs)"
  have us: "mset us = mset xs" "\<forall>i. i < lo \<or> hi < i \<longrightarrow> us ! i = xs ! i" "le cmp (us ! lo) (us ! mid)"
    using n assms zs cless_le [OF assms(1), of "zs ! mid" "zs ! lo"]
    by (auto simp: us_def qswap_nth le_def [of cmp "ys ! lo"])
  have top: "le cmp (us ! mid) (us ! hi)" if "cmp (ys ! hi) (ys ! mid) < 0"
    using that n assms zs ys(4) cless_le [OF assms(1)] by (auto simp: us_def qswap_nth)
  have "qmedian cmp xs lo mid hi = Some (if cmp (ys ! hi) (ys ! mid) < 0 then us else ys)"
    unfolding qmedian_def b1 by (simp add: ys_def [symmetric] b2 zs_def [symmetric] b3 us_def Let_def)
  then show ?thesis using ys us top by (auto simp: le_def [of cmp "ys ! mid"])
qed

section \<open>The segments still to be partitioned\<close>

definition seg_ok :: "nat \<Rightarrow> nat \<times> nat \<Rightarrow> bool" where
  "seg_ok n s \<longleftrightarrow> fst s + MAXTHRES \<le> snd s \<and> snd s < n"

definition apart :: "nat \<times> nat \<Rightarrow> nat \<times> nat \<Rightarrow> bool" where
  "apart s t \<longleftrightarrow> snd s < fst t \<or> snd t < fst s"

text \<open>The items up to \<open>k\<close> come before the others, and no segment crosses this border.\<close>

definition front :: "'a cmpfun \<Rightarrow> 'a list \<Rightarrow> nat \<Rightarrow> bool" where
  "front cmp xs k \<longleftrightarrow> k < length xs \<and> (\<forall>i j. i \<le> k \<and> k < j \<and> j < length xs \<longrightarrow> le cmp (xs ! i) (xs ! j))"

definition loop_inv :: "'a cmpfun \<Rightarrow> 'a list \<Rightarrow> (nat \<times> nat) list \<Rightarrow> bool" where
  "loop_inv cmp xs segs \<longleftrightarrow>
     (\<forall>s\<in>set segs. seg_ok (length xs) s) \<and> sorted_wrt apart segs \<and>
     (\<exists>k. front cmp xs k \<and> (\<forall>s\<in>set segs. s = (0, k) \<or> k < fst s) \<and> (k \<le> MAXTHRES \<or> (0, k) \<in> set segs))"

lemma segment_items:
  assumes m: "mset ys = mset xs" and o: "\<forall>i. i < lo \<or> hi < i \<longrightarrow> ys ! i = xs ! i" and n: "hi < length xs"
    and i: "lo \<le> i" "i \<le> hi"
  shows "\<exists>j. lo \<le> j \<and> j \<le> hi \<and> ys ! i = xs ! j"
proof -
  have len: "length ys = length xs" using m by (metis size_mset)
  define mid where "mid = (\<lambda>zs :: 'a list. take (Suc hi - lo) (drop lo zs))"
  have split: "zs = take lo zs @ mid zs @ drop (Suc hi) zs" for zs :: "'a list"
  proof -
    have "drop lo zs = mid zs @ drop (Suc hi - lo) (drop lo zs)"
      by (simp only: mid_def append_take_drop_id)
    also have "drop (Suc hi - lo) (drop lo zs) = drop (Suc hi) zs" using i by simp
    finally show ?thesis by (metis append_take_drop_id)
  qed
  have t: "take lo ys = take lo xs" by (rule nth_equalityI) (use len o in auto)
  have d: "drop (Suc hi) ys = drop (Suc hi) xs" by (rule nth_equalityI) (use len o in auto)
  have "mset (take lo ys) + mset (mid ys) + mset (drop (Suc hi) ys) = mset (take lo xs) + mset (mid xs) + mset (drop (Suc hi) xs)"
    using m split [of ys] split [of xs] by (metis mset_append add.assoc)
  then have "mset (mid ys) = mset (mid xs)" using t d by simp
  then have st: "set (mid ys) = set (mid xs)" by (rule mset_eq_setD)
  have lens: "length (mid ys) = Suc hi - lo" "length (mid xs) = Suc hi - lo" using n len i by (simp_all add: mid_def)
  have "ys ! i = mid ys ! (i - lo)" using i n len by (simp add: mid_def)
  then have "ys ! i \<in> set (mid xs)" using st lens i by (metis nth_mem diff_less_mono le_imp_less_Suc)
  then obtain q where q: "q < Suc hi - lo" "ys ! i = mid xs ! q" using lens by (metis in_set_conv_nth)
  then have "ys ! i = xs ! (lo + q)" using n i by (simp add: mid_def)
  then show ?thesis using q(1) i by (intro exI [of _ "lo + q"]) auto
qed

lemma front_step:
  assumes m: "mset ys = mset xs" and o: "\<forall>i. i < lo \<or> hi < i \<longrightarrow> ys ! i = xs ! i" and n: "hi < length xs"
    and r: "lo \<le> r" "r < hi" and part: "\<And>i j. lo \<le> i \<Longrightarrow> i \<le> r \<Longrightarrow> r < j \<Longrightarrow> j \<le> hi \<Longrightarrow> le cmp (ys ! i) (ys ! j)"
    and k: "front cmp xs k" "(lo, hi) = (0, k) \<or> k < lo"
  shows "front cmp ys (if (lo, hi) = (0, k) then r else k)"
proof -
  have len: "length ys = length xs" using m by (metis size_mset)
  have kk: "k < length xs" "\<And>i j. i \<le> k \<Longrightarrow> k < j \<Longrightarrow> j < length xs \<Longrightarrow> le cmp (xs ! i) (xs ! j)"
    using k(1) by (auto simp: front_def)
  show ?thesis
  proof (cases "(lo, hi) = (0, k)")
    case True
    have "le cmp (ys ! i) (ys ! j)" if ij: "i \<le> r" "r < j" "j < length ys" for i j
    proof (cases "j \<le> hi")
      case False
      obtain i' where "i' \<le> hi" "ys ! i = xs ! i'" using segment_items [OF m o n, of i] ij r True by auto
      then show ?thesis using kk(2) [of i' j] False True ij o len by auto
    qed (use part ij True in auto)
    then show ?thesis using True r n len by (simp add: front_def)
  next
    case False
    then have lo: "k < lo" using k(2) by blast
    have "le cmp (ys ! i) (ys ! j)" if "i \<le> k" "k < j" "j < length ys" for i j
    proof (cases "lo \<le> j \<and> j \<le> hi")
      case True
      then obtain j' where "lo \<le> j'" "j' \<le> hi" "ys ! j = xs ! j'" using segment_items [OF m o n, of j] by auto
      then show ?thesis using kk(2) [of i j'] lo that o n by auto
    qed (use kk(2) [of i j] that o lo len in auto)
    then show ?thesis using False kk(1) len by (auto simp: front_def)
  qed
qed

lemma loop_inv_step:
  assumes inv: "loop_inv cmp xs ((lo, hi) # ss)"
    and m: "mset ys = mset xs" and o: "\<forall>i. i < lo \<or> hi < i \<longrightarrow> ys ! i = xs ! i"
    and r: "lo \<le> r" "r < l" "l \<le> hi" and part: "\<And>i j. lo \<le> i \<Longrightarrow> i \<le> r \<Longrightarrow> r < j \<Longrightarrow> j \<le> hi \<Longrightarrow> le cmp (ys ! i) (ys ! j)"
    and new: "set new \<subseteq> {(lo, r), (l, hi)}" "sorted_wrt apart new" "\<forall>s\<in>set new. seg_ok (length xs) s"
      "(lo, r) \<in> set new \<or> r - lo \<le> MAXTHRES"
  shows "loop_inv cmp ys (new @ ss)"
proof -
  have len: "length ys = length xs" using m by (metis size_mset)
  have hi: "hi < length xs" and ss: "\<forall>s\<in>set ss. seg_ok (length xs) s" "sorted_wrt apart ss" "\<forall>s\<in>set ss. apart (lo, hi) s"
    using inv by (auto simp: loop_inv_def seg_ok_def)
  obtain k where k: "front cmp xs k" "(lo, hi) = (0, k) \<or> k < lo" "\<forall>s\<in>set ss. s = (0, k) \<or> k < fst s"
      "k \<le> MAXTHRES \<or> (0, k) \<in> set ((lo, hi) # ss)"
    using inv unfolding loop_inv_def by auto
  define k' where "k' = (if (lo, hi) = (0, k) then r else k)"
  have "front cmp ys k'" unfolding k'_def by (rule front_step [OF m o hi r(1) _ part k(1,2)]) (use r in auto)
  moreover have "\<forall>s\<in>set new. s = (0, k') \<or> k' < fst s"
    using new(1) k(2) r by (auto simp: k'_def)
  moreover have "\<forall>s\<in>set ss. s = (0, k') \<or> k' < fst s"
    using ss(3) k(3) r by (auto simp: k'_def apart_def)
  moreover have "k' \<le> MAXTHRES \<or> (0, k') \<in> set (new @ ss)" using k(2,4) new(4) by (auto simp: k'_def)
  ultimately have "\<exists>k. front cmp ys k \<and> (\<forall>s\<in>set (new @ ss). s = (0, k) \<or> k < fst s) \<and>
      (k \<le> MAXTHRES \<or> (0, k) \<in> set (new @ ss))" unfolding set_append by blast
  moreover have "apart s t" if "s \<in> set new" "t \<in> set ss" for s t
  proof -
    have "s = (lo, r) \<or> s = (l, hi)" using new(1) that by auto
    then show ?thesis using ss(3) that(2) r by (auto simp: apart_def)
  qed
  then have "sorted_wrt apart (new @ ss)" using ss(2) new(2) by (simp add: sorted_wrt_append)
  moreover have "\<forall>s\<in>set (new @ ss). seg_ok (length ys) s" using ss(1) new(3) len by auto
  ultimately show ?thesis unfolding loop_inv_def by blast
qed

text \<open>
  The larger part is pushed and the smaller one, at most half as wide, partitioned next, so that the
  width of a segment halves with every entry below it on the stack.
\<close>

fun depth_ok :: "nat \<Rightarrow> nat \<times> nat \<Rightarrow> (nat \<times> nat) list \<Rightarrow> bool" where
  "depth_ok n s [] \<longleftrightarrow> True"
| "depth_ok n s (t # stk) \<longleftrightarrow> (snd s - fst s) * 2 ^ length stk \<le> n \<and> depth_ok n t stk"

lemma depth_ok_shrink: "depth_ok n s stk \<Longrightarrow> snd t - fst t \<le> snd s - fst s \<Longrightarrow> depth_ok n t stk"
  by (cases stk) (auto intro: order_trans [OF mult_le_mono1])

lemma depth_ok_push:
  assumes "depth_ok n s stk" "stk \<noteq> []" "2 * (snd t - fst t) \<le> snd s - fst s" "snd u - fst u \<le> snd s - fst s"
  shows "depth_ok n t (u # stk)"
proof -
  obtain v stk' where stk: "stk = v # stk'" using assms(2) by (cases stk) auto
  have w: "(snd s - fst s) * 2 ^ length stk' \<le> n" using assms(1) by (simp add: stk)
  have "(snd t - fst t) * 2 ^ length stk = 2 * (snd t - fst t) * 2 ^ length stk'" by (simp add: stk)
  also have "\<dots> \<le> (snd s - fst s) * 2 ^ length stk'" using assms(3) by (rule mult_le_mono1)
  also note w
  finally have "(snd t - fst t) * 2 ^ length stk \<le> n" .
  then show ?thesis using depth_ok_shrink [OF assms(1,4)] by simp
qed

lemma depth_ok_room:
  assumes "depth_ok n s stk" "4 \<le> snd s - fst s" "n < 2 ^ 64"
  shows "length stk < STKSIZE"
proof (cases stk)
  case (Cons v stk')
  have "(2 :: nat) ^ (length stk' + 2) = 4 * 2 ^ length stk'" by (simp add: power_add)
  also have "\<dots> \<le> (snd s - fst s) * 2 ^ length stk'" using assms(2) by (rule mult_le_mono1)
  also have "\<dots> \<le> n" using assms(1) Cons by simp
  also note assms(3)
  finally have "length stk' + 2 < 64" by (rule power_less_imp_less_exp [rotated]) simp
  then show ?thesis using Cons by (simp add: STKSIZE_def)
qed (simp add: STKSIZE_def)

lemma partition_correct:
  assumes "comparator cmp" "seg_ok (length xs) (lo, hi)"
  shows "\<exists>xs' ys l r. qmedian cmp xs lo (lo + (hi - lo) div 2) hi = Some xs' \<and>
     qpart cmp xs' (lo + (hi - lo) div 2) (lo + 1) (hi - 1) = Some (ys, l, r) \<and>
     mset ys = mset xs \<and> (\<forall>i. i < lo \<or> hi < i \<longrightarrow> ys ! i = xs ! i) \<and> lo \<le> r \<and> r < l \<and> l \<le> hi \<and>
     (\<forall>i j. lo \<le> i \<and> i \<le> r \<and> r < j \<and> j \<le> hi \<longrightarrow> le cmp (ys ! i) (ys ! j))"
proof -
  define mid where "mid = lo + (hi - lo) div 2"
  have b: "lo < mid" "mid < hi" "hi < length xs" "lo + 1 \<le> hi - 1"
    using assms(2) by (auto simp: mid_def seg_ok_def MAXTHRES_def)
  obtain xs' where xs': "qmedian cmp xs lo mid hi = Some xs'" "mset xs' = mset xs"
      "\<forall>i. i < lo \<or> hi < i \<longrightarrow> xs' ! i = xs ! i" "le cmp (xs' ! lo) (xs' ! mid)" "le cmp (xs' ! mid) (xs' ! hi)"
    using qmedian_correct [OF assms(1) b(1-3)] by blast
  have len: "length xs' = length xs" using xs'(2) by (metis size_mset)
  have "part_inv cmp lo hi (xs' ! mid) xs' mid (lo + 1) (hi - 1)"
  proof -
    have "le cmp (xs' ! i) (xs' ! mid)" if "lo \<le> i \<and> i < lo + 1" for i
      using xs'(4) that by (cases "i = lo") auto
    moreover have "le cmp (xs' ! mid) (xs' ! j)" if "hi - 1 < j \<and> j \<le> hi" for j
      using xs'(5) that by (cases "j = hi") auto
    ultimately show ?thesis unfolding part_inv_def using b len by simp
  qed
  then obtain ys l r where ys: "qpart cmp xs' mid (lo + 1) (hi - 1) = Some (ys, l, r)"
      "part_post cmp lo hi (xs' ! mid) xs' ys l r"
    using qpart_correct [OF assms(1) _ b(4)] by blast
  have "part_post cmp lo hi (xs' ! mid) xs ys l r"
    by (rule part_post_trans [OF ys(2) xs'(2,3)])
  then show ?thesis
    using ys(1) xs'(1) cle_trans [OF assms(1)] unfolding mid_def [symmetric] part_post_def by blast
qed

definition widths :: "(nat \<times> nat) list \<Rightarrow> nat" where
  "widths segs = sum_list (map (\<lambda>s. snd s - fst s) segs)"

lemma loop_inv_done: "loop_inv cmp xs [] \<Longrightarrow> \<exists>k\<le>MAXTHRES. front cmp xs k"
  by (auto simp: loop_inv_def)

lemma qloop_correct:
  assumes "comparator cmp" "loop_inv cmp xs ((lo, hi) # ss)" "depth_ok n (lo, hi) (ss @ [(0, 0)])" "n < 2 ^ 64"
  shows "\<exists>ys. qloop cmp xs lo hi (ss @ [(0, 0)]) = Some ys \<and> mset ys = mset xs \<and> (\<exists>k\<le>MAXTHRES. front cmp ys k)"
  using assms(2,3)
proof (induction "widths ((lo, hi) # ss)" arbitrary: xs lo hi ss rule: less_induct)
  case less
  have ok: "seg_ok (length xs) (lo, hi)" using less.prems(1) by (simp add: loop_inv_def)
  obtain xs' ys l r where med: "qmedian cmp xs lo (lo + (hi - lo) div 2) hi = Some xs'"
      and prt: "qpart cmp xs' (lo + (hi - lo) div 2) (lo + 1) (hi - 1) = Some (ys, l, r)"
      and m: "mset ys = mset xs" and o: "\<forall>i. i < lo \<or> hi < i \<longrightarrow> ys ! i = xs ! i"
      and r: "lo \<le> r" "r < l" "l \<le> hi"
      and part: "\<And>i j. lo \<le> i \<Longrightarrow> i \<le> r \<Longrightarrow> r < j \<Longrightarrow> j \<le> hi \<Longrightarrow> le cmp (ys ! i) (ys ! j)"
    using partition_correct [OF assms(1) ok] by blast
  note step = loop_inv_step [OF less.prems(1) m o r part]
  have hi: "hi < length xs" using ok by (simp add: seg_ok_def)
  have small: "qsmall lo r \<longleftrightarrow> r - lo \<le> MAXTHRES" "qsmall l hi \<longleftrightarrow> hi - l \<le> MAXTHRES"
    using r by (auto simp: qsmall_def)
  have big: "\<not> qsmall lo r \<Longrightarrow> seg_ok (length xs) (lo, r)" "\<not> qsmall l hi \<Longrightarrow> seg_ok (length xs) (l, hi)"
    using r hi unfolding small by (auto simp: seg_ok_def)
  have sum: "(r - lo) + (hi - l) < hi - lo" using r by linarith
  have eq: "qloop cmp xs lo hi (ss @ [(0, 0)]) =
      (if qsmall lo r
       then if qsmall l hi then qloop cmp ys (fst (hd (ss @ [(0, 0)]))) (snd (hd (ss @ [(0, 0)]))) (tl (ss @ [(0, 0)]))
            else qloop cmp ys l hi (ss @ [(0, 0)])
       else if qsmall l hi then qloop cmp ys lo r (ss @ [(0, 0)])
       else if STKSIZE \<le> length (ss @ [(0, 0)]) then None
       else if int r - int lo > int hi - int l then qloop cmp ys l hi ((lo, r) # ss @ [(0, 0)])
       else qloop cmp ys lo r ((l, hi) # ss @ [(0, 0)]))"
    using med prt by (subst qloop.simps) (simp add: Let_def)
  have room: "\<not> STKSIZE \<le> length (ss @ [(0, 0)])"
    using depth_ok_room [OF less.prems(2) _ assms(4)] ok by (auto simp: seg_ok_def MAXTHRES_def not_le)
  have again: ?case if "qloop cmp xs lo hi (ss @ [(0, 0)]) = qloop cmp ys lo' hi' (ss' @ [(0, 0)])"
      "loop_inv cmp ys ((lo', hi') # ss')" "depth_ok n (lo', hi') (ss' @ [(0, 0)])"
      "widths ((lo', hi') # ss') < widths ((lo, hi) # ss)" for lo' hi' ss'
    using less.hyps [OF that(4,2,3)] that(1) m by simp
  consider "qsmall lo r" "qsmall l hi" | "qsmall lo r" "\<not> qsmall l hi" | "\<not> qsmall lo r" "qsmall l hi"
    | "\<not> qsmall lo r" "\<not> qsmall l hi" by blast
  then show ?case
  proof cases
    case 1
    have inv: "loop_inv cmp ys ss" using step [of "[]"] 1 small by simp
    show ?thesis
    proof (cases ss)
      case Nil
      then have "qloop cmp xs lo hi (ss @ [(0, 0)]) = Some ys" using eq 1 by (simp add: qloop.simps [of _ _ _ _ "[]"])
      then show ?thesis using m inv loop_inv_done Nil by auto
    next
      case (Cons t ss')
      obtain a b where t: "t = (a, b)" by (cases t)
      show ?thesis
        by (rule again [of a b ss'])
          (use eq 1 Cons t inv less.prems(2) sum in \<open>simp_all add: widths_def\<close>)
    qed
  next
    case 2
    then show ?thesis
      using step [of "[(l, hi)]"] big(2) small eq sum depth_ok_shrink [OF less.prems(2), of "(l, hi)"] r
      by (intro again [of l hi ss]) (simp_all add: widths_def)
  next
    case 3
    then show ?thesis
      using step [of "[(lo, r)]"] big(1) small eq sum depth_ok_shrink [OF less.prems(2), of "(lo, r)"] r
      by (intro again [of lo r ss]) (simp_all add: widths_def)
  next
    case 4
    show ?thesis
    proof (cases "int r - int lo > int hi - int l")
      case True
      show ?thesis
        using 4 True eq room r sum step [of "[(l, hi), (lo, r)]"] big
          depth_ok_push [OF less.prems(2), of "(l, hi)" "(lo, r)"]
        by (intro again [of l hi "(lo, r) # ss"]) (simp_all add: widths_def apart_def)
    next
      case False
      show ?thesis
        using 4 False eq room r sum step [of "[(lo, r), (l, hi)]"] big
          depth_ok_push [OF less.prems(2), of "(lo, r)" "(l, hi)"]
        by (intro again [of lo r "(l, hi) # ss"]) (simp_all add: widths_def apart_def)
    qed
  qed
qed

section \<open>The insertion sort\<close>

lemma qback_stops:
  assumes "run < length xs" "tmp < run" "k \<le> tmp" "\<not> cmp (xs ! run) (xs ! k) < 0"
  shows "\<exists>q. qback cmp xs run tmp = Some q \<and> k < q \<and> q \<le> tmp + 1 \<and> \<not> cmp (xs ! run) (xs ! (q - 1)) < 0 \<and>
    (\<forall>i. q \<le> i \<and> i \<le> tmp \<longrightarrow> cmp (xs ! run) (xs ! i) < 0)"
  using assms
proof (induction tmp)
  case 0
  then show ?case by (subst qback.simps) auto
next
  case (Suc tmp)
  show ?case
  proof (cases "cmp (xs ! run) (xs ! Suc tmp) < 0")
    case True
    then have "k \<le> tmp" using Suc.prems by (cases "k = Suc tmp") auto
    then obtain q where q: "qback cmp xs run tmp = Some q" "k < q" "q \<le> tmp + 1" "\<not> cmp (xs ! run) (xs ! (q - 1)) < 0"
        "\<forall>i. q \<le> i \<and> i \<le> tmp \<longrightarrow> cmp (xs ! run) (xs ! i) < 0"
      using Suc by auto
    have "cmp (xs ! run) (xs ! i) < 0" if "q \<le> i" "i \<le> Suc tmp" for i
      using q(5) True that by (cases "i = Suc tmp") auto
    then show ?thesis using q True Suc.prems by (subst qback.simps) auto
  next
    case False
    then show ?thesis using Suc.prems by (subst qback.simps) auto
  qed
qed

lemma length_qmove: "tmp \<le> run \<Longrightarrow> run < length xs \<Longrightarrow> length (qmove xs tmp run) = length xs"
  by (simp add: qmove_def)

lemma qmove_nth:
  assumes "tmp \<le> run" "run < length xs" "i < length xs"
  shows "qmove xs tmp run ! i =
    (if i < tmp then xs ! i else if i = tmp then xs ! run else if i \<le> run then xs ! (i - 1) else xs ! i)"
proof -
  have "qmove xs tmp run ! i = (take tmp xs @ xs ! run # drop tmp (take run xs) @ drop (Suc run) xs) ! i"
    by (simp add: qmove_def)
  then show ?thesis using assms by (auto simp: nth_append nth_Cons' min_def)
qed

lemma mset_qmove:
  assumes "tmp \<le> run" "run < length xs"
  shows "mset (qmove xs tmp run) = mset xs"
proof -
  have "take tmp xs @ drop tmp (take run xs) @ xs ! run # drop (Suc run) xs = xs"
    using assms by (metis append_take_drop_id append.assoc id_take_nth_drop take_take min.absorb1)
  then have "mset xs = mset (take tmp xs @ drop tmp (take run xs) @ xs ! run # drop (Suc run) xs)" by simp
  then show ?thesis by (simp add: qmove_def)
qed

definition sorted_to :: "'a cmpfun \<Rightarrow> 'a list \<Rightarrow> nat \<Rightarrow> bool" where
  "sorted_to cmp xs n \<longleftrightarrow> (\<forall>i j. i \<le> j \<and> j < n \<longrightarrow> le cmp (xs ! i) (xs ! j))"

lemma sorted_to_insert:
  assumes c: "comparator cmp" and s: "sorted_to cmp xs run" and run: "run < length xs"
    and q: "0 < q" "q \<le> run" "\<not> cmp (xs ! run) (xs ! (q - 1)) < 0" "\<forall>i. q \<le> i \<and> i < run \<longrightarrow> cmp (xs ! run) (xs ! i) < 0"
  shows "sorted_to cmp (qmove xs q run) (Suc run)"
proof -
  have so: "le cmp (xs ! i) (xs ! j)" if "i \<le> j" "j < run" for i j using s that by (auto simp: sorted_to_def)
  have below: "le cmp (xs ! i) (xs ! run)" if "i < q" for i
  proof -
    have "le cmp (xs ! i) (xs ! (q - 1))" using so [of i "q - 1"] that q by auto
    then show ?thesis using q(3) cle_trans [OF c] unfolding le_def [of cmp "xs ! (q - 1)"] by (meson le_def)
  qed
  have above: "le cmp (xs ! run) (xs ! i)" if "q \<le> i" "i < run" for i using q(4) that cless_le [OF c] by blast
  have "le cmp (qmove xs q run ! i) (qmove xs q run ! j)" if ij: "i \<le> j" "j < Suc run" for i j
  proof -
    have n: "i < length xs" "j < length xs" using ij run by auto
    consider "j < q" | "j = q" "i = q" | "j = q" "i < q" | "q < j" "i < q" | "q < j" "i = q" | "q < j" "q < i"
      using ij less_linear [of j q] less_linear [of i q] by fastforce
    then show ?thesis
      using ij so [of i j] so [of i "j - 1"] so [of "i - 1" "j - 1"] below [of i] above [of "j - 1"] cle_refl [OF c] q(2)
      unfolding qmove_nth [OF q(2) run n(1)] qmove_nth [OF q(2) run n(2)] by cases auto
  qed
  then show ?thesis by (simp add: sorted_to_def)
qed

lemma qmove_self: "run < length xs \<Longrightarrow> qmove xs run run = xs"
  by (simp add: qmove_def Cons_nth_drop_Suc)

lemma qinsloop_correct:
  assumes "comparator cmp" "sorted_to cmp xs run" "1 \<le> run" "run \<le> length xs" "lim = length xs - 1"
    "\<forall>x\<in>set xs. le cmp (xs ! 0) x"
  shows "\<exists>ys. qinsloop cmp lim xs run = Some ys \<and> mset ys = mset xs \<and> sorted_to cmp ys (length ys)"
  using assms
proof (induction cmp lim xs run rule: qinsloop.induct)
  case (1 cmp lim xs run)
  note prems = "1.prems"
  show ?case
  proof (cases "run \<le> lim")
    case True
    then have run: "run < length xs" using prems(3,4,5) by linarith
    have "\<not> cmp (xs ! run) (xs ! 0) < 0" using prems(6) run by (simp add: le_def)
    then obtain q where q: "qback cmp xs run (run - 1) = Some q" "0 < q" "q \<le> run - 1 + 1"
        "\<not> cmp (xs ! run) (xs ! (q - 1)) < 0" "\<forall>i. q \<le> i \<and> i \<le> run - 1 \<longrightarrow> cmp (xs ! run) (xs ! i) < 0"
      using qback_stops [of run xs "run - 1" 0 cmp] run prems(3) by auto
    have qr: "q \<le> run" using q(3) prems(3) by simp
    define ys where "ys = qmove xs q run"
    have upd: "(if q \<noteq> run then qmove xs q run else xs) = ys" using qmove_self [OF run] by (simp add: ys_def)
    have "\<forall>i. q \<le> i \<and> i < run \<longrightarrow> cmp (xs ! run) (xs ! i) < 0" using q(5) by auto
    then have so: "sorted_to cmp ys (run + 1)"
      unfolding ys_def using sorted_to_insert [OF prems(1,2) run q(2) qr q(4)] by simp
    have m: "mset ys = mset xs" "length ys = length xs"
      unfolding ys_def by (rule mset_qmove [OF qr run], rule length_qmove [OF qr run])
    have "ys ! 0 = xs ! 0" unfolding ys_def using qmove_nth [OF qr run, of 0] q(2) run by (cases xs) auto
    then have first: "\<forall>x\<in>set ys. le cmp (ys ! 0) x" using prems(6) mset_eq_setD [OF m(1)] by simp
    have "\<exists>zs. qinsloop cmp lim ys (run + 1) = Some zs \<and> mset zs = mset ys \<and> sorted_to cmp zs (length zs)"
      using "1.IH" [OF True q(1)] prems(1,5) so run m(2) first unfolding upd by simp
    then show ?thesis using True q(1) upd m(1) by (subst qinsloop.simps) auto
  next
    case False
    then have "run = length xs" using prems(3,4,5) by linarith
    then show ?thesis using False prems(2) by (subst qinsloop.simps) auto
  qed
qed

lemma qfirstmin_min:
  assumes "comparator cmp"
  shows "qfirstmin cmp xs n \<le> n \<and> (\<forall>i\<le>n. le cmp (xs ! qfirstmin cmp xs n) (xs ! i))"
proof (induction n)
  case 0
  then show ?case using cle_refl [OF assms] by (simp add: qfirstmin_def)
next
  case (Suc n)
  define t where "t = qfirstmin cmp xs n"
  have eq: "qfirstmin cmp xs (Suc n) = (if cmp (xs ! Suc n) (xs ! t) < 0 then Suc n else t)"
    by (simp add: qfirstmin_def t_def)
  have t: "t \<le> n" "\<And>i. i \<le> n \<Longrightarrow> le cmp (xs ! t) (xs ! i)" using Suc by (auto simp: t_def)
  show ?case
  proof (cases "cmp (xs ! Suc n) (xs ! t) < 0")
    case True
    then have "le cmp (xs ! Suc n) (xs ! i)" if "i \<le> Suc n" for i
      using that t(2) [of i] cle_trans [OF assms cless_le [OF assms True]] cle_refl [OF assms] by (cases "i = Suc n") auto
    then show ?thesis using eq True by simp
  next
    case False
    then have "le cmp (xs ! t) (xs ! i)" if "i \<le> Suc n" for i
      using that t(2) [of i] by (cases "i = Suc n") (auto simp: le_def)
    then show ?thesis using eq False t(1) by simp
  qed
qed

lemma qinsert_correct:
  assumes c: "comparator cmp" and n: "2 \<le> length xs" and f: "length xs \<le> Suc MAXTHRES \<or> (\<exists>k\<le>MAXTHRES. front cmp xs k)"
  shows "\<exists>ys. qinsert cmp xs = Some ys \<and> mset ys = mset xs \<and> sorted_to cmp ys (length ys)"
proof -
  define thres where "thres = min (length xs - 1) MAXTHRES"
  define t where "t = qfirstmin cmp xs thres"
  have t: "t \<le> thres" "\<And>i. i \<le> thres \<Longrightarrow> le cmp (xs ! t) (xs ! i)"
    using qfirstmin_min [OF c, of xs thres] by (auto simp: t_def)
  have tn: "t < length xs" using t(1) n by (auto simp: thres_def)
  have all: "le cmp (xs ! t) (xs ! i)" if i: "i < length xs" for i
  proof (cases "i \<le> thres")
    case False
    then obtain k where k: "k \<le> MAXTHRES" "front cmp xs k" using f i by (auto simp: thres_def)
    then have kt: "k \<le> thres" "k < i" using False i by (auto simp: thres_def front_def)
    have "le cmp (xs ! k) (xs ! i)" using k(2) kt(2) i by (auto simp: front_def)
    then show ?thesis using cle_trans [OF c t(2) [OF kt(1)]] by blast
  qed (rule t(2))
  define ys where "ys = (if t \<noteq> 0 then qswap xs t 0 else xs)"
  have ys: "mset ys = mset xs" "length ys = length xs" "ys ! 0 = xs ! t"
    using tn mset_qswap [OF tn, of 0] qswap_nth [OF tn, of 0] by (cases xs; auto simp: ys_def)+
  have first: "\<forall>x\<in>set ys. le cmp (ys ! 0) x"
    using all mset_eq_setD [OF ys(1)] ys(3) by (metis in_set_conv_nth)
  have "sorted_to cmp ys 2"
  proof -
    have "le cmp (ys ! i) (ys ! j)" if ij: "i \<le> j" "j < 2" for i j
    proof (cases "i = j")
      case False
      then have "i = 0" using ij by simp
      then show ?thesis using first ij n ys(2) by simp
    qed (simp add: cle_refl [OF c])
    then show ?thesis by (simp add: sorted_to_def)
  qed
  then have "\<exists>zs. qinsloop cmp (length xs - 1) ys 2 = Some zs \<and> mset zs = mset ys \<and> sorted_to cmp zs (length zs)"
    using qinsloop_correct [OF c, of ys 2 "length xs - 1"] n ys(2) first by simp
  moreover have "qinsert cmp xs = qinsloop cmp (length xs - 1) ys 2"
    by (simp add: qinsert_def Let_def thres_def t_def ys_def)
  ultimately show ?thesis using ys(1) by simp
qed

section \<open>Bytes and items\<close>

definition items :: "(nat \<Rightarrow> u8) \<Rightarrow> nat \<Rightarrow> nat \<Rightarrow> u8 list list" where
  "items m sz n = map (\<lambda>i. map (\<lambda>c. m (i * sz + c)) [0..<sz]) [0..<n]"

lemma length_items [simp]: "length (items m sz n) = n"
  by (simp add: items_def)

lemma items_eqI:
  assumes "length xs = n" "\<And>i. i < n \<Longrightarrow> length (xs ! i) = sz"
    "\<And>i c. i < n \<Longrightarrow> c < sz \<Longrightarrow> m (i * sz + c) = xs ! i ! c"
  shows "items m sz n = xs"
  using assms by (auto simp: items_def list_eq_iff_nth_eq)

lemma items_nth: "i < n \<Longrightarrow> items m sz n ! i = map (\<lambda>c. m (i * sz + c)) [0..<sz]"
  by (simp add: items_def)

lemma cell_index: "c < sz \<Longrightarrow> d < sz \<Longrightarrow> i * sz + c = j * sz + d \<longleftrightarrow> i = j \<and> c = (d :: nat)"
  by (metis add.commute div_mult_self3 div_less add.right_neutral mod_mult_self3 mod_less less_zeroE add_left_cancel)

lemma swapgen_outside:
  "\<not> (ap \<le> x \<and> x < ap + sz) \<Longrightarrow> \<not> (bp \<le> x \<and> x < bp + sz) \<Longrightarrow> swapgen sz m ap bp x = m x"
proof (induction sz arbitrary: m ap bp)
  case (Suc sz)
  then have "swapgen sz (m(ap := m bp, bp := m ap)) (ap + 1) (bp + 1) x = (m(ap := m bp, bp := m ap)) x"
    by (intro Suc.IH) auto
  then show ?case using Suc.prems by auto
qed simp

lemma swapgen_cell:
  assumes "ap + sz \<le> bp \<or> bp + sz \<le> ap" "k < sz"
  shows "swapgen sz m ap bp (ap + k) = m (bp + k) \<and> swapgen sz m ap bp (bp + k) = m (ap + k)"
  using assms
proof (induction sz arbitrary: m ap bp k)
  case (Suc sz)
  note prems = Suc.prems and IH = Suc.IH
  define m' where "m' = m(ap := m bp, bp := m ap)"
  have step: "swapgen (Suc sz) m ap bp = swapgen sz m' (ap + 1) (bp + 1)" by (simp add: m'_def)
  show ?case
  proof (cases k)
    case 0
    have "swapgen sz m' (ap + 1) (bp + 1) ap = m' ap" "swapgen sz m' (ap + 1) (bp + 1) bp = m' bp"
      using prems by (intro swapgen_outside; auto)+
    then show ?thesis using 0 prems step by (auto simp: m'_def)
  next
    case (Suc j)
    then have "swapgen sz m' (ap + 1) (bp + 1) (ap + 1 + j) = m' (bp + 1 + j) \<and>
        swapgen sz m' (ap + 1) (bp + 1) (bp + 1 + j) = m' (ap + 1 + j)"
      using prems by (intro IH) auto
    then show ?thesis using Suc prems step by (auto simp: m'_def)
  qed
qed simp

lemma items_apart: "i \<noteq> j \<Longrightarrow> i * sz + sz \<le> j * sz \<or> j * sz + sz \<le> i * (sz :: nat)"
  by (metis add.commute mult_Suc mult_le_mono1 not_less_eq_eq linorder_neqE_nat Suc_leI)

lemma swapgen_items:
  assumes "i < n" "j < n" "i \<noteq> j"
  shows "items (swapgen sz m (i * sz) (j * sz)) sz n = qswap (items m sz n) i j"
proof (rule items_eqI)
  note ap = items_apart [OF assms(3), of sz]
  fix k c assume kc: "k < n" "c < sz"
  show "swapgen sz m (i * sz) (j * sz) (k * sz + c) = qswap (items m sz n) i j ! k ! c"
  proof (cases "k = i \<or> k = j")
    case True
    then show ?thesis
      using swapgen_cell [OF ap kc(2), of m] assms kc by (auto simp: qswap_nth items_nth)
  next
    case False
    have "\<not> (i * sz \<le> k * sz + c \<and> k * sz + c < i * sz + sz)" "\<not> (j * sz \<le> k * sz + c \<and> k * sz + c < j * sz + sz)"
      using items_apart [of k i sz] items_apart [of k j sz] False kc(2) by auto
    then show ?thesis
      using swapgen_outside [of "i * sz" "k * sz + c" sz "j * sz" m] False assms kc by (simp add: qswap_nth items_nth)
  qed
qed (use assms in \<open>auto simp: qswap_nth items_nth\<close>)

lemma shiftcol_spec:
  assumes "t \<le> q" "c < sz"
  shows "fst (shiftcol sz (t * sz) m (q * sz + c)) = t * sz + c \<and>
    (\<forall>p i. i < sz \<longrightarrow> snd (shiftcol sz (t * sz) m (q * sz + c)) (p * sz + i) =
      (if i = c \<and> t < p \<and> p \<le> q then m ((p - 1) * sz + i) else m (p * sz + i)))"
  using assms
proof (induction "q - t" arbitrary: q m)
  case 0
  then have "shiftcol sz (t * sz) m (q * sz + c) = (q * sz + c, m)" by (subst shiftcol.simps) auto
  then show ?case using 0 by auto
next
  case (Suc d)
  then obtain r where q: "q = Suc r" "t \<le> r" by (cases q) auto
  define m' where "m' = m(q * sz + c := m (r * sz + c))"
  have "t * sz \<le> r * sz" by (rule mult_le_mono1 [OF q(2)])
  then have "t * sz + sz \<le> q * sz + c" unfolding q(1) mult_Suc by linarith
  then have "shiftcol sz (t * sz) m (q * sz + c) = shiftcol sz (t * sz) m' (r * sz + c)"
    using Suc.prems q by (subst shiftcol.simps) (simp add: m'_def)
  moreover have "fst (shiftcol sz (t * sz) m' (r * sz + c)) = t * sz + c \<and>
    (\<forall>p i. i < sz \<longrightarrow> snd (shiftcol sz (t * sz) m' (r * sz + c)) (p * sz + i) =
      (if i = c \<and> t < p \<and> p \<le> r then m' ((p - 1) * sz + i) else m' (p * sz + i)))"
    by (rule Suc.hyps) (use Suc q in auto)
  moreover have "m' (p * sz + i) = (if i = c \<and> p = q then m (r * sz + c) else m (p * sz + i))" if "i < sz" for p i
    using cell_index [OF that Suc.prems(2)] by (simp add: m'_def)
  ultimately show ?case using q by auto
qed

lemma rotbytes_spec:
  assumes "t \<le> r" "k \<le> sz" "i < sz"
  shows "rotbytes k sz m (t * sz) (r * sz) (p * sz + i) =
    (if i < k then if p = t then m (r * sz + i) else if t < p \<and> p \<le> r then m ((p - 1) * sz + i) else m (p * sz + i)
     else m (p * sz + i))"
  using assms(2)
proof (induction k arbitrary: m)
  case (Suc k)
  define m1 where "m1 = snd (shiftcol sz (t * sz) m (r * sz + k))"
  have sp: "fst (shiftcol sz (t * sz) m (r * sz + k)) = t * sz + k"
    and m1: "\<And>p i. i < sz \<Longrightarrow> m1 (p * sz + i) = (if i = k \<and> t < p \<and> p \<le> r then m ((p - 1) * sz + i) else m (p * sz + i))"
    using shiftcol_spec [OF assms(1), of k sz m] Suc.prems by (auto simp: m1_def)
  define m2 where "m2 = m1(t * sz + k := m (r * sz + k))"
  have m2: "m2 (p * sz + i) = (if i = k \<and> p = t then m (r * sz + k) else m1 (p * sz + i))" if "i < sz" for p i
    using cell_index [OF that, of k] Suc.prems by (simp add: m2_def)
  have "rotbytes (Suc k) sz m (t * sz) (r * sz) = rotbytes k sz m2 (t * sz) (r * sz)"
    using sp by (simp add: m2_def m1_def case_prod_beta Let_def)
  then show ?case
    using Suc.IH [of m2] Suc.prems m2 [OF assms(3)] m1 [OF assms(3)] assms(1) by (cases "i = k") auto
qed simp

lemma rotbytes_items:
  assumes "t \<le> r" "r < n"
  shows "items (rotbytes sz sz m (t * sz) (r * sz)) sz n = qmove (items m sz n) t r"
proof (rule items_eqI)
  fix k c assume kc: "k < n" "c < sz"
  show "rotbytes sz sz m (t * sz) (r * sz) (k * sz + c) = qmove (items m sz n) t r ! k ! c"
    using rotbytes_spec [OF assms(1) order_refl kc(2), of m k] assms kc
    by (auto simp: qmove_nth items_nth)
qed (use assms in \<open>auto simp: length_qmove qmove_nth items_nth\<close>)

section \<open>Searching\<close>

definition three_way :: "'a cmpfun \<Rightarrow> bool" where
  "three_way cmp \<longleftrightarrow> (\<forall>x y. cmp x y > 0 \<longleftrightarrow> cmp y x < 0)"

lemma bsearchloop_correct:
  assumes "lim \<le> length xs"
    "\<And>i j. i \<le> j \<Longrightarrow> j < length xs \<Longrightarrow> f (xs ! i) < 0 \<Longrightarrow> f (xs ! j) < 0"
    "\<And>i j. i \<le> j \<Longrightarrow> j < length xs \<Longrightarrow> f (xs ! j) > 0 \<Longrightarrow> f (xs ! i) > 0"
    "\<And>i. i < l \<Longrightarrow> f (xs ! i) > 0" "\<And>i. lim \<le> i \<Longrightarrow> i < length xs \<Longrightarrow> f (xs ! i) < 0"
  shows "case bsearchloop f xs l lim of Some i \<Rightarrow> i < length xs \<and> f (xs ! i) = 0 | None \<Rightarrow> \<forall>i<length xs. f (xs ! i) \<noteq> 0"
  using assms
proof (induction f xs l lim rule: bsearchloop.induct)
  case (1 f xs l lim)
  note prems = "1.prems"
  show ?case
  proof (cases "l < lim")
    case True
    define ndx where "ndx = (l + lim) div 2"
    have n: "l \<le> ndx" "ndx < lim" "ndx < length xs" using True prems(1) by (auto simp: ndx_def)
    consider "f (xs ! ndx) < 0" | "f (xs ! ndx) > 0" | "f (xs ! ndx) = 0" by linarith
    then show ?thesis
    proof cases
      case 1
      have "case bsearchloop f xs l ndx of Some i \<Rightarrow> i < length xs \<and> f (xs ! i) = 0 | None \<Rightarrow> \<forall>i<length xs. f (xs ! i) \<noteq> 0"
        by (rule "1.IH"(1) [OF True ndx_def refl 1]) (use n prems 1 in \<open>auto intro: prems(2) prems(3)\<close>)
      then show ?thesis using True 1 by (subst bsearchloop.simps) (simp add: ndx_def [symmetric])
    next
      case 2
      have neg: "\<not> f (xs ! ndx) < 0" using 2 by simp
      have low: "f (xs ! i) > 0" if "i < ndx + 1" for i using prems(3) [of i ndx] n(3) 2 that by auto
      have "case bsearchloop f xs (ndx + 1) lim of Some i \<Rightarrow> i < length xs \<and> f (xs ! i) = 0 | None \<Rightarrow> \<forall>i<length xs. f (xs ! i) \<noteq> 0"
        by (rule "1.IH"(2) [OF True ndx_def refl neg 2]) (use n prems 2 low in \<open>auto intro: prems(2) prems(3)\<close>)
      then show ?thesis using True 2 by (subst bsearchloop.simps) (simp add: ndx_def [symmetric])
    next
      case 3
      then show ?thesis using True n by (subst bsearchloop.simps) (simp add: ndx_def [symmetric])
    qed
  next
    case False
    have "f (xs ! i) \<noteq> 0" if i: "i < length xs" for i
      using prems(4) [of i] prems(5) [of i] False i by (cases "i < l") auto
    then show ?thesis using False by (subst bsearchloop.simps) auto
  qed
qed

lemma bsearch_correct:
  assumes "comparator cmp" "three_way cmp" "sorted_to cmp xs (length xs)"
  shows "case bsearch cmp key xs of Some i \<Rightarrow> i < length xs \<and> cmp key (xs ! i) = 0 | None \<Rightarrow> \<forall>x\<in>set xs. cmp key x \<noteq> 0"
proof -
  have so: "le cmp (xs ! i) (xs ! j)" if "i \<le> j" "j < length xs" for i j using assms(3) that by (auto simp: sorted_to_def)
  have flip: "cmp x y > 0 \<longleftrightarrow> cmp y x < 0" for x y using assms(2) by (simp add: three_way_def)
  have up: "cmp key (xs ! j) < 0" if "i \<le> j" "j < length xs" "cmp key (xs ! i) < 0" for i j
  proof (rule ccontr)
    assume "\<not> cmp key (xs ! j) < 0"
    then have "le cmp (xs ! j) key" by (simp add: le_def)
    then have "le cmp (xs ! i) key" using cle_trans [OF assms(1) so [OF that(1,2)]] by blast
    then show False using that(3) by (simp add: le_def)
  qed
  have down: "cmp key (xs ! i) > 0" if "i \<le> j" "j < length xs" "cmp key (xs ! j) > 0" for i j
  proof (rule ccontr)
    assume "\<not> cmp key (xs ! i) > 0"
    then have "le cmp key (xs ! i)" by (simp add: le_def flip)
    then have "le cmp key (xs ! j)" using cle_trans [OF assms(1) _ so [OF that(1,2)]] by blast
    then show False using that(3) by (simp add: le_def flip)
  qed
  have "case bsearchloop (cmp key) xs 0 (length xs) of Some i \<Rightarrow> i < length xs \<and> cmp key (xs ! i) = 0
      | None \<Rightarrow> \<forall>i<length xs. cmp key (xs ! i) \<noteq> 0"
    by (rule bsearchloop_correct) (use up down in auto)
  then show ?thesis by (auto simp: bsearch_def all_set_conv_all_nth split: option.splits)
qed

section \<open>Properties\<close>

lemma qsort_correct:
  assumes "comparator cmp" "length xs < 2 ^ 64" "length xs \<le> 5 \<or> 4 * sz < length xs" "0 < sz"
  shows "\<exists>ys. qsort cmp sz xs = Some ys \<and> mset ys = mset xs \<and> sorted_to cmp ys (length ys)"
proof (cases "length xs \<le> 1")
  case True
  then have "i = j" if "i \<le> j" "j < length xs" for i j using that by linarith
  then have "sorted_to cmp xs (length xs)" using cle_refl [OF assms(1)] unfolding sorted_to_def by metis
  then show ?thesis using True by (simp add: qsort_def)
next
  case False
  have "\<exists>zs. (if length xs > MAXTHRES * sz then qloop cmp xs 0 (length xs - 1) [(0, 0)] else Some xs) = Some zs \<and>
      mset zs = mset xs \<and> (length zs \<le> Suc MAXTHRES \<or> (\<exists>k\<le>MAXTHRES. front cmp zs k))"
  proof (cases "length xs > MAXTHRES * sz")
    case True
    then have n: "5 \<le> length xs" using assms(4) by (simp add: MAXTHRES_def)
    have "loop_inv cmp xs [(0, length xs - 1)]"
      using n by (auto simp: loop_inv_def seg_ok_def front_def MAXTHRES_def)
    moreover have "depth_ok (length xs) (0, length xs - 1) ([] @ [(0, 0)])" by simp
    ultimately show ?thesis using qloop_correct [OF assms(1) _ _ assms(2), of xs 0 "length xs - 1" "[]"] True by auto
  next
    case False
    then show ?thesis using assms(3) by (auto simp: MAXTHRES_def)
  qed
  then obtain zs where zs: "(if length xs > MAXTHRES * sz then qloop cmp xs 0 (length xs - 1) [(0, 0)] else Some xs) = Some zs"
      "mset zs = mset xs" "length zs \<le> Suc MAXTHRES \<or> (\<exists>k\<le>MAXTHRES. front cmp zs k)" by blast
  have "2 \<le> length zs" using zs(2) False by (metis size_mset not_less_eq_eq numeral_2_eq_2 One_nat_def)
  then obtain ys where "qinsert cmp zs = Some ys" "mset ys = mset zs" "sorted_to cmp ys (length ys)"
    using qinsert_correct [OF assms(1) _ zs(3)] by blast
  then show ?thesis using False zs(1,2) by (simp add: qsort_def Let_def)
qed

text \<open>
  C1: sorting with a comparison function that orders the items ends without leaving the array or the
  stack and returns the items in ascending order, whenever there are at most five of them or more than
  four times the item size.
\<close>

theorem qsort_sorts:
  assumes "comparator cmp" "length xs < 2 ^ 64" "length xs \<le> 5 \<or> 4 * sz < length xs" "0 < sz"
  shows "\<exists>ys. qsort cmp sz xs = Some ys \<and> mset ys = mset xs \<and> sorted_wrt (le cmp) ys"
proof -
  obtain ys where "qsort cmp sz xs = Some ys" "mset ys = mset xs" "sorted_to cmp ys (length ys)"
    using qsort_correct [OF assms] by blast
  then show ?thesis by (auto simp: sorted_to_def sorted_wrt_iff_nth_less)
qed

definition intcmp :: "int cmpfun" where
  "intcmp x y = x - y"

lemma intcmp_order: "comparator intcmp" "three_way intcmp"
  by (auto simp: comparator_def three_way_def le_def intcmp_def)

theorem qsort_sorts_witness:
  "\<exists>ys. qsort intcmp 1 [7, 3, 9, 1, 8, 2, 3, 5] = Some ys \<and> mset ys = mset [7, 3, 9, 1, 8, 2, 3, 5] \<and> sorted_wrt (le intcmp) ys"
  using qsort_sorts [OF intcmp_order(1), of "[7, 3, 9, 1, 8, 2, 3, 5]" 1] by simp

text \<open>
  C28: in an array sorted by \<open>qsort\<close> the binary search with the same comparison function finds an
  item that compares equal to the key exactly when the original array has one, and the item it returns
  compares equal.
\<close>

theorem bsearch_after_qsort:
  assumes "comparator cmp" "three_way cmp" "length xs < 2 ^ 64" "length xs \<le> 5 \<or> 4 * sz < length xs" "0 < sz"
  shows "\<exists>ys. qsort cmp sz xs = Some ys \<and>
     (case bsearch cmp key ys of
        Some i \<Rightarrow> i < length ys \<and> cmp key (ys ! i) = 0
      | None \<Rightarrow> \<forall>x\<in>set xs. cmp key x \<noteq> 0)"
proof -
  obtain ys where ys: "qsort cmp sz xs = Some ys" "mset ys = mset xs" "sorted_to cmp ys (length ys)"
    using qsort_correct [OF assms(1,3-5)] by blast
  then show ?thesis
    using bsearch_correct [OF assms(1,2) ys(3), of key] mset_eq_setD [OF ys(2)] by (auto split: option.splits)
qed

theorem bsearch_after_qsort_witness:
  "\<exists>ys. qsort intcmp 4 [7, 3, 9, 1, 8] = Some ys \<and>
     (case bsearch intcmp 9 ys of Some i \<Rightarrow> ys ! i = 9 | None \<Rightarrow> False)"
  using bsearch_after_qsort [OF intcmp_order, of "[7, 3, 9, 1, 8]" 4 9] by (auto simp: intcmp_def split: option.splits)

text \<open>
  The threshold counts bytes where the number of items is meant: six items of four bytes, the smallest
  of them last, are not partitioned, the search for the smallest item looks only at the first five, and
  the insertion reads below the array.
\<close>

lemma qsort_reads_below: "qsort intcmp 4 [2, 3, 4, 5, 6, 1] = None"
  by (simp add: qsort_def MAXTHRES_def qinsert_def qfirstmin_def intcmp_def upt_rec
      qinsloop.simps qback.simps)

end
