(* ===== verification/Locks.thy ===== *)
theory Locks
  imports Prelude "HOL-Library.Sublist"
begin

text \<open>
  The locks of the library, run by threads in any interleaving: the fast mutex of
  usr/lib/zero/mtx.h, the spin lock of usr/lib/zero/spin.h and the ticket lock of
  usr/lib/zero/tktlk.h on the x86-64, with the atomic instructions of usr/lib/zero/x86/asm.h and
  usr/lib/zero/x86-64/asm.h.

  Every access to the lock word is one step of the thread that makes it.  Between its calls a thread is
  outside or inside its critical section.  Yielding and pausing change no state and are left out, as
  are the barriers: steps take effect in their order.
\<close>

section \<open>Atomic instructions\<close>

definition m_cmpxchg :: "'a \<Rightarrow> 'a \<Rightarrow> 'a \<Rightarrow> int \<times> 'a" where
  "m_cmpxchg p want val = (if p = want then (1, val) else (0, p))"

text \<open>
  The exchange and add declares the accumulator as an output only, so that the value to add need not be
  in it: what is added is the content \<open>eax\<close> of the register, whatever \<open>val\<close> is.
\<close>

definition m_xaddu32 :: "u32 \<Rightarrow> u32 \<Rightarrow> u32 \<Rightarrow> u32 \<times> u32" where
  "m_xaddu32 eax p val = (p, p + eax)"

section \<open>The fast mutex and the spin lock\<close>

definition FMTXINITVAL :: int where "FMTXINITVAL = 0"
definition FMTXLKVAL :: int where "FMTXLKVAL = 1"

definition fmtxtrylk :: "int \<Rightarrow> int \<times> int" where
  "fmtxtrylk lp = m_cmpxchg lp FMTXINITVAL FMTXLKVAL"

text \<open>One turn of the loop: whether it ends, and the lock word.\<close>

definition fmtxlk :: "int \<Rightarrow> bool \<times> int" where
  "fmtxlk lp = (let (res, lp) = m_cmpxchg lp FMTXINITVAL FMTXLKVAL in (res \<noteq> 0, lp))"

definition fmtxunlk :: "int \<Rightarrow> int" where
  "fmtxunlk lp = FMTXINITVAL"

definition ZEROSPININITVAL :: int where "ZEROSPININITVAL = 0"
definition ZEROSPINLKVAL :: int where "ZEROSPINLKVAL = 1"

definition spintrylk :: "int \<Rightarrow> int \<times> int" where
  "spintrylk sp =
     (let (res, sp) = m_cmpxchg sp ZEROSPININITVAL ZEROSPINLKVAL
      in (if res = ZEROSPININITVAL then 1 else 0, sp))"

definition spinlk :: "int \<Rightarrow> bool \<times> int" where
  "spinlk sp =
     (let (res, sp) = m_cmpxchg sp ZEROSPININITVAL ZEROSPINLKVAL
      in (\<not> res \<noteq> ZEROSPININITVAL, sp))"

definition spinunlk :: "int \<Rightarrow> int" where
  "spinunlk sp = ZEROSPININITVAL"

lemmas lock_consts = FMTXINITVAL_def FMTXLKVAL_def ZEROSPININITVAL_def ZEROSPINLKVAL_def

datatype where_at = Outside | Locking | Inside

record lkstate =
  lk :: int
  at :: "nat \<Rightarrow> where_at"

text \<open>The threads use a lock given by one turn of its locking loop and by its unlock function.\<close>

inductive lkstep :: "(int \<Rightarrow> bool \<times> int) \<Rightarrow> (int \<Rightarrow> int) \<Rightarrow> lkstate \<Rightarrow> lkstate \<Rightarrow> bool"
  for turn unlk where
  call: "at s t = Outside \<Longrightarrow> lkstep turn unlk s (s\<lparr>at := (at s)(t := Locking)\<rparr>)"
| got: "at s t = Locking \<Longrightarrow> turn (lk s) = (True, v) \<Longrightarrow>
    lkstep turn unlk s (s\<lparr>lk := v, at := (at s)(t := Inside)\<rparr>)"
| again: "at s t = Locking \<Longrightarrow> turn (lk s) = (False, v) \<Longrightarrow> lkstep turn unlk s (s\<lparr>lk := v\<rparr>)"
| leave: "at s t = Inside \<Longrightarrow> lkstep turn unlk s (s\<lparr>lk := unlk (lk s), at := (at s)(t := Outside)\<rparr>)"

definition lkinit :: lkstate where
  "lkinit = \<lparr>lk = 0, at = (\<lambda>_. Outside)\<rparr>"

section \<open>The ticket lock\<close>

text \<open>Where a thread is, with its local copy of a counter.\<close>

datatype tktat = TOutside | TWait u32 | TInside | TLeave u32

record zerotktlk =
  val :: u32
  nref :: u32
  tat :: "nat \<Rightarrow> tktat"

definition tktenter :: "u32 \<Rightarrow> nat \<Rightarrow> zerotktlk \<Rightarrow> zerotktlk" where
  "tktenter eax t s = (let (v, n) = m_xaddu32 eax (nref s) 1 in s\<lparr>nref := n, tat := (tat s)(t := TWait v)\<rparr>)"

definition tktpoll :: "nat \<Rightarrow> u32 \<Rightarrow> zerotktlk \<Rightarrow> zerotktlk" where
  "tktpoll t v s = (if val s \<noteq> v then s else s\<lparr>tat := (tat s)(t := TInside)\<rparr>)"

text \<open>The increment of \<open>val\<close> is a load and a store.\<close>

definition tktload :: "nat \<Rightarrow> zerotktlk \<Rightarrow> zerotktlk" where
  "tktload t s = s\<lparr>tat := (tat s)(t := TLeave (val s))\<rparr>"

definition tktstore :: "nat \<Rightarrow> u32 \<Rightarrow> zerotktlk \<Rightarrow> zerotktlk" where
  "tktstore t v s = s\<lparr>val := v + 1, tat := (tat s)(t := TOutside)\<rparr>"

text \<open>
  A run of the threads is a sequence of their steps, an arrival with the content of the register at its
  exchange and add.  It gives the threads in the order in which they came into the critical section, and
  the state at its end; a step that its thread cannot make is no run.
\<close>

datatype tktev = Enter nat u32 | Poll nat | Load nat | Store nat

fun tktdo :: "tktev \<Rightarrow> zerotktlk \<Rightarrow> zerotktlk option" where
  "tktdo (Enter t eax) s = (if tat s t = TOutside then Some (tktenter eax t s) else None)"
| "tktdo (Poll t) s = (case tat s t of TWait v \<Rightarrow> Some (tktpoll t v s) | _ \<Rightarrow> None)"
| "tktdo (Load t) s = (if tat s t = TInside then Some (tktload t s) else None)"
| "tktdo (Store t) s = (case tat s t of TLeave v \<Rightarrow> Some (tktstore t v s) | _ \<Rightarrow> None)"

fun admitted :: "tktev \<Rightarrow> zerotktlk \<Rightarrow> nat list" where
  "admitted (Poll t) s = (if tat s t = TInside then [t] else [])"
| "admitted _ s = []"

fun tktrun :: "tktev list \<Rightarrow> zerotktlk \<Rightarrow> (nat list \<times> zerotktlk) option" where
  "tktrun [] s = Some ([], s)"
| "tktrun (e # es) s =
     Option.bind (tktdo e s) (\<lambda>s. map_option (\<lambda>(adm, s'). (admitted e s @ adm, s')) (tktrun es s))"

fun arrivals :: "tktev list \<Rightarrow> nat list" where
  "arrivals [] = []"
| "arrivals (Enter t eax # es) = t # arrivals es"
| "arrivals (_ # es) = arrivals es"

fun releases :: "tktev list \<Rightarrow> nat" where
  "releases [] = 0"
| "releases (Store t # es) = Suc (releases es)"
| "releases (_ # es) = releases es"

text \<open>The steps of threads of a set, with the addend in the register at every arrival.\<close>

fun tktev_ok :: "nat set \<Rightarrow> tktev \<Rightarrow> bool" where
  "tktev_ok T (Enter t eax) \<longleftrightarrow> t \<in> T \<and> eax = 1"
| "tktev_ok T (Poll t) \<longleftrightarrow> t \<in> T"
| "tktev_ok T (Load t) \<longleftrightarrow> t \<in> T"
| "tktev_ok T (Store t) \<longleftrightarrow> t \<in> T"

definition tktstep :: "nat set \<Rightarrow> zerotktlk \<Rightarrow> zerotktlk \<Rightarrow> bool" where
  "tktstep T s s' \<longleftrightarrow> (\<exists>e. tktev_ok T e \<and> tktdo e s = Some s')"

definition tktinit :: "u32 \<Rightarrow> zerotktlk" where
  "tktinit v = \<lparr>val = v, nref = v, tat = (\<lambda>_. TOutside)\<rparr>"

text \<open>
  The attempt to take the lock with one compare and exchange of both counters, \<open>uval\<close>, whose
  result is 1 or 0; it returns its result and the new counters.
\<close>

definition tkttrylk :: "u64 \<Rightarrow> int \<times> u64" where
  "tkttrylk uval =
     (let v = drop_bit 32 uval;
          nxt = v + 1;
          cmp = push_bit 32 v OR v;
          cmpnew = push_bit 32 nxt OR v;
          (r, uval') = m_cmpxchg uval cmp cmpnew
      in (if word_of_int r = cmp then 1 else 0, uval'))"

section \<open>Exclusion as a contract\<close>

text \<open>
  A lock protocol with an invariant that lets at most one thread into the critical section: then no
  interleaving has two threads in it.
\<close>

locale exclusion =
  fixes start :: "'s \<Rightarrow> bool" and step :: "'s \<Rightarrow> 's \<Rightarrow> bool"
    and inside :: "'s \<Rightarrow> nat \<Rightarrow> bool" and inv :: "'s \<Rightarrow> bool"
  assumes start_inv: "start s \<Longrightarrow> inv s"
    and step_inv: "inv s \<Longrightarrow> step s s' \<Longrightarrow> inv s'"
    and inv_excl: "inv s \<Longrightarrow> inside s t \<Longrightarrow> inside s u \<Longrightarrow> t = u"
begin

lemma reachable_inv: "step\<^sup>*\<^sup>* s s' \<Longrightarrow> start s \<Longrightarrow> inv s'"
  by (induction rule: rtranclp_induct) (auto intro: start_inv step_inv)

lemma mutual_exclusion: "start s \<Longrightarrow> step\<^sup>*\<^sup>* s s' \<Longrightarrow> inside s' t \<Longrightarrow> inside s' u \<Longrightarrow> t = u"
  using reachable_inv inv_excl by blast

end

section \<open>The fast mutex excludes\<close>

definition insiders :: "lkstate \<Rightarrow> nat set" where
  "insiders s = {t. at s t = Inside}"

lemma insiders_upd:
  "insiders (s\<lparr>at := (at s)(t := w)\<rparr>) = (if w = Inside then insert t (insiders s) else insiders s - {t})"
  "insiders (s\<lparr>lk := v, at := (at s)(t := w)\<rparr>) = (if w = Inside then insert t (insiders s) else insiders s - {t})"
  "insiders (s\<lparr>lk := v\<rparr>) = insiders s"
  by (auto simp: insiders_def)

definition fmtx_inv :: "lkstate \<Rightarrow> bool" where
  "fmtx_inv s \<longleftrightarrow>
     lk s = FMTXINITVAL \<and> insiders s = {} \<or> lk s = FMTXLKVAL \<and> (\<exists>t. insiders s = {t})"

lemma fmtxlk_result: "fmtxlk v = (r, v') \<longleftrightarrow> (if v = 0 then r \<and> v' = 1 else \<not> r \<and> v' = v)"
  by (auto simp: fmtxlk_def m_cmpxchg_def lock_consts)

lemma fmtx_step_inv: "lkstep fmtxlk fmtxunlk s s' \<Longrightarrow> fmtx_inv s \<Longrightarrow> fmtx_inv s'"
proof (induction rule: lkstep.induct)
  case (call s t)
  then have "t \<notin> insiders s" by (simp add: insiders_def)
  then show ?case using call by (simp add: fmtx_inv_def insiders_upd)
next
  case (got s t v)
  then have "lk s = 0" "v = 1" by (auto simp: fmtxlk_result split: if_splits)
  then show ?case using got by (auto simp: fmtx_inv_def insiders_upd lock_consts)
next
  case (again s t v)
  then have "v = lk s" by (auto simp: fmtxlk_result split: if_splits)
  then show ?case using again by (simp add: fmtx_inv_def insiders_upd)
next
  case (leave s t)
  then have "t \<in> insiders s" by (simp add: insiders_def)
  then have "insiders s = {t}" using leave by (auto simp: fmtx_inv_def)
  then show ?case by (simp add: fmtx_inv_def insiders_upd fmtxunlk_def lock_consts)
qed

interpretation fmtx: exclusion "\<lambda>s. s = lkinit" "lkstep fmtxlk fmtxunlk" "\<lambda>s t. at s t = Inside" fmtx_inv
proof unfold_locales
  show "s = lkinit \<Longrightarrow> fmtx_inv s" for s by (simp add: fmtx_inv_def lkinit_def insiders_def lock_consts)
  show "fmtx_inv s \<Longrightarrow> lkstep fmtxlk fmtxunlk s s' \<Longrightarrow> fmtx_inv s'" for s s' by (rule fmtx_step_inv)
  show "fmtx_inv s \<Longrightarrow> at s t = Inside \<Longrightarrow> at s u = Inside \<Longrightarrow> t = u" for s t u
    by (auto simp: fmtx_inv_def insiders_def set_eq_iff)
qed

section \<open>The ticket lock is a first-come first-served queue\<close>

text \<open>
  The threads with a ticket, in the order of their tickets.  Tickets count modulo \<open>2 ^ 32\<close>; they
  stay apart while fewer threads than that use the lock.
\<close>

definition tkt_rep :: "nat set \<Rightarrow> zerotktlk \<Rightarrow> nat list \<Rightarrow> bool" where
  "tkt_rep T s qs \<longleftrightarrow>
     distinct qs \<and> set qs = {t. tat s t \<noteq> TOutside} \<and> set qs \<subseteq> T \<and> nref s = val s + of_nat (length qs) \<and>
     (\<forall>i<length qs. tat s (qs ! i) = TWait (val s + of_nat i) \<or>
        i = 0 \<and> (tat s (qs ! i) = TInside \<or> tat s (qs ! i) = TLeave (val s)))"

lemma tkt_repD:
  assumes "tkt_rep T s qs"
  shows "distinct qs" "set qs = {t. tat s t \<noteq> TOutside}" "set qs \<subseteq> T" "nref s = val s + of_nat (length qs)"
    "\<And>i. i < length qs \<Longrightarrow> tat s (qs ! i) = TWait (val s + of_nat i) \<or>
        i = 0 \<and> (tat s (qs ! i) = TInside \<or> tat s (qs ! i) = TLeave (val s))"
  using assms unfolding tkt_rep_def by blast+

lemma tkt_rep_index:
  assumes "tkt_rep T s qs" "tat s t \<noteq> TOutside"
  obtains i where "i < length qs" "qs ! i = t"
proof -
  have "t \<in> set qs" using tkt_repD(2) [OF assms(1)] assms(2) by simp
  then show ?thesis using that by (auto simp: in_set_conv_nth)
qed

lemma tkt_rep_length:
  assumes "tkt_rep T s qs" "finite T" "card T < 2 ^ 32" "i < length qs"
  shows "i < 2 ^ 32"
  using assms card_mono [of T "set qs"] distinct_card [of qs] by (auto simp: tkt_rep_def)

lemma tkt_rep_head:
  assumes "tkt_rep T s qs" "tat s t = TInside \<or> tat s t = TLeave v"
  shows "qs \<noteq> [] \<and> t = hd qs \<and> (tat s t = TLeave v \<longrightarrow> v = val s)"
proof -
  have "tat s t \<noteq> TOutside" using assms(2) by auto
  then obtain i where i: "i < length qs" "qs ! i = t" using tkt_rep_index [OF assms(1)] by blast
  then have "i = 0" "tat s t = TLeave v \<longrightarrow> v = val s" using tkt_repD(5) [OF assms(1) i(1)] assms(2) by auto
  then show ?thesis using i by (cases qs) auto
qed

lemma tkt_enter_rep:
  assumes rep: "tkt_rep T s qs" and t: "t \<in> T" "tat s t = TOutside"
  shows "t \<notin> set qs \<and> tkt_rep T (tktenter 1 t s) (qs @ [t])"
proof
  show nt: "t \<notin> set qs" using tkt_repD(2) [OF rep] t by auto
  have "tat (tktenter 1 t s) ((qs @ [t]) ! i) = TWait (val (tktenter 1 t s) + of_nat i) \<or>
      i = 0 \<and> (tat (tktenter 1 t s) ((qs @ [t]) ! i) = TInside \<or> tat (tktenter 1 t s) ((qs @ [t]) ! i) = TLeave (val (tktenter 1 t s)))"
    if "i < length (qs @ [t])" for i
  proof (cases "i < length qs")
    case True
    then have "qs ! i \<noteq> t" using nt by auto
    then show ?thesis using tkt_repD(5) [OF rep True] True by (simp add: tktenter_def m_xaddu32_def nth_append)
  next
    case False
    then have "i = length qs" using that by simp
    then show ?thesis using tkt_repD(4) [OF rep] by (simp add: tktenter_def m_xaddu32_def)
  qed
  then show "tkt_rep T (tktenter 1 t s) (qs @ [t])"
    unfolding tkt_rep_def using tkt_repD(1-4) [OF rep] nt t
    by (auto simp: tktenter_def m_xaddu32_def)
qed

lemma tkt_poll_head:
  assumes rep: "tkt_rep T s qs" and T: "finite T" "card T < 2 ^ 32" and t: "tat s t = TWait (val s)"
  shows "qs \<noteq> [] \<and> hd qs = t"
proof -
  obtain i where i: "i < length qs" "qs ! i = t" using tkt_rep_index [OF rep, of t] t by auto
  then have "(of_nat i :: u32) = 0" using tkt_repD(5) [OF rep i(1)] t by auto
  then have "i = 0" using tkt_rep_length [OF rep T i(1)] by (simp add: word_of_nat_eq_0_iff dvd_imp_le) (metis dvd_imp_le gr0I leD)
  then show ?thesis using i by (cases qs) auto
qed

lemma tkt_poll_rep:
  assumes rep: "tkt_rep T s qs" and T: "finite T" "card T < 2 ^ 32" and t: "tat s t = TWait v"
  shows "tkt_rep T (tktpoll t v s) qs"
proof (cases "val s = v")
  case False
  then show ?thesis using rep by (simp add: tktpoll_def)
next
  case True
  then have i: "0 < length qs" "qs ! 0 = t" using tkt_poll_head [OF rep T, of t] t by (auto simp: hd_conv_nth)
  have up: "tktpoll t v s = s\<lparr>tat := (tat s)(t := TInside)\<rparr>" using True by (simp add: tktpoll_def)
  have "tat (tktpoll t v s) (qs ! j) = TWait (val s + of_nat j) \<or>
      j = 0 \<and> (tat (tktpoll t v s) (qs ! j) = TInside \<or> tat (tktpoll t v s) (qs ! j) = TLeave (val s))" if j: "j < length qs" for j
  proof (cases "j = 0")
    case False
    then have "qs ! j \<noteq> t" using tkt_repD(1) [OF rep] i j by (metis nth_eq_iff_index_eq)
    then show ?thesis using tkt_repD(5) [OF rep j] False up by simp
  qed (use i up in simp)
  then show ?thesis
    unfolding tkt_rep_def using tkt_repD(1-4) [OF rep] t up by auto
qed

lemma tkt_load_rep:
  assumes rep: "tkt_rep T s qs" and t: "tat s t = TInside"
  shows "tkt_rep T (tktload t s) qs"
proof -
  have hd: "qs \<noteq> []" "t = hd qs" using tkt_rep_head [OF rep, of t] t by auto
  have "tat (tktload t s) (qs ! j) = TWait (val s + of_nat j) \<or>
      j = 0 \<and> (tat (tktload t s) (qs ! j) = TInside \<or> tat (tktload t s) (qs ! j) = TLeave (val s))" if j: "j < length qs" for j
    using tkt_repD(5) [OF rep j] by (cases "qs ! j = t") (auto simp: tktload_def t)
  then show ?thesis unfolding tkt_rep_def using tkt_repD(1-4) [OF rep] t by (auto simp: tktload_def)
qed

lemma tkt_store_rep:
  assumes rep: "tkt_rep T s qs" and t: "tat s t = TLeave v"
  shows "\<exists>rs. qs = t # rs \<and> tkt_rep T (tktstore t v s) rs"
proof -
  have hd: "qs \<noteq> []" "t = hd qs" "v = val s" using tkt_rep_head [OF rep, of t v] t by auto
  then obtain rs where rs: "qs = t # rs" by (cases qs) auto
  have nt: "t \<notin> set rs" "distinct rs" using tkt_repD(1) [OF rep] rs by auto
  have "tat (tktstore t v s) (rs ! j) = TWait (val (tktstore t v s) + of_nat j)" if j: "j < length rs" for j
  proof -
    have "rs ! j \<noteq> t" using nt j by auto
    then show ?thesis using tkt_repD(5) [OF rep, of "Suc j"] j rs hd(3) by (simp add: tktstore_def algebra_simps)
  qed
  moreover have "set rs = {u. tat (tktstore t v s) u \<noteq> TOutside}"
    using tkt_repD(2) [OF rep] rs nt by (auto simp: tktstore_def)
  moreover have "nref (tktstore t v s) = val (tktstore t v s) + of_nat (length rs)"
    using tkt_repD(4) [OF rep] rs hd(3) by (simp add: tktstore_def algebra_simps)
  ultimately have "tkt_rep T (tktstore t v s) rs"
    unfolding tkt_rep_def using nt tkt_repD(3) [OF rep] rs by auto
  then show ?thesis using rs by blast
qed

lemma tkt_step_rep:
  assumes "tktdo e s = Some s'" "tktev_ok T e" "tkt_rep T s qs" "finite T" "card T < 2 ^ 32"
  shows "\<exists>qs'. tkt_rep T s' qs'"
proof (cases e)
  case (Enter t eax)
  then show ?thesis using assms tkt_enter_rep [of T s qs t] by (auto split: if_splits)
next
  case (Poll t)
  then show ?thesis using assms tkt_poll_rep [of T s qs t] by (auto split: tktat.splits)
next
  case (Load t)
  then show ?thesis using assms tkt_load_rep [of T s qs t] by (auto split: if_splits)
next
  case (Store t)
  then show ?thesis using assms tkt_store_rep [of T s qs t] by (auto split: tktat.splits)
qed

definition tkt_inv :: "nat set \<Rightarrow> zerotktlk \<Rightarrow> bool" where
  "tkt_inv T s \<longleftrightarrow> (finite T \<and> card T < 2 ^ 32 \<longrightarrow> (\<exists>qs. tkt_rep T s qs))"

lemma tktinit_rep: "tkt_rep T (tktinit v) []"
  by (simp add: tkt_rep_def tktinit_def)

text \<open>
  The contract holds for every finite set of fewer than \<open>2 ^ 32\<close> threads; the inside includes the
  increment at the end.
\<close>

definition tkt_inside :: "nat set \<Rightarrow> zerotktlk \<Rightarrow> nat \<Rightarrow> bool" where
  "tkt_inside T s t \<longleftrightarrow> finite T \<and> card T < 2 ^ 32 \<and> (tat s t = TInside \<or> (\<exists>v. tat s t = TLeave v))"

interpretation tkt: exclusion "\<lambda>s. \<exists>v. s = tktinit v" "tktstep T" "tkt_inside T" "tkt_inv T" for T
proof unfold_locales
  show "\<exists>v. s = tktinit v \<Longrightarrow> tkt_inv T s" for s using tktinit_rep by (auto simp: tkt_inv_def)
  show "tkt_inv T s \<Longrightarrow> tktstep T s s' \<Longrightarrow> tkt_inv T s'" for s s'
    using tkt_step_rep unfolding tkt_inv_def tktstep_def by blast
  show "tkt_inv T s \<Longrightarrow> tkt_inside T s t \<Longrightarrow> tkt_inside T s u \<Longrightarrow> t = u" for s t u
    unfolding tkt_inv_def tkt_inside_def by (metis tkt_rep_head)
qed

text \<open>
  What a run keeps: the threads that have released the lock and then the queue of those that hold or wait
  for it are the arrivals, and the admitted threads are the released ones and the head if it holds the lock.
\<close>

definition holder :: "zerotktlk \<Rightarrow> nat list \<Rightarrow> nat list" where
  "holder s qs = (case qs of [] \<Rightarrow> [] | t # _ \<Rightarrow> (case tat s t of TWait _ \<Rightarrow> [] | _ \<Rightarrow> [t]))"

lemma arrivals_append: "arrivals (es @ fs) = arrivals es @ arrivals fs"
  by (induction es rule: arrivals.induct) simp_all

lemma releases_append: "releases (es @ fs) = releases es + releases fs"
  by (induction es rule: releases.induct) simp_all

lemmas run_appends = arrivals_append releases_append

lemma tktrun_snoc:
  "tktrun (es @ [e]) s =
     Option.bind (tktrun es s) (\<lambda>(adm, s). map_option (\<lambda>s'. (adm @ admitted e s', s')) (tktdo e s))"
proof (induction es arbitrary: s)
  case Nil
  then show ?case by (cases "tktdo e s") auto
next
  case (Cons f es)
  show ?case
  proof (cases "tktdo f s")
    case (Some s1)
    then show ?thesis using Cons [of s1] by (cases "tktrun es s1") (auto simp: map_option_case split: option.splits prod.splits)
  qed simp
qed

definition run_inv :: "nat set \<Rightarrow> tktev list \<Rightarrow> nat list \<Rightarrow> zerotktlk \<Rightarrow> nat list \<Rightarrow> nat list \<Rightarrow> bool" where
  "run_inv T es adm s served qs \<longleftrightarrow> arrivals es = served @ qs \<and> tkt_rep T s qs \<and> length served = releases es \<and>
     adm = served @ holder s qs"

lemma holder_upd:
  "tkt_rep T s qs \<Longrightarrow> tat s t = TOutside \<Longrightarrow> holder (tktenter 1 t s) (qs @ [t]) = holder s qs"
  "tkt_rep T s qs \<Longrightarrow> tat s t = TInside \<Longrightarrow> holder (tktload t s) qs = holder s qs"
  by (auto simp: holder_def tktenter_def tktload_def m_xaddu32_def tkt_rep_def split: list.splits tktat.splits)

lemma run_inv_step:
  assumes inv: "run_inv T es adm s served qs" and e: "tktdo e s = Some s'" "tktev_ok T e"
    and T: "finite T" "card T < 2 ^ 32"
  shows "\<exists>served qs. run_inv T (es @ [e]) (adm @ admitted e s') s' served qs"
proof -
  have a: "arrivals es = served @ qs" "tkt_rep T s qs" "length served = releases es" "adm = served @ holder s qs"
    using inv by (simp_all add: run_inv_def)
  show ?thesis
  proof (cases e)
    case (Enter t eax)
    then have t: "tat s t = TOutside" "s' = tktenter 1 t s" "t \<in> T" using e by (auto split: if_splits)
    then show ?thesis
      using a Enter tkt_enter_rep [OF a(2) t(3,1)] holder_upd(1) [OF a(2) t(1)]
      by (intro exI [of _ served] exI [of _ "qs @ [t]"]) (simp add: run_inv_def run_appends)
  next
    case (Poll t)
    then obtain v where t: "tat s t = TWait v" "s' = tktpoll t v s" using e(1) by (auto split: tktat.splits)
    note r = tkt_poll_rep [OF a(2) T t(1)]
    have "holder s' qs = holder s qs @ admitted e s'"
    proof (cases "val s = v")
      case True
      then obtain rs where "qs = t # rs" using tkt_poll_head [OF a(2) T, of t] t(1) by (cases qs) auto
      then show ?thesis using True t Poll by (simp add: holder_def tktpoll_def)
    qed (use t Poll in \<open>simp add: tktpoll_def\<close>)
    then show ?thesis using a Poll r t(2) by (intro exI [of _ served] exI [of _ qs]) (simp add: run_inv_def run_appends)
  next
    case (Load t)
    then have t: "tat s t = TInside" "s' = tktload t s" using e(1) by (auto split: if_splits)
    then show ?thesis
      using a Load tkt_load_rep [OF a(2) t(1)] holder_upd(2) [OF a(2) t(1)]
      by (intro exI [of _ served] exI [of _ qs]) (simp add: run_inv_def run_appends)
  next
    case (Store t)
    then obtain v where t: "tat s t = TLeave v" "s' = tktstore t v s" using e(1) by (auto split: tktat.splits)
    obtain rs where rs: "qs = t # rs" "tkt_rep T s' rs" using tkt_store_rep [OF a(2) t(1)] t(2) by auto
    have "t \<notin> set rs" using tkt_repD(1) [OF a(2)] rs(1) by simp
    then have "holder s' rs = []"
      using tkt_repD(5) [OF a(2), of 1] rs(1) t(2) by (cases rs) (auto simp: holder_def tktstore_def)
    then show ?thesis
      using a Store rs t(1) by (intro exI [of _ "served @ [t]"] exI [of _ rs]) (simp add: run_inv_def run_appends holder_def)
  qed
qed

lemma tktrun_inv:
  assumes "tktrun es (tktinit v) = Some (adm, s)" "\<forall>e\<in>set es. tktev_ok T e" "finite T" "card T < 2 ^ 32"
  shows "\<exists>served qs. run_inv T es adm s served qs"
  using assms(1,2)
proof (induction es arbitrary: adm s rule: rev_induct)
  case Nil
  then show ?case using tktinit_rep [of T v] by (auto simp: run_inv_def holder_def)
next
  case (snoc e es)
  then obtain adm1 s1 where "tktrun es (tktinit v) = Some (adm1, s1)" "tktdo e s1 = Some s" "adm = adm1 @ admitted e s"
    by (auto simp: tktrun_snoc bind_eq_Some_conv)
  then show ?case using snoc.IH [of adm1 s1] snoc.prems(2) run_inv_step [of T es adm1 s1 _ _ e s] assms(3,4) by auto
qed

section \<open>Properties\<close>

text \<open>
  C27: whatever the interleaving, at most one thread is between taking and releasing a fast mutex.
\<close>

theorem fmtx_mutual_exclusion:
  assumes "(lkstep fmtxlk fmtxunlk)\<^sup>*\<^sup>* lkinit s" "at s t = Inside" "at s u = Inside"
  shows "t = u"
  using fmtx.mutual_exclusion [OF refl assms] .

theorem fmtx_mutual_exclusion_witness:
  "\<exists>s. (lkstep fmtxlk fmtxunlk)\<^sup>*\<^sup>* lkinit s \<and> at s 3 = Inside \<and> (\<forall>u. at s u = Inside \<longrightarrow> 3 = u)"
proof -
  define s1 where "s1 = lkinit\<lparr>at := (at lkinit)(3 := Locking)\<rparr>"
  define s2 where "s2 = s1\<lparr>lk := 1, at := (at s1)(3 := Inside)\<rparr>"
  have "lkstep fmtxlk fmtxunlk lkinit s1" unfolding s1_def by (rule lkstep.call) (simp add: lkinit_def)
  moreover have "lkstep fmtxlk fmtxunlk s1 s2"
    unfolding s2_def by (rule lkstep.got) (simp_all add: s1_def lkinit_def fmtxlk_result)
  ultimately have r: "(lkstep fmtxlk fmtxunlk)\<^sup>*\<^sup>* lkinit s2" by (meson rtranclp.simps)
  have i: "at s2 3 = Inside" by (simp add: s2_def)
  show ?thesis using r i fmtx_mutual_exclusion [OF r i] by blast
qed

text \<open>
  C26: the ticket lock serves the threads in the order of their arrival when the accumulator holds the
  addend at every exchange and add, which the code does not ensure.  In any run of fewer than \<open>2 ^ 32\<close>
  threads from a free lock, the sequence of the threads that came into the critical section is an
  initial part of the sequence of the arrivals; it is longer than the number of releases by at most
  one, and a thread in the critical section is its last one.  When all of them have released the lock,
  the next arrival gets it at its next poll.
\<close>

theorem tktlk_first_come_first_served:
  assumes "tktrun es (tktinit v) = Some (adm, s)" "\<forall>e\<in>set es. tktev_ok T e" "finite T" "card T < 2 ^ 32"
  shows "prefix adm (arrivals es) \<and> releases es \<le> length adm \<and> length adm \<le> releases es + 1 \<and>
    (\<forall>t. tat s t = TInside \<longrightarrow> adm \<noteq> [] \<and> t = last adm) \<and>
    (length adm = releases es \<and> length adm < length (arrivals es) \<longrightarrow>
      (\<exists>s'. tktdo (Poll (arrivals es ! length adm)) s = Some s' \<and> tat s' (arrivals es ! length adm) = TInside))"
proof -
  obtain served qs where a: "arrivals es = served @ qs" "tkt_rep T s qs" "length served = releases es" "adm = served @ holder s qs"
    using tktrun_inv [OF assms] by (auto simp: run_inv_def)
  have h: "holder s qs = [] \<or> qs \<noteq> [] \<and> holder s qs = [hd qs]" by (auto simp: holder_def split: list.splits tktat.splits)
  have "prefix adm (arrivals es)" using a(1,4) h by (cases qs) auto
  moreover have "adm \<noteq> [] \<and> t = last adm" if "tat s t = TInside" for t
  proof -
    have "qs \<noteq> []" "t = hd qs" using tkt_rep_head [OF a(2), of t] that by auto
    then show ?thesis using a(4) that by (cases qs) (simp_all add: holder_def)
  qed
  moreover have "\<exists>s'. tktdo (Poll (arrivals es ! length adm)) s = Some s' \<and> tat s' (arrivals es ! length adm) = TInside"
    if "length adm = releases es" "length adm < length (arrivals es)"
  proof -
    have e: "holder s qs = []" "qs \<noteq> []" using that a(1,3,4) by auto
    then have "tat s (hd qs) = TWait (val s)" using tkt_repD(5) [OF a(2), of 0] by (cases qs) (auto simp: holder_def)
    moreover have "arrivals es ! length adm = hd qs" using a(1,4) e by (simp add: nth_append hd_conv_nth)
    ultimately show ?thesis by (simp add: tktpoll_def)
  qed
  ultimately show ?thesis using a(3,4) h by auto
qed

definition tkt_demo :: "tktev list" where
  "tkt_demo = [Enter 6 1, Enter 5 1, Poll 5, Poll 6, Load 6, Store 6, Poll 5]"

theorem tktlk_first_come_first_served_witness:
  "\<exists>adm s. tktrun tkt_demo (tktinit 4294967295) = Some (adm, s) \<and> adm = [6, 5] \<and> tat s 5 = TInside \<and>
    prefix adm (arrivals tkt_demo) \<and> 5 = last adm"
proof -
  obtain s where s: "tktrun tkt_demo (tktinit 4294967295) = Some ([6, 5], s)" "tat s 5 = TInside"
    by (simp add: tkt_demo_def tktinit_def tktenter_def m_xaddu32_def tktpoll_def tktload_def tktstore_def)
  have ok: "\<forall>e\<in>set tkt_demo. tktev_ok {5, 6} e" "finite {5, 6 :: nat}" "card {5, 6 :: nat} < 2 ^ 32"
    by (simp_all add: tkt_demo_def)
  note served = tktlk_first_come_first_served [OF s(1) ok]
  from served have "prefix [6, 5] (arrivals tkt_demo)" by (rule conjunct1)
  moreover from served s(2) have "5 = last [6, 5 :: nat]" by blast
  ultimately show ?thesis using s by blast
qed

section \<open>What the code gets wrong\<close>

text \<open>
  The spin lock takes the result of the compare and exchange for the old value of the word: its loop
  ends when the exchange fails.  A thread enters while another one is inside.
\<close>

lemma spinlk_result: "spinlk v = (r, v') \<longleftrightarrow> (if v = 0 then \<not> r \<and> v' = 1 else r \<and> v' = v)"
  by (auto simp: spinlk_def m_cmpxchg_def lock_consts)

lemma spinlk_admits_two:
  "\<exists>s. (lkstep spinlk spinunlk)\<^sup>*\<^sup>* lkinit s \<and> at s 1 = Inside \<and> at s 2 = Inside"
proof -
  define s1 where "s1 = lkinit\<lparr>at := (at lkinit)(1 := Locking)\<rparr>"
  define s2 where "s2 = s1\<lparr>at := (at s1)(2 := Locking)\<rparr>"
  define s3 where "s3 = s2\<lparr>lk := 1\<rparr>"
  define s4 where "s4 = s3\<lparr>lk := 1, at := (at s3)(1 := Inside)\<rparr>"
  define s5 where "s5 = s4\<lparr>lk := 1, at := (at s4)(2 := Inside)\<rparr>"
  note d = s5_def s4_def s3_def s2_def s1_def lkinit_def
  have st1: "lkstep spinlk spinunlk lkinit s1" unfolding s1_def by (rule lkstep.call) (simp add: lkinit_def)
  have st2: "lkstep spinlk spinunlk s1 s2" unfolding s2_def by (rule lkstep.call) (simp add: d)
  have st3: "lkstep spinlk spinunlk s2 s3"
    unfolding s3_def by (rule lkstep.again [where t = 1]) (simp_all add: d spinlk_result)
  have st4: "lkstep spinlk spinunlk s3 s4" unfolding s4_def by (rule lkstep.got) (simp_all add: d spinlk_result)
  have st5: "lkstep spinlk spinunlk s4 s5" unfolding s5_def by (rule lkstep.got) (simp_all add: d spinlk_result)
  note r1 = r_into_rtranclp [of "lkstep spinlk spinunlk", OF st1]
  note r5 = rtranclp.rtrancl_into_rtrancl [OF rtranclp.rtrancl_into_rtrancl [OF rtranclp.rtrancl_into_rtrancl
      [OF rtranclp.rtrancl_into_rtrancl [OF r1 st2] st3] st4] st5]
  have "(lkstep spinlk spinunlk)\<^sup>*\<^sup>* lkinit s5" by (rule r5)
  then show ?thesis by (auto simp: s5_def s4_def)
qed

text \<open>
  With another content of the accumulator the ticket lock does not work: 0 gives two threads the same
  ticket and lets both in, and 2 leaves the lock with a ticket that nobody has.
\<close>

lemma tktlk_without_addend:
  "\<exists>s. tktrun [Enter 1 0, Enter 2 0, Poll 1, Poll 2] (tktinit 0) = Some ([1, 2], s) \<and> tat s 1 = TInside \<and> tat s 2 = TInside"
  "\<exists>s. tktrun [Enter 1 2, Enter 2 2, Poll 1, Load 1, Store 1] (tktinit 0) = Some ([1], s) \<and> tktdo (Poll 2) s = Some s"
  by (simp_all add: tktinit_def tktenter_def m_xaddu32_def tktpoll_def tktload_def tktstore_def)

text \<open>
  The attempt on a free ticket lock whose counters are 0 takes the lock and reports a failure; on a
  held one (next ticket 0 after the wrap-around) it reports success without taking it.
\<close>

lemma tkttrylk_reports_failure: "tkttrylk 0 = (0, 0x100000000)" "tkttrylk 1 = (1, 1)"
  by (simp_all add: tkttrylk_def m_cmpxchg_def)

end
