(* ===== verification/Sieve.thy ===== *)
theory Sieve
  imports Bitmap "HOL-Library.Monad_Syntax"
begin

text \<open>
  The prime number tool (usr/tools/zprime/prime.c): four versions of the sieve of Eratosthenes on
  a bitmap, the growing table behind \<open>isprime\<close> and the listing of the primes below a limit.

  A pointer to the table is an option, \<open>None\<close> being the null pointer; the block that
  \<open>malloc\<close> or \<open>realloc\<close> returns, with whatever it contains, is an argument.
  The counters are of type \<open>long\<close>: a sum or product that does not fit makes the result
  \<open>None\<close>, and so does a loop that never ends.  The limits are unsigned 64-bit numbers,
  and the comparisons are the unsigned ones of the code, on counters that are never negative.
  A call of \<open>exit\<close> is \<open>Inl\<close> of its argument.
\<close>

section \<open>Integers and blocks\<close>

definition clong :: "int \<Rightarrow> int option" where
  "clong x = (if - (2 ^ 63) \<le> x \<and> x < 2 ^ 63 then Some x else None)"

definition memset_ff :: "int \<Rightarrow> (int \<Rightarrow> u8) \<Rightarrow> int \<Rightarrow> u8" where
  "memset_ff n p = (\<lambda>i. if 0 \<le> i \<and> i < n then 0xff else p i)"

text \<open>The size of the table in bytes: \<open>rounduppow2(lim, 8) >> 3\<close>.\<close>

definition sieve_nbyte :: "int \<Rightarrow> int" where
  "sieve_nbyte lim = drop_bit 3 (((lim + 7) mod 2 ^ 64) AND (- 8))"

section \<open>The sieves\<close>

text \<open>The loop that clears the multiples, from \<open>m\<close> up in steps of \<open>step\<close>.\<close>

partial_function (option) sieve_clear ::
  "int \<Rightarrow> int \<Rightarrow> int \<Rightarrow> (int \<Rightarrow> u8) \<Rightarrow> (int \<Rightarrow> u8) option" where
  "sieve_clear lim step m tab =
     (if m < lim then do { m' \<leftarrow> clong (m + step); sieve_clear lim step m' (clrbit tab m) }
      else Some tab)"

function sieve1_scan :: "int \<Rightarrow> (int \<Rightarrow> u8) \<Rightarrow> int \<Rightarrow> int" where
  "sieve1_scan lim tab l =
     (if l < lim then if bitset tab l \<noteq> 0 then l else sieve1_scan lim tab (l + 1) else l)"
  by pat_completeness auto
termination
  by (relation "measure (\<lambda>(lim, tab, l). nat (lim - l))") auto

partial_function (option) sieve1_loop ::
  "int \<Rightarrow> int \<Rightarrow> (int \<Rightarrow> u8) \<Rightarrow> (int \<Rightarrow> u8) option" where
  "sieve1_loop lim l tab =
     do { m \<leftarrow> clong (l * l);
          tab \<leftarrow> sieve_clear lim l m tab;
          let l = sieve1_scan lim tab (l + 1);
          if l = lim then Some tab else sieve1_loop lim l tab }"

definition sieve1 :: "(int \<Rightarrow> u8) option \<Rightarrow> int \<Rightarrow> (int \<Rightarrow> u8) option option" where
  "sieve1 mem lim =
     (case mem of None \<Rightarrow> Some None
      | Some tab \<Rightarrow> map_option Some (sieve1_loop lim 2 (memset_ff (sieve_nbyte lim) tab)))"

text \<open>The other sieves look at odd numbers only.\<close>

function sieve2_scan :: "int \<Rightarrow> (int \<Rightarrow> u8) \<Rightarrow> int \<Rightarrow> int" where
  "sieve2_scan lim tab l =
     (if l < lim then if bitset tab l \<noteq> 0 then l else sieve2_scan lim tab (l + 2) else l)"
  by pat_completeness auto
termination
  by (relation "measure (\<lambda>(lim, tab, l). nat (lim - l))") auto

partial_function (option) sieve2_loop ::
  "int \<Rightarrow> int \<Rightarrow> (int \<Rightarrow> u8) \<Rightarrow> (int \<Rightarrow> u8) option" where
  "sieve2_loop lim l tab =
     do { m \<leftarrow> clong (l * l);
          tab \<leftarrow> sieve_clear lim l m tab;
          let l = l + 1;
          let l = (if l AND 1 = 0 then l + 1 else l);
          let l = sieve2_scan lim tab l;
          if lim \<le> l then Some tab else sieve2_loop lim l tab }"

definition sieve2 :: "(int \<Rightarrow> u8) option \<Rightarrow> int \<Rightarrow> (int \<Rightarrow> u8) option option" where
  "sieve2 mem lim =
     (case mem of None \<Rightarrow> Some None
      | Some tab \<Rightarrow> map_option Some (sieve2_loop lim 2 (memset_ff (sieve_nbyte lim) tab)))"

text \<open>The third adds the truth value of \<open>!(l & 1)\<close> instead of branching.\<close>

partial_function (option) sieve3_loop ::
  "int \<Rightarrow> int \<Rightarrow> (int \<Rightarrow> u8) \<Rightarrow> (int \<Rightarrow> u8) option" where
  "sieve3_loop lim l tab =
     do { m \<leftarrow> clong (l * l);
          tab \<leftarrow> sieve_clear lim l m tab;
          let l = l + 1;
          let l = l + of_bool (l AND 1 = 0);
          let l = sieve2_scan lim tab l;
          if lim \<le> l then Some tab else sieve3_loop lim l tab }"

definition sieve3 :: "(int \<Rightarrow> u8) option \<Rightarrow> int \<Rightarrow> (int \<Rightarrow> u8) option option" where
  "sieve3 mem lim =
     (case mem of None \<Rightarrow> Some None
      | Some tab \<Rightarrow> map_option Some (sieve3_loop lim 2 (memset_ff (sieve_nbyte lim) tab)))"

text \<open>
  The fourth clears the even numbers first and then every other multiple of an odd number.  The
  loop also carries the value of \<open>primelim\<close>, which the version behind \<open>isprime\<close>
  sets on every further round.
\<close>

partial_function (option) sieve4_loop ::
  "int \<Rightarrow> int \<Rightarrow> (int \<Rightarrow> u8) \<Rightarrow> int \<Rightarrow> ((int \<Rightarrow> u8) \<times> int) option" where
  "sieve4_loop lim l tab plim =
     do { m \<leftarrow> clong (l * l);
          tab \<leftarrow> sieve_clear lim (2 * l) m tab;
          let l = l + 1;
          let l = l + of_bool (l AND 1 = 0);
          let l = sieve2_scan lim tab l;
          if lim \<le> l then Some (tab, plim) else sieve4_loop lim l tab lim }"

definition sieve4 :: "(int \<Rightarrow> u8) option \<Rightarrow> int \<Rightarrow> (int \<Rightarrow> u8) option option" where
  "sieve4 mem lim =
     (case mem of None \<Rightarrow> Some None
      | Some tab \<Rightarrow>
          do { tab \<leftarrow> sieve_clear lim 2 4 (memset_ff (sieve_nbyte lim) tab);
               (tab, plim) \<leftarrow> sieve4_loop lim 3 tab 0;
               Some (Some tab) })"

section \<open>The table of primes\<close>

record primes =
  primelim :: int
  primemap :: "(int \<Rightarrow> u8) option"

text \<open>
  The static function \<open>sieve\<close>.  The table grows when the new limit is not below the old
  one; \<open>mem\<close> is what the allocator returns then.  The result is the return value with the
  new state, or the status of \<open>exit\<close>.
\<close>

definition sieve :: "(int \<Rightarrow> u8) option \<Rightarrow> int \<Rightarrow> primes \<Rightarrow> (int + int \<times> primes) option" where
  "sieve mem lim st =
     (let tab = (if primelim st \<le> lim then mem else primemap st) in
      if primelim st \<le> lim \<and> primemap st \<noteq> None \<and> mem = None then Some (Inl 1)
      else case tab of
          None \<Rightarrow> Some (Inr (0, st))
        | Some tab \<Rightarrow>
            do { tab \<leftarrow> sieve_clear lim 2 4 (memset_ff (sieve_nbyte lim) tab);
                 (tab, plim) \<leftarrow> sieve4_loop lim 3 tab (primelim st);
                 Some (Inr (1, \<lparr>primelim = plim, primemap = Some tab\<rparr>)) })"

definition primeinit :: "(int \<Rightarrow> u8) option \<Rightarrow> int \<Rightarrow> primes \<Rightarrow> (int + primes) option" where
  "primeinit mem num st =
     do { r \<leftarrow> sieve mem num st;
          Some (case r of Inl e \<Rightarrow> Inl e | Inr (ret, st) \<Rightarrow> if ret = 0 then Inl 1 else Inr st) }"

definition isprime :: "(int \<Rightarrow> u8) option \<Rightarrow> int \<Rightarrow> primes \<Rightarrow> (int + u8 \<times> primes) option" where
  "isprime mem num st =
     do { r \<leftarrow> (if primelim st = 0 \<or> primelim st \<le> num then primeinit mem ((num + 1) mod 2 ^ 64) st
                else Some (Inr st));
          case r of Inl e \<Rightarrow> Some (Inl e)
          | Inr st \<Rightarrow> (case primemap st of None \<Rightarrow> None
                       | Some tab \<Rightarrow> Some (Inr (bitset tab num, st))) }"

text \<open>The numbers that \<open>primelst\<close> prints.\<close>

definition primelst :: "(int \<Rightarrow> u8) option \<Rightarrow> int \<Rightarrow> primes \<Rightarrow> (int + int list \<times> primes) option" where
  "primelst mem lim st =
     do { r \<leftarrow> sieve mem lim st;
          case r of Inl e \<Rightarrow> Some (Inl e)
          | Inr (ret, st) \<Rightarrow>
              if lim = 0 then Some (Inr ([], st))
              else case primemap st of None \<Rightarrow> None
                   | Some tab \<Rightarrow> Some (Inr ([ull \<leftarrow> [0..lim - 1]. bitset tab ull \<noteq> 0], st)) }"

declare sieve1_scan.simps [simp del] sieve2_scan.simps [simp del]

section \<open>Primes and the invariant of the sieves\<close>

definition prime_int :: "int \<Rightarrow> bool" where
  "prime_int p \<longleftrightarrow> 1 < p \<and> (\<forall>k. 1 < k \<and> k < p \<longrightarrow> \<not> k dvd p)"

text \<open>The bits below \<open>lim\<close> are those of 0, 1 and the primes.\<close>

definition prime_table :: "int \<Rightarrow> (int \<Rightarrow> u8) \<Rightarrow> bool" where
  "prime_table lim tab \<longleftrightarrow> (\<forall>i. 0 \<le> i \<and> i < lim \<longrightarrow> (bitset tab i \<noteq> 0 \<longleftrightarrow> i < 2 \<or> prime_int i))"

text \<open>The bytes outside of the block of \<open>n\<close> bytes are not written.\<close>

definition kept :: "int \<Rightarrow> (int \<Rightarrow> u8) \<Rightarrow> (int \<Rightarrow> u8) \<Rightarrow> bool" where
  "kept n p q \<longleftrightarrow> (\<forall>j. j < 0 \<or> n \<le> j \<longrightarrow> q j = p j)"

text \<open>
  When the sieve has come to \<open>l\<close>, a bit is set if and only if the number has no divisor
  below \<open>l\<close> whose square does not exceed it.
\<close>

definition sieve_inv :: "int \<Rightarrow> int \<Rightarrow> (int \<Rightarrow> u8) \<Rightarrow> bool" where
  "sieve_inv lim l tab \<longleftrightarrow>
     (\<forall>i. 0 \<le> i \<and> i < lim \<longrightarrow>
        (bitset tab i \<noteq> 0 \<longleftrightarrow> (\<forall>k. 2 \<le> k \<and> k < l \<and> k * k \<le> i \<longrightarrow> \<not> k dvd i)))"

lemma kept_refl [simp]: "kept n p p"
  by (simp add: kept_def)

lemma kept_trans [trans]: "kept n p q \<Longrightarrow> kept n q r \<Longrightarrow> kept n p r"
  by (simp add: kept_def)

lemma small_divisor:
  fixes k i :: int
  assumes "1 < k" "k < i" "k dvd i"
  shows "\<exists>d. 2 \<le> d \<and> d * d \<le> i \<and> d dvd i"
proof -
  obtain j where j: "i = k * j" using assms(3) ..
  have "1 < j"
  proof (rule ccontr)
    assume "\<not> 1 < j"
    then have "k * j \<le> k * 1" using assms(1) by (intro mult_left_mono) auto
    then show False using j assms(2) by simp
  qed
  show ?thesis
  proof (cases "k \<le> j")
    case True
    then have "k * k \<le> i" using j assms(1) by (simp add: mult_left_mono)
    then show ?thesis using assms by (intro exI [of _ k]) auto
  next
    case False
    then have "j * j \<le> i" using j \<open>1 < j\<close> by (simp add: mult_right_mono)
    then show ?thesis using j \<open>1 < j\<close> by (intro exI [of _ j]) auto
  qed
qed

lemma square_less: "2 \<le> k \<Longrightarrow> k * k \<le> i \<Longrightarrow> k < i" for k i :: int
  using mult_strict_left_mono [of 1 k k] by linarith

lemma prime_by_squares:
  "2 \<le> i \<Longrightarrow> prime_int i \<longleftrightarrow> (\<forall>k. 2 \<le> k \<and> k * k \<le> i \<longrightarrow> \<not> k dvd i)"
  unfolding prime_int_def
  using small_divisor [of _ i] square_less [of _ i] by (smt (verit))

lemma sieve_inv_start: "(\<And>i. 0 \<le> i \<Longrightarrow> i < lim \<Longrightarrow> bitset tab i \<noteq> 0) \<Longrightarrow> sieve_inv lim 2 tab"
  by (auto simp: sieve_inv_def)

lemma sieve_inv_end: "sieve_inv lim l tab \<Longrightarrow> lim \<le> l \<Longrightarrow> prime_table lim tab"
  unfolding prime_table_def
proof (intro allI impI)
  fix i assume inv: "sieve_inv lim l tab" and l: "lim \<le> l" and i: "0 \<le> i \<and> i < lim"
  have "k < l" if "2 \<le> k" "k * k \<le> i" for k using square_less [OF that] i l by simp
  then have "bitset tab i \<noteq> 0 \<longleftrightarrow> (\<forall>k. 2 \<le> k \<and> k * k \<le> i \<longrightarrow> \<not> k dvd i)"
    using inv i unfolding sieve_inv_def by blast
  moreover have "\<not> k * k \<le> i" if "i < 2" "2 \<le> k" for k using square_less [of k i] that by auto
  ultimately show "bitset tab i \<noteq> 0 \<longleftrightarrow> i < 2 \<or> prime_int i"
    using prime_by_squares [of i] by (cases "i < 2") auto
qed

lemma sieve_inv_skip:
  assumes inv: "sieve_inv lim l tab" and d: "2 \<le> d" "d < l" "d dvd l"
  shows "sieve_inv lim (l + 1) tab"
proof -
  have "\<exists>k. 2 \<le> k \<and> k < l \<and> k * k \<le> i \<and> k dvd i" if "l dvd i" "l * l \<le> i" for i
  proof (intro exI conjI)
    show "2 \<le> d" "d < l" by fact+
    have "d * d \<le> l * l" using d by (intro mult_mono) auto
    then show "d * d \<le> i" using that by simp
    show "d dvd i" using d(3) that(1) by (rule dvd_trans)
  qed
  then have "(\<forall>k. 2 \<le> k \<and> k < l + 1 \<and> k * k \<le> i \<longrightarrow> \<not> k dvd i) \<longleftrightarrow>
      (\<forall>k. 2 \<le> k \<and> k < l \<and> k * k \<le> i \<longrightarrow> \<not> k dvd i)" for i
    by (smt (verit))
  then show ?thesis using inv unfolding sieve_inv_def by simp
qed

lemma sieve_inv_composite:
  assumes inv: "sieve_inv lim l tab" and l: "2 \<le> l" "l < lim" and b: "bitset tab l = 0"
  shows "sieve_inv lim (l + 1) tab"
proof -
  have "bitset tab l \<noteq> 0 \<longleftrightarrow> (\<forall>k. 2 \<le> k \<and> k < l \<and> k * k \<le> l \<longrightarrow> \<not> k dvd l)"
    using inv l unfolding sieve_inv_def by simp
  then obtain d where "2 \<le> d" "d < l" "d dvd l" using b by blast
  then show ?thesis using sieve_inv_skip [OF inv] by blast
qed

lemma sieve_inv_even:
  assumes inv: "sieve_inv lim l tab" and l: "2 < l" "even l"
  shows "sieve_inv lim (l + 1) tab"
  using sieve_inv_skip [OF inv, of 2] l by simp

section \<open>The loops\<close>

lemma sieve_clear_spec:
  assumes "0 < step" "0 \<le> m" "lim + step < 2 ^ 63"
  shows "\<exists>tab'. sieve_clear lim step m tab = Some tab' \<and> kept ((lim + 7) div 8) tab tab' \<and>
    (\<forall>i. bitset tab' i \<noteq> 0 \<longleftrightarrow> bitset tab i \<noteq> 0 \<and> \<not> (m \<le> i \<and> i < lim \<and> step dvd (i - m)))"
  using assms(2)
proof (induction "nat (lim + step - m)" arbitrary: m tab rule: less_induct)
  case less
  show ?case
  proof (cases "m < lim")
    case False
    then show ?thesis by (subst sieve_clear.simps) simp
  next
    case True
    have c: "clong (m + step) = Some (m + step)" using True less.prems assms by (simp add: clong_def)
    obtain tab' where t: "sieve_clear lim step (m + step) (clrbit tab m) = Some tab'"
      "kept ((lim + 7) div 8) (clrbit tab m) tab'"
      "\<forall>i. bitset tab' i \<noteq> 0 \<longleftrightarrow> bitset (clrbit tab m) i \<noteq> 0 \<and>
         \<not> (m + step \<le> i \<and> i < lim \<and> step dvd (i - (m + step)))"
      using less.hyps [of "m + step" "clrbit tab m"] True less.prems assms(1) by auto
    have k: "kept ((lim + 7) div 8) tab (clrbit tab m)"
      using True less.prems unfolding kept_def by (auto simp: clrbit_def)
    have "m \<le> i \<and> i < lim \<and> step dvd (i - m) \<longleftrightarrow>
        i = m \<or> m + step \<le> i \<and> i < lim \<and> step dvd (i - (m + step))" for i
    proof -
      have "step dvd (i - (m + step)) \<longleftrightarrow> step dvd (i - m)"
        using dvd_add_right_iff [of step "- step" "i - m"] by (simp add: algebra_simps)
      moreover have "m + step \<le> i" if "m < i" "step dvd (i - m)"
        using zdvd_imp_le [OF that(2)] that(1) by simp
      ultimately show ?thesis using True assms(1) by auto
    qed
    moreover have "sieve_clear lim step m tab = Some tab'"
      using True c t(1) by (subst sieve_clear.simps) simp
    ultimately show ?thesis
      using t(3) kept_trans [OF k t(2)] unfolding bitset_clrbit by (intro exI [of _ tab'] conjI) auto
  qed
qed

lemma sieve_inv_clear:
  assumes inv: "sieve_inv lim l tab" and l: "2 \<le> l"
    and t: "\<forall>i. bitset tab' i \<noteq> 0 \<longleftrightarrow> bitset tab i \<noteq> 0 \<and> \<not> (l * l \<le> i \<and> i < lim \<and> l dvd (i - l * l))"
  shows "sieve_inv lim (l + 1) tab'"
proof -
  have "l dvd (i - l * l) \<longleftrightarrow> l dvd i" for i
    using dvd_add_right_iff [of l "- (l * l)" i] by (simp add: algebra_simps)
  moreover have "k < l + 1 \<longleftrightarrow> k < l \<or> k = l" for k by auto
  ultimately show ?thesis using inv l t unfolding sieve_inv_def by (smt (verit))
qed

text \<open>Clearing every other multiple is enough for an odd number, once the even numbers are gone.\<close>

lemma sieve_inv_clear2:
  assumes inv: "sieve_inv lim l tab" and l: "3 \<le> l" "odd l"
    and t: "\<forall>i. bitset tab' i \<noteq> 0 \<longleftrightarrow> bitset tab i \<noteq> 0 \<and> \<not> (l * l \<le> i \<and> i < lim \<and> (2 * l) dvd (i - l * l))"
  shows "sieve_inv lim (l + 1) tab'"
proof (rule sieve_inv_clear [OF inv])
  show "2 \<le> l" using l by simp
  show "\<forall>i. bitset tab' i \<noteq> 0 \<longleftrightarrow> bitset tab i \<noteq> 0 \<and> \<not> (l * l \<le> i \<and> i < lim \<and> l dvd (i - l * l))"
  proof
    fix i
    have "bitset tab i = 0" if i: "l * l \<le> i" "i < lim" "even i"
    proof -
      have "3 * 3 \<le> l * l" using l by (intro mult_mono) auto
      then have "0 \<le> i" "2 * 2 \<le> i" "(2 :: int) < l" using i l by auto
      then show ?thesis using inv i unfolding sieve_inv_def by blast
    qed
    moreover have "(2 * l) dvd (i - l * l)" if "l dvd (i - l * l)" "odd i"
      using that l by (intro divides_mult) auto
    moreover have "l dvd (i - l * l)" if "(2 * l) dvd (i - l * l)"
      using that by (rule dvd_mult_right)
    ultimately show "bitset tab' i \<noteq> 0 \<longleftrightarrow> bitset tab i \<noteq> 0 \<and> \<not> (l * l \<le> i \<and> i < lim \<and> l dvd (i - l * l))"
      using t by metis
  qed
qed

lemma sieve1_scan_inv:
  assumes "2 \<le> l" "l \<le> lim" "sieve_inv lim l tab"
  shows "l \<le> sieve1_scan lim tab l \<and> sieve1_scan lim tab l \<le> lim \<and>
    sieve_inv lim (sieve1_scan lim tab l) tab"
  using assms
proof (induction lim tab l rule: sieve1_scan.induct)
  case (1 lim tab l)
  show ?case
    using "1.IH" "1.prems" sieve_inv_composite [of lim l tab] by (subst (1 2 3) sieve1_scan.simps) auto
qed

lemma sieve2_scan_inv:
  assumes "3 \<le> l" "odd l" "sieve_inv lim l tab"
  shows "l \<le> sieve2_scan lim tab l \<and> odd (sieve2_scan lim tab l) \<and>
    sieve_inv lim (sieve2_scan lim tab l) tab"
  using assms
proof (induction lim tab l rule: sieve2_scan.induct)
  case (1 lim tab l)
  have "sieve_inv lim (l + 2) tab" if "l < lim" "bitset tab l = 0"
    using sieve_inv_even [OF sieve_inv_composite [of lim l tab]] that "1.prems" by (simp add: add.commute)
  then show ?case
    using "1.IH" "1.prems" by (subst (1 2 3) sieve2_scan.simps) auto
qed

text \<open>One round: clearing the multiples of \<open>l\<close>, all of them or every other one.\<close>

lemma square_long:
  assumes "2 \<le> l" "l \<le> 2 ^ 31"
  shows "clong (l * l) = Some (l * l)"
proof -
  have "l * l \<le> 2 ^ 31 * 2 ^ 31" using assms by (intro mult_mono) auto
  then have "l * l < 2 ^ 63" by simp
  moreover have "- (2 ^ 63) \<le> l * l" by (rule order_trans [OF _ zero_le_square]) simp
  ultimately show ?thesis by (simp add: clong_def)
qed

lemma sieve_round:
  assumes "2 \<le> l" "l \<le> 2 ^ 31" "lim \<le> 2 ^ 31" "sieve_inv lim l tab"
  obtains tab' where "sieve_clear lim l (l * l) tab = Some tab'" "kept ((lim + 7) div 8) tab tab'"
    "sieve_inv lim (l + 1) tab'"
  using sieve_clear_spec [of l "l * l" lim tab] assms sieve_inv_clear [OF assms(4,1)] by fastforce

lemma sieve_round2:
  assumes "3 \<le> l" "odd l" "l \<le> 2 ^ 31" "lim \<le> 2 ^ 31" "sieve_inv lim l tab"
  obtains tab' where "sieve_clear lim (2 * l) (l * l) tab = Some tab'" "kept ((lim + 7) div 8) tab tab'"
    "sieve_inv lim (l + 1) tab'"
  using sieve_clear_spec [of "2 * l" "l * l" lim tab] assms sieve_inv_clear2 [OF assms(5,1,2)] by fastforce

lemma next_odd:
  assumes "sieve_inv lim (l + 1) tab" "2 \<le> l"
  defines "l' \<equiv> l + 1 + of_bool ((l + 1) AND 1 = 0)"
  defines "l'' \<equiv> sieve2_scan lim tab l'"
  shows "(if (l + 1) AND 1 = 0 then l + 1 + 1 else l + 1) = l'" "3 \<le> l''" "odd l''" "l < l''"
    "sieve_inv lim l'' tab"
proof -
  have e: "(l + 1) AND 1 = 0 \<longleftrightarrow> even (l + 1)" by (simp add: and_one_eq even_iff_mod_2_eq_zero)
  show "(if (l + 1) AND 1 = 0 then l + 1 + 1 else l + 1) = l'" by (simp add: l'_def)
  have "3 \<le> l'" "odd l'" "sieve_inv lim l' tab"
    using assms(1,2) sieve_inv_even [OF assms(1)] unfolding l'_def e by auto
  then have "l' \<le> l'' \<and> odd l'' \<and> sieve_inv lim l'' tab"
    unfolding l''_def by (rule sieve2_scan_inv)
  then show "3 \<le> l''" "odd l''" "l < l''" "sieve_inv lim l'' tab"
    using \<open>3 \<le> l'\<close> unfolding l'_def by (auto split: if_splits simp: of_bool_def)
qed

lemma sieve1_loop_spec:
  assumes "2 \<le> l" "l < lim" "lim \<le> 2 ^ 31" "sieve_inv lim l tab"
  shows "\<exists>tab'. sieve1_loop lim l tab = Some tab' \<and> prime_table lim tab' \<and> kept ((lim + 7) div 8) tab tab'"
  using assms
proof (induction "nat (lim - l)" arbitrary: l tab rule: less_induct)
  case less
  obtain tab1 where t: "sieve_clear lim l (l * l) tab = Some tab1" "kept ((lim + 7) div 8) tab tab1"
    "sieve_inv lim (l + 1) tab1"
    using sieve_round [of l lim tab] less.prems by auto
  define l' where "l' = sieve1_scan lim tab1 (l + 1)"
  have l': "l < l'" "l' \<le> lim" "sieve_inv lim l' tab1"
    using sieve1_scan_inv [OF _ _ t(3)] less.prems unfolding l'_def by auto
  have step: "sieve1_loop lim l tab = (if l' = lim then Some tab1 else sieve1_loop lim l' tab1)"
    using square_long [of l] less.prems t(1) by (subst sieve1_loop.simps) (simp add: l'_def Let_def)
  show ?case
  proof (cases "l' = lim")
    case True
    then show ?thesis using step t(2) sieve_inv_end [OF l'(3)] by simp
  next
    case False
    then obtain tab' where "sieve1_loop lim l' tab1 = Some tab'" "prime_table lim tab'"
      "kept ((lim + 7) div 8) tab1 tab'"
      using less.hyps [of l' tab1] l' less.prems by auto
    then show ?thesis using step False kept_trans [OF t(2)] by auto
  qed
qed

lemma sieve2_loop_spec:
  assumes "2 \<le> l" "l \<le> 2 ^ 31" "lim \<le> 2 ^ 31" "sieve_inv lim l tab"
  shows "\<exists>tab'. sieve2_loop lim l tab = Some tab' \<and> sieve3_loop lim l tab = Some tab' \<and>
    prime_table lim tab' \<and> kept ((lim + 7) div 8) tab tab'"
  using assms
proof (induction "nat (lim - l)" arbitrary: l tab rule: less_induct)
  case less
  obtain tab1 where t: "sieve_clear lim l (l * l) tab = Some tab1" "kept ((lim + 7) div 8) tab tab1"
    "sieve_inv lim (l + 1) tab1"
    using sieve_round [of l lim tab] less.prems by auto
  define l' where "l' = sieve2_scan lim tab1 (l + 1 + of_bool ((l + 1) AND 1 = 0))"
  note l' = next_odd [OF t(3) less.prems(1), folded l'_def]
  have step: "sieve2_loop lim l tab = (if lim \<le> l' then Some tab1 else sieve2_loop lim l' tab1)"
    "sieve3_loop lim l tab = (if lim \<le> l' then Some tab1 else sieve3_loop lim l' tab1)"
    using square_long [of l] less.prems t(1)
    by (subst sieve2_loop.simps sieve3_loop.simps, simp only: Let_def l'(1) l'_def [symmetric] bind.bind_lunit)+
  show ?case
  proof (cases "lim \<le> l'")
    case True
    then show ?thesis using step t(2) sieve_inv_end [OF l'(5)] by simp
  next
    case False
    then obtain tab' where "sieve2_loop lim l' tab1 = Some tab'" "sieve3_loop lim l' tab1 = Some tab'"
      "prime_table lim tab'" "kept ((lim + 7) div 8) tab1 tab'"
      using less.hyps [of l' tab1] l' less.prems by auto
    then show ?thesis using step False kept_trans [OF t(2)] by auto
  qed
qed

lemma sieve4_loop_spec:
  assumes "3 \<le> l" "odd l" "l \<le> 2 ^ 31" "lim \<le> 2 ^ 31" "sieve_inv lim l tab"
  shows "\<exists>tab' plim'. sieve4_loop lim l tab plim = Some (tab', plim') \<and> (plim' = plim \<or> plim' = lim) \<and>
    prime_table lim tab' \<and> kept ((lim + 7) div 8) tab tab'"
  using assms
proof (induction "nat (lim - l)" arbitrary: l tab plim rule: less_induct)
  case less
  obtain tab1 where t: "sieve_clear lim (2 * l) (l * l) tab = Some tab1" "kept ((lim + 7) div 8) tab tab1"
    "sieve_inv lim (l + 1) tab1"
    using sieve_round2 [of l lim tab] less.prems by auto
  define l' where "l' = sieve2_scan lim tab1 (l + 1 + of_bool ((l + 1) AND 1 = 0))"
  have "2 \<le> l" using less.prems by simp
  note l' = next_odd [OF t(3) this, folded l'_def]
  have step: "sieve4_loop lim l tab plim =
      (if lim \<le> l' then Some (tab1, plim) else sieve4_loop lim l' tab1 lim)"
    using square_long [of l] less.prems t(1)
    by (subst sieve4_loop.simps) (simp add: Let_def l'_def)
  show ?case
  proof (cases "lim \<le> l'")
    case True
    then show ?thesis using step t(2) sieve_inv_end [OF l'(5)] by simp
  next
    case False
    then obtain tab' plim' where "sieve4_loop lim l' tab1 lim = Some (tab', plim')" "plim' = lim"
      "prime_table lim tab'" "kept ((lim + 7) div 8) tab1 tab'"
      using less.hyps [of l' tab1 lim] l' less.prems by auto
    then show ?thesis using step False kept_trans [OF t(2)] by auto
  qed
qed

section \<open>The four sieves\<close>

lemma sieve_nbyte_eq: "0 \<le> lim \<Longrightarrow> lim \<le> 2 ^ 31 \<Longrightarrow> sieve_nbyte lim = (lim + 7) div 8"
  unfolding sieve_nbyte_def drop_bit_and by (simp add: drop_bit_eq_div)

lemma sieve_start:
  assumes "0 \<le> lim" "lim \<le> 2 ^ 31"
  shows "sieve_inv lim 2 (memset_ff (sieve_nbyte lim) tab)"
    "kept ((lim + 7) div 8) tab (memset_ff (sieve_nbyte lim) tab)"
proof -
  show "sieve_inv lim 2 (memset_ff (sieve_nbyte lim) tab)"
  proof (rule sieve_inv_start)
    fix i assume "0 \<le> i" "i < lim"
    then have "0 \<le> i div 8" "i div 8 < (lim + 7) div 8" by auto
    then show "bitset (memset_ff (sieve_nbyte lim) tab) i \<noteq> 0"
      using assms by (intro bitset_ones) (simp add: memset_ff_def sieve_nbyte_eq)
  qed
  show "kept ((lim + 7) div 8) tab (memset_ff (sieve_nbyte lim) tab)"
    using assms by (simp add: kept_def memset_ff_def sieve_nbyte_eq)
qed

lemma sieve4_body:
  assumes "0 \<le> lim" "lim \<le> 2 ^ 31"
  obtains tab1 tab2 plim' where
    "sieve_clear lim 2 4 (memset_ff (sieve_nbyte lim) tab) = Some tab1"
    "sieve4_loop lim 3 tab1 plim = Some (tab2, plim')" "plim' = plim \<or> plim' = lim"
    "prime_table lim tab2" "kept ((lim + 7) div 8) tab tab2"
proof -
  obtain tab1 where c: "sieve_clear lim 2 4 (memset_ff (sieve_nbyte lim) tab) = Some tab1"
    "kept ((lim + 7) div 8) (memset_ff (sieve_nbyte lim) tab) tab1" "sieve_inv lim 3 tab1"
    using sieve_round [of 2 lim, OF _ _ _ sieve_start(1) [OF assms]] assms by auto
  obtain tab2 plim' where "sieve4_loop lim 3 tab1 plim = Some (tab2, plim')" "plim' = plim \<or> plim' = lim"
    "prime_table lim tab2" "kept ((lim + 7) div 8) tab1 tab2"
    using sieve4_loop_spec [of 3 lim tab1 plim] c assms by auto
  then show thesis using c sieve_start(2) [OF assms] that kept_trans by blast
qed

text \<open>
  C15: for every limit from 3 to 2 to the 31 the four sieves return a table, the same in the second
  and the third, in which a bit below the limit is set exactly for 0, 1 and the primes, and write
  no byte outside of the block they allocated; when the allocation fails they return the null
  pointer.
\<close>

theorem sieves_exact:
  assumes "3 \<le> lim" "lim \<le> 2 ^ 31"
  shows "\<exists>t1 t2 t4. sieve1 (Some mem) lim = Some (Some t1) \<and> sieve2 (Some mem) lim = Some (Some t2) \<and>
      sieve3 (Some mem) lim = Some (Some t2) \<and> sieve4 (Some mem) lim = Some (Some t4) \<and>
      sieve1 None lim = Some None \<and> sieve2 None lim = Some None \<and>
      sieve3 None lim = Some None \<and> sieve4 None lim = Some None \<and>
      (\<forall>t \<in> {t1, t2, t4}. prime_table lim t \<and> kept ((lim + 7) div 8) mem t)"
proof -
  let ?tab = "memset_ff (sieve_nbyte lim) mem"
  have l: "0 \<le> lim" using assms by simp
  note start = sieve_start [OF l assms(2), of mem]
  obtain t1 where t1: "sieve1_loop lim 2 ?tab = Some t1" "prime_table lim t1"
      "kept ((lim + 7) div 8) ?tab t1"
    using sieve1_loop_spec [of 2 lim ?tab] start(1) assms by auto
  obtain t2 where t2: "sieve2_loop lim 2 ?tab = Some t2" "sieve3_loop lim 2 ?tab = Some t2"
      "prime_table lim t2" "kept ((lim + 7) div 8) ?tab t2"
    using sieve2_loop_spec [of 2 lim ?tab] start(1) assms by auto
  obtain t3 t4 p where t4: "sieve_clear lim 2 4 ?tab = Some t3" "sieve4_loop lim 3 t3 0 = Some (t4, p)"
      "prime_table lim t4" "kept ((lim + 7) div 8) mem t4"
    using sieve4_body [OF l assms(2), of mem 0] by metis
  show ?thesis
    using t1 t2 t4 kept_trans [OF start(2) t1(3)] kept_trans [OF start(2) t2(4)]
    by (intro exI [of _ t1] exI [of _ t2] exI [of _ t4])
      (simp add: sieve1_def sieve2_def sieve3_def sieve4_def)
qed

theorem sieves_exact_witness:
  "\<exists>t1 t2 t4. sieve1 (Some (\<lambda>_. 0)) 100 = Some (Some t1) \<and> sieve2 (Some (\<lambda>_. 0)) 100 = Some (Some t2) \<and>
     sieve3 (Some (\<lambda>_. 0)) 100 = Some (Some t2) \<and> sieve4 (Some (\<lambda>_. 0)) 100 = Some (Some t4) \<and>
     (\<forall>t \<in> {t1, t2, t4}. prime_table 100 t \<and> kept 13 (\<lambda>_. 0) t)"
  using sieves_exact [of 100 "\<lambda>_. 0"] by simp blast

text \<open>For a limit of 2 or less the first sieve steps over the limit and never returns.\<close>

lemma sieve1_scan_past: "lim < l \<Longrightarrow> sieve1_scan lim tab l = l"
  by (simp add: sieve1_scan.simps)

lemma sieve1_loop_past: "lim \<le> l \<Longrightarrow> sieve1_loop lim l tab = None"
proof (rule ccontr)
  assume l: "lim \<le> l" and "sieve1_loop lim l tab \<noteq> None"
  then obtain t where "sieve1_loop lim l tab = Some t" by auto
  then have "lim < l + 1 \<longrightarrow> False"
    by (rule sieve1_loop.raw_induct [rotated])
      (fastforce simp: Let_def sieve1_scan_past bind_eq_Some_conv split: if_splits)
  with l show False by simp
qed

lemma sieve1_small_limit: "lim \<le> 2 \<Longrightarrow> sieve1 (Some mem) lim = None"
  by (simp add: sieve1_def sieve1_loop_past)

section \<open>The primality test\<close>

definition primes_ok :: "primes \<Rightarrow> bool" where
  "primes_ok st \<longleftrightarrow> 0 \<le> primelim st \<and>
     (primelim st \<noteq> 0 \<longrightarrow> (\<exists>tab. primemap st = Some tab \<and> prime_table (primelim st) tab))"

lemma prime_table_mono: "prime_table lim tab \<Longrightarrow> lim' \<le> lim \<Longrightarrow> prime_table lim' tab"
  by (simp add: prime_table_def)

lemma sieve_grows:
  assumes "primes_ok st" "primelim st \<le> lim" "lim \<le> 2 ^ 31"
  obtains tab plim where "sieve (Some mem) lim st = Some (Inr (1, \<lparr>primelim = plim, primemap = Some tab\<rparr>))"
    "prime_table lim tab" "plim \<le> lim" "primes_ok \<lparr>primelim = plim, primemap = Some tab\<rparr>"
proof -
  have l: "0 \<le> lim" using assms by (simp add: primes_ok_def)
  obtain t3 t4 p where t4: "sieve_clear lim 2 4 (memset_ff (sieve_nbyte lim) mem) = Some t3"
      "sieve4_loop lim 3 t3 (primelim st) = Some (t4, p)" "p = primelim st \<or> p = lim" "prime_table lim t4"
    using sieve4_body [OF l assms(3), of mem "primelim st"] by metis
  show thesis
  proof (rule that)
    show "sieve (Some mem) lim st = Some (Inr (1, \<lparr>primelim = p, primemap = Some t4\<rparr>))"
      using t4(1,2) assms(2) by (simp add: sieve_def)
    show "prime_table lim t4" by fact
    show "p \<le> lim" using t4(3) assms(2) by auto
    then show "primes_ok \<lparr>primelim = p, primemap = Some t4\<rparr>"
      using t4(3,4) l assms(1) prime_table_mono [OF t4(4)] by (auto simp: primes_ok_def)
  qed
qed

text \<open>
  From every consistent state, and for every number from 2 up to 2 to the 31 less one,
  \<open>isprime\<close> returns a nonzero value exactly for the primes and leaves a consistent state
  behind, so that later calls are right too; when the table has to grow and the allocator fails
  the program ends with status 1.
\<close>

theorem isprime_exact:
  assumes "primes_ok st" "2 \<le> num" "num < 2 ^ 31"
  shows "\<exists>r st'. isprime (Some mem) num st = Some (Inr (r, st')) \<and>
      (r \<noteq> 0 \<longleftrightarrow> prime_int num) \<and> primes_ok st' \<and>
      (primelim st \<le> num \<longrightarrow> isprime None num st = Some (Inl 1))"
proof -
  have m: "(num + 1) mod 2 ^ 64 = num + 1" using assms(2,3) by simp
  have "\<exists>r st'. isprime (Some mem) num st = Some (Inr (r, st')) \<and> (r \<noteq> 0 \<longleftrightarrow> prime_int num) \<and> primes_ok st'"
  proof (cases "primelim st = 0 \<or> primelim st \<le> num")
    case True
    then have "primelim st \<le> num + 1" "num + 1 \<le> 2 ^ 31" using assms by auto
    then obtain tab plim where t: "sieve (Some mem) (num + 1) st = Some (Inr (1, \<lparr>primelim = plim, primemap = Some tab\<rparr>))"
      "prime_table (num + 1) tab" "primes_ok \<lparr>primelim = plim, primemap = Some tab\<rparr>"
      using sieve_grows [OF assms(1), of "num + 1"] by metis
    then show ?thesis
      using True m assms(2) by (auto simp: isprime_def primeinit_def prime_table_def)
  next
    case False
    then show ?thesis
      using assms by (auto simp: isprime_def primes_ok_def prime_table_def)
  qed
  moreover have "isprime None num st = Some (Inl 1)" if "primelim st \<le> num"
    using that m by (cases "primemap st") (simp_all add: isprime_def primeinit_def sieve_def)
  ultimately show ?thesis by blast
qed

theorem isprime_exact_witness:
  "\<exists>r st'. isprime (Some (\<lambda>_. 0)) 91 \<lparr>primelim = 0, primemap = None\<rparr> = Some (Inr (r, st')) \<and>
     (r \<noteq> 0 \<longleftrightarrow> prime_int 91) \<and> primes_ok st' \<and>
     isprime None 91 \<lparr>primelim = 0, primemap = None\<rparr> = Some (Inl 1)"
  using isprime_exact [of "\<lparr>primelim = 0, primemap = None\<rparr>" 91 "\<lambda>_. 0"] by (simp add: primes_ok_def)

text \<open>
  The listing has 0 and 1 among the primes.  Sieving up to a small limit after a larger one leaves
  \<open>primelim\<close> large and spoils the rest of the first byte.
\<close>

lemma primelst_lists:
  assumes "primes_ok st" "primelim st \<le> lim" "lim \<le> 2 ^ 31"
  shows "\<exists>st'. primelst (Some mem) lim st = Some (Inr ([i \<leftarrow> [0..lim - 1]. i < 2 \<or> prime_int i], st')) \<and> primes_ok st'"
proof -
  obtain tab plim where t: "sieve (Some mem) lim st = Some (Inr (1, \<lparr>primelim = plim, primemap = Some tab\<rparr>))"
    "prime_table lim tab" "primes_ok \<lparr>primelim = plim, primemap = Some tab\<rparr>"
    using sieve_grows [OF assms] by metis
  have "[i \<leftarrow> [0..lim - 1]. bitset tab i \<noteq> 0] = [i \<leftarrow> [0..lim - 1]. i < 2 \<or> prime_int i]"
    using t(2) by (intro filter_cong) (auto simp: prime_table_def)
  then show ?thesis using t by (auto simp: primelst_def)
qed

lemma sieve_small_limit_stale:
  assumes "primemap st = Some tab" "primelim st = 100"
  shows "\<exists>st'. sieve mem 3 st = Some (Inr (1, st')) \<and> primelim st' = 100 \<and>
    (\<exists>r st''. isprime mem 6 st' = Some (Inr (r, st'')) \<and> r \<noteq> 0)"
proof -
  let ?t = "memset_ff 1 tab"
  have n: "sieve_nbyte 3 = 1" by (simp add: sieve_nbyte_def)
  have c: "sieve_clear 3 2 4 ?t = Some ?t" "sieve_clear 3 6 9 ?t = Some ?t"
    by (simp_all add: sieve_clear.simps)
  have "sieve2_scan 3 ?t 5 = 5" by (simp add: sieve2_scan.simps)
  then have "sieve4_loop 3 3 ?t 100 = Some (?t, 100)"
    using c by (subst sieve4_loop.simps) (simp add: clong_def Let_def)
  moreover have "bitset ?t 6 \<noteq> 0" by (rule bitset_ones) (simp add: memset_ff_def)
  ultimately show ?thesis
    using assms c n by (simp add: sieve_def isprime_def)
qed

end
