(* ===== verification/Shunt.thy ===== *)
theory Shunt
  imports Prelude "HOL-Library.Monad_Syntax"
begin

text \<open>
  The shunting-yard parser of usr/lib/zero/shunt.c with the operator tables and the evaluation
  functions for C integers of usr/lib/zero/shuntc.c.

  A token keeps the fields the code reads.  Token queues and stacks are threaded through the
  \<open>next\<close> and \<open>prev\<close> fields of the tokens; the primitive operations are modelled on
  these fields and shown to be the operations on lists, and the parser works on lists.  An empty
  queue is the null pointer, which the parser also returns for mismatched parentheses.  The result
  \<open>None\<close> stands for a null pointer dereference, a shift out of range, a division that
  traps and a loop that never ends.  The copy of each token, which the code makes and does not
  use, is left out.
\<close>

section \<open>Token types and tables\<close>

definition SHUNTCNOT :: int where [simp]: "SHUNTCNOT = 1"
definition SHUNTCINC :: int where [simp]: "SHUNTCINC = 2"
definition SHUNTCDEC :: int where [simp]: "SHUNTCDEC = 3"
definition SHUNTCSHL :: int where [simp]: "SHUNTCSHL = 4"
definition SHUNTCSHR :: int where [simp]: "SHUNTCSHR = 5"
definition SHUNTCAND :: int where [simp]: "SHUNTCAND = 6"
definition SHUNTCOR :: int where [simp]: "SHUNTCOR = 7"
definition SHUNTCXOR :: int where [simp]: "SHUNTCXOR = 8"
definition SHUNTCADD :: int where [simp]: "SHUNTCADD = 9"
definition SHUNTCSUB :: int where [simp]: "SHUNTCSUB = 10"
definition SHUNTCMUL :: int where [simp]: "SHUNTCMUL = 11"
definition SHUNTCDIV :: int where [simp]: "SHUNTCDIV = 12"
definition SHUNTCMOD :: int where [simp]: "SHUNTCMOD = 13"
definition SHUNTCSAR :: int where [simp]: "SHUNTCSAR = 14"
definition SHUNTCASSIGN :: int where [simp]: "SHUNTCASSIGN = 15"
definition SHUNTCSEP :: int where [simp]: "SHUNTCSEP = 17"
definition SHUNTCLEFTPAREN :: int where [simp]: "SHUNTCLEFTPAREN = 18"
definition SHUNTCRIGHTPAREN :: int where [simp]: "SHUNTCRIGHTPAREN = 19"
definition SHUNTCINT :: int where [simp]: "SHUNTCINT = 20"
definition SHUNTCUINT :: int where [simp]: "SHUNTCUINT = 21"
definition SHUNTCFUNC :: int where [simp]: "SHUNTCFUNC = 27"
definition SHUNTCRTOL :: int where [simp]: "SHUNTCRTOL = 128"

record shuntctoken =
  tktype :: int
  tkradix :: int
  tkdata :: u64

text \<open>The tables are global and start with zeroes.\<close>

definition shuntcopprectab :: "int \<Rightarrow> int" where
  "shuntcopprectab =
     (\<lambda>_. 0)(SHUNTCNOT := SHUNTCRTOL OR 8, SHUNTCINC := 8, SHUNTCDEC := 8, SHUNTCSHL := 7, SHUNTCSHR := 7,
       SHUNTCAND := 6, SHUNTCXOR := SHUNTCRTOL OR 5, SHUNTCOR := 4, SHUNTCMUL := 3, SHUNTCDIV := 3,
       SHUNTCMOD := 3, SHUNTCADD := SHUNTCRTOL OR 2, SHUNTCSUB := 2, SHUNTCASSIGN := 1)"

definition shuntcopnargtab :: "int \<Rightarrow> int" where
  "shuntcopnargtab =
     (\<lambda>_. 0)(SHUNTCNOT := 1, SHUNTCINC := 1, SHUNTCDEC := 1, SHUNTCSHL := 2, SHUNTCSHR := 2, SHUNTCAND := 2,
       SHUNTCXOR := 2, SHUNTCOR := 2, SHUNTCMUL := 2, SHUNTCDIV := 2, SHUNTCMOD := 2, SHUNTCADD := 2,
       SHUNTCSUB := 2)"

definition shuntcopprec :: "shuntctoken \<Rightarrow> int" where
  "shuntcopprec tok = shuntcopprectab (tktype tok) AND NOT SHUNTCRTOL"

definition shuntcisrtol :: "shuntctoken \<Rightarrow> bool" where
  "shuntcisrtol tok \<longleftrightarrow> shuntcopprectab (tktype tok) AND SHUNTCRTOL \<noteq> 0"

definition shuntcisvalue :: "shuntctoken option \<Rightarrow> bool" where
  "shuntcisvalue tok \<longleftrightarrow> (case tok of None \<Rightarrow> False | Some t \<Rightarrow> tktype t = SHUNTCINT \<or> tktype t = SHUNTCUINT)"

definition shuntcisfunc :: "shuntctoken option \<Rightarrow> bool" where
  "shuntcisfunc tok \<longleftrightarrow> (case tok of None \<Rightarrow> False | Some t \<Rightarrow> tktype t = SHUNTCFUNC)"

definition shuntcissep :: "shuntctoken option \<Rightarrow> bool" where
  "shuntcissep tok \<longleftrightarrow> (case tok of None \<Rightarrow> False | Some t \<Rightarrow> tktype t = SHUNTCSEP)"

definition shuntcisop :: "shuntctoken option \<Rightarrow> bool" where
  "shuntcisop tok \<longleftrightarrow>
     (case tok of None \<Rightarrow> False | Some t \<Rightarrow> SHUNTCNOT \<le> tktype t \<and> tktype t \<le> SHUNTCASSIGN)"

section \<open>Queues and stacks of tokens\<close>

text \<open>
  The links of the tokens, which are addresses here, 0 being the null pointer.
\<close>

record tklinks =
  tknext :: "nat \<Rightarrow> nat"
  tkprev :: "nat \<Rightarrow> nat"

definition shuntqueue :: "tklinks \<Rightarrow> nat \<Rightarrow> nat \<Rightarrow> nat \<Rightarrow> tklinks \<times> nat \<times> nat" where
  "shuntqueue h token queue tail =
     (if token = 0 then (h, queue, tail)
      else let h = h\<lparr>tknext := (tknext h)(token := 0)\<rparr> in
        if queue = 0 then (h\<lparr>tkprev := (tkprev h)(token := 0)\<rparr>, token, tail)
        else if tail \<noteq> 0 then
          (h\<lparr>tkprev := (tkprev h)(token := tail), tknext := (tknext h)(tail := token)\<rparr>, queue, token)
        else
          (h\<lparr>tkprev := (tkprev h)(token := queue), tknext := (tknext h)(queue := token)\<rparr>, queue, token))"

definition shuntpush :: "tklinks \<Rightarrow> nat \<Rightarrow> nat \<Rightarrow> tklinks \<times> nat" where
  "shuntpush h tok stk =
     (if tok = 0 then (h, stk)
      else (h\<lparr>tkprev := (tkprev h)(tok := 0), tknext := (tknext h)(tok := stk)\<rparr>, tok))"

definition shuntpop :: "tklinks \<Rightarrow> nat \<Rightarrow> nat \<times> nat" where
  "shuntpop h stack = (stack, if stack = 0 then stack else tknext h stack)"

section \<open>The parser\<close>

definition tktop :: "'a list \<Rightarrow> 'a option" where
  "tktop st = (case st of [] \<Rightarrow> None | t # _ \<Rightarrow> Some t)"

text \<open>The test under which an operator takes another one from the stack.\<close>

definition shuntpops :: "shuntctoken \<Rightarrow> shuntctoken \<Rightarrow> bool" where
  "shuntpops tok tok2 \<longleftrightarrow>
     \<not> shuntcisrtol tok \<and> shuntcopprec tok \<le> shuntcopprec tok2 \<or> shuntcopprec tok < shuntcopprec tok2"

fun shunt_popops ::
  "shuntctoken \<Rightarrow> shuntctoken list \<Rightarrow> shuntctoken list \<Rightarrow> shuntctoken list \<times> shuntctoken list" where
  "shunt_popops tok [] queue = ([], queue)"
| "shunt_popops tok (t # stack) queue =
     (if shuntcisop (Some t) \<and> shuntpops tok t then shunt_popops tok stack (queue @ [t])
      else (t # stack, queue))"

fun shunt_popparen :: "shuntctoken list \<Rightarrow> shuntctoken list \<Rightarrow> shuntctoken list \<times> shuntctoken list" where
  "shunt_popparen [] queue = ([], queue)"
| "shunt_popparen (t # stack) queue =
     (if tktype t \<noteq> SHUNTCLEFTPAREN then shunt_popparen stack (queue @ [t]) else (t # stack, queue))"

text \<open>The loop at a separator, which pops twice in each round.\<close>

fun shunt_popsep ::
  "shuntctoken option \<Rightarrow> shuntctoken list \<Rightarrow> shuntctoken list \<Rightarrow>
   shuntctoken option \<times> shuntctoken list \<times> shuntctoken list" where
  "shunt_popsep None stack queue = (None, stack, queue)"
| "shunt_popsep (Some t) stack queue =
     (if tktype t = SHUNTCLEFTPAREN then (Some t, stack, queue)
      else case stack of
          [] \<Rightarrow> (None, [], queue)
        | [x] \<Rightarrow> (None, [], queue @ [x])
        | x # y # stack' \<Rightarrow> shunt_popsep (Some y) stack' (queue @ [x]))"

partial_function (option) shuntend ::
  "shuntctoken list \<Rightarrow> shuntctoken list \<Rightarrow> shuntctoken list option" where
  "shuntend stack queue =
     (case stack of
        [] \<Rightarrow> Some queue
      | t # stack' \<Rightarrow>
          if shuntcisop (Some t) then shuntend stack' (queue @ [t])
          else if tktype t = SHUNTCLEFTPAREN \<or> tktype t = SHUNTCRIGHTPAREN then Some []
          else shuntend stack queue)"

partial_function (option) shuntloop ::
  "shuntctoken list \<Rightarrow> shuntctoken list \<Rightarrow> shuntctoken list \<Rightarrow> shuntctoken list option" where
  "shuntloop toks stack queue =
     (case toks of
        [] \<Rightarrow> shuntend stack queue
      | tok # rest \<Rightarrow>
          if shuntcisvalue (Some tok) then shuntloop rest stack (queue @ [tok])
          else if shuntcisfunc (Some tok) then shuntloop rest (tok # stack) queue
          else if shuntcissep (Some tok) then
            (case shunt_popsep (tktop stack) stack queue of
               (None, stack, queue) \<Rightarrow> None
             | (Some _, stack, queue) \<Rightarrow> shuntloop toks stack queue)
          else if shuntcisop (Some tok) then
            (case shunt_popops tok stack queue of (stack, queue) \<Rightarrow> shuntloop rest (tok # stack) queue)
          else if tktype tok = SHUNTCLEFTPAREN then shuntloop rest (tok # stack) queue
          else if tktype tok = SHUNTCRIGHTPAREN then
            (case shunt_popparen stack queue of
               ([], queue) \<Rightarrow> Some []
             | (_ # stack, queue) \<Rightarrow>
                 if shuntcisfunc (tktop stack) then shuntloop rest (tl stack) (queue @ [hd stack])
                 else shuntloop rest stack queue)
          else shuntloop rest stack queue)"

definition shuntparse :: "shuntctoken list \<Rightarrow> shuntctoken list option" where
  "shuntparse tokqueue = shuntloop tokqueue [] []"

section \<open>The evaluator\<close>

text \<open>
  The switch on the number of arguments, from the case it enters to the end: its cases have no
  \<open>break\<close> and run into the default case, which returns the null pointer.  The result says
  whether execution goes on after the switch; the code there is therefore never reached.
\<close>

definition shunteval_switch :: "int \<Rightarrow> shuntctoken option \<Rightarrow> shuntctoken option \<Rightarrow> bool" where
  "shunteval_switch narg arg1 arg2 =
     (if narg = 2 \<and> arg2 = None then False
      else if (narg = 2 \<or> narg = 1) \<and> arg1 = None then False
      else False)"

text \<open>The empty list is the null pointer.\<close>

fun shunteval_loop ::
  "shuntctoken list \<Rightarrow> shuntctoken option \<Rightarrow> shuntctoken list \<Rightarrow> shuntctoken list" where
  "shunteval_loop [] tok1 stack = (case tok1 of None \<Rightarrow> [] | Some t \<Rightarrow> [t])"
| "shunteval_loop (tok # toks) tok1 stack =
     (if shuntcisvalue (Some tok) then shunteval_loop toks tok1 (tok # stack)
      else if shuntcisop (Some tok) then
        if tok1 = None then []
        else let narg = shuntcopnargtab (tktype tok);
                 arg2 = (if narg = 2 then tktop stack else None);
                 stack = (if narg = 2 then tl stack else stack) in
          if narg = 2 \<and> arg2 = None then []
          else if shunteval_switch narg tok1 arg2 then shunteval_loop toks tok1 stack
          else []
      else shunteval_loop toks tok1 stack)"

definition shunteval :: "shuntctoken list \<Rightarrow> shuntctoken list" where
  "shunteval tokqueue = shunteval_loop tokqueue (tktop tokqueue) []"

section \<open>Evaluation functions\<close>

text \<open>
  The operands are 64-bit integers in two's complement; the shift counts and divisors are the
  first argument.  The right shift of a signed number is arithmetic.
\<close>

definition shuntcnot64 :: "u64 \<Rightarrow> u64 option" where "shuntcnot64 arg1 = Some (NOT arg1)"
definition shuntcand64 :: "u64 \<Rightarrow> u64 \<Rightarrow> u64 option" where "shuntcand64 arg1 arg2 = Some (arg2 AND arg1)"
definition shuntcor64 :: "u64 \<Rightarrow> u64 \<Rightarrow> u64 option" where "shuntcor64 arg1 arg2 = Some (arg2 OR arg1)"
definition shuntcxor64 :: "u64 \<Rightarrow> u64 \<Rightarrow> u64 option" where "shuntcxor64 arg1 arg2 = Some (arg2 XOR arg1)"

definition c_shl :: "u64 \<Rightarrow> int \<Rightarrow> u64 option" where
  "c_shl x n = (if 0 \<le> n \<and> n < 64 then Some (push_bit (nat n) x) else None)"

definition c_shr :: "u64 \<Rightarrow> int \<Rightarrow> u64 option" where
  "c_shr x n = (if 0 \<le> n \<and> n < 64 then Some (drop_bit (nat n) x) else None)"

definition c_sar :: "u64 \<Rightarrow> int \<Rightarrow> u64 option" where
  "c_sar x n = (if 0 \<le> n \<and> n < 64 then Some (signed_drop_bit (nat n) x) else None)"

definition shuntcshl64 :: "u64 \<Rightarrow> u64 \<Rightarrow> u64 option" where
  "shuntcshl64 arg1 arg2 = c_shl arg2 (sint arg1)"

definition shuntcsar64 :: "u64 \<Rightarrow> u64 \<Rightarrow> u64 option" where
  "shuntcsar64 arg1 arg2 =
     (let cnt = sint arg1; sign = arg2 AND 0x8000000000000000 in
      do { sign \<leftarrow> c_shl (sign AND 0xffffffffffffffff) (64 - cnt);
           res \<leftarrow> c_sar arg2 cnt;
           Some (res OR sign) })"

definition shuntcshr64 :: "u64 \<Rightarrow> u64 \<Rightarrow> u64 option" where
  "shuntcshr64 arg1 arg2 =
     (let cnt = sint arg1 in
      do { mask \<leftarrow> c_shr 0xffffffffffffffff cnt;
           res \<leftarrow> c_sar arg2 cnt;
           Some (res AND mask) })"

definition shuntcror64 :: "u64 \<Rightarrow> u64 \<Rightarrow> u64 option" where
  "shuntcror64 arg1 arg2 =
     (let cnt = sint arg1 in
      do { mask \<leftarrow> c_shr 0xffffffffffffffff (64 - cnt);
           bits \<leftarrow> c_shl (arg2 AND mask) (64 - cnt);
           res \<leftarrow> c_sar arg2 cnt;
           Some (res OR bits) })"

definition shuntcrol64 :: "u64 \<Rightarrow> u64 \<Rightarrow> u64 option" where
  "shuntcrol64 arg1 arg2 =
     (let cnt = sint arg1 in
      do { mask \<leftarrow> c_shl 0xffffffffffffffff (64 - cnt);
           bits \<leftarrow> c_sar (arg2 AND mask) (64 - cnt);
           res \<leftarrow> c_shl arg2 cnt;
           Some (res OR bits) })"

definition shuntcinc64 :: "u64 \<Rightarrow> u64 option" where "shuntcinc64 arg1 = Some (arg1 + 1)"
definition shuntcdec64 :: "u64 \<Rightarrow> u64 option" where "shuntcdec64 arg1 = Some (arg1 - 1)"
definition shuntcadd64 :: "u64 \<Rightarrow> u64 \<Rightarrow> u64 option" where "shuntcadd64 arg1 arg2 = Some (arg2 + arg1)"
definition shuntcsub64 :: "u64 \<Rightarrow> u64 \<Rightarrow> u64 option" where "shuntcsub64 arg1 arg2 = Some (arg2 - arg1)"
definition shuntcmul64 :: "u64 \<Rightarrow> u64 \<Rightarrow> u64 option" where "shuntcmul64 arg1 arg2 = Some (arg2 * arg1)"

definition shuntcdiv64 :: "u64 \<Rightarrow> u64 \<Rightarrow> u64 option" where
  "shuntcdiv64 arg1 arg2 =
     (if arg1 = 0 \<or> sint arg1 = - 1 \<and> sint arg2 = - (2 ^ 63) then None
      else Some (word_of_int (c_div (sint arg2) (sint arg1))))"

definition shuntcmod64 :: "u64 \<Rightarrow> u64 \<Rightarrow> u64 option" where
  "shuntcmod64 arg1 arg2 =
     (if arg1 = 0 \<or> sint arg1 = - 1 \<and> sint arg2 = - (2 ^ 63) then None
      else Some (word_of_int (c_mod (sint arg2) (sint arg1))))"

text \<open>The table of the evaluation functions; the functions of one argument ignore the second.\<close>

definition shuntcevaltab :: "int \<Rightarrow> (u64 \<Rightarrow> u64 \<Rightarrow> u64 option) option" where
  "shuntcevaltab =
     (\<lambda>_. None)(SHUNTCNOT \<mapsto> \<lambda>a _. shuntcnot64 a, SHUNTCINC \<mapsto> \<lambda>a _. shuntcinc64 a,
       SHUNTCDEC \<mapsto> \<lambda>a _. shuntcdec64 a, SHUNTCSHL \<mapsto> shuntcshl64, SHUNTCSHR \<mapsto> shuntcshr64,
       SHUNTCAND \<mapsto> shuntcand64, SHUNTCXOR \<mapsto> shuntcxor64, SHUNTCOR \<mapsto> shuntcor64,
       SHUNTCMUL \<mapsto> shuntcmul64, SHUNTCDIV \<mapsto> shuntcdiv64, SHUNTCMOD \<mapsto> shuntcmod64,
       SHUNTCADD \<mapsto> shuntcadd64, SHUNTCSUB \<mapsto> shuntcsub64, SHUNTCSAR \<mapsto> shuntcsar64)"

section \<open>Digits and binary output\<close>

definition shuntcdectab :: "char \<Rightarrow> int" where
  "shuntcdectab =
     (\<lambda>_. 0)(CHR ''0'' := 0, CHR ''1'' := 1, CHR ''2'' := 2, CHR ''3'' := 3, CHR ''4'' := 4,
       CHR ''5'' := 5, CHR ''6'' := 6, CHR ''7'' := 7, CHR ''8'' := 8, CHR ''9'' := 9)"

definition shuntchextab :: "char \<Rightarrow> int" where
  "shuntchextab =
     (\<lambda>_. 0)(CHR ''0'' := 0, CHR ''1'' := 1, CHR ''2'' := 2, CHR ''3'' := 3, CHR ''4'' := 4,
       CHR ''5'' := 5, CHR ''6'' := 6, CHR ''7'' := 7, CHR ''8'' := 8, CHR ''9'' := 9,
       CHR ''a'' := 10, CHR ''b'' := 11, CHR ''c'' := 12, CHR ''d'' := 13, CHR ''e'' := 14, CHR ''f'' := 15,
       CHR ''A'' := 10, CHR ''B'' := 11, CHR ''C'' := 12, CHR ''D'' := 13, CHR ''E'' := 14, CHR ''F'' := 15)"

definition shuntcocttab :: "char \<Rightarrow> int" where
  "shuntcocttab =
     (\<lambda>_. 0)(CHR ''0'' := 0, CHR ''1'' := 1, CHR ''2'' := 2, CHR ''3'' := 3, CHR ''4'' := 4,
       CHR ''5'' := 5, CHR ''6'' := 6, CHR ''7'' := 7)"

text \<open>The string written by \<open>shuntprintbin\<close>, or \<open>None\<close> when the buffer is too short.\<close>

fun printbin_loop :: "nat \<Rightarrow> u64 \<Rightarrow> u64 \<Rightarrow> string" where
  "printbin_loop 0 bits val = []"
| "printbin_loop (Suc n) bits val =
     (if val AND bits \<noteq> 0 then CHR ''1'' else CHR ''0'') # printbin_loop n (drop_bit 1 bits) val"

definition shuntprintbin :: "u64 \<Rightarrow> int \<Rightarrow> string option" where
  "shuntprintbin val len =
     (if len < 64 + 4 then None else Some (''0b'' @ printbin_loop 64 (push_bit 63 1) val))"

section \<open>Queues and stacks are lists\<close>

text \<open>The tokens from a pointer on, along the \<open>next\<close> fields.\<close>

fun tkpath :: "(nat \<Rightarrow> nat) \<Rightarrow> nat \<Rightarrow> nat list \<Rightarrow> bool" where
  "tkpath nx p [] \<longleftrightarrow> p = 0"
| "tkpath nx p (x # xs) \<longleftrightarrow> p = x \<and> x \<noteq> 0 \<and> tkpath nx (nx x) xs"

text \<open>A queue with its tail pointer, which is null as long as there is at most one token.\<close>

definition tkqueue :: "tklinks \<Rightarrow> nat \<Rightarrow> nat \<Rightarrow> nat list \<Rightarrow> bool" where
  "tkqueue h queue tail xs \<longleftrightarrow>
     tkpath (tknext h) queue xs \<and> distinct xs \<and> tail = (if length xs \<le> 1 then 0 else last xs) \<and>
     (\<forall>i < length xs. tkprev h (xs ! i) = (if i = 0 then 0 else xs ! (i - 1)))"

lemma tkpath_update: "x \<notin> set xs \<Longrightarrow> tkpath (nx(x := y)) p xs \<longleftrightarrow> tkpath nx p xs"
  by (induction xs arbitrary: p) auto

lemma tkpath_nonzero: "tkpath nx p xs \<Longrightarrow> 0 \<notin> set xs"
  by (induction xs arbitrary: p) auto

lemma tkpath_append:
  "tkpath nx p xs \<Longrightarrow> distinct xs \<Longrightarrow> xs \<noteq> [] \<Longrightarrow> tok \<notin> set xs \<Longrightarrow> tok \<noteq> 0 \<Longrightarrow>
   tkpath (nx(tok := 0, last xs := tok)) p (xs @ [tok])"
proof (induction xs arbitrary: p)
  case (Cons x xs)
  show ?case
  proof (cases xs)
    case Nil
    then show ?thesis using Cons.prems by auto
  next
    case (Cons y ys)
    then have "last (x # xs) = last xs" "x \<noteq> last xs" using Cons.prems(2) by auto
    moreover have "tkpath (nx(tok := 0, last xs := tok)) (nx x) (xs @ [tok])"
      using Cons.prems Cons by (intro Cons.IH) auto
    moreover have "(nx(tok := 0, last xs := tok)) x = nx x" using calculation(2) Cons.prems by simp
    ultimately show ?thesis using Cons.prems by (simp del: fun_upd_apply)
  qed
qed simp

lemma tkqueue_prev_append:
  assumes "\<forall>i < length xs. pv (xs ! i) = (if i = 0 then 0 else xs ! (i - 1))" "tok \<notin> set xs" "xs \<noteq> []"
  shows "\<forall>i < length (xs @ [tok]). (pv(tok := last xs)) ((xs @ [tok]) ! i) = (if i = 0 then 0 else (xs @ [tok]) ! (i - 1))"
proof (intro allI impI)
  fix i assume i: "i < length (xs @ [tok])"
  show "(pv(tok := last xs)) ((xs @ [tok]) ! i) = (if i = 0 then 0 else (xs @ [tok]) ! (i - 1))"
  proof (cases "i = length xs")
    case True
    then show ?thesis using assms(3) by (auto simp: nth_append last_conv_nth)
  next
    case False
    then have "i < length xs" "xs ! i \<noteq> tok" using i assms(2) by (auto simp: less_Suc_eq)
    then show ?thesis using assms(1) by (auto simp: nth_append)
  qed
qed

lemma shuntqueue_append:
  assumes "tkqueue h queue tail xs" "tok \<noteq> 0" "tok \<notin> set xs"
  shows "\<exists>h' queue' tail'. shuntqueue h tok queue tail = (h', queue', tail') \<and> tkqueue h' queue' tail' (xs @ [tok])"
proof (cases xs)
  case Nil
  then show ?thesis using assms by (auto simp: tkqueue_def shuntqueue_def Let_def)
next
  case (Cons y ys)
  have q: "queue \<noteq> 0" "queue = y" using assms(1) Cons by (auto simp: tkqueue_def)
  define l where "l = (if tail \<noteq> 0 then tail else queue)"
  have "last xs \<noteq> 0"
    using tkpath_nonzero [of "tknext h" queue xs] assms(1) Cons by (metis last_in_set list.discI tkqueue_def)
  then have l: "l = last xs" using assms(1) q Cons by (cases ys) (auto simp: tkqueue_def l_def)
  have s: "shuntqueue h tok queue tail =
      (h\<lparr>tknext := (tknext h)(tok := 0, l := tok), tkprev := (tkprev h)(tok := l)\<rparr>, queue, tok)"
    using q(1) assms(2) by (auto simp: shuntqueue_def Let_def l_def)
  have "tkqueue (h\<lparr>tknext := (tknext h)(tok := 0, l := tok), tkprev := (tkprev h)(tok := l)\<rparr>) queue tok (xs @ [tok])"
    using tkpath_append [of "tknext h" queue xs tok] tkqueue_prev_append [of xs "tkprev h" tok] assms Cons
    unfolding tkqueue_def l by simp
  then show ?thesis using s by blast
qed

lemma shuntpush_cons:
  "tkpath (tknext h) stk xs \<Longrightarrow> tok \<noteq> 0 \<Longrightarrow> tok \<notin> set xs \<Longrightarrow> shuntpush h tok stk = (h', stk') \<Longrightarrow>
   tkpath (tknext h') stk' (tok # xs)"
  by (auto simp: shuntpush_def tkpath_update)

lemma shuntpop_tl:
  "tkpath (tknext h) stk xs \<Longrightarrow>
   shuntpop h stk = (case xs of [] \<Rightarrow> (0, 0) | x # _ \<Rightarrow> (x, snd (shuntpop h stk))) \<and>
   tkpath (tknext h) (snd (shuntpop h stk)) (tl xs)"
  by (cases xs) (auto simp: shuntpop_def)

section \<open>Expressions\<close>

text \<open>
  Expressions with the tokens they are made of: values, parentheses, calls of a function with one
  argument, and binary, prefix and postfix operators.  \<open>etoks\<close> is the expression as it is
  written and \<open>erpn\<close> its operations in postfix order.
\<close>

datatype expr =
    EVal shuntctoken
  | EPar shuntctoken expr shuntctoken
  | EFun shuntctoken shuntctoken expr shuntctoken
  | EBin expr shuntctoken expr
  | EPre shuntctoken expr
  | EPost expr shuntctoken

fun etoks :: "expr \<Rightarrow> shuntctoken list" where
  "etoks (EVal t) = [t]"
| "etoks (EPar lp e rp) = lp # etoks e @ [rp]"
| "etoks (EFun f lp e rp) = f # lp # etoks e @ [rp]"
| "etoks (EBin l op r) = etoks l @ op # etoks r"
| "etoks (EPre op e) = op # etoks e"
| "etoks (EPost e op) = etoks e @ [op]"

fun erpn :: "expr \<Rightarrow> shuntctoken list" where
  "erpn (EVal t) = [t]"
| "erpn (EPar lp e rp) = erpn e"
| "erpn (EFun f lp e rp) = erpn e @ [f]"
| "erpn (EBin l op r) = erpn l @ erpn r @ [op]"
| "erpn (EPre op e) = erpn e @ [op]"
| "erpn (EPost e op) = erpn e @ [op]"

text \<open>
  The operators outside of parentheses on the right edge of an expression, innermost first, and
  those on its left edge.
\<close>

fun eright :: "expr \<Rightarrow> shuntctoken list" where
  "eright (EVal t) = []"
| "eright (EPar lp e rp) = []"
| "eright (EFun f lp e rp) = []"
| "eright (EBin l op r) = eright r @ [op]"
| "eright (EPre op e) = eright e @ [op]"
| "eright (EPost e op) = [op]"

fun eleft :: "expr \<Rightarrow> shuntctoken list" where
  "eleft (EVal t) = []"
| "eleft (EPar lp e rp) = []"
| "eleft (EFun f lp e rp) = []"
| "eleft (EBin l op r) = eleft l @ [op]"
| "eleft (EPre op e) = [op]"
| "eleft (EPost e op) = eleft e @ [op]"

text \<open>
  An expression respects precedence and associativity when the operators at the edge of a left
  operand bind tighter than the operator, or equally if that one groups to the left, and the
  operators at the edge of a right operand bind tighter, or equally if they group to the right.
\<close>

definition left_ok :: "shuntctoken \<Rightarrow> shuntctoken \<Rightarrow> bool" where
  "left_ok op t \<longleftrightarrow> shuntcopprec op < shuntcopprec t \<or> shuntcopprec op = shuntcopprec t \<and> \<not> shuntcisrtol op"

definition right_ok :: "shuntctoken \<Rightarrow> shuntctoken \<Rightarrow> bool" where
  "right_ok op t \<longleftrightarrow> shuntcopprec op < shuntcopprec t \<or> shuntcopprec op = shuntcopprec t \<and> shuntcisrtol t"

fun wf_expr :: "expr \<Rightarrow> bool" where
  "wf_expr (EVal t) \<longleftrightarrow> shuntcisvalue (Some t)"
| "wf_expr (EPar lp e rp) \<longleftrightarrow> tktype lp = SHUNTCLEFTPAREN \<and> tktype rp = SHUNTCRIGHTPAREN \<and> wf_expr e"
| "wf_expr (EFun f lp e rp) \<longleftrightarrow> tktype f = SHUNTCFUNC \<and> tktype lp = SHUNTCLEFTPAREN \<and>
     tktype rp = SHUNTCRIGHTPAREN \<and> wf_expr e"
| "wf_expr (EBin l op r) \<longleftrightarrow> shuntcisop (Some op) \<and> wf_expr l \<and> wf_expr r \<and>
     (\<forall>t \<in> set (eright l). left_ok op t) \<and> (\<forall>t \<in> set (eleft r). right_ok op t)"
| "wf_expr (EPre op e) \<longleftrightarrow> shuntcisop (Some op) \<and> wf_expr e \<and> (\<forall>t \<in> set (eleft e). right_ok op t)"
| "wf_expr (EPost e op) \<longleftrightarrow> shuntcisop (Some op) \<and> wf_expr e \<and> (\<forall>t \<in> set (eright e). left_ok op t)"

section \<open>Steps of the parser\<close>

lemma pops_left: "shuntpops op t \<longleftrightarrow> left_ok op t"
  by (auto simp: shuntpops_def left_ok_def)

lemma pops_right: "\<not> shuntpops t op \<longleftrightarrow> right_ok op t"
  by (auto simp: shuntpops_def right_ok_def)

lemma tktop_simps [simp]: "tktop [] = None" "tktop (t # st) = Some t"
  by (simp_all add: tktop_def)

lemmas shunt_types = shuntcisvalue_def shuntcisfunc_def shuntcissep_def shuntcisop_def

text \<open>The stack below keeps its top when the operator arrives.\<close>

definition stays :: "shuntctoken list \<Rightarrow> shuntctoken \<Rightarrow> bool" where
  "stays st op \<longleftrightarrow> (\<forall>t. tktop st = Some t \<and> shuntcisop (Some t) \<longrightarrow> \<not> shuntpops op t)"

lemma stays_paren [simp]: "tktype lp = SHUNTCLEFTPAREN \<Longrightarrow> stays (lp # st) op"
  by (simp add: stays_def shunt_types)

lemma popops_all:
  "\<forall>t \<in> set es. shuntcisop (Some t) \<and> left_ok op t \<Longrightarrow> stays st op \<Longrightarrow>
   shunt_popops op (es @ st) queue = (st, queue @ es)"
proof (induction es arbitrary: queue)
  case Nil
  then show ?case by (cases st) (auto simp: stays_def)
qed (simp add: pops_left)

lemma popparen_all:
  "\<forall>t \<in> set es. shuntcisop (Some t) \<Longrightarrow> tktype lp = SHUNTCLEFTPAREN \<Longrightarrow>
   shunt_popparen (es @ lp # st) queue = (lp # st, queue @ es)"
  by (induction es arbitrary: queue) (auto simp: shunt_types)

lemma loop_value: "shuntcisvalue (Some t) \<Longrightarrow> shuntloop (t # rest) st queue = shuntloop rest st (queue @ [t])"
  by (subst shuntloop.simps) simp

lemma loop_func: "tktype t = SHUNTCFUNC \<Longrightarrow> shuntloop (t # rest) st queue = shuntloop rest (t # st) queue"
  by (subst shuntloop.simps) (simp add: shunt_types)

lemma loop_lparen:
  "tktype t = SHUNTCLEFTPAREN \<Longrightarrow> shuntloop (t # rest) st queue = shuntloop rest (t # st) queue"
  by (subst shuntloop.simps) (simp add: shunt_types)

lemma loop_op:
  assumes "shuntcisop (Some op)" "\<forall>t \<in> set es. shuntcisop (Some t) \<and> left_ok op t" "stays st op"
  shows "shuntloop (op # rest) (es @ st) queue = shuntloop rest (op # st) (queue @ es)"
  using assms(1) popops_all [OF assms(2,3), of queue] by (subst shuntloop.simps) (auto simp: shunt_types)

lemma loop_rparen:
  assumes "tktype rp = SHUNTCRIGHTPAREN" "\<forall>t \<in> set es. shuntcisop (Some t)" "tktype lp = SHUNTCLEFTPAREN"
  shows "shuntloop (rp # rest) (es @ lp # st) queue =
    (if shuntcisfunc (tktop st) then shuntloop rest (tl st) ((queue @ es) @ [hd st])
     else shuntloop rest st (queue @ es))"
  using assms(1) popparen_all [OF assms(2,3), of st queue]
  by (subst shuntloop.simps) (simp add: shunt_types)

lemma shuntend_ops:
  "\<forall>t \<in> set es. shuntcisop (Some t) \<Longrightarrow> shuntend (es @ st) queue = shuntend st (queue @ es)"
proof (induction es arbitrary: queue)
  case (Cons t es)
  then show ?case using shuntend.simps [of "(t # es) @ st" queue] by simp
qed simp

lemma popparen_none:
  "\<forall>t \<in> set es. shuntcisop (Some t) \<Longrightarrow> shunt_popparen es queue = ([], queue @ es)"
  by (induction es arbitrary: queue) (auto simp: shunt_types)

lemma eright_ops: "wf_expr e \<Longrightarrow> \<forall>t \<in> set (eright e). shuntcisop (Some t)"
  by (induction e) auto

text \<open>
  Reading an expression puts its operations in postfix order on the queue, but for those on its
  right edge, which stay on the stack.
\<close>

fun eout :: "expr \<Rightarrow> shuntctoken list" where
  "eout (EVal t) = [t]"
| "eout (EPar lp e rp) = erpn e"
| "eout (EFun f lp e rp) = erpn e @ [f]"
| "eout (EBin l op r) = erpn l @ eout r"
| "eout (EPre op e) = eout e"
| "eout (EPost e op) = erpn e"

lemma eout_eright: "eout e @ eright e = erpn e"
  by (induction e) auto

lemma loop_expr:
  "wf_expr e \<Longrightarrow> \<forall>t \<in> set (eleft e). stays st t \<Longrightarrow> \<not> shuntcisfunc (tktop st) \<Longrightarrow>
   shuntloop (etoks e @ rest) st queue = shuntloop rest (eright e @ st) (queue @ eout e)"
proof (induction e arbitrary: st queue rest)
  case (EVal t)
  then show ?case by (simp add: loop_value)
next
  case (EPar lp e rp)
  have "\<not> shuntcisfunc (tktop (lp # st))" using EPar.prems by (simp add: shunt_types)
  then have "shuntloop (etoks (EPar lp e rp) @ rest) st queue =
      shuntloop (rp # rest) (eright e @ lp # st) (queue @ eout e)"
    using EPar.prems EPar.IH [of "lp # st" "rp # rest"] by (simp add: loop_lparen)
  then show ?case
    using EPar.prems loop_rparen [of rp "eright e" lp rest st "queue @ eout e"] eright_ops [of e]
    by (simp add: eout_eright)
next
  case (EFun f lp e rp)
  have "\<not> shuntcisfunc (tktop (lp # f # st))" using EFun.prems by (simp add: shunt_types)
  then have "shuntloop (etoks (EFun f lp e rp) @ rest) st queue =
      shuntloop (rp # rest) (eright e @ lp # f # st) (queue @ eout e)"
    using EFun.prems EFun.IH [of "lp # f # st" "rp # rest"] by (simp add: loop_lparen loop_func)
  then show ?case
    using EFun.prems loop_rparen [of rp "eright e" lp rest "f # st" "queue @ eout e"] eright_ops [of e]
    by (simp add: eout_eright [symmetric] shuntcisfunc_def)
next
  case (EBin l op r)
  have op: "shuntcisop (Some op)" "stays st op" "\<not> shuntcisfunc (tktop (op # st))"
    using EBin.prems by (auto simp: shunt_types)
  have "shuntloop (etoks (EBin l op r) @ rest) st queue =
      shuntloop (op # etoks r @ rest) (eright l @ st) (queue @ eout l)"
    using EBin.prems EBin.IH(1) [of st "op # etoks r @ rest"] by simp
  also have "\<dots> = shuntloop (etoks r @ rest) (op # st) ((queue @ eout l) @ eright l)"
    using EBin.prems op eright_ops [of l] by (intro loop_op) auto
  also have "\<dots> = shuntloop rest (eright r @ op # st) (((queue @ eout l) @ eright l) @ eout r)"
    using EBin.prems op by (intro EBin.IH(2)) (auto simp: stays_def pops_right)
  finally show ?case by (simp add: eout_eright [symmetric])
next
  case (EPre op e)
  have op: "shuntcisop (Some op)" "stays st op" "\<not> shuntcisfunc (tktop (op # st))"
    using EPre.prems by (auto simp: shunt_types)
  have "shuntloop (etoks (EPre op e) @ rest) st queue = shuntloop (etoks e @ rest) (op # st) (queue @ [])"
    using op loop_op [of op "[]" st "etoks e @ rest" queue] by simp
  also have "\<dots> = shuntloop rest (eright e @ op # st) ((queue @ []) @ eout e)"
    using EPre.prems op by (intro EPre.IH) (auto simp: stays_def pops_right)
  finally show ?case by simp
next
  case (EPost e op)
  have "shuntloop (etoks (EPost e op) @ rest) st queue =
      shuntloop (op # rest) (eright e @ st) (queue @ eout e)"
    using EPost.prems EPost.IH [of st "op # rest"] by simp
  also have "\<dots> = shuntloop rest (op # st) ((queue @ eout e) @ eright e)"
    using EPost.prems eright_ops [of e] by (intro loop_op) auto
  finally show ?case by (simp add: eout_eright [symmetric])
qed

text \<open>
  C2: the parser turns every expression that respects the precedences and associativities of the
  operator table, with parentheses, function calls, and binary, prefix and postfix operators, into
  its operations in postfix order.
\<close>

theorem shuntparse_postfix:
  assumes "wf_expr e"
  shows "shuntparse (etoks e) = Some (erpn e)"
proof -
  have "shuntloop (etoks e @ []) [] [] = shuntloop [] (eright e @ []) ([] @ eout e)"
    using assms by (intro loop_expr) (simp_all add: stays_def shunt_types)
  also have "\<dots> = shuntend (eright e @ []) (eout e)"
    by (subst shuntloop.simps) simp
  also have "\<dots> = shuntend [] (eout e @ eright e)"
    by (rule shuntend_ops [OF eright_ops [OF assms]])
  finally show ?thesis by (simp add: shuntparse_def shuntend.simps eout_eright)
qed

abbreviation tk :: "int \<Rightarrow> shuntctoken" where
  "tk ty \<equiv> \<lparr>tktype = ty, tkradix = 10, tkdata = 0\<rparr>"

abbreviation num :: "u64 \<Rightarrow> shuntctoken" where
  "num n \<equiv> \<lparr>tktype = 20, tkradix = 10, tkdata = n\<rparr>"

theorem shuntparse_postfix_witness:
  "shuntparse [num 1, tk 10, num 2, tk 11, num 3, tk 10, tk 1, tk 18, num 4, tk 9, num 5, tk 19] =
     Some [num 1, num 2, num 3, tk 11, tk 10, num 4, num 5, tk 9, tk 1, tk 10]"
  using shuntparse_postfix [of "EBin (EBin (EVal (num 1)) (tk 10) (EBin (EVal (num 2)) (tk 11) (EVal (num 3))))
    (tk 10) (EPre (tk 1) (EPar (tk 18) (EBin (EVal (num 4)) (tk 9) (EVal (num 5))) (tk 19)))"]
  by (simp add: shunt_types left_ok_def right_ok_def shuntcopprec_def shuntcisrtol_def shuntcopprectab_def)

text \<open>
  A right parenthesis too many after an expression, or a left parenthesis too many before it,
  makes the parser return the null pointer, whatever follows.
\<close>

theorem shuntparse_mismatch:
  assumes "wf_expr e" "tktype lp = SHUNTCLEFTPAREN" "tktype rp = SHUNTCRIGHTPAREN"
  shows "shuntparse (etoks e @ rp # rest) = Some [] \<and> shuntparse (lp # etoks e) = Some []"
proof
  have ops: "\<forall>t \<in> set (eright e). shuntcisop (Some t)" by (rule eright_ops [OF assms(1)])
  have "shuntloop (rp # rest) (eright e @ []) (eout e) = Some []"
    using assms(3) popparen_none [OF ops] by (subst shuntloop.simps) (simp add: shunt_types)
  then show "shuntparse (etoks e @ rp # rest) = Some []"
    using loop_expr [OF assms(1), of "[]" "rp # rest" "[]"] by (simp add: shuntparse_def stays_def shunt_types)
  have "shuntloop (etoks e @ []) [lp] [] = shuntloop [] (eright e @ [lp]) ([] @ eout e)"
    using assms by (intro loop_expr) (auto simp: shunt_types)
  also have "\<dots> = shuntend (eright e @ [lp]) (eout e)"
    by (subst shuntloop.simps) simp
  also have "\<dots> = Some []"
    unfolding shuntend_ops [OF ops] using assms(2) by (subst shuntend.simps) (simp add: shunt_types)
  finally show "shuntparse (lp # etoks e) = Some []"
    using assms(2) by (simp add: shuntparse_def loop_lparen)
qed

theorem shuntparse_mismatch_witness:
  "shuntparse [num 1, tk 9, num 2, tk 19, num 3] = Some [] \<and> shuntparse [tk 18, num 1, tk 9, num 2] = Some []"
  using shuntparse_mismatch [of "EBin (EVal (num 1)) (tk 9) (EVal (num 2))" "tk 18" "tk 19" "[num 3]"]
  by (simp add: shunt_types)

section \<open>What does not work\<close>

text \<open>
  The branch for a separator never reaches the next token: it stays on the separator until the
  null pointer is dereferenced, or for ever.
\<close>

lemma shuntloop_separator: "tktype sep = SHUNTCSEP \<Longrightarrow> shuntloop (sep # rest) st queue = None"
proof (rule ccontr)
  assume sep: "tktype sep = SHUNTCSEP" and "shuntloop (sep # rest) st queue \<noteq> None"
  then obtain r where "shuntloop (sep # rest) st queue = Some r" by auto
  then have "\<not> (\<exists>tok ts. sep # rest = tok # ts \<and> tktype tok = SHUNTCSEP)"
  proof (rule shuntloop.raw_induct [rotated])
    fix f :: "shuntctoken list \<Rightarrow> shuntctoken list \<Rightarrow> shuntctoken list \<Rightarrow> shuntctoken list option"
    fix toks st queue y
    assume "\<And>toks st queue y. f toks st queue = Some y \<Longrightarrow> \<not> (\<exists>tok ts. toks = tok # ts \<and> tktype tok = SHUNTCSEP)"
    then show "(case toks of [] \<Rightarrow> shuntend st queue
      | tok # rest \<Rightarrow>
          if shuntcisvalue (Some tok) then f rest st (queue @ [tok])
          else if shuntcisfunc (Some tok) then f rest (tok # st) queue
          else if shuntcissep (Some tok) then
            (case shunt_popsep (tktop st) st queue of
               (None, stack, queue) \<Rightarrow> None
             | (Some _, stack, queue) \<Rightarrow> f toks stack queue)
          else if shuntcisop (Some tok) then
            (case shunt_popops tok st queue of (stack, queue) \<Rightarrow> f rest (tok # stack) queue)
          else if tktype tok = SHUNTCLEFTPAREN then f rest (tok # st) queue
          else if tktype tok = SHUNTCRIGHTPAREN then
            (case shunt_popparen st queue of
               ([], queue) \<Rightarrow> Some []
             | (_ # stack, queue) \<Rightarrow>
                 if shuntcisfunc (tktop stack) then f rest (tl stack) (queue @ [hd stack])
                 else f rest stack queue)
          else f rest st queue) = Some y \<Longrightarrow> \<not> (\<exists>tok ts. toks = tok # ts \<and> tktype tok = SHUNTCSEP)"
      by (auto simp: shunt_types split: option.splits prod.splits) blast+
  qed
  with sep show False by blast
qed

lemma shunteval_operator:
  "\<exists>op \<in> set toks. shuntcisop (Some op) \<Longrightarrow> shunteval_loop toks tok1 st = []"
  by (induction toks tok1 st rule: shunteval_loop.induct)
    (auto simp: shunteval_switch_def Let_def shunt_types)

section \<open>Shifts, rotations and binary output\<close>

lemma small_count: "n < 64 \<Longrightarrow> sint (word_of_nat n :: u64) = int n"
  by (simp add: signed_of_nat signed_take_bit_int_eq_self)

lemma all_ones: "(0xffffffffffffffff :: u64) = - 1"
  by simp

lemma bit_u64_less: "bit (x :: u64) n \<Longrightarrow> n < 64"
  by (drule bit_imp_le_length) simp

text \<open>The unsigned right shift masks what the arithmetic one drags in.\<close>

lemma shr_logical:
  assumes n: "n < 64"
  shows "shuntcshr64 (word_of_nat n) x = Some (drop_bit n x)"
proof -
  have "signed_drop_bit n x AND drop_bit n (- 1) = drop_bit n x"
    by (intro bit_word_eqI) (auto simp: bit_simps dest: bit_u64_less)
  then show ?thesis using n unfolding shuntcshr64_def all_ones by (simp add: c_shr_def c_sar_def small_count)
qed

text \<open>The arithmetic shift works for every count but 0, for which the code shifts by 64.\<close>

lemma sar_arithmetic:
  assumes n: "0 < n" "n < 64"
  shows "shuntcsar64 (word_of_nat n) x = Some (signed_drop_bit n x)" "shuntcsar64 0 x = None"
proof -
  have "push_bit (64 - n) (x AND 0x8000000000000000) = (0 :: u64)"
  proof (intro bit_word_eqI)
    fix i assume i: "i < LENGTH(64)"
    have e: "bit (0x8000000000000000 :: u64) j \<longleftrightarrow> j = 63" for j
      using bit_exp_iff [of 63 j, where 'a = "64 word"] by auto
    show "bit (push_bit (64 - n) (x AND 0x8000000000000000)) i \<longleftrightarrow> bit (0 :: u64) i"
      using n i unfolding bit_push_bit_iff bit_and_iff e by auto
  qed
  then show "shuntcsar64 (word_of_nat n) x = Some (signed_drop_bit n x)"
    using n by (simp add: shuntcsar64_def c_shl_def c_sar_def small_count Let_def nat_diff_distrib')
  show "shuntcsar64 0 x = None" by (simp add: shuntcsar64_def c_shl_def)
qed

text \<open>The rotations drag in the sign of their operand.\<close>

lemma ror_negative: "shuntcror64 4 0x8000000000000000 = Some 0xf800000000000000"
  by (simp add: shuntcror64_def c_shr_def c_shl_def c_sar_def Let_def)

lemma rol_negative: "shuntcrol64 4 0x8000000000000000 = Some 0xfffffffffffffff8"
  by (simp add: shuntcrol64_def c_shr_def c_shl_def c_sar_def Let_def)

lemma printbin_loop_bits:
  "n < 64 \<Longrightarrow> printbin_loop (Suc n) (push_bit n 1) val =
     map (\<lambda>i. if bit val i then CHR ''1'' else CHR ''0'') (rev [0..<Suc n])"
proof (induction n)
  case 0
  then show ?case by (simp add: bit_0 and_one_eq odd_iff_mod_2_eq_one)
next
  case (Suc n)
  have "drop_bit 1 (push_bit (Suc n) 1) = (push_bit n 1 :: u64)"
    using Suc.prems by (intro bit_word_eqI) (auto simp: bit_simps)
  moreover have "val AND push_bit (Suc n) 1 \<noteq> 0 \<longleftrightarrow> bit val (Suc n)"
    unfolding push_bit_of_1 by (simp only: and_exp_eq_0_iff_not_bit not_not)
  ultimately show ?case
    using Suc by (subst printbin_loop.simps(2)) (simp only: upt_Suc_append rev_append, simp)
qed

text \<open>Binary output writes the 64 bits from the most significant down.\<close>

lemma shuntprintbin_bits:
  "68 \<le> len \<Longrightarrow> shuntprintbin val len =
     Some (''0b'' @ map (\<lambda>i. if bit val i then CHR ''1'' else CHR ''0'') (rev [0..<64]))"
  using printbin_loop_bits [of 63 val] by (simp add: shuntprintbin_def del: printbin_loop.simps)

end
