(* ===== verification/Loads.thy ===== *)
theory Loads
  imports Prelude
begin

text \<open>
  Loads of 16, 32 and 64 bits from memory, a function from offsets to bytes, with the least
  significant byte first, as on the machines the code is written for.  The checksums and the hash
  functions read their buffers this way.
\<close>

fun ld_le :: "(nat \<Rightarrow> u8) \<Rightarrow> nat \<Rightarrow> nat \<Rightarrow> nat" where
  "ld_le m i 0 = 0"
| "ld_le m i (Suc n) = unat (m i) + 256 * ld_le m (Suc i) n"

definition ld16 :: "(nat \<Rightarrow> u8) \<Rightarrow> nat \<Rightarrow> u16" where "ld16 m i = word_of_nat (ld_le m i 2)"
definition ld32 :: "(nat \<Rightarrow> u8) \<Rightarrow> nat \<Rightarrow> u32" where "ld32 m i = word_of_nat (ld_le m i 4)"
definition ld64 :: "(nat \<Rightarrow> u8) \<Rightarrow> nat \<Rightarrow> u64" where "ld64 m i = word_of_nat (ld_le m i 8)"

lemma ld_le_bound: "ld_le m i n < 256 ^ n"
proof (induction n arbitrary: i)
  case (Suc n)
  have "unat (m i) < 256" by (rule unat_u8_bound)
  then show ?case using Suc [of "Suc i"] by simp
qed simp

lemma unat_ld16: "unat (ld16 m i) = ld_le m i 2"
  using ld_le_bound [of m i 2] by (simp add: ld16_def unat_of_nat)

lemma unat_ld32: "unat (ld32 m i) = ld_le m i 4"
  using ld_le_bound [of m i 4] by (simp add: ld32_def unat_of_nat)

lemma unat_ld64: "unat (ld64 m i) = ld_le m i 8"
  using ld_le_bound [of m i 8] by (simp add: ld64_def unat_of_nat)

lemma ld_le_add: "ld_le m i (k + n) = ld_le m i k + 256 ^ k * ld_le m (i + k) n"
  by (induction k arbitrary: i) (simp_all add: algebra_simps)

end
