(* ===== verification/Ip4.thy ===== *)
theory Ip4
  imports Loads "HOL-Library.Monad_Syntax"
begin

text \<open>
  The Internet checksum of usr/lib/zero/ip4.c: two versions that add 64 bits at a time and one
  that adds 16 bits at a time.
\<close>

section \<open>The checksums\<close>

text \<open>\<open>sum += u; if (sum < u) sum++\<close>\<close>

definition addcarry :: "'a::len word \<Rightarrow> 'a word \<Rightarrow> 'a word" where
  "addcarry acc u = (let acc = acc + u in if acc < u then acc + 1 else acc)"

fun chksum64_loop :: "nat \<Rightarrow> (nat \<Rightarrow> u8) \<Rightarrow> nat \<Rightarrow> u64 \<Rightarrow> u64" where
  "chksum64_loop 0 m i acc = acc"
| "chksum64_loop (Suc len) m i acc = chksum64_loop len m (i + 8) (addcarry acc (ld64 m i))"

text \<open>The second version leaves the loop body early when there is no carry.\<close>

fun chksum64_2_loop :: "nat \<Rightarrow> (nat \<Rightarrow> u8) \<Rightarrow> nat \<Rightarrow> u64 \<Rightarrow> u64" where
  "chksum64_2_loop 0 m i acc = acc"
| "chksum64_2_loop (Suc len) m i acc =
     (let u = ld64 m i; acc = acc + u in
      if u \<le> acc then chksum64_2_loop len m (i + 8) acc
      else chksum64_2_loop len m (i + 8) (acc + 1))"

text \<open>The tail of less than eight bytes and the folding, which both versions share.\<close>

definition chksum64_tail :: "(nat \<Rightarrow> u8) \<Rightarrow> nat \<Rightarrow> nat \<Rightarrow> u64 \<Rightarrow> u16" where
  "chksum64_tail m buf sz acc =
     (let (acc, buf) = (if sz AND 4 \<noteq> 0 then (addcarry acc (ucast (ld32 m buf)), buf + 4) else (acc, buf));
          (acc, buf) = (if sz AND 2 \<noteq> 0 then (addcarry acc (ucast (ld16 m buf)), buf + 2) else (acc, buf));
          acc = (if sz \<noteq> 0 then addcarry acc (ucast (m buf)) else acc);
          tmp1 = (ucast acc :: u32); tmp2 = (ucast (drop_bit 32 acc) :: u32);
          tmp1 = addcarry tmp1 tmp2;
          tmp3 = (ucast tmp1 :: u16); tmp4 = (ucast (drop_bit 16 tmp1) :: u16);
          tmp3 = addcarry tmp3 tmp4
      in NOT tmp3)"

definition ip4chksum64 :: "(nat \<Rightarrow> u8) \<Rightarrow> nat \<Rightarrow> u16" where
  "ip4chksum64 m sz =
     (let len = sz div 8 in chksum64_tail m (8 * len) (sz - 8 * len) (chksum64_loop len m 0 0))"

definition ip4chksum64_2 :: "(nat \<Rightarrow> u8) \<Rightarrow> nat \<Rightarrow> u16" where
  "ip4chksum64_2 m sz =
     (let len = sz div 8 in chksum64_tail m (8 * len) (sz - 8 * len) (chksum64_2_loop len m 0 0))"

text \<open>
  The version for 32-bit machines.  The index has 16 bits and the difference \<open>size - 1\<close> is
  unsigned; a loop that never ends gives \<open>None\<close>.
\<close>

definition IP4PKTSIZE :: nat where "IP4PKTSIZE = 65536"

partial_function (option) chksum16_loop ::
  "(nat \<Rightarrow> u8) \<Rightarrow> nat \<Rightarrow> nat \<Rightarrow> u32 \<Rightarrow> (nat \<times> u32) option" where
  "chksum16_loop m lim ndx acc =
     (if ndx < lim then chksum16_loop m lim ((ndx + 2) mod 65536) (acc + ucast (ld16 m ndx))
      else Some (ndx, acc))"

partial_function (option) chksum16_fold :: "u32 \<Rightarrow> u32 option" where
  "chksum16_fold acc =
     (if drop_bit 16 acc \<noteq> 0 then chksum16_fold ((acc AND 0xffff) + drop_bit 16 acc) else Some acc)"

definition ip4chksum16 :: "(nat \<Rightarrow> u8) \<Rightarrow> nat \<Rightarrow> u16 option" where
  "ip4chksum16 m sz =
     (let sz = min sz IP4PKTSIZE in
      do { (ndx, acc) \<leftarrow> chksum16_loop m ((sz + (2 ^ 32 - 1)) mod 2 ^ 32) 0 0;
           let acc = (if odd sz then acc + ucast (m ndx) else acc);
           acc \<leftarrow> chksum16_fold acc;
           Some (NOT (ucast acc)) })"

section \<open>The reference\<close>

text \<open>
  RFC 1071: the ones' complement of the ones' complement sum of the 16-bit words, with the last
  byte of an odd number of bytes as a word of its own.  The ones' complement sum of numbers that
  are not all zero is their sum modulo 65535, taken between 1 and 65535.
\<close>

definition word_sum :: "(nat \<Rightarrow> u8) \<Rightarrow> nat \<Rightarrow> nat" where
  "word_sum m sz = (\<Sum>i < sz div 2. ld_le m (2 * i) 2) + (if odd sz then unat (m (sz - 1)) else 0)"

definition ones_sum :: "nat \<Rightarrow> nat" where
  "ones_sum s = (if s = 0 then 0 else if s mod 65535 = 0 then 65535 else s mod 65535)"

definition rfc1071 :: "(nat \<Rightarrow> u8) \<Rightarrow> nat \<Rightarrow> u16" where
  "rfc1071 m sz = NOT (word_of_nat (ones_sum (word_sum m sz)))"

section \<open>Sums modulo 65535\<close>

text \<open>A number stands for another one when they agree modulo 65535 and in being zero.\<close>

definition stands :: "nat \<Rightarrow> nat \<Rightarrow> bool" where
  "stands a b \<longleftrightarrow> a mod 65535 = b mod 65535 \<and> (a = 0 \<longleftrightarrow> b = 0)"

lemma stands_refl [simp]: "stands a a"
  by (simp add: stands_def)

lemma stands_trans [trans]: "stands a b \<Longrightarrow> stands b c \<Longrightarrow> stands a c"
  by (simp add: stands_def)

lemma stands_add: "stands a b \<Longrightarrow> stands c d \<Longrightarrow> stands (a + c) (b + d)"
  unfolding stands_def by (metis add_is_0 mod_add_cong)

lemma stands_ones_sum:
  assumes "stands a b" "a \<le> 65535"
  shows "a = ones_sum b"
proof (cases "a = 65535")
  case True
  then show ?thesis using assms by (simp add: stands_def ones_sum_def)
next
  case False
  then have "a mod 65535 = a" using assms(2) by simp
  then show ?thesis using assms(1) unfolding stands_def ones_sum_def by auto
qed

lemma stands_carry:
  assumes "stands (a + b * k) c" "k mod 65535 = 1"
  shows "stands (a + b) c"
proof -
  have "(a + b * k) mod 65535 = (a + b * (k mod 65535)) mod 65535"
    by (metis mod_add_right_eq mod_mult_right_eq)
  moreover have "k \<noteq> 0" using assms(2) by (metis mod_0 zero_neq_one)
  ultimately show ?thesis using assms by (simp add: stands_def)
qed

lemma addcarry_stands:
  fixes s u :: "'a::len word"
  assumes "2 ^ LENGTH('a) mod 65535 = (1 :: nat)"
  shows "stands (unat (addcarry s u)) (unat s + unat u)"
proof (cases "unat s + unat u < 2 ^ LENGTH('a)")
  case True
  then have e: "unat (s + u) = unat s + unat u" by (rule unat_add_small)
  then have "\<not> s + u < u" unfolding word_less_nat_alt by linarith
  then have "addcarry s u = s + u" by (simp add: addcarry_def)
  then show ?thesis using e by simp
next
  case False
  have b: "unat s < 2 ^ LENGTH('a)" "unat u < 2 ^ LENGTH('a)" by (rule unat_bound)+
  have e: "unat (s + u) = unat s + unat u - 2 ^ LENGTH('a)"
  proof -
    have "unat s + unat u - 2 ^ LENGTH('a) < 2 ^ LENGTH('a)" using b by linarith
    then show ?thesis using False by (simp add: unat_word_ariths(1) le_mod_geq)
  qed
  then have lt: "unat (s + u) < unat u" "unat (s + u) + 1 < 2 ^ LENGTH('a)" using False b by linarith+
  have "unat (s + u + 1) = unat (s + u) + 1"
    using lt(2) unat_add_small [of "s + u" 1] by simp
  moreover have "s + u < u" using lt(1) unfolding word_less_nat_alt .
  then have "addcarry s u = s + u + 1" by (simp add: addcarry_def)
  ultimately have r: "unat (addcarry s u) = unat s + unat u - 2 ^ LENGTH('a) + 1" using e by simp
  have "stands (unat s + unat u - 2 ^ LENGTH('a) + 1 * 2 ^ LENGTH('a)) (unat s + unat u)"
    using False by simp
  then show ?thesis unfolding r by (rule stands_carry) (rule assms)
qed

lemma addcarry64: "stands (unat (addcarry s u)) (unat s + unat u)" for s u :: u64
  by (rule addcarry_stands) simp

lemma addcarry32: "stands (unat (addcarry s u)) (unat s + unat u)" for s u :: u32
  by (rule addcarry_stands) simp

lemma addcarry16: "stands (unat (addcarry s u)) (unat s + unat u)" for s u :: u16
  by (rule addcarry_stands) simp

section \<open>Words in memory\<close>

text \<open>A word of eight, four or two bytes stands for the sum of its 16-bit parts.\<close>

lemma ld_le_stands: "stands (ld_le m i (2 * n)) (\<Sum>j < n. ld_le m (i + 2 * j) 2)"
proof (induction n arbitrary: i)
  case (Suc n)
  have "ld_le m i (2 * Suc n) = ld_le m i 2 + ld_le m (i + 2) (2 * n) * 65536"
    using ld_le_add [of m i 2 "2 * n"] by simp
  then have "stands (ld_le m i 2 + ld_le m (i + 2) (2 * n) * 65536) (ld_le m i (2 * Suc n))"
    by (simp only: stands_refl)
  then have "stands (ld_le m i 2 + ld_le m (i + 2) (2 * n)) (ld_le m i (2 * Suc n))"
    by (rule stands_carry) simp
  moreover have "stands (ld_le m i 2 + ld_le m (i + 2) (2 * n))
      (ld_le m i 2 + (\<Sum>j < n. ld_le m (i + 2 + 2 * j) 2))"
    by (rule stands_add [OF stands_refl Suc])
  moreover have "ld_le m i 2 + (\<Sum>j < n. ld_le m (i + 2 + 2 * j) 2) = (\<Sum>j < Suc n. ld_le m (i + 2 * j) 2)"
    by (subst sum.lessThan_Suc_shift) (simp add: algebra_simps)
  ultimately show ?case unfolding stands_def by metis
qed simp

section \<open>The loops\<close>

lemma chksum64_loops: "chksum64_2_loop len m i acc = chksum64_loop len m i acc"
  by (induction len m i acc rule: chksum64_loop.induct) (auto simp: addcarry_def Let_def linorder_not_less [symmetric])

lemma chksum64_loop_stands:
  "stands (unat (chksum64_loop len m i acc)) (unat acc + (\<Sum>j < 4 * len. ld_le m (i + 2 * j) 2))"
proof (induction len arbitrary: i acc)
  case (Suc len)
  have "stands (unat (addcarry acc (ld64 m i))) (unat acc + ld_le m i (2 * 4))"
    using addcarry64 [of acc "ld64 m i"] by (simp only: unat_ld64) simp
  also have "stands \<dots> (unat acc + (\<Sum>j < 4. ld_le m (i + 2 * j) 2))"
    by (rule stands_add [OF stands_refl ld_le_stands])
  finally have "stands (unat (addcarry acc (ld64 m i)) + (\<Sum>j < 4 * len. ld_le m (i + 8 + 2 * j) 2))
      (unat acc + (\<Sum>j < 4. ld_le m (i + 2 * j) 2) + (\<Sum>j < 4 * len. ld_le m (i + 8 + 2 * j) 2))"
    by (rule stands_add [OF _ stands_refl])
  moreover have "(\<Sum>j < 4. ld_le m (i + 2 * j) 2) + (\<Sum>j < 4 * len. ld_le m (i + 8 + 2 * j) 2) =
      (\<Sum>j < 4 * Suc len. ld_le m (i + 2 * j) 2)"
    using sum.atLeastLessThan_concat [of 0 4 "4 + 4 * len" "\<lambda>j. ld_le m (i + 2 * j) 2"]
      sum.shift_bounds_nat_ivl [of "\<lambda>j. ld_le m (i + 2 * j) 2" 0 4 "4 * len"]
    by (simp add: lessThan_atLeast0 algebra_simps)
  ultimately show ?case
    using stands_trans [OF Suc [of "i + 8" "addcarry acc (ld64 m i)"]] by (simp add: algebra_simps)
qed simp

text \<open>
  The bytes that the tail adds: with an even number of bytes left over it adds the byte behind
  the buffer too, since it tests \<open>size\<close> where \<open>size & 1\<close> is meant.
\<close>

definition counted :: "nat \<Rightarrow> nat" where
  "counted sz = (if even sz \<and> sz mod 8 \<noteq> 0 then sz + 1 else sz)"

lemma fold_stands:
  fixes acc :: u64
  defines "t1 \<equiv> addcarry (ucast acc :: u32) (ucast (drop_bit 32 acc))"
  defines "t3 \<equiv> addcarry (ucast t1 :: u16) (ucast (drop_bit 16 t1))"
  shows "stands (unat t3) (unat acc)"
proof -
  have b: "unat acc div 4294967296 < 4294967296" "unat t1 div 65536 < 65536"
    using unat_u64_bound [of acc] unat_u32_bound [of t1] by (auto simp: less_mult_imp_div_less)
  have "stands (unat t1) (unat acc mod 4294967296 + unat acc div 4294967296)"
    using addcarry32 [of "ucast acc" "ucast (drop_bit 32 acc)"] b(1)
    by (simp add: t1_def unat_ucast_mod unat_drop_bit_div)
  moreover have "stands (unat acc mod 4294967296 + unat acc div 4294967296) (unat acc)"
    by (rule stands_carry [where k = 4294967296]) simp_all
  moreover have "stands (unat t3) (unat t1 mod 65536 + unat t1 div 65536)"
    using addcarry16 [of "ucast t1" "ucast (drop_bit 16 t1)"] b(2)
    by (simp add: t3_def unat_ucast_mod unat_drop_bit_div)
  moreover have "stands (unat t1 mod 65536 + unat t1 div 65536) (unat t1)"
    by (rule stands_carry [where k = 65536]) simp_all
  ultimately show ?thesis using stands_trans by blast
qed

lemma stands_checksum:
  fixes t :: u16
  assumes "stands (unat t) (word_sum m sz)"
  shows "NOT t = rfc1071 m sz"
proof -
  have "unat t = ones_sum (word_sum m sz)"
    using unat_u16_bound [of t] by (intro stands_ones_sum [OF assms]) simp
  then have "t = word_of_nat (ones_sum (word_sum m sz))" by (simp flip: \<open>unat t = _\<close>)
  then show ?thesis by (simp add: rfc1071_def)
qed

lemma word_sum_split:
  "word_sum m (8 * n + 2 * k + of_bool b) =
     (\<Sum>j < 4 * n. ld_le m (2 * j) 2) + (\<Sum>j < k. ld_le m (8 * n + 2 * j) 2) +
     (if b then unat (m (8 * n + 2 * k)) else 0)"
proof -
  have "(8 * n + 2 * k + of_bool b) div 2 = 4 * n + k" by (cases b) auto
  moreover have "(\<Sum>j < 4 * n + k. ld_le m (2 * j) 2) =
      (\<Sum>j < 4 * n. ld_le m (2 * j) 2) + (\<Sum>j < k. ld_le m (8 * n + 2 * j) 2)"
    by (induction k) (simp_all add: algebra_simps)
  ultimately show ?thesis unfolding word_sum_def by (cases b) auto
qed

lemma addcarry_load:
  assumes "stands (unat acc) s"
  shows "stands (unat (addcarry acc (ucast (ld32 m i) :: u64))) (s + (\<Sum>j < 2. ld_le m (i + 2 * j) 2))"
    "stands (unat (addcarry acc (ucast (ld16 m i) :: u64))) (s + (\<Sum>j < 1. ld_le m (i + 2 * j) 2))"
    "stands (unat (addcarry acc (ucast (m i) :: u64))) (s + unat (m i))"
proof -
  have "unat (ucast (ld32 m i) :: u64) = ld_le m i 4" "unat (ucast (ld16 m i) :: u64) = ld_le m i 2"
    "unat (ucast (m i) :: u64) = unat (m i)"
    using unat_u32_bound [of "ld32 m i"] unat_u16_bound [of "ld16 m i"] unat_u8_bound [of "m i"]
    by (simp_all only: unat_ucast_mod unat_ld32 unat_ld16) simp_all
  then have "stands (unat (addcarry acc (ucast (ld32 m i) :: u64))) (unat acc + ld_le m i (2 * 2))"
    "stands (unat (addcarry acc (ucast (ld16 m i) :: u64))) (unat acc + ld_le m i (2 * 1))"
    "stands (unat (addcarry acc (ucast (m i) :: u64))) (unat acc + unat (m i))"
    using addcarry64 [of acc "ucast (ld32 m i)"] addcarry64 [of acc "ucast (ld16 m i)"]
      addcarry64 [of acc "ucast (m i)"] by (simp_all del: ld_le.simps)
  then show "stands (unat (addcarry acc (ucast (ld32 m i) :: u64))) (s + (\<Sum>j < 2. ld_le m (i + 2 * j) 2))"
    "stands (unat (addcarry acc (ucast (ld16 m i) :: u64))) (s + (\<Sum>j < 1. ld_le m (i + 2 * j) 2))"
    "stands (unat (addcarry acc (ucast (m i) :: u64))) (s + unat (m i))"
    using stands_add [OF assms ld_le_stands] stands_add [OF assms stands_refl] stands_trans by blast+
qed

text \<open>The tail after the test of bit 2 of the number of bytes left.\<close>

lemma chksum64_tail_correct:
  assumes acc: "stands (unat acc) (\<Sum>j < 4 * n. ld_le m (2 * j) 2)" and r: "r < 8"
  shows "chksum64_tail m (8 * n) r acc = rfc1071 m (counted (8 * n + r))"
proof -
  define a where "a = (if r AND 4 \<noteq> 0 then 2 else 0 :: nat)"
  define b where "b = (if r AND 2 \<noteq> 0 then 1 else 0 :: nat)"
  define b1 where "b1 = (if r AND 4 \<noteq> 0 then 8 * n + 4 else 8 * n)"
  define b2 where "b2 = (if r AND 2 \<noteq> 0 then b1 + 2 else b1)"
  have b1: "b1 = 8 * n + 2 * a" and b2: "b2 = 8 * n + 2 * (a + b)" by (simp_all add: b1_def b2_def a_def b_def)
  define s1 where "s1 = (if r AND 4 \<noteq> 0 then addcarry acc (ucast (ld32 m (8 * n))) else acc)"
  define s2 where "s2 = (if r AND 2 \<noteq> 0 then addcarry s1 (ucast (ld16 m b1)) else s1)"
  define s3 where "s3 = (if r \<noteq> 0 then addcarry s2 (ucast (m b2)) else s2)"
  let ?S = "\<lambda>k. (\<Sum>j < 4 * n. ld_le m (2 * j) 2) + (\<Sum>j < k. ld_le m (8 * n + 2 * j) 2)"
  have 1: "stands (unat s1) (?S a)"
    using acc addcarry_load(1) [OF acc, of m "8 * n"] by (simp add: s1_def a_def del: ld_le.simps)
  have "?S (a + 1) = ?S a + (\<Sum>j < 1. ld_le m (8 * n + 2 * a + 2 * j) 2)" by simp
  then have 2: "stands (unat s2) (?S (a + b))"
    using 1 addcarry_load(2) [OF 1, of m "8 * n + 2 * a"] by (simp add: s2_def b1 b_def add.assoc del: ld_le.simps)
  have "counted (8 * n + r) = 8 * n + 2 * (a + b) + of_bool (r \<noteq> 0)"
  proof -
    have "r \<in> {0, 1, 2, 3, 4, 5, 6, 7}" using r by auto
    then show ?thesis by (auto simp: counted_def a_def b_def)
  qed
  then have "word_sum m (counted (8 * n + r)) = ?S (a + b) + (if r \<noteq> 0 then unat (m (8 * n + 2 * (a + b))) else 0)"
    using word_sum_split [of m n "a + b" "r \<noteq> 0"] by simp
  then have 3: "stands (unat s3) (word_sum m (counted (8 * n + r)))"
    using 2 addcarry_load(3) [OF 2, of m "8 * n + 2 * (a + b)"] by (simp add: s3_def b2 del: ld_le.simps)
  have t: "chksum64_tail m (8 * n) r acc =
      NOT (let t1 = addcarry (ucast s3 :: u32) (ucast (drop_bit 32 s3)) in
           addcarry (ucast t1 :: u16) (ucast (drop_bit 16 t1)))"
    unfolding chksum64_tail_def s3_def s2_def s1_def b2_def b1_def by (simp add: Let_def del: ld_le.simps)
  show ?thesis unfolding t Let_def
    by (rule stands_checksum [OF stands_trans [OF fold_stands 3]])
qed

lemma ip4chksum64_correct:
  "ip4chksum64 m sz = rfc1071 m (counted sz)" "ip4chksum64_2 m sz = rfc1071 m (counted sz)"
proof -
  have "stands (unat (chksum64_loop (sz div 8) m 0 0)) (\<Sum>j < 4 * (sz div 8). ld_le m (2 * j) 2)"
    using chksum64_loop_stands [of "sz div 8" m 0 0] by (simp del: ld_le.simps)
  moreover have "sz - 8 * (sz div 8) = sz mod 8" by (simp add: minus_mult_div_eq_mod)
  ultimately show "ip4chksum64 m sz = rfc1071 m (counted sz)" "ip4chksum64_2 m sz = rfc1071 m (counted sz)"
    using chksum64_tail_correct [where n = "sz div 8" and m = m and r = "sz mod 8"]
    by (simp_all add: ip4chksum64_def ip4chksum64_2_def chksum64_loops del: ld_le.simps)
qed

section \<open>The 16-bit version\<close>

lemma chksum16_loop_correct:
  assumes "lim < 65535" "2 * i \<le> lim + 1" "unat acc = (\<Sum>j < i. ld_le m (2 * j) 2)"
  shows "\<exists>acc'. chksum16_loop m lim (2 * i) acc = Some (2 * ((lim + 1) div 2), acc') \<and>
    unat acc' = (\<Sum>j < (lim + 1) div 2. ld_le m (2 * j) 2)"
  using assms(2,3)
proof (induction "lim + 1 - 2 * i" arbitrary: i acc rule: less_induct)
  case less
  show ?case
  proof (cases "2 * i < lim")
    case True
    have "ld_le m (2 * j) 2 \<le> 65535" for j using ld_le_bound [of m "2 * j" 2] by (simp del: ld_le.simps)
    then have "(\<Sum>j < i. ld_le m (2 * j) 2) \<le> (\<Sum>j < i. 65535)" by (rule sum_mono)
    moreover have "ld_le m (2 * i) 2 < 65536" using ld_le_bound [of m "2 * i" 2] by (simp del: ld_le.simps)
    ultimately have "unat acc + unat (ucast (ld16 m (2 * i)) :: u32) < 2 ^ 32"
      using True assms(1) less.prems(2) unat_u16_bound [of "ld16 m (2 * i)"]
      by (simp add: unat_u16_u32 unat_ld16 del: ld_le.simps)
    then have e: "unat (acc + ucast (ld16 m (2 * i)) :: u32) = (\<Sum>j < Suc i. ld_le m (2 * j) 2)"
      using less.prems(2) by (subst unat_add_small) (simp_all add: unat_u16_u32 unat_ld16 del: ld_le.simps)
    have w: "(2 * i + 2) mod 65536 = 2 * Suc i" using True assms(1) by simp
    show ?thesis
      using less.hyps [of "Suc i" "acc + ucast (ld16 m (2 * i))"] e True w
      by (subst chksum16_loop.simps) simp
  next
    case False
    then have "i = (lim + 1) div 2" using less.prems(1) by presburger
    then show ?thesis using less.prems False by (subst chksum16_loop.simps) simp
  qed
qed

lemma chksum16_fold_correct:
  "\<exists>acc'. chksum16_fold acc = Some acc' \<and> unat acc' < 65536 \<and> stands (unat acc') (unat acc)"
proof (induction "unat acc" arbitrary: acc rule: less_induct)
  case less
  have m: "(0xffff :: u32) = mask 16" by (simp add: mask_eq_exp_minus_1)
  show ?case
  proof (cases "drop_bit 16 acc = 0")
    case True
    then have "unat acc div 65536 = 0" using unat_drop_bit_div [of 16 acc] by simp
    then show ?thesis using True by (subst chksum16_fold.simps) simp
  next
    case False
    have "unat (drop_bit 16 acc) \<noteq> 0" using False word_eq_natI [of "drop_bit 16 acc" 0] by auto
    then have d: "unat acc div 65536 \<noteq> 0" unfolding unat_drop_bit_div by simp
    have n: "unat ((acc AND 0xffff) + drop_bit 16 acc) = unat acc mod 65536 + unat acc div 65536"
      using unat_u32_bound [of acc]
      by (subst unat_add_small) (auto simp: m unat_and_mask unat_drop_bit_div intro!: less_le_trans [OF add_strict_mono, of _ 65536 _ 65536])
    have "stands (unat ((acc AND 0xffff) + drop_bit 16 acc)) (unat acc)"
      unfolding n by (rule stands_carry [where k = 65536]) simp_all
    moreover have "unat ((acc AND 0xffff) + drop_bit 16 acc) < unat acc"
    proof -
      have "r + q < q * 65536 + r" if "q \<noteq> 0" for q r :: nat using that by simp
      from this [OF d, of "unat acc mod 65536"] show ?thesis unfolding n by (simp only: div_mult_mod_eq)
    qed
    ultimately show ?thesis
      using less [of "(acc AND 0xffff) + drop_bit 16 acc"] False stands_trans
      by (subst chksum16_fold.simps) auto
  qed
qed

lemma ip4chksum16_correct:
  assumes "1 \<le> sz" "sz < 65536"
  shows "ip4chksum16 m sz = Some (rfc1071 m sz)"
proof -
  have z: "min sz IP4PKTSIZE = sz" using assms(2) by (simp add: IP4PKTSIZE_def)
  have l: "(sz + (2 ^ 32 - 1)) mod 2 ^ 32 = sz - 1"
    using assms by (simp add: mod_if)
  have "sz - 1 < 65535" using assms by linarith
  then obtain acc where a: "chksum16_loop m (sz - 1) 0 0 = Some (2 * (sz div 2), acc)"
      "unat acc = (\<Sum>j < sz div 2. ld_le m (2 * j) 2)"
    using chksum16_loop_correct [of "sz - 1" 0 0 m] assms by (auto simp del: ld_le.simps)
  define acc2 where "acc2 = (if odd sz then acc + ucast (m (2 * (sz div 2))) else acc)"
  have "unat acc + unat (ucast (m (2 * (sz div 2))) :: u32) < 2 ^ 32"
  proof -
    have "ld_le m (2 * j) 2 \<le> 65535" for j using ld_le_bound [of m "2 * j" 2] by (simp del: ld_le.simps)
    then have "unat acc \<le> (\<Sum>j < sz div 2. 65535)" unfolding a(2) by (rule sum_mono)
    then show ?thesis using assms(2) unat_u8_bound [of "m (2 * (sz div 2))"] by (simp add: unat_ucast_mod)
  qed
  moreover have "unat (ucast (m i) :: u32) = unat (m i)" for i
    using unat_u8_bound [of "m i"] by (simp add: unat_ucast_mod)
  moreover have "2 * (sz div 2) = sz - 1" if "odd sz" using that by presburger
  ultimately have acc2: "unat acc2 = word_sum m sz"
    unfolding acc2_def word_sum_def by (auto simp: unat_add_small a(2) simp del: ld_le.simps)
  obtain acc3 where f: "chksum16_fold acc2 = Some acc3" "unat acc3 < 65536" "stands (unat acc3) (unat acc2)"
    using chksum16_fold_correct [of acc2] by auto
  have "stands (unat (ucast acc3 :: u16)) (word_sum m sz)"
    using f(2,3) by (simp add: unat_ucast_mod acc2)
  then have "NOT (ucast acc3 :: u16) = rfc1071 m sz" by (rule stands_checksum)
  then show ?thesis
    unfolding ip4chksum16_def z l Let_def using a(1) f(1) by (simp add: acc2_def)
qed

text \<open>
  C4: both 64-bit versions return the Internet checksum of RFC 1071 for every buffer, except that
  with an even number of bytes left over after the last eight they count the byte behind the
  buffer too; the 16-bit version returns the checksum of every buffer of 1 to 65535 bytes.
\<close>

theorem ip4_checksums:
  "ip4chksum64 m sz = rfc1071 m (if even sz \<and> sz mod 8 \<noteq> 0 then sz + 1 else sz) \<and>
   ip4chksum64_2 m sz = ip4chksum64 m sz \<and>
   (1 \<le> sz \<and> sz < 65536 \<longrightarrow> ip4chksum16 m sz = Some (rfc1071 m sz))"
  using ip4chksum64_correct [of m sz] ip4chksum16_correct [of sz m] by (simp add: counted_def)

theorem ip4_checksums_witness:
  "ip4chksum64 (\<lambda>_. 1) 3 = rfc1071 (\<lambda>_. 1) 3 \<and> ip4chksum64_2 (\<lambda>_. 1) 3 = ip4chksum64 (\<lambda>_. 1) 3 \<and>
   ip4chksum16 (\<lambda>_. 1) 3 = Some (rfc1071 (\<lambda>_. 1) 3) \<and> rfc1071 (\<lambda>_. 1) 3 = 0xfefd"
proof -
  have "rfc1071 (\<lambda>_. 1) 3 = 0xfefd"
  proof -
    have "ld_le (\<lambda>_. 1) i (Suc (Suc 0)) = 257" for i by simp
    then have "word_sum (\<lambda>_. 1) 3 = 258" by (simp add: word_sum_def flip: numeral_2_eq_2)
    then show ?thesis by (simp add: rfc1071_def ones_sum_def)
  qed
  then show ?thesis using ip4_checksums [of "\<lambda>_. 1" 3] by simp
qed

text \<open>Without data, or with 65536 bytes and more, the 16-bit version never returns.\<close>

lemma chksum16_loop_endless: "ndx < 65536 \<Longrightarrow> even ndx \<Longrightarrow> 65535 \<le> lim \<Longrightarrow> chksum16_loop m lim ndx acc = None"
proof (rule ccontr)
  assume p: "ndx < 65536" "even ndx" "65535 \<le> lim" and "chksum16_loop m lim ndx acc \<noteq> None"
  then obtain r where "chksum16_loop m lim ndx acc = Some r" by auto
  then have "\<not> (ndx < 65536 \<and> even ndx \<and> 65535 \<le> lim)"
  proof (rule chksum16_loop.raw_induct [rotated])
    fix f m lim ndx acc y
    assume IH: "\<And>m lim ndx acc y. f m lim ndx acc = Some y \<Longrightarrow> \<not> (ndx < 65536 \<and> even ndx \<and> 65535 \<le> lim)"
      and e: "(if ndx < lim then f m lim ((ndx + 2) mod 65536) (acc + ucast (ld16 m ndx)) else Some (ndx, acc)) = Some y"
    show "\<not> (ndx < 65536 \<and> even ndx \<and> 65535 \<le> lim)"
    proof
      assume n: "ndx < 65536 \<and> even ndx \<and> 65535 \<le> lim"
      then have "ndx < lim" by (cases "ndx = 65535") auto
      moreover have "even ((ndx + 2) mod 65536)" using n by (intro dvd_mod) auto
      ultimately show False using e n IH [of m lim "(ndx + 2) mod 65536" _ y] by simp
    qed
  qed
  with p show False by simp
qed

lemma ip4chksum16_endless: "sz = 0 \<or> 65536 \<le> sz \<Longrightarrow> ip4chksum16 m sz = None"
  by (auto simp: ip4chksum16_def IP4PKTSIZE_def min_def chksum16_loop_endless)

end
