(* ===== verification/Hash.thy ===== *)
theory Hash
  imports Loads
begin

text \<open>
  The hash functions of usr/lib/zero/hash.c and usr/lib/zero/hash64.c on a 64-bit machine, which
  the hash tables of the buffer cache, of the memory allocators and of the tools use.

  A string is the list of its bytes in front of the terminating zero; other buffers are memories.
  A shift by 64 or more, which is undefined, gives \<open>None\<close>.  The variable that
  \<open>hashq128\<close> reads before it is set is an argument.
\<close>

section \<open>Strings\<close>

definition PRIME :: u32 where "PRIME = 131071"

definition hashpjw_step :: "u32 \<Rightarrow> u8 \<Rightarrow> u32" where
  "hashpjw_step h u =
     (let h = push_bit 4 h + ucast u; g = h AND 0xf0000000; h = h XOR drop_bit 24 g in h XOR g)"

definition hashpjw :: "u8 list \<Rightarrow> u32" where
  "hashpjw str = foldl hashpjw_step 0 str mod PRIME"

fun pphash_loop :: "nat \<Rightarrow> u8 list \<Rightarrow> u32 \<Rightarrow> u32" where
  "pphash_loop 0 str h = h"
| "pphash_loop (Suc k) [] h = h"
| "pphash_loop (Suc k) (c # str) h = pphash_loop k str (31 * h + ucast c)"

definition pphash :: "u8 list \<Rightarrow> u32" where
  "pphash str = pphash_loop 2 str 0 mod PRIME"

definition SEED64 :: u64 where "SEED64 = push_bit 61 2 - 1"

definition razostep :: "u64 \<Rightarrow> u64 \<Rightarrow> u64" where
  "razostep hash u = hash XOR (push_bit 7 hash + drop_bit 2 hash + u)"

text \<open>
  With a length of 8 the pointer itself is the key, with a length of 4 nothing is hashed, and
  otherwise the key is the string it points to.
\<close>

definition razohash :: "u64 \<Rightarrow> u8 list \<Rightarrow> nat \<Rightarrow> nat \<Rightarrow> u64 option" where
  "razohash val str len nbit =
     (let hash = (if len = 8 then
                    foldl razostep SEED64 (map (\<lambda>i. drop_bit (8 * i) val AND 0xff) [0..<8])
                  else if len = 4 then SEED64
                  else foldl razostep SEED64 (map ucast str))
      in if nbit < 64 then Some (hash AND (push_bit nbit 1 - 1)) else None)"

text \<open>The hash of words of four bytes, with the rest of at most three bytes; characters are signed.\<close>

fun fnv1a_loop :: "nat \<Rightarrow> (nat \<Rightarrow> u8) \<Rightarrow> nat \<Rightarrow> u32 \<Rightarrow> u32" where
  "fnv1a_loop 0 m i hash32 = hash32"
| "fnv1a_loop (Suc n) m i hash32 = fnv1a_loop n m (i + 4) ((hash32 XOR ld32 m i) * 1607)"

definition FNV1A_Hash_WHIZ :: "(nat \<Rightarrow> u8) \<Rightarrow> nat \<Rightarrow> u32" where
  "FNV1A_Hash_WHIZ m wsz =
     (let n = wsz div 4; hash32 = fnv1a_loop n m 0 2166136261; i = 4 * n; wsz = wsz mod 4;
          (hash32, i) = (if wsz AND 2 \<noteq> 0 then ((hash32 XOR ucast (ld16 m i)) * 1607, i + 2) else (hash32, i));
          hash32 = (if wsz AND 1 \<noteq> 0 then (hash32 XOR scast (m i)) * 1607 else hash32)
      in hash32 XOR drop_bit 16 hash32)"

section \<open>Integers\<close>

definition dkhash :: "u64 \<Rightarrow> u32" where
  "dkhash u = ucast ((u * 2654435761) AND 0xffffffff)"

definition tmhash32 :: "u64 \<Rightarrow> u32" where
  "tmhash32 u =
     (let u = (drop_bit 16 u XOR u) * 0x45d9f3b; u = (drop_bit 16 u XOR u) * 0x45d9f3b;
          u = drop_bit 16 u XOR u in ucast u)"

definition tmhash64 :: "u64 \<Rightarrow> u64" where
  "tmhash64 u =
     (let u = (u XOR drop_bit 30 u) * 0xbf58476d1ce4e5b9; u = (u XOR drop_bit 27 u) * 0x94d049bb133111eb
      in u XOR drop_bit 31 u)"

definition MurmurHash3Mixer :: "u64 \<Rightarrow> u64" where
  "MurmurHash3Mixer u =
     (let u = u XOR drop_bit 33 u; u = u * 0xff51afd7ed558ccd; u = u XOR drop_bit 33 u;
          u = u * 0xc4ceb9fe1a85ec53 in u XOR drop_bit 33 u)"

definition tmhash2 :: "u32 \<Rightarrow> u32" where
  "tmhash2 u =
     (let u = (drop_bit 16 u XOR u) * 0x45d9f3b; u = (drop_bit 16 u XOR u) * 0x45d9f3b
      in drop_bit 16 u XOR u)"

definition tmunhash2 :: "u32 \<Rightarrow> u32" where
  "tmunhash2 u =
     (let u = (drop_bit 16 u XOR u) * 0x119de1f3; u = (drop_bit 16 u XOR u) * 0x119de1f3
      in drop_bit 16 u XOR u)"

text \<open>The remainder modulo a Mersenne prime; the numbers are nonnegative.\<close>

definition mprimod :: "int \<Rightarrow> int \<Rightarrow> nat \<Rightarrow> int" where
  "mprimod k p s = (let i = (k AND p) + drop_bit s k in if p \<le> i then i - p else i)"

section \<open>The 128-bit hash\<close>

text \<open>The byte swap and the product of two 64-bit numbers in two registers.\<close>

definition bswapq128 :: "u64 \<Rightarrow> u64" where
  "bswapq128 r = word_of_nat (ld_le (\<lambda>i. ucast (drop_bit (56 - 8 * i) r)) 0 8)"

definition mulq128 :: "u64 \<Rightarrow> u64 \<Rightarrow> u64 \<times> u64" where
  "mulq128 a r = (a * r, word_of_nat (unat a * unat r div 2 ^ 64))"

definition hash_r8 :: u64 where "hash_r8 = 0x1591aefa5e7e5a17"
definition hash_r9 :: u64 where "hash_r9 = 0x2bb6863566c4e761"

fun hashq128_loop :: "nat \<Rightarrow> (nat \<Rightarrow> u8) \<Rightarrow> nat \<Rightarrow> u64 \<Rightarrow> u64 \<Rightarrow> u64 \<times> u64" where
  "hashq128_loop 0 m i rax rcx = (rax, rcx)"
| "hashq128_loop (Suc n) m i rax rcx =
     hashq128_loop n m (i + 16) (bswapq128 ((rax XOR ld64 m i) * hash_r8))
       (bswapq128 ((rcx XOR ld64 m (i + 8)) * hash_r9))"

text \<open>The rest of fewer than 16 bytes; \<open>rdx\<close> has no value yet unless bit 3 or 2 of the length is set.\<close>

definition hashq128_tail :: "(nat \<Rightarrow> u8) \<Rightarrow> nat \<Rightarrow> nat \<Rightarrow> u64 \<Rightarrow> u64 \<Rightarrow> u64 \<Rightarrow> u64 \<times> u64" where
  "hashq128_tail m i len rax rcx rdx =
     (if len = 0 then (rax, rcx)
      else let (rdx, rax, i) = (if len AND 8 \<noteq> 0 then (0, rax XOR ld64 m i, i + 8) else (rdx, rax, i));
               (rdx, i) = (if len AND 4 \<noteq> 0 then (ucast (ld32 m i), i + 4) else (rdx, i));
               (rdx, i) = (if len AND 2 \<noteq> 0 then (push_bit 16 rdx OR ucast (ld16 m i), i + 2) else (rdx, i));
               rdx = (if len AND 1 \<noteq> 0 then push_bit 8 rdx OR ucast (m i) else rdx)
           in (rax, rcx XOR rdx))"

definition hashq128_mix :: "u64 \<Rightarrow> u64 \<Rightarrow> u64 \<times> u64" where
  "hashq128_mix rax rcx =
     (let (rax, rdx) = mulq128 rax hash_r8; rcx = rcx * hash_r9 + rdx in (rax XOR rcx, rcx))"

definition hashq128_end :: "u64 \<Rightarrow> u64 \<Rightarrow> nat \<Rightarrow> u64 option" where
  "hashq128_end rax rcx nkeybit =
     (let (rax, rcx) = hashq128_mix rax rcx; (rax, rcx) = hashq128_mix rax rcx;
          rax = (if nkeybit < 32 then rax XOR drop_bit 32 rax else rax)
      in if nkeybit < 64 then Some (rax AND (push_bit nkeybit 1 - 1)) else None)"

definition hashq128 :: "u64 \<Rightarrow> (nat \<Rightarrow> u8) \<Rightarrow> nat \<Rightarrow> nat \<Rightarrow> u64 option" where
  "hashq128 rdx m len nkeybit =
     (let n = len div 16; (rax, rcx) = hashq128_loop n m 0 (word_of_nat len XOR hash_r8) hash_r9;
          (rax, rcx) = hashq128_tail m (16 * n) (len mod 16) rax rcx rdx
      in hashq128_end rax rcx nkeybit)"

definition hashq128uptr :: "u64 \<Rightarrow> nat \<Rightarrow> u64 option" where
  "hashq128uptr uptr nkeybit = hashq128_end ((8 XOR hash_r8) XOR uptr) 0 nkeybit"

section \<open>Invertible steps\<close>

text \<open>A shift by at least half the width and an exclusive or undo themselves.\<close>

lemma xorshift_involution:
  fixes u :: "'a::len word"
  assumes "LENGTH('a) \<le> 2 * k"
  shows "drop_bit k (drop_bit k u XOR u) XOR (drop_bit k u XOR u) = u"
proof (rule bit_word_eqI)
  fix n assume "n < LENGTH('a)"
  have "\<not> bit u (k + k + n)" using assms by (auto dest: bit_imp_le_length)
  then show "bit (drop_bit k (drop_bit k u XOR u) XOR (drop_bit k u XOR u)) n = bit u n"
    by (auto simp: bit_drop_bit_eq bit_xor_iff)
qed

text \<open>For any shift the step is injective.\<close>

lemma xorshift_inj:
  fixes u v :: "'a::len word"
  assumes "0 < k" "u XOR drop_bit k u = v XOR drop_bit k v"
  shows "u = v"
proof -
  define z where "z = u XOR v"
  have "u XOR v = drop_bit k u XOR drop_bit k v"
    by (metis assms(2) xor.assoc xor.commute xor_self_eq xor.right_neutral)
  then have z: "drop_bit k z = z" unfolding z_def drop_bit_xor by (rule sym)
  have "unat z = 0"
  proof (rule ccontr)
    assume "unat z \<noteq> 0"
    then have "unat z div 2 ^ k < unat z"
      using assms(1) one_less_power [of "2 :: nat" k] by (intro div_less_dividend) auto
    then show False using z unat_drop_bit_div [of k z] by simp
  qed
  then have "z = 0" by (intro word_eq_natI) simp
  then show ?thesis by (metis xor.commute xor.left_neutral xor.assoc xor_self_eq z_def)
qed

lemma mult_inj:
  fixes u v c d :: "'a::len word"
  assumes "c * d = 1" "u * c = v * c"
  shows "u = v"
  by (metis assms mult.assoc mult.right_neutral)

lemma tm_constants: "(0x45d9f3b :: u32) * 0x119de1f3 = 1" "(0x119de1f3 :: u32) * 0x45d9f3b = 1"
  by simp_all

lemma xor16: "drop_bit 16 (drop_bit 16 u XOR u) XOR (drop_bit 16 u XOR u) = u" for u :: u32
  by (rule xorshift_involution) simp

lemma tmunhash2_tmhash2: "tmunhash2 (tmhash2 u) = u"
  unfolding tmhash2_def tmunhash2_def Let_def
  by (simp only: mult.assoc tm_constants mult_1_right xor16)

lemma tmhash2_tmunhash2: "tmhash2 (tmunhash2 u) = u"
  unfolding tmhash2_def tmunhash2_def Let_def
  by (simp only: mult.assoc tm_constants mult_1_right xor16)

lemma tmhash64_inj: "tmhash64 u = tmhash64 v \<Longrightarrow> u = v"
proof -
  assume "tmhash64 u = tmhash64 v"
  then have "(\<lambda>u. u XOR drop_bit 27 u) ((u XOR drop_bit 30 u) * 0xbf58476d1ce4e5b9) * 0x94d049bb133111eb =
      (\<lambda>u. u XOR drop_bit 27 u) ((v XOR drop_bit 30 v) * 0xbf58476d1ce4e5b9) * 0x94d049bb133111eb"
    unfolding tmhash64_def Let_def by (rule xorshift_inj [rotated]) simp
  then have "(\<lambda>u. u XOR drop_bit 27 u) ((u XOR drop_bit 30 u) * 0xbf58476d1ce4e5b9) =
      (\<lambda>u. u XOR drop_bit 27 u) ((v XOR drop_bit 30 v) * 0xbf58476d1ce4e5b9)"
    by (rule mult_inj [rotated, where d = "0x319642b2d24d8ec3"]) simp
  then have "(u XOR drop_bit 30 u) * 0xbf58476d1ce4e5b9 = (v XOR drop_bit 30 v) * 0xbf58476d1ce4e5b9"
    by (rule xorshift_inj [rotated]) simp
  then have "u XOR drop_bit 30 u = v XOR drop_bit 30 v"
    by (rule mult_inj [rotated, where d = "0x96de1b173f119089"]) simp
  then show ?thesis by (rule xorshift_inj [rotated]) simp
qed

lemma MurmurHash3Mixer_inj: "MurmurHash3Mixer u = MurmurHash3Mixer v \<Longrightarrow> u = v"
proof -
  assume "MurmurHash3Mixer u = MurmurHash3Mixer v"
  then have "(\<lambda>u. u XOR drop_bit 33 u) ((u XOR drop_bit 33 u) * 0xff51afd7ed558ccd) * 0xc4ceb9fe1a85ec53 =
      (\<lambda>u. u XOR drop_bit 33 u) ((v XOR drop_bit 33 v) * 0xff51afd7ed558ccd) * 0xc4ceb9fe1a85ec53"
    unfolding MurmurHash3Mixer_def Let_def by (rule xorshift_inj [rotated]) simp
  then have "(\<lambda>u. u XOR drop_bit 33 u) ((u XOR drop_bit 33 u) * 0xff51afd7ed558ccd) =
      (\<lambda>u. u XOR drop_bit 33 u) ((v XOR drop_bit 33 v) * 0xff51afd7ed558ccd)"
    by (rule mult_inj [rotated, where d = "0x9cb4b2f8129337db"]) simp
  then have "(u XOR drop_bit 33 u) * 0xff51afd7ed558ccd = (v XOR drop_bit 33 v) * 0xff51afd7ed558ccd"
    by (rule xorshift_inj [rotated]) simp
  then have "u XOR drop_bit 33 u = v XOR drop_bit 33 v"
    by (rule mult_inj [rotated, where d = "0x4f74430c22a54005"]) simp
  then show ?thesis by (rule xorshift_inj [rotated]) simp
qed

text \<open>The truncated product depends on the low half of the key only, and is injective there.\<close>

lemma dkhash_low: "dkhash u = ucast u * 2654435761"
proof (rule word_eq_natI)
  have m: "(0xffffffff :: u64) = mask 32" by (simp add: mask_eq_exp_minus_1)
  have "unat (dkhash u) = unat u * 2654435761 mod 18446744073709551616 mod 4294967296"
    unfolding dkhash_def m by (simp add: unat_ucast_mod unat_and_mask u64_mult_mod)
  also have "\<dots> = unat u * 2654435761 mod 4294967296"
    by (rule mod_mod_cancel) simp
  also have "\<dots> = unat ((ucast u :: u32) * 2654435761)"
    by (simp add: unat_ucast_mod u32_mult_mod mod_mult_left_eq)
  finally show "unat (dkhash u) = unat ((ucast u :: u32) * 2654435761)" .
qed

lemma dkhash_inj: "dkhash (ucast a) = dkhash (ucast b) \<Longrightarrow> a = b" for a b :: u32
proof -
  assume "dkhash (ucast a) = dkhash (ucast b)"
  moreover have "ucast (ucast a :: u64) = a" for a :: u32
    by (intro word_eq_natI) (use unat_u32_bound [of a] in \<open>simp add: unat_ucast_mod\<close>)
  ultimately have "a * 2654435761 = b * 2654435761" unfolding dkhash_low by metis
  then show ?thesis by (rule mult_inj [rotated, where d = "0x0e8b2f51"]) simp
qed

text \<open>
  C31: \<open>tmunhash2\<close> undoes \<open>tmhash2\<close> and the other way round, so that both are
  permutations of the 32-bit numbers; the 64-bit mixing functions \<open>tmhash64\<close> and
  \<open>MurmurHash3Mixer\<close> map different keys to different values, and so does \<open>dkhash\<close>
  on 32-bit keys.
\<close>

theorem hash_mixers_invertible:
  "tmunhash2 (tmhash2 u) = u \<and> tmhash2 (tmunhash2 u) = u \<and>
   inj tmhash64 \<and> inj MurmurHash3Mixer \<and> inj (\<lambda>u. dkhash (ucast (u :: u32)))"
  by (auto simp: tmunhash2_tmhash2 tmhash2_tmunhash2 inj_def
      dest: tmhash64_inj MurmurHash3Mixer_inj dkhash_inj)

section \<open>Ranges\<close>

text \<open>The textbook step of the string hash, with the branch that the code has removed.\<close>

definition pjw_branch :: "u32 \<Rightarrow> u8 \<Rightarrow> u32" where
  "pjw_branch h u =
     (let h = push_bit 4 h + ucast u; g = h AND 0xf0000000 in
      if g \<noteq> 0 then (h XOR drop_bit 24 g) XOR g else h)"

lemma pjw_branch_eliminated: "hashpjw_step h u = pjw_branch h u"
  unfolding hashpjw_step_def pjw_branch_def Let_def by (simp del: drop_bit_and)

lemma and_low_less: "unat (w AND (push_bit n 1 - 1)) < 2 ^ n" for w :: u64
proof -
  have "w AND (push_bit n 1 - 1) = w AND mask n"
    by (cases "n < 64") (simp_all add: mask_eq_exp_minus_1 push_bit_of_1)
  then have "unat (w AND (push_bit n 1 - 1)) = unat w mod 2 ^ n" by (simp only: unat_and_mask)
  then show ?thesis by simp
qed

lemma mod_prime_less: "unat (h mod PRIME) < 131071"
  using mod_less_divisor [of 131071 "unat h"] by (simp add: PRIME_def unat_mod)

lemma mprimod_correct:
  assumes "0 \<le> k" "k < 2 ^ (2 * s) - 1" "0 < s"
  shows "mprimod k (2 ^ s - 1) s = k mod (2 ^ s - 1)"
proof -
  define a where "a = k div 2 ^ s"
  define b where "b = k mod 2 ^ s"
  have k: "k = a * (2 ^ s - 1) + (a + b)" unfolding a_def b_def
    using div_mult_mod_eq [of k "2 ^ s"] by (simp add: right_diff_distrib)
  have b: "0 \<le> b" "b \<le> 2 ^ s - 1" unfolding b_def using pos_mod_bound [of "2 ^ s" k] by auto
  have "k < 2 ^ s * 2 ^ s" using assms(2) by (simp add: power_add mult_2)
  moreover have "a * 2 ^ s \<le> k" unfolding a_def using b(1) div_mult_mod_eq [of k "2 ^ s"] unfolding b_def by linarith
  ultimately have "a * 2 ^ s < 2 ^ s * 2 ^ s" by linarith
  then have a: "0 \<le> a" "a \<le> 2 ^ s - 1"
    using assms(1) mult_less_cancel_right_pos [of "2 ^ s" a "2 ^ s"]
    by (auto simp: a_def pos_imp_zdiv_nonneg_iff)
  have i: "(k AND (2 ^ s - 1)) + drop_bit s k = a + b"
    unfolding a_def b_def by (simp add: drop_bit_eq_div take_bit_eq_mod flip: mask_eq_exp_minus_1 take_bit_eq_mask)
  have "k mod (2 ^ s - 1) = (a + b) mod (2 ^ s - 1)" by (subst k) simp
  moreover have u: "a + b < 2 * (2 ^ s - 1)"
  proof (rule ccontr)
    assume "\<not> ?thesis"
    then have ab: "a = 2 ^ s - 1" "b = 2 ^ s - 1" using a b by auto
    have "k = 2 ^ s * 2 ^ s - 1" by (subst k, simp only: ab, simp add: algebra_simps)
    then show False using assms(2) by (simp add: power_add mult_2)
  qed
  moreover have "(a + b) mod (2 ^ s - 1) = a + b - (2 ^ s - 1)" if "2 ^ s - 1 \<le> a + b"
    unfolding minus_mod_self2 [of "a + b" "2 ^ s - 1", symmetric]
  proof (intro mod_pos_pos_trivial)
    have "x - p < p" if "x < 2 * p" for x p :: int using that by simp
    then show "a + b - (2 ^ s - 1) < 2 ^ s - 1" using u by blast
  qed (use that in simp)
  moreover have "(a + b) mod (2 ^ s - 1) = a + b" if "a + b < 2 ^ s - 1"
    using that a b by (intro mod_pos_pos_trivial) auto
  ultimately show ?thesis
    unfolding mprimod_def i Let_def by (metis linorder_not_le)
qed

lemma hashq128_end_range: "nbit < 64 \<Longrightarrow> \<exists>h. hashq128_end rax rcx nbit = Some h \<and> unat h < 2 ^ nbit"
  unfolding hashq128_end_def Let_def case_prod_beta by (simp only: if_True) (metis and_low_less)

lemma razohash_range: "nbit < 64 \<Longrightarrow> \<exists>h. razohash val str len nbit = Some h \<and> unat h < 2 ^ nbit"
  unfolding razohash_def Let_def by (simp only: if_True) (metis and_low_less)

text \<open>
  The string hash with its branch eliminated is the textbook one, and stays below the prime;
  the two-character hash does too; the hashes with a number of key bits below 64 fit these bits,
  whatever the uninitialised variable holds; and the remainder modulo a Mersenne prime is exact
  below the square of the power of two, less one.
\<close>

theorem hash_ranges:
  assumes "nbit < 64" "0 < s" "0 \<le> k" "k < 2 ^ (2 * s) - 1"
  shows "hashpjw str = foldl pjw_branch 0 str mod PRIME \<and> unat (hashpjw str) < 131071 \<and>
    unat (pphash str) < 131071 \<and>
    (\<exists>h. razohash val str len nbit = Some h \<and> unat h < 2 ^ nbit) \<and>
    (\<exists>h. hashq128 rdx m len nbit = Some h \<and> unat h < 2 ^ nbit) \<and>
    (\<exists>h. hashq128uptr val nbit = Some h \<and> unat h < 2 ^ nbit) \<and>
    mprimod k (2 ^ s - 1) s = k mod (2 ^ s - 1)"
proof -
  have "foldl hashpjw_step 0 str = foldl pjw_branch 0 str"
    using pjw_branch_eliminated by (metis (no_types, lifting) ext)
  then show ?thesis
    using razohash_range [OF assms(1)] hashq128_end_range [OF assms(1)] mprimod_correct [OF assms(3,4,2)]
    by (simp add: hashpjw_def pphash_def mod_prime_less hashq128_def hashq128uptr_def Let_def case_prod_beta)
qed

theorem hash_ranges_witness:
  "hashpjw [0x61, 0x62] = foldl pjw_branch 0 [0x61, 0x62] mod PRIME \<and> unat (hashpjw [0x61, 0x62]) < 131071 \<and>
   unat (pphash [0x61, 0x62]) < 131071 \<and>
   (\<exists>h. razohash 5 [0x61, 0x62] 8 16 = Some h \<and> unat h < 2 ^ 16) \<and>
   (\<exists>h. hashq128 0 (\<lambda>_. 1) 8 16 = Some h \<and> unat h < 2 ^ 16) \<and>
   (\<exists>h. hashq128uptr 5 16 = Some h \<and> unat h < 2 ^ 16) \<and> mprimod 1000 (2 ^ 7 - 1) 7 = 1000 mod (2 ^ 7 - 1)"
  by (rule hash_ranges) simp_all

text \<open>
  At the largest number that the comment allows, the remainder is the prime itself instead of 0;
  the two-character hash ignores the rest of the string; and the value of the uninitialised
  variable shows in the hash of a single byte.
\<close>

lemma mprimod_boundary: "mprimod (2 ^ (2 * 7) - 1) 127 7 = 127"
  by (simp add: mprimod_def)

lemma pphash_prefix: "pphash (a # b # str) = pphash [a, b]"
  by (simp add: pphash_def numeral_2_eq_2)

lemma hashq128_uninitialised:
  "hashq128_tail m i 1 rax rcx 0 \<noteq> hashq128_tail m i 1 rax rcx 1"
proof -
  have "bit (push_bit 8 1 OR ucast (m i) :: u64) 8" by (simp add: bit_simps)
  moreover have "\<not> bit (push_bit 8 0 OR ucast (m i) :: u64) 8"
    by (auto simp: bit_simps dest: bit_imp_le_length)
  ultimately have "rcx XOR (push_bit 8 0 OR ucast (m i)) \<noteq> rcx XOR (push_bit 8 1 OR ucast (m i))"
    by (metis bit_xor_iff)
  then show ?thesis by (simp add: hashq128_tail_def)
qed

end
