(* ===== verification/Utf8.thy ===== *)
theory Utf8
  imports Prelude
begin

text \<open>
  Encoding and decoding of characters in UTF-8 (usr/lib/zero/utf8.h).  A character is a signed
  32-bit number.  The encoder returns the bytes it stores, their number being the value it
  returns and the distance by which it advances the string.  The decoder returns the character and
  the byte that it stores through \<open>retstr\<close>: this is a pointer to bytes, so that of the address behind
  the bytes it has read only the low byte is stored.  The right shift of a signed number is arithmetic.
\<close>

section \<open>The code\<close>

definition utf8byte :: "int \<Rightarrow> u8" where "utf8byte x = word_of_int x"

definition utf8encode :: "int \<Rightarrow> nat \<Rightarrow> u8 list" where
  "utf8encode uc nbmax =
     (let mask2 = 0x3f in
      if uc < 0x80 \<and> nbmax \<noteq> 0 then [utf8byte (uc AND 0x7f)]
      else if uc < 0x800 \<and> 2 \<le> nbmax then
        [utf8byte (0xc0 OR (drop_bit 6 uc AND 0x1f)), utf8byte (0x80 OR (uc AND mask2))]
      else if uc < 0x10000 \<and> 3 \<le> nbmax then
        [utf8byte (0xe0 OR (drop_bit 12 uc AND 0x0f)), utf8byte (0x80 OR (drop_bit 6 uc AND mask2)),
         utf8byte (0x80 OR (uc AND mask2))]
      else if uc < 0x2000000 \<and> 4 \<le> nbmax then
        [utf8byte (0xf0 OR (drop_bit 18 uc AND 0x07)), utf8byte (0x80 OR c_mod (drop_bit 12 uc) mask2),
         utf8byte (0x80 OR (drop_bit 6 uc AND mask2)), utf8byte (0x80 OR (uc AND mask2))]
      else if uc < 0x40000000 \<and> 5 \<le> nbmax then
        [utf8byte (0xf8 OR (drop_bit 24 uc AND 0x03)), utf8byte (0x80 OR (drop_bit 18 uc AND mask2)),
         utf8byte (0x80 OR (drop_bit 12 uc AND mask2)), utf8byte (0x80 OR (drop_bit 6 uc AND mask2)),
         utf8byte (0x80 OR (uc AND mask2))]
      else if 6 \<le> nbmax then
        [utf8byte (0xfc OR (drop_bit 30 uc AND 0x01)), utf8byte (0x80 OR (drop_bit 24 uc AND mask2)),
         utf8byte (0x80 OR (drop_bit 18 uc AND mask2)), utf8byte (0x80 OR (drop_bit 12 uc AND mask2)),
         utf8byte (0x80 OR (drop_bit 6 uc AND mask2)), utf8byte (0x80 OR (uc AND mask2))]
      else [])"

text \<open>The loop over the bytes that follow the first.\<close>

fun utf8decode_loop :: "int \<Rightarrow> u8 list \<Rightarrow> int" where
  "utf8decode_loop uc [] = uc"
| "utf8decode_loop uc (b # bs) = utf8decode_loop (push_bit 6 uc OR (uint b AND 0x3f)) bs"

text \<open>The number of bytes and the mask of the first byte, by its leading bits.\<close>

definition utf8first :: "int \<Rightarrow> nat \<Rightarrow> nat \<times> int" where
  "utf8first c nbmax =
     (if c AND 0x80 = 0 \<and> nbmax \<noteq> 0 then (1, 0)
      else if c AND 0xe0 = 0xc0 \<and> 2 \<le> nbmax then (2, NOT 0xc0)
      else if c AND 0xf0 = 0xe0 \<and> 3 \<le> nbmax then (3, NOT 0xe0)
      else if c AND 0xf8 = 0xf0 \<and> 4 \<le> nbmax then (4, NOT 0xf0)
      else if c AND 0xfc = 0xf8 \<and> 5 \<le> nbmax then (5, NOT 0xf8)
      else if 6 \<le> nbmax then (6, NOT 0xfd)
      else (0, 0))"

text \<open>
  The string at the address \<open>adr\<close> holds at least \<open>nbmax\<close> bytes; a read past its end gives
  \<open>None\<close>, and so does the overflow of the shifted character.  Nothing is stored when no byte is read.
\<close>

definition utf8decode :: "u64 \<Rightarrow> u8 list \<Rightarrow> nat \<Rightarrow> (int \<times> u8 option) option" where
  "utf8decode adr str nbmax =
     (case str of [] \<Rightarrow> None
      | b # bs \<Rightarrow>
          let c = uint b; (len, msk) = utf8first c nbmax; ret = Some (ucast (adr + of_nat len))
          in if len = 0 then Some (0, None)
             else if len = 1 then Some (c, ret)
             else if length bs < len - 1 then None
             else let uc = utf8decode_loop (c AND msk) (take (len - 1) bs) in
               if uc < 2 ^ 31 then Some (uc, ret) else None)"

section \<open>Single bytes\<close>

lemma cont_byte:
  assumes "0 \<le> y" "y < 64"
  shows "uint (utf8byte (0x80 OR y)) AND 0x3f = y"
proof -
  have "list_all (\<lambda>y. uint (utf8byte (0x80 OR y)) AND 0x3f = y) [0..63]" by code_simp
  then show ?thesis using assms by (auto simp: list_all_iff)
qed

lemma lead1:
  assumes "0 \<le> y" "y < 128"
  shows "uint (utf8byte y) = y \<and> y AND 0x80 = 0"
proof -
  have "list_all (\<lambda>y. uint (utf8byte y) = y \<and> y AND 0x80 = 0) [0..127]" by code_simp
  then show ?thesis using assms by (auto simp: list_all_iff)
qed

lemma lead2:
  assumes "0 \<le> y" "y < 32"
  defines "c \<equiv> uint (utf8byte (0xc0 OR y))"
  shows "c AND 0x80 \<noteq> 0 \<and> c AND 0xe0 = 0xc0 \<and> c AND NOT 0xc0 = y"
proof -
  have "list_all (\<lambda>y. let c = uint (utf8byte (0xc0 OR y)) in
      c AND 0x80 \<noteq> 0 \<and> c AND 0xe0 = 0xc0 \<and> c AND NOT 0xc0 = y) [0..31]" by code_simp
  then show ?thesis using assms by (auto simp: list_all_iff Let_def)
qed

lemma lead3:
  assumes "0 \<le> y" "y < 16"
  defines "c \<equiv> uint (utf8byte (0xe0 OR y))"
  shows "c AND 0x80 \<noteq> 0 \<and> c AND 0xe0 \<noteq> 0xc0 \<and> c AND 0xf0 = 0xe0 \<and> c AND NOT 0xe0 = y"
proof -
  have "list_all (\<lambda>y. let c = uint (utf8byte (0xe0 OR y)) in
      c AND 0x80 \<noteq> 0 \<and> c AND 0xe0 \<noteq> 0xc0 \<and> c AND 0xf0 = 0xe0 \<and> c AND NOT 0xe0 = y) [0..15]" by code_simp
  then show ?thesis using assms by (auto simp: list_all_iff Let_def)
qed

lemma lead5:
  assumes "0 \<le> y" "y < 4"
  defines "c \<equiv> uint (utf8byte (0xf8 OR y))"
  shows "c AND 0x80 \<noteq> 0 \<and> c AND 0xe0 \<noteq> 0xc0 \<and> c AND 0xf0 \<noteq> 0xe0 \<and> c AND 0xf8 \<noteq> 0xf0 \<and>
    c AND 0xfc = 0xf8 \<and> c AND NOT 0xf8 = y"
proof -
  have "list_all (\<lambda>y. let c = uint (utf8byte (0xf8 OR y)) in
      c AND 0x80 \<noteq> 0 \<and> c AND 0xe0 \<noteq> 0xc0 \<and> c AND 0xf0 \<noteq> 0xe0 \<and> c AND 0xf8 \<noteq> 0xf0 \<and>
      c AND 0xfc = 0xf8 \<and> c AND NOT 0xf8 = y) [0..3]" by code_simp
  then show ?thesis using assms by (auto simp: list_all_iff Let_def)
qed

text \<open>Joining six more bits.\<close>

lemma join6: "0 \<le> b \<Longrightarrow> b < 64 \<Longrightarrow> push_bit 6 a OR b = a * 64 + b" for a b :: int
  using concat_bit_def [of 6 b a] concat_bit_eq [of 6 b a]
  by (simp add: take_bit_int_eq_self push_bit_eq_mult or.commute)

lemma and_masks:
  "uc AND 0x3f = uc mod 64" "uc AND 0x1f = uc mod 32" "uc AND 0x0f = uc mod 16" "uc AND 0x03 = uc mod 4"
  "uc AND 0x7f = uc mod 128" for uc :: int
  using take_bit_eq_mask [of 6 uc] take_bit_eq_mask [of 5 uc] take_bit_eq_mask [of 4 uc]
    take_bit_eq_mask [of 2 uc] take_bit_eq_mask [of 7 uc]
  by (simp_all add: mask_eq_exp_minus_1 take_bit_eq_mod)

section \<open>Round trip\<close>

lemma roundtrip1: "0 \<le> uc \<Longrightarrow> uc < 0x80 \<Longrightarrow> 1 \<le> nb \<Longrightarrow> utf8decode adr (utf8encode uc nb) nb = Some (uc, Some (ucast (adr + 1)))"
  using lead1 [of uc] by (simp add: utf8encode_def utf8decode_def utf8first_def and_masks Let_def)

text \<open>Decoding of a first byte with its continuation bytes, for each length.\<close>

lemma decode_multi:
  assumes "utf8first (uint b) nb = (len, msk)" "uint b AND msk = a" "1 < len" "length bs = len - 1"
    "utf8decode_loop a bs = uc" "uc < 2 ^ 31"
  shows "utf8decode adr (b # bs) nb = Some (uc, Some (ucast (adr + of_nat len)))"
  using assms by (simp add: utf8decode_def Let_def)

lemma decode2:
  assumes "0 \<le> a" "a < 32" "0 \<le> b" "b < 64" "2 \<le> nb"
  shows "utf8decode adr [utf8byte (0xc0 OR a), utf8byte (0x80 OR b)] nb = Some (a * 64 + b, Some (ucast (adr + 2)))"
proof (rule decode_multi [where len = 2, simplified])
  show "utf8first (uint (utf8byte (0xc0 OR a))) nb = (2, NOT 0xc0)"
    using lead2 [OF assms(1,2)] assms(5) by (simp only: utf8first_def simp_thms if_True if_False)
  show "utf8decode_loop a [utf8byte (0x80 OR b)] = a * 64 + b"
    using assms by (simp only: utf8decode_loop.simps cont_byte join6)
qed (use lead2 [OF assms(1,2)] assms in simp_all)

lemma decode3:
  assumes "0 \<le> a" "a < 16" "0 \<le> b" "b < 64" "0 \<le> d" "d < 64" "3 \<le> nb"
  shows "utf8decode adr [utf8byte (0xe0 OR a), utf8byte (0x80 OR b), utf8byte (0x80 OR d)] nb =
    Some ((a * 64 + b) * 64 + d, Some (ucast (adr + 3)))"
proof (rule decode_multi [where len = 3, simplified])
  show "utf8first (uint (utf8byte (0xe0 OR a))) nb = (3, NOT 0xe0)"
    using lead3 [OF assms(1,2)] assms(7) by (simp only: utf8first_def simp_thms if_True if_False)
  show "utf8decode_loop a [utf8byte (0x80 OR b), utf8byte (0x80 OR d)] = (a * 64 + b) * 64 + d"
    using assms by (simp only: utf8decode_loop.simps cont_byte join6)
qed (use lead3 [OF assms(1,2)] assms in simp_all)

lemma decode5:
  assumes "0 \<le> a" "a < 4" "0 \<le> b" "b < 64" "0 \<le> d" "d < 64" "0 \<le> e" "e < 64" "0 \<le> f" "f < 64" "5 \<le> nb"
  shows "utf8decode adr [utf8byte (0xf8 OR a), utf8byte (0x80 OR b), utf8byte (0x80 OR d), utf8byte (0x80 OR e),
      utf8byte (0x80 OR f)] nb =
    Some ((((a * 64 + b) * 64 + d) * 64 + e) * 64 + f, Some (ucast (adr + 5)))"
proof (rule decode_multi [where len = 5, simplified])
  show "utf8first (uint (utf8byte (0xf8 OR a))) nb = (5, NOT 0xf8)"
    using lead5 [OF assms(1,2)] assms(11) by (simp only: utf8first_def simp_thms if_True if_False)
  show "utf8decode_loop a [utf8byte (0x80 OR b), utf8byte (0x80 OR d), utf8byte (0x80 OR e),
      utf8byte (0x80 OR f)] = (((a * 64 + b) * 64 + d) * 64 + e) * 64 + f"
    using assms by (simp only: utf8decode_loop.simps cont_byte join6)
qed (use lead5 [OF assms(1,2)] assms in simp_all)

lemma digits64:
  fixes uc :: int
  shows "0 \<le> uc \<Longrightarrow> uc < 65536 \<Longrightarrow> (uc div 4096 mod 16 * 64 + uc div 64 mod 64) * 64 + uc mod 64 = uc"
    and "0 \<le> uc \<Longrightarrow> uc < 67108864 \<Longrightarrow>
      (((uc div 16777216 mod 4 * 64 + uc div 262144 mod 64) * 64 + uc div 4096 mod 64) * 64 + uc div 64 mod 64) * 64 +
        uc mod 64 = uc"
proof -
  define a b c where "a = uc div 64" and "b = a div 64" and "c = b div 64"
  have e: "uc div 4096 = b" "uc div 262144 = c" "uc div 16777216 = c div 64"
    by (simp_all add: a_def b_def c_def zdiv_zmult2_eq [symmetric])
  have d: "a * 64 + uc mod 64 = uc" "b * 64 + a mod 64 = a" "c * 64 + b mod 64 = b" "c div 64 * 64 + c mod 64 = c"
    by (simp_all add: a_def b_def c_def)
  show "(uc div 4096 mod 16 * 64 + uc div 64 mod 64) * 64 + uc mod 64 = uc" if "0 \<le> uc" "uc < 65536"
  proof -
    have "b mod 16 = b" using that e(1) by simp
    then show ?thesis unfolding e using d by (simp add: a_def)
  qed
  show "(((uc div 16777216 mod 4 * 64 + uc div 262144 mod 64) * 64 + uc div 4096 mod 64) * 64 + uc div 64 mod 64) * 64 +
      uc mod 64 = uc" if "0 \<le> uc" "uc < 67108864"
  proof -
    have "c div 64 mod 4 = c div 64" using that e(3) by simp
    then show ?thesis unfolding e using d by (simp add: a_def)
  qed
qed

lemma drop_bits:
  "drop_bit 6 uc = uc div 64" "drop_bit 12 uc = uc div 4096" "drop_bit 18 uc = uc div 262144"
  "drop_bit 24 uc = uc div 16777216" for uc :: int
  by (simp_all add: drop_bit_eq_div)

lemma roundtrip2:
  assumes "0x80 \<le> uc" "uc < 0x800" "2 \<le> nb"
  shows "utf8decode adr (utf8encode uc nb) nb = Some (uc, Some (ucast (adr + 2)))"
proof -
  have "\<not> uc < 0x80" using assms by simp
  then have e: "utf8encode uc nb = [utf8byte (0xc0 OR uc div 64 mod 32), utf8byte (0x80 OR uc mod 64)]"
    using assms by (simp only: utf8encode_def Let_def and_masks drop_bits simp_thms if_True if_False)
  have "uc div 64 mod 32 * 64 + uc mod 64 = uc" using assms by auto
  then show ?thesis unfolding e using assms(3) by (subst decode2) simp_all
qed

lemma roundtrip3:
  assumes "0x800 \<le> uc" "uc < 0x10000" "3 \<le> nb"
  shows "utf8decode adr (utf8encode uc nb) nb = Some (uc, Some (ucast (adr + 3)))"
proof -
  have "\<not> uc < 0x80" "\<not> uc < 0x800" using assms by simp_all
  then have e: "utf8encode uc nb = [utf8byte (0xe0 OR uc div 4096 mod 16), utf8byte (0x80 OR uc div 64 mod 64),
      utf8byte (0x80 OR uc mod 64)]"
    using assms by (simp only: utf8encode_def Let_def and_masks drop_bits simp_thms if_True if_False)
  have "0 \<le> uc" using assms by simp
  then have d: "(uc div 4096 mod 16 * 64 + uc div 64 mod 64) * 64 + uc mod 64 = uc"
    using assms(2) by (intro digits64)
  show ?thesis unfolding e using assms(3) by (intro decode3 [of "uc div 4096 mod 16" "uc div 64 mod 64" "uc mod 64" nb, unfolded d]) simp_all
qed

lemma roundtrip5:
  assumes "0x2000000 \<le> uc" "uc < 0x4000000" "5 \<le> nb"
  shows "utf8decode adr (utf8encode uc nb) nb = Some (uc, Some (ucast (adr + 5)))"
proof -
  have "\<not> uc < 0x80" "\<not> uc < 0x800" "\<not> uc < 0x10000" "\<not> uc < 0x2000000" "uc < 0x40000000"
    using assms by simp_all
  then have e: "utf8encode uc nb = [utf8byte (0xf8 OR uc div 16777216 mod 4), utf8byte (0x80 OR uc div 262144 mod 64),
      utf8byte (0x80 OR uc div 4096 mod 64), utf8byte (0x80 OR uc div 64 mod 64), utf8byte (0x80 OR uc mod 64)]"
    using assms by (simp only: utf8encode_def Let_def and_masks drop_bits simp_thms if_True if_False)
  have "0 \<le> uc" using assms by simp
  then have d: "(((uc div 16777216 mod 4 * 64 + uc div 262144 mod 64) * 64 + uc div 4096 mod 64) * 64 +
      uc div 64 mod 64) * 64 + uc mod 64 = uc"
    using assms(2) by (intro digits64)
  show ?thesis unfolding e using assms(3) 
    by (intro decode5 [of "uc div 16777216 mod 4" "uc div 262144 mod 64" "uc div 4096 mod 64" "uc div 64 mod 64"
      "uc mod 64" nb, unfolded d]) simp_all
qed

text \<open>The bytes that hold a character of the ranges below.\<close>

definition utf8bytes :: "int \<Rightarrow> nat" where
  "utf8bytes uc = (if uc < 0x80 then 1 else if uc < 0x800 then 2 else if uc < 0x10000 then 3 else 5)"

text \<open>
  C32: every character below 0x10000, and every character from 0x2000000 up to 0x4000000, is encoded in
  the one, two, three or five bytes of its range when there is room for them, and decoding these bytes
  gives the character back.  Of the address behind the bytes the decoder stores the low byte only.  A
  room of no bytes stores nothing.
\<close>

theorem utf8_roundtrip:
  assumes "0 \<le> uc \<and> uc < 0x10000 \<or> 0x2000000 \<le> uc \<and> uc < 0x4000000" "utf8bytes uc \<le> nb"
  shows "length (utf8encode uc nb) = utf8bytes uc \<and>
    utf8decode adr (utf8encode uc nb) nb = Some (uc, Some (ucast (adr + of_nat (utf8bytes uc)))) \<and>
    utf8encode uc 0 = []"
proof -
  consider "0 \<le> uc" "uc < 0x80" | "0x80 \<le> uc" "uc < 0x800" | "0x800 \<le> uc" "uc < 0x10000"
    | "0x2000000 \<le> uc" "uc < 0x4000000" using assms(1) by linarith
  then have "utf8decode adr (utf8encode uc nb) nb = Some (uc, Some (ucast (adr + of_nat (utf8bytes uc))))"
    using assms(2) roundtrip1 [of uc nb adr] roundtrip2 [of uc nb adr] roundtrip3 [of uc nb adr] roundtrip5 [of uc nb adr]
    by cases (simp_all add: utf8bytes_def)
  moreover have "length (utf8encode uc nb) = utf8bytes uc"
    using assms by (auto simp: utf8encode_def utf8bytes_def Let_def split: if_splits)
  ultimately show ?thesis by (simp add: utf8encode_def Let_def)
qed

theorem utf8_roundtrip_witness:
  "utf8encode 0x20ac 6 = [0xe2, 0x82, 0xac] \<and> utf8decode 0x12fe [0xe2, 0x82, 0xac] 6 = Some (0x20ac, Some 1)"
proof -
  have e: "utf8encode 0x20ac 6 = [0xe2, 0x82, 0xac]" by code_simp
  show ?thesis using utf8_roundtrip [of "0x20ac" 6 "0x12fe"] by (simp add: e utf8bytes_def)
qed

section \<open>The longer encodings\<close>

text \<open>
  In the encoding in four bytes the second byte is computed with a remainder by 63 where a mask
  by 63 is meant: the character 0x1f600 decodes as 0x1f600, but 0x3f000 does not come back.
\<close>

lemma utf8_four_bytes:
  "utf8decode 0 (utf8encode 0x1f600 4) 4 = Some (0x1f600, Some 4)"
  "utf8decode 0 (utf8encode 0x3f000 4) 4 = Some (0, Some 4)"
  "utf8decode 0 (utf8encode 0x10ffff 4) 4 = Some (0x113fff, Some 4)"
  by code_simp+

text \<open>
  The limits of the longer encodings have a digit too many: characters from 0x200000 are stored
  in four bytes, from 0x4000000 in five, which do not hold them.
\<close>

lemma utf8_limits:
  "utf8decode 0 (utf8encode 0x200000 6) 6 = Some (0x8000, Some 4)"
  "utf8decode 0 (utf8encode 0x4000000 6) 6 = Some (0, Some 5)"
  by code_simp+

text \<open>The encoding in six bytes is decoded with the mask of the bits other than the last.\<close>

lemma utf8_six_bytes: "utf8decode 0 (utf8encode 0x40000000 6) 6 = Some (0, Some 6)"
  by code_simp

end
