(* ===== verification/Vm.thy ===== *)
theory Vm
  imports Pages "HOL-Library.Monad_Syntax"
begin

text \<open>
  Virtual memory of the ia32 (kern/unit/ia32/vm.c, vm.h): the flat table of 1024 * 1024 page table
  entries at \<open>_pagetab\<close>, the page directory, mapping and release of segments, and the page
  fault handler on top of the allocator of physical pages.

  Every call passes \<open>_pagetab\<close> as the table, so that it is the table of the state.  A read or
  write past the end of the table and a lock that is already held give \<^const>\<open>None\<close>.  The
  clearing of the kernel stacks, the loading of the control registers and the console output of the
  handler are left out.
\<close>

section \<open>Parameters and state\<close>

definition NPDE :: nat where "NPDE = 1024"
definition NPTE :: nat where "NPTE = 1024"
definition PTSHIFT :: nat where "PTSHIFT = 12"
definition VMPAGEMASK :: u32 where "VMPAGEMASK = 0xfffff000"
definition KERNVIRTBASE :: u32 where "KERNVIRTBASE = 0xc0000000"
definition HICORE :: u32 where "HICORE = 1024 * 1024"
definition KERNSTKSIZE :: u32 where "KERNSTKSIZE = PAGESIZE"
definition NCPU :: u32 where "NCPU = 1"
definition PAGETABSIZE :: u32 where "PAGETABSIZE = 1024 * 1024 * 4"
definition DMABUFBASE :: u32 where "DMABUFBASE = 0x00800000"
definition DMABUFSIZE :: u32 where "DMABUFSIZE = 8 * (1024 * 1024)"

definition PAGEPRES :: u32 where "PAGEPRES = 0x00000001"
definition PAGEWRITE :: u32 where "PAGEWRITE = 0x00000002"
definition PAGEUSER :: u32 where "PAGEUSER = 0x00000004"
definition PAGENOCACHE :: u32 where "PAGENOCACHE = 0x00000010"
definition PAGESWAPPED :: u32 where "PAGESWAPPED = 0x00000200"
definition PAGEBUF :: u32 where "PAGEBUF = 0x00000400"
definition PAGEWIRED :: u32 where "PAGEWIRED = 0x00000800"
definition PAGESYSFLAGS :: u32 where "PAGESYSFLAGS = PAGESWAPPED OR PAGEBUF OR PAGEWIRED"
definition PAGEFLTFLGMASK :: u32 where "PAGEFLTFLGMASK = 0x0000001f"
definition PAGEFLTADRMASK :: u32 where "PAGEFLTADRMASK = 0xffffffe0"

definition vmlinkadr :: "u32 \<Rightarrow> u32" where "vmlinkadr adr = adr - KERNVIRTBASE"
definition vmpagenum :: "u32 \<Rightarrow> nat" where "vmpagenum adr = unat (drop_bit PTSHIFT adr)"
definition vmpageofs :: "u32 \<Rightarrow> u32" where "vmpageofs adr = adr AND (PAGESIZE - 1)"

text \<open>The allocator's state holds the page table; beside it the counters and the page directory.\<close>

record vmmem =
  vmp :: vmstate
  nmap :: u32
  nwire :: u32
  kernpagedir :: "nat \<Rightarrow> u32"

definition vmphysadr :: "vmmem \<Rightarrow> u32 \<Rightarrow> u32" where
  "vmphysadr m adr = pagetab (vmp m) (vmpagenum adr) AND VMPAGEMASK"

definition setpagetab :: "(nat \<Rightarrow> u32) \<Rightarrow> vmmem \<Rightarrow> vmmem" where
  "setpagetab tab m = m\<lparr>vmp := (vmp m)\<lparr>pagetab := tab\<rparr>\<rparr>"

section \<open>Mapping\<close>

text \<open>The loops run over \<open>n\<close> entries from the index \<open>pte\<close>.\<close>

fun map_loop :: "nat \<Rightarrow> nat \<Rightarrow> u32 \<Rightarrow> u32 \<Rightarrow> (nat \<Rightarrow> u32) \<Rightarrow> (nat \<Rightarrow> u32) option" where
  "map_loop 0 pte phys flg tab = Some tab"
| "map_loop (Suc n) pte phys flg tab =
     (if pte < NPDE * NPTE
      then map_loop n (Suc pte) (phys + PAGESIZE) flg (tab(pte := phys OR flg)) else None)"

definition vmmapseg :: "u32 \<Rightarrow> u32 \<Rightarrow> u32 \<Rightarrow> u32 \<Rightarrow> vmmem \<Rightarrow> vmmem option" where
  "vmmapseg virt phys lim flg m =
     (let n = drop_bit PAGESIZELOG2 (rounduppow2 (lim - virt) PAGESIZE);
          pte = vmpagenum virt;
          m = m\<lparr>nmap := nmap m + n\<rparr>
      in do { tab \<leftarrow> map_loop (unat n) pte phys flg (pagetab (vmp m)); Some (setpagetab tab m) })"

fun virt_loop :: "nat \<Rightarrow> nat \<Rightarrow> u32 \<Rightarrow> (nat \<Rightarrow> u32) \<Rightarrow> (nat \<Rightarrow> u32) option" where
  "virt_loop 0 pte flg tab = Some tab"
| "virt_loop (Suc n) pte flg tab =
     (if pte < NPDE * NPTE then virt_loop n (Suc pte) flg (tab(pte := flg)) else None)"

definition vminitvirt :: "u32 \<Rightarrow> u32 \<Rightarrow> u32 \<Rightarrow> vmmem \<Rightarrow> vmmem option" where
  "vminitvirt virt sz flg m =
     (let n = drop_bit PAGESIZELOG2 (rounduppow2 sz PAGESIZE)
      in do { tab \<leftarrow> virt_loop (unat n) (vmpagenum virt) flg (pagetab (vmp m)); Some (setpagetab tab m) })"

definition vminitphys :: "u32 \<Rightarrow> u32 \<Rightarrow> vmmem \<Rightarrow> vmmem option" where
  "vminitphys base nbphys m =
     (let nb = (if nbphys < KERNVIRTBASE then nbphys else KERNVIRTBASE)
      in do { (sz, s) \<leftarrow> pageinitphys base nb (vmp m); Some (m\<lparr>vmp := s\<rparr>) })"

section \<open>Initialisation\<close>

text \<open>The addresses that the linker assigns.\<close>

record linksyms =
  l_pagetab :: u32
  l_kernpagedir :: u32
  l_kernsysstktab :: u32
  l_kernusrstktab :: u32
  l_eboot :: u32
  l_usysinfo :: u32
  l_eusysinfo :: u32
  l_dmabuf :: u32
  l_text :: u32
  l_textvirt :: u32
  l_etextvirt :: u32
  l_data :: u32
  l_datavirt :: u32
  l_ebssvirt :: u32

fun pagedir_loop :: "nat \<Rightarrow> nat \<Rightarrow> u32 \<Rightarrow> (nat \<Rightarrow> u32) \<Rightarrow> (nat \<Rightarrow> u32)" where
  "pagedir_loop 0 pde adr dir = dir"
| "pagedir_loop (Suc n) pde adr dir =
     pagedir_loop n (Suc pde) (adr + of_nat NPTE * 4) (dir(pde := adr OR PAGEPRES OR PAGEWRITE))"

definition vminit :: "linksyms \<Rightarrow> vmmem \<Rightarrow> vmmem option" where
  "vminit l m =
     (let m = m\<lparr>kernpagedir := pagedir_loop NPDE 0 (l_pagetab l) (kernpagedir m)\<rparr>;
          tab = (pagetab (vmp m))
            (vmpagenum (l_kernpagedir l) := l_kernpagedir l OR PAGEUSER OR PAGEPRES OR PAGEWRITE);
          tab = (\<lambda>i. if i < NPDE * NPTE then 0 else tab i);
          m = setpagetab tab m
      in do {
        m \<leftarrow> vmmapseg (l_kernsysstktab l) (l_kernsysstktab l) (l_kernsysstktab l + NCPU * KERNSTKSIZE)
          (PAGEPRES OR PAGEWRITE) m;
        m \<leftarrow> vmmapseg (l_kernusrstktab l) (l_kernusrstktab l) (l_kernusrstktab l + NCPU * KERNSTKSIZE)
          (PAGEUSER OR PAGEPRES OR PAGEWRITE) m;
        m \<leftarrow> vmmapseg 0 0 HICORE (PAGEPRES OR PAGEWRITE OR PAGENOCACHE OR PAGEWIRED) m;
        m \<leftarrow> vmmapseg HICORE HICORE (l_eboot l) (PAGEPRES OR PAGEWRITE) m;
        m \<leftarrow> vmmapseg (l_usysinfo l) (l_usysinfo l) (l_eusysinfo l) (PAGEPRES OR PAGEWRITE) m;
        m \<leftarrow> vmmapseg (l_dmabuf l) DMABUFBASE (l_dmabuf l + DMABUFSIZE)
          (PAGEPRES OR PAGEWRITE OR PAGENOCACHE OR PAGEWIRED) m;
        m \<leftarrow> vmmapseg (l_pagetab l) (l_pagetab l) (l_pagetab l + PAGETABSIZE) (PAGEPRES OR PAGEWRITE OR PAGEWIRED) m;
        m \<leftarrow> vmmapseg (l_text l) (vmlinkadr (l_textvirt l)) (l_etextvirt l) PAGEPRES m;
        vmmapseg (l_data l) (vmlinkadr (l_datavirt l)) (l_ebssvirt l) (PAGEPRES OR PAGEWRITE) m
      })"

section \<open>Release and page faults\<close>

text \<open>At an entry without a page frame the loop continues without going on to the next entry.\<close>

fun free_loop :: "nat \<Rightarrow> nat \<Rightarrow> vmmem \<Rightarrow> vmmem option" where
  "free_loop 0 pte m = Some m"
| "free_loop (Suc n) pte m =
     (if pte < NPDE * NPTE then
        let e = pagetab (vmp m) pte; adr = e AND VMPAGEMASK in
        if adr = 0 then free_loop n pte m
        else let m = (if e AND PAGESWAPPED \<noteq> 0 then m
                      else if e AND PAGEWIRED = 0 then m\<lparr>nmap := nmap m - 1\<rparr>
                      else m\<lparr>nwire := nwire m - 1\<rparr>)
             in do { s \<leftarrow> pagefreephys adr (vmp m);
                     free_loop n (Suc pte) (m\<lparr>vmp := s\<lparr>pagetab := (pagetab s)(pte := 0)\<rparr>\<rparr>) }
      else None)"

definition vmfreephys :: "u32 \<Rightarrow> u32 \<Rightarrow> vmmem \<Rightarrow> vmmem option" where
  "vmfreephys virt sz m =
     (let n = drop_bit PAGESIZELOG2 (rounduppow2 sz PAGESIZE) in free_loop (unat n) (vmpagenum virt) m)"

definition vmpagefault :: "u32 \<Rightarrow> vmmem \<Rightarrow> vmmem option" where
  "vmpagefault adr m =
     (let pte = vmpagenum adr;
          flg = pagetab (vmp m) pte AND (PAGEFLTFLGMASK OR PAGESYSFLAGS)
      in if adr AND NOT (PAGEFLTADRMASK OR PAGESYSFLAGS) = 0 then
           do { (page, s) \<leftarrow> pageallocphys (vmp m);
                if page = 0 then Some (m\<lparr>vmp := s\<rparr>)
                else do {
                  s \<leftarrow> lk_page page s;
                  let s = s\<lparr>pnref := (pnref s)(page := pnref s page + 1)\<rparr>;
                  (s, m) \<leftarrow>
                    (if flg AND PAGEWIRED \<noteq> 0 then Some (s, m\<lparr>nwire := nwire m + 1\<rparr>)
                     else let m = m\<lparr>nmap := nmap m + 1\<rparr>;
                              s = s\<lparr>pnflt := (pnflt s)(page := pnflt s page + 1)\<rparr>
                          in if adr AND PAGEWIRED = 0 then
                               let qid = pagecalcqid page s in
                               if qid < PTRBITS then
                                 do { s \<leftarrow> lk_lru qid s; Some (unlk_lru qid (lru_push qid page s), m) }
                               else None
                             else Some (s, m));
                  let s = unlk_page page s;
                  Some (m\<lparr>vmp := s\<lparr>pagetab := (pagetab s)(pte := adr OR flg OR PAGEPRES)\<rparr>\<rparr>)
                } }
         else Some m)"

section \<open>Page arithmetic\<close>

lemma vmpagenum_div: "vmpagenum a = unat a div 4096"
  by (simp add: vmpagenum_def PTSHIFT_def unat_drop_bit_div)

lemma vmpagenum_less: "vmpagenum a < NPDE * NPTE"
  using unat_u32_bound [of a] by (simp add: vmpagenum_div NPDE_def NPTE_def less_mult_imp_div_less)

lemma vmpageofs_mod: "unat (vmpageofs a) = unat a mod 4096"
proof -
  have "PAGESIZE - 1 = mask 12" by (simp add: PAGESIZE_def mask_eq_exp_minus_1)
  then have "unat (vmpageofs a) = unat a mod 2 ^ 12" unfolding vmpageofs_def by (simp only: unat_and_mask)
  then show ?thesis by simp
qed

lemma vmpageofs_zero: "vmpageofs a = 0 \<longleftrightarrow> 4096 dvd unat a"
  using vmpageofs_mod [of a] by (metis dvd_eq_mod_eq_0 unat_eq_zero)

lemma VMPAGEMASK_not: "VMPAGEMASK = NOT (PAGESIZE - 1)"
  by (simp add: VMPAGEMASK_def PAGESIZE_def)

text \<open>Frame and flags of an entry do not disturb each other.\<close>

lemma disjoint_bits: "x AND w = 0 \<Longrightarrow> x AND NOT w = x" for x w :: u32
  by (auto simp: bit_eq_iff bit_and_iff bit_not_iff)

lemma entry_parts:
  assumes "vmpageofs x = 0" "flg AND VMPAGEMASK = 0"
  shows "(x OR flg) AND VMPAGEMASK = x" "vmpageofs (x OR flg) = flg"
proof -
  have "flg AND (PAGESIZE - 1) = flg" "x AND NOT (PAGESIZE - 1) = x"
    using disjoint_bits [of flg "NOT (PAGESIZE - 1)"] disjoint_bits [of x "PAGESIZE - 1"] assms
    by (simp_all add: VMPAGEMASK_not vmpageofs_def)
  then show "(x OR flg) AND VMPAGEMASK = x" "vmpageofs (x OR flg) = flg"
    using assms unfolding VMPAGEMASK_not vmpageofs_def by (simp_all add: bit.conj_disj_distrib2)
qed

lemma vmpageofs_add: "vmpageofs x = 0 \<Longrightarrow> vmpageofs (x + of_nat j * PAGESIZE) = 0"
proof -
  assume "vmpageofs x = 0"
  then have "4096 dvd unat x" by (simp add: vmpageofs_zero)
  moreover have "unat (x + of_nat j * PAGESIZE) = (unat x + j * 4096) mod 2 ^ 32"
    by (simp add: unat_word_ariths PAGESIZE_def unat_of_nat mod_add_right_eq mod_mult_left_eq)
  moreover have "4096 dvd (2 ^ 32 :: nat)" by simp
  ultimately show ?thesis unfolding vmpageofs_zero by (metis dvd_add dvd_mod dvd_triv_right)
qed

text \<open>The number of pages the loops handle.\<close>

lemma page_count:
  assumes "unat sz \<le> 2 ^ 32 - 4096"
  shows "unat (drop_bit PAGESIZELOG2 (rounduppow2 sz PAGESIZE)) = (unat sz + 4095) div 4096"
proof -
  have "PAGESIZE = 2 ^ 12" by (simp add: PAGESIZE_def)
  then have "unat (rounduppow2 sz PAGESIZE) = 2 ^ 12 * ((unat sz + (2 ^ 12 - 1)) div 2 ^ 12)"
    using rounduppow2_exact [of 12 sz] assms by simp
  then show ?thesis by (simp add: unat_drop_bit_div PAGESIZELOG2_def)
qed

section \<open>Mapping\<close>

lemma map_loop_entries:
  assumes "pte + n \<le> NPDE * NPTE"
  shows "\<exists>tab'. map_loop n pte phys flg tab = Some tab' \<and>
    (\<forall>j<n. tab' (pte + j) = (phys + of_nat j * PAGESIZE) OR flg) \<and>
    (\<forall>i. i < pte \<or> pte + n \<le> i \<longrightarrow> tab' i = tab i)"
  using assms
proof (induction n arbitrary: pte phys tab)
  case (Suc n)
  obtain tab' where t: "map_loop n (Suc pte) (phys + PAGESIZE) flg (tab(pte := phys OR flg)) = Some tab'"
    "\<forall>j<n. tab' (Suc pte + j) = ((phys + PAGESIZE) + of_nat j * PAGESIZE) OR flg"
    "\<forall>i. i < Suc pte \<or> Suc pte + n \<le> i \<longrightarrow> tab' i = (tab(pte := phys OR flg)) i"
    using Suc.IH [of "Suc pte" "phys + PAGESIZE" "tab(pte := phys OR flg)"] Suc.prems
    by (auto simp del: fun_upd_apply)
  have "tab' (pte + j) = (phys + of_nat j * PAGESIZE) OR flg" if "j < Suc n" for j
  proof (cases j)
    case (Suc k)
    then show ?thesis using t(2) that by (simp add: algebra_simps)
  qed (use t(3) in simp)
  then show ?case using t Suc.prems by simp
qed simp

lemma vmmapseg_entries:
  assumes "vmpageofs virt = 0" "virt \<le> lim" "unat lim \<le> 2 ^ 32 - 4096"
  defines "n \<equiv> (unat lim - unat virt + 4095) div 4096"
  shows "\<exists>tab. vmmapseg virt phys lim flg m = Some (setpagetab tab (m\<lparr>nmap := nmap m + of_nat n\<rparr>)) \<and>
    vmpagenum virt + n = (unat lim + 4095) div 4096 \<and>
    (\<forall>j<n. tab (vmpagenum virt + j) = (phys + of_nat j * PAGESIZE) OR flg) \<and>
    (\<forall>i. i < vmpagenum virt \<or> vmpagenum virt + n \<le> i \<longrightarrow> tab i = pagetab (vmp m) i)"
proof -
  have le: "unat virt \<le> unat lim" using assms(2) by (simp add: word_le_nat_alt)
  have d: "unat (lim - virt) = unat lim - unat virt" by (rule unat_sub) (rule assms(2))
  define k where "k = drop_bit PAGESIZELOG2 (rounduppow2 (lim - virt) PAGESIZE)"
  have k: "unat k = n"
    unfolding k_def n_def using page_count [of "lim - virt"] assms(3) d by simp
  obtain q where q: "unat virt = 4096 * q" using assms(1) unfolding vmpageofs_zero by (elim dvdE)
  have s: "vmpagenum virt + n = (unat lim + 4095) div 4096"
  proof -
    have "unat lim + 4095 = (unat lim - unat virt + 4095) + 4096 * q" using le q by simp
    then have "(unat lim + 4095) div 4096 = q + n" unfolding n_def by (simp only: div_mult_self2 numeral_eq_iff)
    then show ?thesis using q by (simp add: vmpagenum_div)
  qed
  have "vmpagenum virt + n \<le> NPDE * NPTE"
    unfolding s using assms(3) by (simp add: NPDE_def NPTE_def)
  from map_loop_entries [OF this, of phys flg "pagetab (vmp m)"] obtain tab where
    "map_loop n (vmpagenum virt) phys flg (pagetab (vmp m)) = Some tab"
    "\<forall>j<n. tab (vmpagenum virt + j) = (phys + of_nat j * PAGESIZE) OR flg"
    "\<forall>i. i < vmpagenum virt \<or> vmpagenum virt + n \<le> i \<longrightarrow> tab i = pagetab (vmp m) i" by blast
  moreover have "k = of_nat n" unfolding k [symmetric] by simp
  ultimately show ?thesis
    using s k unfolding vmmapseg_def Let_def k_def [symmetric] by (intro exI [of _ tab]) simp
qed

lemma page_start: "a AND VMPAGEMASK = of_nat (4096 * vmpagenum a)"
proof (rule word_eq_natI)
  have "unat (a AND VMPAGEMASK) = 2 ^ 12 * (unat a div 2 ^ 12)"
    using rounddownpow2_exact [of 12 a] by (simp add: rounddownpow2_def VMPAGEMASK_not PAGESIZE_def)
  moreover have "4096 * vmpagenum a < 2 ^ 32"
    using vmpagenum_less [of a] by (simp add: NPDE_def NPTE_def)
  moreover have "unat (of_nat k :: u32) = k" if "k < 2 ^ 32" for k using that by (simp add: unat_of_nat)
  ultimately show "unat (a AND VMPAGEMASK) = unat (of_nat (4096 * vmpagenum a) :: u32)"
    by (simp only: vmpagenum_div) simp
qed

lemma page_distance:
  assumes "vmpageofs virt = 0" "vmpagenum a = vmpagenum virt + j"
  shows "of_nat j * PAGESIZE = (a AND VMPAGEMASK) - virt"
proof -
  have "virt AND VMPAGEMASK = virt"
    using disjoint_bits [of virt "PAGESIZE - 1"] assms(1) by (simp add: vmpageofs_def VMPAGEMASK_not)
  then have v: "virt = of_nat (4096 * vmpagenum virt)" using page_start [of virt] by simp
  have "(a AND VMPAGEMASK) = virt + of_nat (4096 * j)"
    by (simp only: page_start assms(2) add_mult_distrib2 of_nat_add v [symmetric])
  then show ?thesis by (simp add: PAGESIZE_def)
qed

text \<open>
  C6: mapping a segment that begins on a page gives every address of the segment the frame at the
  same distance from the physical address, with exactly the given flags, counts the pages, leaves
  the entries of all other pages as they are and stays inside the table.
\<close>

theorem vmmapseg_translates:
  assumes "vmpageofs virt = 0" "vmpageofs phys = 0" "flg AND VMPAGEMASK = 0"
    and "virt \<le> lim" "unat lim \<le> 2 ^ 32 - 4096"
  shows "\<exists>m'. vmmapseg virt phys lim flg m = Some m' \<and>
    (\<forall>a. virt \<le> a \<and> a < lim \<longrightarrow>
      vmphysadr m' a = phys + ((a AND VMPAGEMASK) - virt) \<and>
      vmpageofs (pagetab (vmp m') (vmpagenum a)) = flg) \<and>
    (\<forall>i. i < vmpagenum virt \<or> unat lim \<le> 4096 * i \<longrightarrow> pagetab (vmp m') i = pagetab (vmp m) i) \<and>
    nmap m' = nmap m + of_nat ((unat lim - unat virt + 4095) div 4096)"
proof -
  define n where "n = (unat lim - unat virt + 4095) div 4096"
  obtain tab where t: "vmmapseg virt phys lim flg m = Some (setpagetab tab (m\<lparr>nmap := nmap m + of_nat n\<rparr>))"
      "vmpagenum virt + n = (unat lim + 4095) div 4096"
      "\<forall>j<n. tab (vmpagenum virt + j) = (phys + of_nat j * PAGESIZE) OR flg"
      "\<forall>i. i < vmpagenum virt \<or> vmpagenum virt + n \<le> i \<longrightarrow> tab i = pagetab (vmp m) i"
    using vmmapseg_entries [OF assms(1,4,5), of phys flg m] unfolding n_def by blast
  have "tab (vmpagenum a) AND VMPAGEMASK = phys + ((a AND VMPAGEMASK) - virt) \<and> vmpageofs (tab (vmpagenum a)) = flg"
    if "virt \<le> a" "a < lim" for a
  proof -
    define j where "j = vmpagenum a - vmpagenum virt"
    have "vmpagenum virt \<le> vmpagenum a" using that(1) by (simp add: vmpagenum_div word_le_nat_alt div_le_mono)
    then have j: "vmpagenum a = vmpagenum virt + j" by (simp add: j_def)
    have "unat a div 4096 < (unat lim + 4095) div 4096" using that(2) by (simp add: word_less_nat_alt)
    then have "j < n" using j t(2) by (simp add: vmpagenum_div)
    then have "tab (vmpagenum a) = (phys + of_nat j * PAGESIZE) OR flg" using t(3) j by simp
    then show ?thesis
      unfolding page_distance [OF assms(1) j, symmetric]
      using entry_parts [OF vmpageofs_add [OF assms(2), of j] assms(3)] by simp
  qed
  moreover have "vmpagenum virt + n \<le> i" if "unat lim \<le> 4096 * i" for i
    using that unfolding t(2) by linarith
  ultimately show ?thesis using t(1,4) by (auto simp: setpagetab_def vmphysadr_def n_def)
qed

theorem vmmapseg_translates_witness:
  "\<exists>m'. vmmapseg 0x100000 0x400000 0x102800 3
      \<lparr>vmp = vm0, nmap = 0, nwire = 0, kernpagedir = \<lambda>_. 0\<rparr> = Some m' \<and>
    vmphysadr m' 0x102000 = 0x402000 \<and> nmap m' = 3"
proof -
  define m where "m = \<lparr>vmp = vm0, nmap = 0, nwire = 0, kernpagedir = \<lambda>_. 0\<rparr>"
  obtain m' where "vmmapseg 0x100000 0x400000 0x102800 3 m = Some m'"
    "\<forall>a. 0x100000 \<le> a \<and> a < 0x102800 \<longrightarrow> vmphysadr m' a = 0x400000 + ((a AND VMPAGEMASK) - 0x100000) \<and>
      vmpageofs (pagetab (vmp m') (vmpagenum a)) = 3"
    "nmap m' = nmap m + of_nat ((unat (0x102800 :: u32) - unat (0x100000 :: u32) + 4095) div 4096)"
    using vmmapseg_translates [of "0x100000" "0x400000" 3 "0x102800" m]
    by (auto simp: vmpageofs_def PAGESIZE_def VMPAGEMASK_def)
  then show ?thesis unfolding m_def [symmetric]
    by (intro exI [of _ m']) (simp add: VMPAGEMASK_def m_def)
qed

text \<open>
  A segment that does not begin on a page has its pages counted from its length alone, so that the
  page of its end may be left out.
\<close>

lemma vmmapseg_unaligned:
  "\<exists>m'. vmmapseg 0x1800 0x1800 0x2800 3 m = Some m' \<and> pagetab (vmp m') 2 = pagetab (vmp m) 2"
  by (simp add: vmmapseg_def rounduppow2_def PAGESIZE_def PAGESIZELOG2_def vmpagenum_def PTSHIFT_def
      NPDE_def NPTE_def setpagetab_def)

text \<open>
  The linker script names the physical address of the text \<open>_textvirt\<close>, and \<open>vminit\<close>
  subtracts the base of the kernel from it and takes its end as the end of the virtual segment:
  the loop runs past the end of the table.
\<close>

lemma vminit_link_script:
  assumes "l_text l = KERNVIRTBASE" "l_etextvirt l = 0x01400000 + sz" "unat sz \<le> 0x10000000"
  shows "vminit l m = None"
proof -
  have over: "map_loop n pte phys flg tab = None" if "NPDE * NPTE < pte + n" "pte \<le> NPDE * NPTE" for n pte phys flg tab
    using that by (induction n arbitrary: pte phys tab) auto
  have "l_etextvirt l - l_text l = 0x41400000 + sz" unfolding assms(1,2) KERNVIRTBASE_def by simp
  then have u: "unat (l_etextvirt l - l_text l) = 0x41400000 + unat sz"
    using assms(3) by (simp add: unat_add_small)
  then have "unat (drop_bit PAGESIZELOG2 (rounduppow2 (l_etextvirt l - l_text l) PAGESIZE)) =
      (0x41400000 + unat sz + 4095) div 4096"
    using page_count [of "l_etextvirt l - l_text l"] assms(3) by simp
  moreover have "vmpagenum (l_text l) = 0xc0000"
    unfolding assms(1) by (simp add: vmpagenum_div KERNVIRTBASE_def)
  ultimately have "vmmapseg (l_text l) phys (l_etextvirt l) flg m = None" for phys flg m
    unfolding vmmapseg_def Let_def by (simp add: over NPDE_def NPTE_def)
  then show ?thesis unfolding vminit_def Let_def by (simp add: bind_eq_None_conv)
qed

section \<open>Release\<close>

lemma free_loop_frames:
  assumes "vm_rep (vmp m) free lru" "\<not> vmphyslk (vmp m)" "pte + n \<le> NPDE * NPTE"
    and "\<forall>j<n. vmpageofs (fr j) = 0 \<and> fr j \<noteq> 0 \<and> pagetab (vmp m) (pte + j) = fr j OR flg"
    and "flg AND VMPAGEMASK = 0" "flg AND PAGESWAPPED = 0" "flg AND PAGEWIRED = 0"
    and "\<forall>j<n. pg j = pageptr (pagenum (fr j)) \<and> pnref (vmp m) (pg j) = 1 \<and> \<not> pagelk (vmp m) (pg j) \<and>
      pg j \<notin> set free \<and> (\<forall>q. pg j \<notin> set (lru q))"
    and "inj_on pg {..<n}"
  shows "\<exists>m'. free_loop n pte m = Some m' \<and> vm_rep (vmp m') (free @ map pg [0..<n]) lru \<and>
    (\<forall>i. pagetab (vmp m') i = (if pte \<le> i \<and> i < pte + n then 0 else pagetab (vmp m) i)) \<and>
    nmap m' = nmap m - of_nat n \<and> nwire m' = nwire m \<and> \<not> vmphyslk (vmp m')"
  using assms
proof (induction n arbitrary: pte m free fr pg)
  case (Suc n)
  let ?s = "vmp m" and ?p = "pg 0"
  have e0: "pagetab ?s pte = fr 0 OR flg" "vmpageofs (fr 0) = 0" "fr 0 \<noteq> 0"
    using Suc.prems(4) by auto
  have adr: "pagetab ?s pte AND VMPAGEMASK = fr 0" using e0 entry_parts(1) [OF e0(2) Suc.prems(5)] by simp
  have low: "fr 0 AND w = 0" if "w AND VMPAGEMASK = 0" for w
  proof -
    have "fr 0 AND VMPAGEMASK = fr 0" using entry_parts(1) [OF e0(2), of 0] by simp
    then have "fr 0 AND w = fr 0 AND (w AND VMPAGEMASK)" by (metis and.assoc and.commute)
    then show ?thesis using that by simp
  qed
  have fl: "pagetab ?s pte AND PAGESWAPPED = 0" "pagetab ?s pte AND PAGEWIRED = 0"
    using e0(1) Suc.prems(6,7) low [of PAGESWAPPED] low [of PAGEWIRED]
    by (simp_all add: bit.conj_disj_distrib2 PAGESWAPPED_def PAGEWIRED_def VMPAGEMASK_def)
  have p: "?p = pageptr (pagenum (fr 0))" "pnref ?s ?p = 1" "\<not> pagelk ?s ?p" "?p \<notin> set free"
      "\<forall>q. ?p \<notin> set (lru q)" using Suc.prems(8) by auto
  obtain h q where f: "pagefreephys (fr 0) ?s = Some (?s\<lparr>lnk := h, vmphysqueue := q, pnref := (pnref ?s)(?p := 0)\<rparr>)"
      "vm_rep (?s\<lparr>lnk := h, vmphysqueue := q, pnref := (pnref ?s)(?p := 0)\<rparr>) (free @ [?p]) lru"
    using pagefreephys_rep [OF Suc.prems(1,2) p(1,3,4,5)] p(2) by auto
  define s' where "s' = ?s\<lparr>lnk := h, vmphysqueue := q, pnref := (pnref ?s)(?p := 0), pagetab := (pagetab ?s)(pte := 0)\<rparr>"
  define m' where "m' = m\<lparr>nmap := nmap m - 1, vmp := s'\<rparr>"
  have step: "free_loop (Suc n) pte m = free_loop n (Suc pte) m'"
    using Suc.prems(3) adr e0(3) fl f(1) by (simp add: Let_def m'_def s'_def)
  have dist: "pg (Suc j) \<noteq> ?p" if "j < n" for j
    using Suc.prems(9) that by (auto dest: inj_onD [of pg _ "Suc j" 0])
  have r: "vm_rep (vmp m') (free @ [?p]) lru" using f(2) by (simp add: m'_def s'_def vm_rep_def)
  have e: "\<forall>j<n. vmpageofs (fr (Suc j)) = 0 \<and> fr (Suc j) \<noteq> 0 \<and> pagetab (vmp m') (Suc pte + j) = fr (Suc j) OR flg"
    using Suc.prems(4) [rule_format, of "Suc j" for j] by (simp add: m'_def s'_def)
  have g: "\<forall>j<n. pg (Suc j) = pageptr (pagenum (fr (Suc j))) \<and> pnref (vmp m') (pg (Suc j)) = 1 \<and>
      \<not> pagelk (vmp m') (pg (Suc j)) \<and> pg (Suc j) \<notin> set (free @ [?p]) \<and> (\<forall>q. pg (Suc j) \<notin> set (lru q))"
  proof (intro allI impI)
    fix j assume "j < n"
    then show "pg (Suc j) = pageptr (pagenum (fr (Suc j))) \<and> pnref (vmp m') (pg (Suc j)) = 1 \<and>
        \<not> pagelk (vmp m') (pg (Suc j)) \<and> pg (Suc j) \<notin> set (free @ [?p]) \<and> (\<forall>q. pg (Suc j) \<notin> set (lru q))"
      using Suc.prems(8) [rule_format, of "Suc j"] dist [of j] by (auto simp: m'_def s'_def)
  qed
  have i: "inj_on (\<lambda>j. pg (Suc j)) {..<n}" using Suc.prems(9) by (auto simp: inj_on_def)
  have l: "\<not> vmphyslk (vmp m')" "Suc pte + n \<le> NPDE * NPTE" using Suc.prems(2,3) by (simp_all add: m'_def s'_def)
  obtain m2 where m2: "free_loop n (Suc pte) m' = Some m2"
      "vm_rep (vmp m2) ((free @ [?p]) @ map (\<lambda>j. pg (Suc j)) [0..<n]) lru"
      "\<forall>i. pagetab (vmp m2) i = (if Suc pte \<le> i \<and> i < Suc pte + n then 0 else pagetab (vmp m') i)"
      "nmap m2 = nmap m' - of_nat n" "nwire m2 = nwire m'" "\<not> vmphyslk (vmp m2)"
    using Suc.IH [OF r l e Suc.prems(5-7) g i] by blast
  have "map pg [0..<Suc n] = ?p # map (\<lambda>j. pg (Suc j)) [0..<n]" 
    by (simp add: upt_conv_Cons map_Suc_upt [symmetric] del: upt_Suc)
  then show ?case using m2 step by (auto simp: m'_def s'_def)
qed auto

lemma frame_number:
  assumes "vmpageofs phys = 0" "unat phys + 4096 * j < 2 ^ 32"
  shows "pagenum (phys + of_nat j * PAGESIZE) = pagenum phys + j" "phys \<noteq> 0 \<Longrightarrow> phys + of_nat j * PAGESIZE \<noteq> 0"
proof -
  have u: "unat (phys + of_nat j * PAGESIZE) = unat phys + 4096 * j"
    using assms(2) by (simp add: unat_word_ariths PAGESIZE_def unat_of_nat mod_add_right_eq mod_mult_left_eq mult.commute)
  then show "pagenum (phys + of_nat j * PAGESIZE) = pagenum phys + j"
    by (simp add: pagenum_def PAGESIZELOG2_def unat_drop_bit_div)
  show "phys + of_nat j * PAGESIZE \<noteq> 0" if "phys \<noteq> 0"
    using u that by (metis add_is_0 unat_0 unat_eq_zero)
qed

text \<open>
  C7: releasing a segment that was mapped gives its page frames back to the allocator, which
  appends them to the free pages in the order of the addresses, clears the entries of the segment,
  leaves all others as they were and counts the pages down again.  The pages have one reference
  each, are neither wired nor swapped out, and the first frame is not the one at address 0.
\<close>

theorem vm_map_free_roundtrip:
  assumes "vmpageofs virt = 0" "vmpageofs phys = 0" "phys \<noteq> 0" "flg AND VMPAGEMASK = 0"
    and "flg AND PAGESWAPPED = 0" "flg AND PAGEWIRED = 0"
    and "unat virt + unat sz \<le> 2 ^ 32 - 4096" "unat phys + unat sz < 2 ^ 32"
    and "vm_rep (vmp m) free lru" "\<not> vmphyslk (vmp m)" "n = (unat sz + 4095) div 4096"
    and "\<forall>p \<in> pageptr ` {pagenum phys..<pagenum phys + n}. pnref (vmp m) p = 1 \<and> \<not> pagelk (vmp m) p \<and>
      p \<notin> set free \<and> (\<forall>q. p \<notin> set (lru q))"
  shows "\<exists>m1 m2. vmmapseg virt phys (virt + sz) flg m = Some m1 \<and> vmfreephys virt sz m1 = Some m2 \<and>
    vm_rep (vmp m2) (free @ map pageptr [pagenum phys..<pagenum phys + n]) lru \<and>
    (\<forall>i. pagetab (vmp m2) i =
      (if vmpagenum virt \<le> i \<and> i < vmpagenum virt + n then 0 else pagetab (vmp m) i)) \<and>
    nmap m2 = nmap m \<and> nwire m2 = nwire m \<and> \<not> vmphyslk (vmp m2)"
proof -
  have us: "unat (virt + sz) = unat virt + unat sz" using assms(7) by (intro unat_add_small) simp
  have le: "virt \<le> virt + sz" "unat (virt + sz) \<le> 2 ^ 32 - 4096" using us assms(7) by (simp_all add: word_le_nat_alt)
  have n: "(unat (virt + sz) - unat virt + 4095) div 4096 = n" using us assms(11) by simp
  obtain tab where t: "vmmapseg virt phys (virt + sz) flg m = Some (setpagetab tab (m\<lparr>nmap := nmap m + of_nat n\<rparr>))"
      "vmpagenum virt + n = (unat (virt + sz) + 4095) div 4096"
      "\<forall>j<n. tab (vmpagenum virt + j) = (phys + of_nat j * PAGESIZE) OR flg"
      "\<forall>i. i < vmpagenum virt \<or> vmpagenum virt + n \<le> i \<longrightarrow> tab i = pagetab (vmp m) i"
    using vmmapseg_entries [OF assms(1) le, of phys flg m] unfolding n by blast
  define m1 where "m1 = setpagetab tab (m\<lparr>nmap := nmap m + of_nat n\<rparr>)"
  define fr where "fr j = phys + of_nat j * PAGESIZE" for j :: nat
  have "4096 * j < unat sz" if "j < n" for j using that unfolding assms(11) by linarith
  then have fr: "pagenum (fr j) = pagenum phys + j" "fr j \<noteq> 0" "vmpageofs (fr j) = 0" if "j < n" for j
    using that frame_number [OF assms(2), of j] assms(3,8) vmpageofs_add [OF assms(2), of j]
    unfolding fr_def by fastforce+
  have 1: "vm_rep (vmp m1) free lru" "\<not> vmphyslk (vmp m1)"
    using assms(9,10) by (simp_all add: m1_def setpagetab_def vm_rep_def)
  have 2: "vmpagenum virt + n \<le> NPDE * NPTE"
    unfolding t(2) us using assms(7) by (simp add: NPDE_def NPTE_def)
  have 3: "\<forall>j<n. vmpageofs (fr j) = 0 \<and> fr j \<noteq> 0 \<and> pagetab (vmp m1) (vmpagenum virt + j) = fr j OR flg"
    using t(3) fr by (simp add: m1_def setpagetab_def fr_def)
  have 4: "\<forall>j<n. pageptr (pagenum phys + j) = pageptr (pagenum (fr j)) \<and>
      pnref (vmp m1) (pageptr (pagenum phys + j)) = 1 \<and> \<not> pagelk (vmp m1) (pageptr (pagenum phys + j)) \<and>
      pageptr (pagenum phys + j) \<notin> set free \<and> (\<forall>q. pageptr (pagenum phys + j) \<notin> set (lru q))"
    using assms(12) fr(1) by (simp add: m1_def setpagetab_def)
  have 5: "inj_on (\<lambda>j. pageptr (pagenum phys + j)) {..<n}" by (auto simp: inj_on_def pageptr_def)
  obtain m2 where m2: "free_loop n (vmpagenum virt) m1 = Some m2"
      "vm_rep (vmp m2) (free @ map (\<lambda>j. pageptr (pagenum phys + j)) [0..<n]) lru"
      "\<forall>i. pagetab (vmp m2) i = (if vmpagenum virt \<le> i \<and> i < vmpagenum virt + n then 0 else pagetab (vmp m1) i)"
      "nmap m2 = nmap m1 - of_nat n" "nwire m2 = nwire m1" "\<not> vmphyslk (vmp m2)"
    using free_loop_frames [OF 1 2 3 assms(4-6) 4 5] by blast
  have "vmfreephys virt sz m1 = Some m2"
    using m2(1) page_count [of sz] assms(7,11) by (simp add: vmfreephys_def Let_def)
  moreover have "map (\<lambda>j. pageptr (pagenum phys + j)) [0..<n] = map pageptr [pagenum phys..<pagenum phys + n]"
    by (simp add: map_add_upt [symmetric] comp_def add.commute)
  ultimately show ?thesis
    using t(1,4) m2 by (intro exI [of _ m1] exI [of _ m2]) (auto simp: m1_def setpagetab_def)
qed

theorem vm_map_free_roundtrip_witness:
  "\<exists>m1 m2. vmmapseg 0x10000000 0x200000 (0x10000000 + 0x1800) 3
      \<lparr>vmp = vm0, nmap = 0, nwire = 0, kernpagedir = \<lambda>_. 0\<rparr> = Some m1 \<and>
    vmfreephys 0x10000000 0x1800 m1 = Some m2 \<and>
    vm_rep (vmp m2) [0x201, 0x202] (\<lambda>_. []) \<and> nmap m2 = 0"
proof -
  define m where "m = \<lparr>vmp = vm0, nmap = 0, nwire = 0, kernpagedir = \<lambda>_. 0\<rparr>"
  have "\<exists>m1 m2. vmmapseg 0x10000000 0x200000 (0x10000000 + 0x1800) 3 m = Some m1 \<and>
      vmfreephys 0x10000000 0x1800 m1 = Some m2 \<and>
      vm_rep (vmp m2) ([] @ map pageptr [pagenum 0x200000..<pagenum 0x200000 + 2]) (\<lambda>_. []) \<and>
      (\<forall>i. pagetab (vmp m2) i =
        (if vmpagenum 0x10000000 \<le> i \<and> i < vmpagenum 0x10000000 + 2 then 0 else pagetab (vmp m) i)) \<and>
      nmap m2 = nmap m \<and> nwire m2 = nwire m \<and> \<not> vmphyslk (vmp m2)"
    by (rule vm_map_free_roundtrip)
      (simp_all add: m_def vm0_rep, simp_all add: vm0_def vmpageofs_def PAGESIZE_def VMPAGEMASK_def PAGESWAPPED_def PAGEWIRED_def)
  moreover have "map pageptr [pagenum 0x200000..<pagenum 0x200000 + 2] = [0x201, 0x202]"
    by (simp add: pagenum_def PAGESIZELOG2_def pageptr_def upt_rec)
  ultimately show ?thesis unfolding m_def [symmetric] by (auto simp: m_def)
qed

text \<open>
  When the loop meets an entry without a frame it stays there: the pages behind a hole, and all
  pages of a segment whose first page is not mapped, are not released.
\<close>

lemma free_loop_hole:
  "pagetab (vmp m) pte AND VMPAGEMASK = 0 \<Longrightarrow> pte < NPDE * NPTE \<Longrightarrow> free_loop n pte m = Some m"
  by (induction n) (simp_all add: Let_def)

lemma vmfreephys_hole: "vmphysadr m virt = 0 \<Longrightarrow> vmfreephys virt sz m = Some m"
  by (simp add: vmfreephys_def vmphysadr_def free_loop_hole vmpagenum_less Let_def)

section \<open>Page faults\<close>

lemma fault_flags: "(e AND (PAGEFLTFLGMASK OR PAGESYSFLAGS)) AND VMPAGEMASK = 0"
  by (simp add: PAGEFLTFLGMASK_def PAGESYSFLAGS_def PAGESWAPPED_def PAGEBUF_def PAGEWIRED_def VMPAGEMASK_def
      and.assoc)

text \<open>
  C8: a page fault at an address whose low five bits and bit 11 are clear, on a page that is not
  wired, takes the first free page, counts its reference and its fault, queues it as the last page
  of the last least-recently-used queue and keeps all queues well formed and disjoint, with no lock
  left held.  The entry it writes holds the faulting address with the old flags and the present bit:
  the address is mapped to the frame of the same number, not to the page that was allocated.
\<close>

theorem vmpagefault_allocates:
  assumes "vm_rep (vmp m) (p # free) lru" "\<not> vmphyslk (vmp m)" "\<not> pagelk (vmp m) p" "\<not> lrulk (vmp m) 31"
    and "adr AND 0x1f = 0" "adr AND PAGEWIRED = 0" "pnflt (vmp m) p + 1 \<noteq> 0"
    and "flg = pagetab (vmp m) (vmpagenum adr) AND (PAGEFLTFLGMASK OR PAGESYSFLAGS)" "flg AND PAGEWIRED = 0"
  shows "\<exists>m'. vmpagefault adr m = Some m' \<and>
    vm_rep (vmp m') (if length free = 1 then [] else free) (lru(31 := lru 31 @ [p])) \<and>
    pnref (vmp m') p = pnref (vmp m) p + 1 \<and> pnflt (vmp m') p = pnflt (vmp m) p + 1 \<and> nmap m' = nmap m + 1 \<and>
    \<not> vmphyslk (vmp m') \<and> pagelk (vmp m') = pagelk (vmp m) \<and> lrulk (vmp m') = lrulk (vmp m) \<and>
    pagetab (vmp m') = (pagetab (vmp m))(vmpagenum adr := adr OR flg OR PAGEPRES) \<and>
    vmphysadr m' adr = adr AND VMPAGEMASK"
proof -
  let ?s = "vmp m"
  obtain h q where a: "pageallocphys ?s = Some (p, ?s\<lparr>lnk := h, vmphysqueue := q\<rparr>)"
      "vm_rep (?s\<lparr>lnk := h, vmphysqueue := q\<rparr>) (if length free = 1 then [] else free) lru"
    using pageallocphys_rep [OF assms(1,2)] by blast
  have p: "p \<noteq> 0" "p \<notin> set free" "\<And>q. p \<notin> set (lru q)"
    using assms(1) by (auto simp: vm_rep_def deq_rep_def ring_def)
  define s1 where "s1 = ?s\<lparr>lnk := h, vmphysqueue := q, pagelk := (pagelk ?s)(p := True),
    pnref := (pnref ?s)(p := pnref ?s p + 1), pnflt := (pnflt ?s)(p := pnflt ?s p + 1), lrulk := (lrulk ?s)(31 := True)\<rparr>"
  have "vm_rep s1 (if length free = 1 then [] else free) lru" using a(2) by (simp add: s1_def vm_rep_def)
  then have r: "vm_rep (lru_push 31 p s1) (if length free = 1 then [] else free) (lru(31 := lru 31 @ [p]))"
    using p by (intro lru_push_rep) auto
  obtain h' t where l: "lru_push 31 p s1 = s1\<lparr>lnk := h', vmlrutab := t\<rparr>"
    by (simp add: lru_push_def case_prod_beta)
  define s2 where "s2 = ?s\<lparr>lnk := h', vmphysqueue := q, vmlrutab := t, pnref := (pnref ?s)(p := pnref ?s p + 1),
    pnflt := (pnflt ?s)(p := pnflt ?s p + 1), pagetab := (pagetab ?s)(vmpagenum adr := adr OR flg OR PAGEPRES)\<rparr>"
  have "NOT (PAGEFLTADRMASK OR PAGESYSFLAGS) = 0x1f"
    by (simp add: PAGEFLTADRMASK_def PAGESYSFLAGS_def PAGESWAPPED_def PAGEBUF_def PAGEWIRED_def)
  then have c: "adr AND NOT (PAGEFLTADRMASK OR PAGESYSFLAGS) = 0" using assms(5) by (simp only:)
  have u: "(unlk_page p (unlk_lru 31 (lru_push 31 p s1)))\<lparr>pagetab := (pagetab ?s)(vmpagenum adr := adr OR flg OR PAGEPRES)\<rparr> = s2"
    unfolding l using assms(3,4) by (intro vmstate.equality) (simp_all add: unlk_page_def unlk_lru_def s1_def s2_def fun_upd_idem)
  have t: "pagetab (unlk_page p (unlk_lru 31 (lru_push 31 p s1))) = pagetab ?s"
    unfolding l by (simp add: unlk_page_def unlk_lru_def s1_def)
  have "vmpagefault adr m = Some (m\<lparr>nmap := nmap m + 1,
      vmp := (unlk_page p (unlk_lru 31 (lru_push 31 p s1)))\<lparr>pagetab :=
        (pagetab (unlk_page p (unlk_lru 31 (lru_push 31 p s1))))(vmpagenum adr := adr OR flg OR PAGEPRES)\<rparr>\<rparr>)"
    unfolding vmpagefault_def Let_def assms(8) [symmetric] a(1) s1_def
    using c p(1) assms(3,4,6,7,9) by (simp add: lk_page_def lk_lru_def pagecalcqid_last PTRBITS_def)
  then have "vmpagefault adr m = Some (m\<lparr>nmap := nmap m + 1, vmp := s2\<rparr>)" unfolding t u .
  moreover have "vm_rep s2 (if length free = 1 then [] else free) (lru(31 := lru 31 @ [p]))"
    using r unfolding l by (simp add: vm_rep_def s1_def s2_def)
  moreover have "(adr OR flg OR PAGEPRES) AND VMPAGEMASK = adr AND VMPAGEMASK"
    using fault_flags [of "pagetab ?s (vmpagenum adr)"] assms(8)
    by (simp add: bit.conj_disj_distrib2 PAGEPRES_def VMPAGEMASK_def)
  ultimately show ?thesis using assms(2) by (simp add: s2_def vmphysadr_def)
qed

theorem vmpagefault_allocates_witness:
  "\<exists>m'. vmpagefault 0x5000 \<lparr>vmp = vm3, nmap = 7, nwire = 0, kernpagedir = \<lambda>_. 0\<rparr> = Some m' \<and>
    vm_rep (vmp m') [2, 3] ((\<lambda>_. [])(31 := [1])) \<and> nmap m' = 8 \<and> vmphysadr m' 0x5000 = 0x5000"
proof -
  define m where "m = \<lparr>vmp = vm3, nmap = 7, nwire = 0, kernpagedir = \<lambda>_. 0\<rparr>"
  have r: "vm_rep (vmp m) (1 # [2, 3]) (\<lambda>_. [])" using vm3_rep by (simp add: m_def)
  have "\<exists>m'. vmpagefault 0x5000 m = Some m' \<and>
      vm_rep (vmp m') (if length [2, 3 :: ptr] = 1 then [] else [2, 3]) ((\<lambda>_. [])(31 := [] @ [1])) \<and>
      pnref (vmp m') 1 = pnref (vmp m) 1 + 1 \<and> pnflt (vmp m') 1 = pnflt (vmp m) 1 + 1 \<and> nmap m' = nmap m + 1 \<and>
      \<not> vmphyslk (vmp m') \<and> pagelk (vmp m') = pagelk (vmp m) \<and> lrulk (vmp m') = lrulk (vmp m) \<and>
      pagetab (vmp m') = (pagetab (vmp m))(vmpagenum 0x5000 := 0x5000 OR 0 OR PAGEPRES) \<and>
      vmphysadr m' 0x5000 = 0x5000 AND VMPAGEMASK"
    by (rule vmpagefault_allocates [OF r]) (simp_all add: m_def vm3_def vm0_def PAGEWIRED_def)
  then show ?thesis unfolding m_def [symmetric] by (auto simp: m_def VMPAGEMASK_def)
qed

end
