(* ===== verification/Membuf.thy ===== *)
theory Membuf
  imports Trixbits "HOL-Library.Monad_Syntax"
begin

text \<open>
  The buffers of blocks of the user memory allocator (usr/lib/zero/mem.h, mem.c) on a 64-bit
  machine: size classes, the packed description of a buffer, its map of free blocks, the addresses
  of the blocks, and allocation from the buffers of a thread.

  The configuration is the one with the free blocks in bitmaps and without cache colouring, bins of
  dead buffers and the other optional parts; the stack of free blocks is modelled on its own.  The
  system calls that provide the memory of a buffer are represented by the address they return, \<open>0\<close> if
  they fail.  A read outside the map of free blocks gives \<^const>\<open>None\<close>.  A bucket is the list of
  its buffers from the head; all operations here work at the head of the list.  The table that
  finds the buffer of a block, the buckets shared between threads and the return of memory to the
  system are not part of this theory.
\<close>

section \<open>Parameters and size classes\<close>

definition MEMSMALLBUF :: u64 where "MEMSMALLBUF = 0x00"
definition MEMPAGEBUF :: u64 where "MEMPAGEBUF = 0x01"
definition MEMBIGBUF :: u64 where "MEMBIGBUF = 0x02"
definition MEMBUFTYPEBITS :: nat where "MEMBUFTYPEBITS = 2"
definition MEMBUFNBLKBITS :: nat where "MEMBUFNBLKBITS = 16"
definition MEMBUFSLOTBITS :: nat where "MEMBUFSLOTBITS = 8"
definition MEMBUFSLOTSHIFT :: nat where "MEMBUFSLOTSHIFT = MEMBUFNBLKBITS"
definition MEMBUFTYPESHIFT :: nat where "MEMBUFTYPESHIFT = MEMBUFSLOTSHIFT + MEMBUFSLOTBITS"
definition MEMHEAPBIT :: u64 where "MEMHEAPBIT = push_bit (8 * 8 - 2) 1"
definition MEMBUFBITMAPWORDS :: nat where "MEMBUFBITMAPWORDS = 16"
definition PAGESZ :: u64 where "PAGESZ = 4096"

definition memcalcslot :: "u64 \<Rightarrow> nat" where
  "memcalcslot sz = (let tmp = ceilpow2_64 sz in tzero64 tmp)"

definition memcalcpageslot :: "u64 \<Rightarrow> u64" where
  "memcalcpageslot sz = (let res = sz; res = res - 1 in drop_bit 12 res)"

definition memusesmallbuf :: "u64 \<Rightarrow> bool" where "memusesmallbuf sz = (sz \<le> push_bit 11 1)"
definition memusepagebuf :: "u64 \<Rightarrow> bool" where "memusepagebuf sz = (sz \<le> PAGESZ * 128)"

definition membufblksize :: "u64 \<Rightarrow> u64 \<Rightarrow> u64" where
  "membufblksize type slot =
     (if type \<noteq> MEMPAGEBUF then push_bit (unat slot) 1 else PAGESZ + PAGESZ * slot)"

definition memnbufblk :: "u64 \<Rightarrow> u64 \<Rightarrow> u64" where
  "memnbufblk type slot =
     (if type = MEMSMALLBUF then if slot \<le> 7 then 1024 else if slot \<le> 9 then 256 else 64
      else if type = MEMPAGEBUF then if slot \<le> 16 then 8 else if slot \<le> 32 then 4 else 2
      else if slot \<le> 23 then 4 else if slot \<le> 26 then 2 else 1)"

text \<open>The header of a buffer has eight words and two maps of sixteen words.\<close>

definition membufhdrsize :: u64 where "membufhdrsize = 8 * 8 + 16 * 8 + 16 * 8"
definition membufblkofs :: u64 where "membufblkofs = rounduppow2 membufhdrsize PAGESZ"

definition memsmallbufsize :: "u64 \<Rightarrow> u64 \<Rightarrow> u64" where
  "memsmallbufsize slot nblk = rounduppow2 (membufblkofs + push_bit (unat slot) nblk) PAGESZ"

definition mempagebufsize :: "u64 \<Rightarrow> u64 \<Rightarrow> u64" where
  "mempagebufsize slot nblk = rounduppow2 (membufblkofs + (PAGESZ + PAGESZ * slot) * nblk) PAGESZ"

definition membigbufsize :: "u64 \<Rightarrow> u64 \<Rightarrow> u64" where
  "membigbufsize slot nblk = rounduppow2 (membufblkofs + push_bit (unat slot) 1 * nblk) PAGESZ"

section \<open>Buffers\<close>

record membuf =
  mb_adr :: u64
  mb_base :: u64
  mb_info :: u64
  mb_size :: u64
  mb_nfree :: u64
  freemap :: "nat \<Rightarrow> u64"
  relmap :: "nat \<Rightarrow> u64"

definition meminitbufnblk :: "u64 \<Rightarrow> membuf \<Rightarrow> membuf" where
  "meminitbufnblk n buf = buf\<lparr>mb_info := mb_info buf OR n\<rparr>"

definition meminitbuftype :: "u64 \<Rightarrow> membuf \<Rightarrow> membuf" where
  "meminitbuftype t buf = buf\<lparr>mb_info := mb_info buf OR push_bit MEMBUFTYPESHIFT t\<rparr>"

definition meminitbufslot :: "u64 \<Rightarrow> membuf \<Rightarrow> membuf" where
  "meminitbufslot slot buf = buf\<lparr>mb_info := mb_info buf OR push_bit MEMBUFSLOTSHIFT slot\<rparr>"

definition memgetbufheapflg :: "membuf \<Rightarrow> u64" where
  "memgetbufheapflg buf = mb_info buf AND MEMHEAPBIT"

definition memgetbufnblk :: "membuf \<Rightarrow> u64" where
  "memgetbufnblk buf = mb_info buf AND (push_bit MEMBUFNBLKBITS 1 - 1)"

definition memgetbuftype :: "membuf \<Rightarrow> u64" where
  "memgetbuftype buf = drop_bit MEMBUFTYPESHIFT (mb_info buf) AND (push_bit MEMBUFTYPEBITS 1 - 1)"

definition memgetbufslot :: "membuf \<Rightarrow> u64" where
  "memgetbufslot buf = drop_bit MEMBUFSLOTSHIFT (mb_info buf) AND (push_bit MEMBUFSLOTBITS 1 - 1)"

text \<open>Addresses and numbers of blocks.\<close>

definition membufblkadr :: "membuf \<Rightarrow> u64 \<Rightarrow> u64" where
  "membufblkadr buf ndx = mb_base buf + push_bit (unat (memgetbufslot buf)) ndx"

definition membufpageadr :: "membuf \<Rightarrow> u64 \<Rightarrow> u64" where
  "membufpageadr buf ndx = mb_base buf + ndx * (PAGESZ + PAGESZ * memgetbufslot buf)"

definition membufblkid :: "membuf \<Rightarrow> u64 \<Rightarrow> u64" where
  "membufblkid buf ptr = drop_bit (unat (memgetbufslot buf)) (ptr - mb_base buf)"

definition memalignptr :: "u64 \<Rightarrow> u64 \<Rightarrow> u64" where
  "memalignptr ptr pow2 = rounduppow2 ptr pow2"

section \<open>The map of free blocks\<close>

definition membufinitfree :: "membuf \<Rightarrow> membuf" where
  "membufinitfree buf =
     (let bits = NOT 0; ptr = freemap buf;
          ptr = ptr(0 := bits AND NOT 1, 1 := bits, 2 := bits, 3 := bits);
          ptr = ptr(4 := bits, 5 := bits, 6 := bits, 7 := bits);
          ptr = ptr(8 := bits, 9 := bits, 10 := bits, 11 := bits);
          ptr = ptr(12 := bits, 13 := bits, 14 := bits, 15 := bits)
      in buf\<lparr>freemap := ptr\<rparr>)"

text \<open>The search: \<open>Some (None, m)\<close> stands for \<open>MEMNOBLK\<close>.\<close>

function getfree_loop :: "nat \<Rightarrow> (nat \<Rightarrow> u64) \<Rightarrow> nat \<Rightarrow> nat \<Rightarrow> (nat option \<times> (nat \<Rightarrow> u64)) option" where
  "getfree_loop nblk m i ndx =
     (if i < MEMBUFBITMAPWORDS then
        let word = m i in
        if word \<noteq> 0 then
          let res = tzero64 word; ndx = ndx + res in
          if ndx < nblk then Some (Some ndx, m(i := word AND NOT (push_bit res 1)))
          else Some (None, m)
        else let ndx = ndx + 64 in
          if ndx < nblk then getfree_loop nblk m (Suc i) ndx else Some (None, m)
      else None)"
  by pat_completeness auto
termination by (relation "measure (\<lambda>(nblk, m, i, ndx). nblk - ndx)") auto

declare getfree_loop.simps [simp del]

definition membufgetfree :: "membuf \<Rightarrow> (nat option \<times> membuf) option" where
  "membufgetfree buf =
     do { (id, m) \<leftarrow> getfree_loop (unat (memgetbufnblk buf)) (freemap buf) 0 0;
          Some (id, buf\<lparr>freemap := m\<rparr>) }"

text \<open>\<open>setbit\<close> on the bytes of the map sets the bit of that number of the little-endian words.\<close>

definition membufsetfree :: "nat \<Rightarrow> membuf \<Rightarrow> membuf" where
  "membufsetfree n buf =
     buf\<lparr>freemap := (freemap buf)(n div 64 := freemap buf (n div 64) OR push_bit (n mod 64) 1)\<rparr>"

text \<open>The counting of bits as it is written, with shifts to the left.\<close>

definition bitcnt1u64 :: "u64 \<Rightarrow> u64" where
  "bitcnt1u64 a =
     (let val = push_bit 1 a; val = val AND 0x5555555555555555; a = a AND 0x5555555555555555; a = a + val;
          val = push_bit 2 a; val = val AND 0x3333333333333333; a = a AND 0x3333333333333333; a = a + val;
          val = push_bit 4 a; val = val AND 0x0f0f0f0f0f0f0f0f; a = a AND 0x0f0f0f0f0f0f0f0f; a = a + val;
          val = push_bit 8 a; val = val AND 0x00ff00ff00ff00ff; a = a AND 0x00ff00ff00ff00ff; a = a + val;
          val = push_bit 16 a; val = val AND 0x0000ffff0000ffff; a = a AND 0x0000ffff0000ffff; a = a + val;
          val = push_bit 32 a
      in a + val)"

text \<open>Blocks released by other threads: marking one, and making the marked ones free.\<close>

definition membufsetrel :: "nat \<Rightarrow> membuf \<Rightarrow> membuf option" where
  "membufsetrel n buf =
     (let ndx = n div 8; n = n mod 8 in
      if ndx < MEMBUFBITMAPWORDS
      then Some (buf\<lparr>relmap := (relmap buf)(ndx := relmap buf ndx OR push_bit n 1)\<rparr>) else None)"

fun freerel_loop :: "nat list \<Rightarrow> membuf \<Rightarrow> u64 \<Rightarrow> membuf \<times> u64" where
  "freerel_loop [] buf nfree = (buf, nfree)"
| "freerel_loop (ndx # ndxs) buf nfree =
     (let rel = relmap buf ndx; free = freemap buf ndx in
      if rel \<noteq> 0 then
        freerel_loop ndxs (buf\<lparr>relmap := (relmap buf)(ndx := 0), freemap := (freemap buf)(ndx := free OR rel)\<rparr>)
          (nfree + bitcnt1u64 rel)
      else freerel_loop ndxs buf nfree)"

definition membuffreerel :: "membuf \<Rightarrow> membuf" where
  "membuffreerel buf =
     (let (buf, nfree) = freerel_loop [0..<MEMBUFBITMAPWORDS] buf (mb_nfree buf) in buf\<lparr>mb_nfree := nfree\<rparr>)"

section \<open>Creation of buffers\<close>

definition mapped :: "u64 \<Rightarrow> u64 \<Rightarrow> membuf" where
  "mapped adr flg = \<lparr>mb_adr = adr, mb_base = 0, mb_info = flg, mb_size = 0, mb_nfree = 0,
     freemap = (\<lambda>_. 0), relmap = (\<lambda>_. 0)\<rparr>"

text \<open>
  The arguments \<open>hadr\<close> and \<open>madr\<close> are the addresses that \<open>sbrk\<close> and \<open>mmap\<close> return;
  \<open>noheap\<close> is the flag \<open>MEMNOHEAPBIT\<close>.
\<close>

definition memallocsmallbuf :: "bool \<Rightarrow> u64 \<Rightarrow> u64 \<Rightarrow> u64 \<Rightarrow> u64 \<Rightarrow> membuf option" where
  "memallocsmallbuf noheap hadr madr slot nblk =
     (let bufsz = memsmallbufsize slot nblk;
          (adr, flg) = (if noheap then (0, 0) else (hadr, MEMHEAPBIT));
          adr = (if adr = 0 then madr else adr)
      in if adr = 0 then None
         else Some ((meminitbuftype MEMSMALLBUF (meminitbufnblk nblk (meminitbufslot slot (mapped adr flg))))
           \<lparr>mb_size := bufsz\<rparr>))"

definition memallocpagebuf :: "u64 \<Rightarrow> u64 \<Rightarrow> u64 \<Rightarrow> membuf option" where
  "memallocpagebuf madr slot nblk =
     (let mapsz = mempagebufsize slot nblk in
      if madr = 0 then None
      else Some ((meminitbuftype MEMPAGEBUF (meminitbufnblk nblk (meminitbufslot slot (mapped madr 0))))
        \<lparr>mb_size := mapsz\<rparr>))"

definition memallocbigbuf :: "u64 \<Rightarrow> u64 \<Rightarrow> u64 \<Rightarrow> membuf option" where
  "memallocbigbuf madr slot nblk =
     (let mapsz = membigbufsize slot nblk in
      if madr = 0 then None
      else Some ((meminitbuftype MEMBIGBUF (meminitbufnblk nblk (meminitbufslot slot (mapped madr 0))))
        \<lparr>mb_size := mapsz\<rparr>))"

text \<open>The first block of a new buffer is handed out at once.\<close>

definition meminitsmallbuf :: "u64 \<Rightarrow> u64 \<Rightarrow> membuf \<Rightarrow> u64 \<times> membuf" where
  "meminitsmallbuf align nblk buf =
     (let ptr = mb_adr buf + membufblkofs;
          buf = membufinitfree (buf\<lparr>mb_base := ptr\<rparr>)
      in (memalignptr ptr align, buf\<lparr>mb_nfree := nblk - 1\<rparr>))"

definition meminitpagebuf :: "u64 \<Rightarrow> u64 \<Rightarrow> membuf \<Rightarrow> u64 \<times> membuf" where
  "meminitpagebuf align nblk buf =
     (let ptr = mb_adr buf + membufblkofs;
          buf = membufinitfree (buf\<lparr>mb_base := ptr\<rparr>)
      in (memalignptr ptr align, buf\<lparr>mb_nfree := nblk - 1\<rparr>))"

definition meminitbigbuf :: "u64 \<Rightarrow> u64 \<Rightarrow> membuf \<Rightarrow> u64 \<times> membuf" where
  "meminitbigbuf align nblk buf =
     (let ptr = mb_adr buf + membufblkofs;
          buf = membufinitfree (buf\<lparr>mb_base := ptr\<rparr>)
      in (memalignptr ptr align, buf\<lparr>mb_nfree := nblk - 1\<rparr>))"

text \<open>The creation of a buffer as \<open>memgetblk\<close> does it for each type.\<close>

definition memnewbuf :: "bool \<Rightarrow> u64 \<Rightarrow> u64 \<Rightarrow> u64 \<Rightarrow> u64 \<Rightarrow> u64 \<Rightarrow> (u64 \<times> membuf) option" where
  "memnewbuf noheap hadr madr type slot align =
     (let nblk = memnbufblk type slot in
      if type = MEMSMALLBUF then map_option (meminitsmallbuf align nblk) (memallocsmallbuf noheap hadr madr slot nblk)
      else if type = MEMPAGEBUF then map_option (meminitpagebuf align nblk) (memallocpagebuf madr slot nblk)
      else map_option (meminitbigbuf align nblk) (memallocbigbuf madr slot nblk))"

section \<open>Allocation from the buffers of a thread\<close>

record membkt =
  bkt_list :: "membuf list"
  bkt_nbuf :: int

text \<open>
  Takes a block from the first buffer of the bucket; a buffer without free blocks leaves the list.
  The result \<open>0\<close> is the null pointer, and a buffer on the list that has no free block makes the
  allocation fail, as its block number would be \<open>MEMNOBLK\<close>.
\<close>

definition bufadr :: "u64 \<Rightarrow> membuf \<Rightarrow> u64 \<Rightarrow> u64" where
  "bufadr type buf n = (if type \<noteq> MEMPAGEBUF then membufblkadr buf n else membufpageadr buf n)"

definition memgetblktls :: "u64 \<Rightarrow> u64 \<Rightarrow> membkt \<Rightarrow> (u64 \<times> membkt) option" where
  "memgetblktls type align bkt =
     (case bkt_list bkt of [] \<Rightarrow> Some (0, bkt)
      | buf # rest \<Rightarrow>
          do { (id, buf) \<leftarrow> membufgetfree buf;
               id \<leftarrow> id;
               let nfree = mb_nfree buf;
               let adr = bufadr type buf (of_nat id);
               let nfree = nfree - 1;
               let ptr = memalignptr adr align;
               let buf = buf\<lparr>mb_nfree := nfree\<rparr>;
               Some (if nfree = 0 then (ptr, bkt\<lparr>bkt_list := rest, bkt_nbuf := bkt_nbuf bkt - 1\<rparr>)
                     else (ptr, bkt\<lparr>bkt_list := buf # rest\<rparr>)) })"

text \<open>
  The buckets of one type and slot: the one of the thread and the one all threads share.  Blocks
  come from the thread's bucket, then from the shared one, whose buffer moves to the thread
  unless it is a big one, and else from a new buffer.
\<close>

record membins =
  bin_tls :: membkt
  bin_glob :: membkt

definition bktpush :: "membuf \<Rightarrow> membkt \<Rightarrow> membkt" where
  "bktpush buf bkt = bkt\<lparr>bkt_list := buf # bkt_list bkt, bkt_nbuf := bkt_nbuf bkt + 1\<rparr>"

definition memgetblkglob :: "u64 \<Rightarrow> u64 \<Rightarrow> membins \<Rightarrow> (u64 \<times> membins) option" where
  "memgetblkglob type align bins =
     (let bkt = bin_glob bins in
      case bkt_list bkt of [] \<Rightarrow> Some (0, bins)
      | buf # rest \<Rightarrow>
          do { (id, buf) \<leftarrow> membufgetfree buf;
               id \<leftarrow> id;
               let nfree = mb_nfree buf - 1;
               let adr = bufadr type buf (of_nat id);
               let buf = buf\<lparr>mb_nfree := nfree\<rparr>;
               let ptr = memalignptr adr align;
               let bkt = (if nfree = 0 \<or> type \<noteq> MEMBIGBUF then bkt\<lparr>bkt_list := rest, bkt_nbuf := bkt_nbuf bkt - 1\<rparr>
                          else bkt\<lparr>bkt_list := buf # rest\<rparr>);
               let bins = bins\<lparr>bin_glob := bkt\<rparr>;
               Some (ptr, if nfree \<noteq> 0 \<and> type \<noteq> MEMBIGBUF then bins\<lparr>bin_tls := bktpush buf (bin_tls bins)\<rparr> else bins) })"

definition memgetblk :: "bool \<Rightarrow> u64 \<Rightarrow> u64 \<Rightarrow> u64 \<Rightarrow> u64 \<Rightarrow> u64 \<Rightarrow> membins \<Rightarrow> (u64 \<times> membins) option" where
  "memgetblk noheap hadr madr slot type align bins =
     do { (ptr, tls) \<leftarrow> (if type \<noteq> MEMBIGBUF then memgetblktls type align (bin_tls bins) else Some (0, bin_tls bins));
          let bins = bins\<lparr>bin_tls := tls\<rparr>;
          (ptr, bins) \<leftarrow> (if ptr = 0 then memgetblkglob type align bins else Some (ptr, bins));
          if ptr \<noteq> 0 then Some (ptr, bins)
          else case memnewbuf noheap hadr madr type slot align of
            None \<Rightarrow> Some (0, bins)
          | Some (ptr, buf) \<Rightarrow>
              Some (ptr, if ptr \<noteq> 0 \<and> memnbufblk type slot > 1 then
                  if type \<noteq> MEMBIGBUF then bins\<lparr>bin_tls := bktpush buf (bin_tls bins)\<rparr>
                  else bins\<lparr>bin_glob := bktpush buf (bin_glob bins)\<rparr>
                else bins) }"

section \<open>The stack of free blocks\<close>

text \<open>
  The other representation of the free blocks, chosen with \<open>MEMBUFSTACK\<close>: the numbers of the
  free blocks are the entries of \<open>stk\<close> from \<open>stktop\<close> on.  An access outside the array of
  1024 entries gives \<^const>\<open>None\<close>.
\<close>

record membufstk =
  stk_nfree :: int
  stk :: "nat \<Rightarrow> u16"
  stktop :: int

fun initstk_loop :: "nat list \<Rightarrow> u16 \<Rightarrow> (nat \<Rightarrow> u16) \<Rightarrow> (nat \<Rightarrow> u16)" where
  "initstk_loop [] bid m = m"
| "initstk_loop (cur # curs) bid m = initstk_loop curs (bid + 1) (m(cur := bid))"

definition stkinitfree :: "nat \<Rightarrow> membufstk \<Rightarrow> membufstk option" where
  "stkinitfree nblk buf =
     (if nblk \<le> 1024 then Some \<lparr>stk_nfree = int nblk, stk = initstk_loop [0..<nblk] 0 (stk buf), stktop = 0\<rparr> else None)"

definition stkgetfree :: "membufstk \<Rightarrow> (u16 \<times> membufstk) option" where
  "stkgetfree buf =
     (let nfree = stk_nfree buf - 1; cur = stktop buf in
      if 0 \<le> cur \<and> cur < 1024
      then Some (stk buf (nat cur), buf\<lparr>stk_nfree := nfree, stktop := cur + 1\<rparr>) else None)"

definition stkputfree :: "u16 \<Rightarrow> membufstk \<Rightarrow> (int \<times> membufstk) option" where
  "stkputfree bid buf =
     (let cur = stktop buf - 1; nfree = stk_nfree buf + 1 in
      if 0 \<le> cur \<and> cur < 1024
      then Some (nfree, buf\<lparr>stk := (stk buf)(nat cur := bid), stktop := cur, stk_nfree := nfree\<rparr>) else None)"

section \<open>Spreading of addresses\<close>

text \<open>The remainder by nine as four functions compute it, with shifts and a correction.\<close>

definition memmod9 :: "u64 \<Rightarrow> u64" where
  "memmod9 res =
     (let q = res - drop_bit 3 res; q = q + drop_bit 6 q; q = q + drop_bit 12 q + drop_bit 24 q; q = drop_bit 3 q;
          r = res - q * 9; div9 = q + drop_bit 4 (r + 7); dec = div9 * 9
      in res - dec)"

definition MEMCLSIZE :: u64 where "MEMCLSIZE = 64"
definition MEMALIGNSHIFT :: nat where "MEMALIGNSHIFT = 4"

text \<open>The results of pointers to words step by eight bytes.\<close>

definition memgentlsadr :: "u64 \<Rightarrow> u64" where
  "memgentlsadr adr =
     (let res = memmod9 (drop_bit 12 adr); res = push_bit 5 res; res = res AND NOT (MEMCLSIZE - 1) in adr + res * 8)"

definition memgenadr :: "u64 \<Rightarrow> u64" where
  "memgenadr ptr =
     (let shift = 4; res = memmod9 (drop_bit MEMALIGNSHIFT ptr); res = push_bit shift res; res = res AND NOT (MEMCLSIZE - 1)
      in ptr + res)"

definition memgenofs :: "u64 \<Rightarrow> u64" where
  "memgenofs ptr =
     (let shift = 5; res = memmod9 (drop_bit MEMALIGNSHIFT ptr); res = push_bit shift res; res = res AND NOT (MEMCLSIZE - 1)
      in res)"

definition memgenhashtabadr :: "u64 \<Rightarrow> u64" where
  "memgenhashtabadr adr = (let res = memmod9 (drop_bit 16 adr); res = push_bit 1 res in adr + res * 8)"

section \<open>Size classes\<close>

lemma bit_pow2_word:
  fixes r :: u64
  assumes "unat r = 2 ^ k"
  shows "bit r i \<longleftrightarrow> i = k"
proof -
  have "bit r i \<longleftrightarrow> bit (unat r) i" by transfer (auto simp: bit_simps)
  then show ?thesis unfolding assms by (simp add: bit_exp_iff)
qed

lemma memcalcslot_least:
  assumes "0 < unat sz" "unat sz \<le> 2 ^ 63"
  shows "unat sz \<le> 2 ^ memcalcslot sz \<and> (\<forall>j. unat sz \<le> 2 ^ j \<longrightarrow> memcalcslot sz \<le> j)"
proof -
  have "sz \<noteq> 0" using assms(1) by auto
  then obtain k where k: "unat (ceilpow2_64 sz) = 2 ^ k" "unat sz \<le> 2 ^ k" "\<forall>j. unat sz \<le> 2 ^ j \<longrightarrow> (2::nat) ^ k \<le> 2 ^ j"
    using ceilpow2_64_least [of sz] assms(2) by (auto simp: is_ceilpow2_def)
  have "ceilpow2_64 sz \<noteq> 0" using k(1) by auto
  then have "bit (ceilpow2_64 sz) (tzero64 (ceilpow2_64 sz))"
    using tzero64_ctz [of "ceilpow2_64 sz"] by (simp add: is_ctz_def)
  then have "memcalcslot sz = k" using bit_pow2_word [OF k(1)] by (simp add: memcalcslot_def)
  then show ?thesis using k(2,3) by simp
qed

lemma memcalcpageslot_exact:
  assumes "0 < unat sz"
  shows "unat (memcalcpageslot sz) = (unat sz - 1) div 4096"
proof -
  have "unat (sz - 1) = unat sz - 1" using assms unat_sub [of 1 sz] by (simp add: word_le_nat_alt)
  then show ?thesis by (simp add: memcalcpageslot_def unat_drop_bit_div)
qed

section \<open>The description of a buffer\<close>

lemma low_bits:
  fixes x :: u64
  assumes "unat x < 2 ^ k"
  shows "take_bit k x = x"
proof (rule word_eq_natI)
  show "unat (take_bit k x) = unat x" using assms by (simp add: take_bit_eq_mask unat_and_mask)
qed

lemma info_fields:
  fixes flg slot nblk t :: u64
  assumes "flg = 0 \<or> flg = MEMHEAPBIT" "unat slot < 2 ^ 8" "unat nblk < 2 ^ 16" "unat t < 2 ^ 2"
  defines "info \<equiv> flg OR push_bit MEMBUFSLOTSHIFT slot OR nblk OR push_bit MEMBUFTYPESHIFT t"
  shows "info AND (push_bit MEMBUFNBLKBITS 1 - 1) = nblk"
    "drop_bit MEMBUFSLOTSHIFT info AND (push_bit MEMBUFSLOTBITS 1 - 1) = slot"
    "drop_bit MEMBUFTYPESHIFT info AND (push_bit MEMBUFTYPEBITS 1 - 1) = t"
    "info AND MEMHEAPBIT = flg"
proof -
  have m: "push_bit MEMBUFNBLKBITS 1 - 1 = (mask 16 :: u64)" "push_bit MEMBUFSLOTBITS 1 - 1 = (mask 8 :: u64)"
      "push_bit MEMBUFTYPEBITS 1 - 1 = (mask 2 :: u64)"
    by (simp_all add: MEMBUFNBLKBITS_def MEMBUFSLOTBITS_def MEMBUFTYPEBITS_def mask_eq_exp_minus_1 push_bit_of_1)
  have b: "bit slot n \<Longrightarrow> n < 8" "bit nblk n \<Longrightarrow> n < 16" "bit t n \<Longrightarrow> n < 2" for n
    using low_bits [OF assms(2)] low_bits [OF assms(3)] low_bits [OF assms(4)] by (metis bit_take_bit_iff)+
  have f: "bit flg n \<Longrightarrow> n = 62" "bit MEMHEAPBIT n \<longleftrightarrow> n = 62" for n
    using assms(1) bit_pow2_word [of MEMHEAPBIT 62 n] by (auto simp: MEMHEAPBIT_def)
  have s: "MEMBUFSLOTSHIFT = 16" "MEMBUFTYPESHIFT = 24"
    by (simp_all add: MEMBUFSLOTSHIFT_def MEMBUFTYPESHIFT_def MEMBUFNBLKBITS_def MEMBUFSLOTBITS_def)
  show "info AND (push_bit MEMBUFNBLKBITS 1 - 1) = nblk"
    "drop_bit MEMBUFSLOTSHIFT info AND (push_bit MEMBUFSLOTBITS 1 - 1) = slot"
    "drop_bit MEMBUFTYPESHIFT info AND (push_bit MEMBUFTYPEBITS 1 - 1) = t"
    unfolding m info_def s
    by (rule bit_word_eqI; auto simp: bit_simps dest: b f(1))+
  show "info AND MEMHEAPBIT = flg"
    unfolding info_def s
    by (rule bit_word_eqI) (use f assms(1) in \<open>auto simp: bit_simps dest: b\<close>)
qed

section \<open>Searching the map\<close>

definition freeset :: "nat \<Rightarrow> (nat \<Rightarrow> u64) \<Rightarrow> nat set" where
  "freeset nblk m = {j. j < nblk \<and> bit (m (j div 64)) (j mod 64)}"

lemma getfree_loop_spec:
  assumes "nblk \<le> 1024" "ndx = 64 * i" "i < 16"
  shows "case getfree_loop nblk m i ndx of None \<Rightarrow> False
    | Some (None, m') \<Rightarrow> m' = m \<and> freeset nblk m \<inter> {ndx..} = {}
    | Some (Some j, m') \<Rightarrow> j \<in> freeset nblk m \<and> ndx \<le> j \<and> (\<forall>k \<in> freeset nblk m. ndx \<le> k \<longrightarrow> j \<le> k) \<and>
        (\<forall>n. freeset n m' = freeset n m - {j})"
  using assms
proof (induction nblk m i ndx rule: getfree_loop.induct)
  case (1 nblk m i ndx)
  show ?case
  proof (cases "m i = 0")
    case True
    have none: "j \<notin> freeset nblk m" if "64 * i \<le> j" "j < 64 * i + 64" for j
    proof -
      have "j div 64 = i" using that by auto
      then show ?thesis using True by (simp add: freeset_def)
    qed
    show ?thesis
    proof (cases "ndx + 64 < nblk")
      case small: True
      have "getfree_loop nblk m i ndx = getfree_loop nblk m (Suc i) (ndx + 64)"
        using True small "1.prems" by (subst getfree_loop.simps) (simp add: MEMBUFBITMAPWORDS_def Let_def)
      moreover have "64 * i + 64 \<le> k" if "k \<in> freeset nblk m" "64 * i \<le> k" for k
        using none [of k] that by (meson not_less)
      ultimately show ?thesis
        using "1.IH" [OF _ refl _ refl] True small "1.prems"
        by (fastforce simp: MEMBUFBITMAPWORDS_def split: option.splits)
    next
      case False
      then have "getfree_loop nblk m i ndx = Some (None, m)"
        using True "1.prems" by (subst getfree_loop.simps) (simp add: MEMBUFBITMAPWORDS_def Let_def)
      moreover have "j \<notin> freeset nblk m" if "ndx \<le> j" for j
        using none [of j] that False "1.prems"(2) by (auto simp: freeset_def)
      ultimately show ?thesis by auto
    qed
  next
    case False
    define t where "t = tzero64 (m i)"
    have t: "bit (m i) t" "\<And>n. n < t \<Longrightarrow> \<not> bit (m i) n" "t < 64"
      using False tzero64_ctz [of "m i"] bit_imp_le_length [of "m i" t] by (auto simp: t_def is_ctz_def)
    have least: "64 * i + t \<le> k" if "k \<in> freeset n m" "64 * i \<le> k" for k n
    proof (rule ccontr)
      assume "\<not> 64 * i + t \<le> k"
      moreover define d where "d = k - 64 * i"
      ultimately have d: "k = 64 * i + d" "d < t" using that(2) by simp_all
      then have "k div 64 = i" "k mod 64 < t" using t(3) by simp_all
      then show False using that(1) t(2) by (auto simp: freeset_def)
    qed
    show ?thesis
    proof (cases "ndx + t < nblk")
      case small: True
      let ?m = "m(i := m i AND NOT (push_bit t 1))"
      have "getfree_loop nblk m i ndx = Some (Some (ndx + t), ?m)"
        using False small "1.prems" by (subst getfree_loop.simps) (simp add: MEMBUFBITMAPWORDS_def Let_def t_def)
      moreover have "64 * i + t \<in> freeset nblk m"
        using t small "1.prems"(2) by (simp add: freeset_def)
      moreover have "freeset n ?m = freeset n m - {64 * i + t}" for n
      proof -
        have "k div 64 = i \<and> k mod 64 = t \<longleftrightarrow> k = 64 * i + t" for k
          using t(3) mult_div_mod_eq [of 64 k] by auto
        then show ?thesis by (auto simp: freeset_def bit_simps)
      qed
      ultimately show ?thesis using least "1.prems"(2) by auto
    next
      case big: False
      then have "getfree_loop nblk m i ndx = Some (None, m)"
        using False "1.prems" by (subst getfree_loop.simps) (simp add: MEMBUFBITMAPWORDS_def Let_def t_def)
      moreover have "k \<notin> freeset nblk m" if "ndx \<le> k" for k
        using least [of k nblk] that big "1.prems"(2) by (auto simp: freeset_def)
      ultimately show ?thesis by auto
    qed
  qed
qed

definition buffree :: "membuf \<Rightarrow> nat set" where
  "buffree buf = freeset (unat (memgetbufnblk buf)) (freemap buf)"

lemma finite_freeset [simp]: "finite (freeset n m)"
  by (simp add: freeset_def)

lemma membufgetfree_cases:
  assumes "unat (memgetbufnblk buf) \<le> 1024"
  shows "buffree buf = {} \<Longrightarrow> membufgetfree buf = Some (None, buf)"
    and "buffree buf \<noteq> {} \<Longrightarrow> \<exists>m. membufgetfree buf = Some (Some (Min (buffree buf)), buf\<lparr>freemap := m\<rparr>) \<and>
      (\<forall>n. freeset n m = freeset n (freemap buf) - {Min (buffree buf)})"
proof -
  define n where "n = unat (memgetbufnblk buf)"
  have s: "case getfree_loop n (freemap buf) 0 0 of None \<Rightarrow> False
      | Some (None, m') \<Rightarrow> m' = freemap buf \<and> freeset n (freemap buf) \<inter> {0..} = {}
      | Some (Some j, m') \<Rightarrow> j \<in> freeset n (freemap buf) \<and> 0 \<le> j \<and>
          (\<forall>k \<in> freeset n (freemap buf). 0 \<le> k \<longrightarrow> j \<le> k) \<and> (\<forall>n. freeset n m' = freeset n (freemap buf) - {j})"
    using getfree_loop_spec [of n 0 0 "freemap buf"] assms by (simp add: n_def)
  show "membufgetfree buf = Some (None, buf)" if "buffree buf = {}"
    using s that unfolding membufgetfree_def n_def [symmetric] buffree_def by (auto split: option.splits)
  show "\<exists>m. membufgetfree buf = Some (Some (Min (buffree buf)), buf\<lparr>freemap := m\<rparr>) \<and>
      (\<forall>n. freeset n m = freeset n (freemap buf) - {Min (buffree buf)})" if ne: "buffree buf \<noteq> {}"
  proof -
    obtain j m where j: "getfree_loop n (freemap buf) 0 0 = Some (Some j, m)"
      using s ne unfolding buffree_def n_def [symmetric] by (auto split: option.splits)
    then have "Min (buffree buf) = j"
      using s unfolding buffree_def n_def [symmetric] by (intro Min_eqI) auto
    then show ?thesis using j s unfolding membufgetfree_def n_def [symmetric] by (intro exI [of _ m]) simp
  qed
qed

lemma freeset_set:
  "freeset n (m(j div 64 := m (j div 64) OR push_bit (j mod 64) 1)) = freeset n m \<union> ({j} \<inter> {..<n})"
proof -
  have same: "k = j" if "k div 64 = j div 64" "k mod 64 = j mod 64" for k
    using arg_cong2 [OF that, of "\<lambda>q r. 64 * q + r"] by (simp only: mult_div_mod_eq)
  have b: "bit (m (j div 64) OR push_bit (j mod 64) 1) (k mod 64) \<longleftrightarrow> bit (m (j div 64)) (k mod 64) \<or> k mod 64 = j mod 64" for k
    by (auto simp: bit_simps)
  have "bit ((m(j div 64 := m (j div 64) OR push_bit (j mod 64) 1)) (k div 64)) (k mod 64) \<longleftrightarrow>
      bit (m (k div 64)) (k mod 64) \<or> k = j" for k
    using same [of k] b [of k] by (cases "k div 64 = j div 64") (auto simp del: push_bit_of_1)
  then show ?thesis unfolding freeset_def by auto
qed

lemma freeset_init:
  assumes "n \<le> 1024"
  shows "freeset n (freemap (membufinitfree buf)) = {1..<n}"
proof -
  define m where "m = freemap (membufinitfree buf)"
  have m0: "m 0 = NOT 1" by (simp add: m_def membufinitfree_def Let_def)
  have "list_all (\<lambda>i. m i = NOT 0) [1..<16]"
    by (simp add: m_def membufinitfree_def Let_def upt_rec)
  then have mi: "m i = NOT 0" if "1 \<le> i" "i < 16" for i using that by (simp add: list_all_iff)
  have "bit (m (j div 64)) (j mod 64) \<longleftrightarrow> 1 \<le> j" if "j < n" for j
  proof (cases "j div 64 = 0")
    case True
    then have "j < 64" by simp
    then show ?thesis using m0 True by (auto simp: bit_simps)
  next
    case False
    then have "m (j div 64) = NOT 0" using that assms by (intro mi) auto
    moreover have "1 \<le> j" using False by (cases j) auto
    ultimately show ?thesis by (simp add: bit_simps)
  qed
  then show ?thesis unfolding m_def [symmetric] freeset_def by auto
qed

text \<open>
  C11: a buffer of at most 1024 blocks is a set of free block numbers.  Initialisation makes all
  blocks but the first free; the search finds the lowest free block, takes exactly it from the set,
  and reports that there is none exactly when the set is empty; a release adds the block.
\<close>

theorem membuf_refines_set:
  assumes "unat (memgetbufnblk buf) \<le> 1024" "j < unat (memgetbufnblk buf)"
  shows "(if buffree buf = {} then membufgetfree buf = Some (None, buf)
      else \<exists>buf'. membufgetfree buf = Some (Some (Min (buffree buf)), buf') \<and>
        buffree buf' = buffree buf - {Min (buffree buf)}) \<and>
    buffree (membufsetfree j buf) = insert j (buffree buf) \<and>
    buffree (membufinitfree buf) = {1..<unat (memgetbufnblk buf)}"
proof -
  have "memgetbufnblk (buf\<lparr>freemap := m\<rparr>) = memgetbufnblk buf" for m by (simp add: memgetbufnblk_def)
  moreover have "membufinitfree buf = buf\<lparr>freemap := freemap (membufinitfree buf)\<rparr>"
    by (simp add: membufinitfree_def Let_def)
  then have "memgetbufnblk (membufinitfree buf) = memgetbufnblk buf" by (metis calculation)
  moreover have "\<exists>buf'. membufgetfree buf = Some (Some (Min (buffree buf)), buf') \<and>
      buffree buf' = buffree buf - {Min (buffree buf)}" if "buffree buf \<noteq> {}"
    using membufgetfree_cases(2) [OF assms(1) that] calculation by (fastforce simp: buffree_def)
  ultimately show ?thesis
    using membufgetfree_cases(1) [OF assms(1)] assms(2) freeset_init [OF assms(1), of buf]
      freeset_set [of "unat (memgetbufnblk buf)" "freemap buf" j]
    by (simp add: buffree_def membufsetfree_def)
qed

theorem membuf_refines_set_witness:
  "\<exists>buf'. membufgetfree (membufinitfree (meminitbufnblk 4 (mapped 0x1000 0))) = Some (Some 1, buf') \<and>
    buffree buf' = {2, 3}"
proof -
  define buf where "buf = membufinitfree (meminitbufnblk 4 (mapped 0x1000 0))"
  have n: "memgetbufnblk buf = 4" "memgetbufnblk (meminitbufnblk 4 (mapped 0x1000 0)) = 4"
    by (simp_all add: buf_def membufinitfree_def meminitbufnblk_def mapped_def memgetbufnblk_def MEMBUFNBLKBITS_def Let_def)
  have f: "buffree buf = {1..<4}"
    using membuf_refines_set [of "meminitbufnblk 4 (mapped 0x1000 0)" 0] n(2) by (simp add: buf_def)
  have "Min {1..<4 :: nat} = 1" by (intro Min_eqI) auto
  moreover have "{1..<4} - {1} = {2, 3 :: nat}" by auto
  ultimately show ?thesis
    using membuf_refines_set [of buf 0] n(1) f unfolding buf_def [symmetric] by auto
qed

section \<open>Blocks\<close>

text \<open>The types of buffers with the slots that the allocator uses for them.\<close>

definition slot_ok :: "u64 \<Rightarrow> u64 \<Rightarrow> bool" where
  "slot_ok t slot \<longleftrightarrow> t = MEMSMALLBUF \<and> unat slot \<le> 11 \<or> t = MEMPAGEBUF \<and> unat slot < 128 \<or>
     t = MEMBIGBUF \<and> unat slot \<le> 40"

definition blkbytes :: "u64 \<Rightarrow> u64 \<Rightarrow> nat" where
  "blkbytes t slot = (if t \<noteq> MEMPAGEBUF then 2 ^ unat slot else 4096 + 4096 * unat slot)"

lemma memnbufblk_range: "1 \<le> unat (memnbufblk t slot)" "unat (memnbufblk t slot) \<le> 1024"
  by (simp_all add: memnbufblk_def)

lemma blkbytes_range:
  assumes "slot_ok t slot"
  shows "0 < blkbytes t slot" "blkbytes t slot \<le> 2 ^ 40"
proof -
  have "(2::nat) ^ unat slot \<le> 2 ^ 40" if "unat slot \<le> 40" using that by (intro power_increasing) simp_all
  then show "0 < blkbytes t slot" "blkbytes t slot \<le> 2 ^ 40"
    using assms by (auto simp: blkbytes_def slot_ok_def)
qed

lemma unat_of_nat64: "n < 2 ^ 64 \<Longrightarrow> unat (of_nat n :: u64) = n"
  by (simp add: unat_of_nat)

lemma membufblksize_bytes: "slot_ok t slot \<Longrightarrow> unat (membufblksize t slot) = blkbytes t slot"
proof -
  assume a: "slot_ok t slot"
  have "membufblksize t slot = of_nat (blkbytes t slot)"
    by (simp add: membufblksize_def blkbytes_def push_bit_eq_mult PAGESZ_def)
  moreover have "blkbytes t slot < 2 ^ 64" using blkbytes_range(2) [OF a] by simp
  ultimately show ?thesis by (simp only: unat_of_nat64)
qed

lemma bufsizes:
  assumes "slot_ok t slot"
  defines "n \<equiv> memnbufblk t slot"
  shows "unat (if t = MEMSMALLBUF then memsmallbufsize slot n else if t = MEMPAGEBUF then mempagebufsize slot n
      else membigbufsize slot n) = 4096 * ((4096 + unat n * blkbytes t slot + 4095) div 4096)"
proof -
  define B where "B = unat n * blkbytes t slot"
  have "B \<le> 1024 * 2 ^ 40"
    unfolding B_def n_def using blkbytes_range [OF assms(1)] memnbufblk_range [of t slot] by (intro mult_mono) simp_all
  then have B: "4096 + B + 4095 < 2 ^ 64" by simp
  have o: "membufblkofs = 4096" by (simp add: membufblkofs_def membufhdrsize_def rounduppow2_def PAGESZ_def)
  have "(if t = MEMSMALLBUF then memsmallbufsize slot n else if t = MEMPAGEBUF then mempagebufsize slot n
      else membigbufsize slot n) = rounduppow2 (of_nat (4096 + B)) (2 ^ 12)"
    using assms(1)
    by (auto simp: memsmallbufsize_def mempagebufsize_def membigbufsize_def o B_def blkbytes_def push_bit_eq_mult
        PAGESZ_def mult.commute slot_ok_def MEMSMALLBUF_def MEMPAGEBUF_def MEMBIGBUF_def)
  then show ?thesis
    using rounduppow2_exact [of 12 "of_nat (4096 + B) :: u64"] B unat_of_nat64 [of "4096 + B"]
    by (simp add: B_def del: of_nat_add)
qed

lemma newbuf_facts:
  assumes "memnewbuf noheap hadr madr t slot align = Some (ptr, buf)" "slot_ok t slot"
  shows "memgetbufnblk buf = memnbufblk t slot" "memgetbufslot buf = slot" "memgetbuftype buf = t"
    "mb_base buf = mb_adr buf + 4096" "mb_nfree buf = memnbufblk t slot - 1" "ptr = memalignptr (mb_base buf) align"
    "unat (mb_size buf) = 4096 * ((4096 + unat (memnbufblk t slot) * blkbytes t slot + 4095) div 4096)"
    "buffree buf = {1..<unat (memnbufblk t slot)}"
proof -
  define n where "n = memnbufblk t slot"
  define sz where "sz = (if t = MEMSMALLBUF then memsmallbufsize slot n else if t = MEMPAGEBUF then mempagebufsize slot n
      else membigbufsize slot n)"
  have o: "membufblkofs = 4096" by (simp add: membufblkofs_def membufhdrsize_def rounduppow2_def PAGESZ_def)
  obtain adr flg where f: "flg = 0 \<or> flg = MEMHEAPBIT"
    "(ptr, buf) = meminitsmallbuf align n
       ((meminitbuftype t (meminitbufnblk n (meminitbufslot slot (mapped adr flg))))\<lparr>mb_size := sz\<rparr>)"
    using assms
    by (auto simp: memnewbuf_def memallocsmallbuf_def memallocpagebuf_def memallocbigbuf_def n_def [symmetric] sz_def
        meminitsmallbuf_def meminitpagebuf_def meminitbigbuf_def slot_ok_def Let_def split: if_splits)
  define info where "info = flg OR push_bit MEMBUFSLOTSHIFT slot OR n OR push_bit MEMBUFTYPESHIFT t"
  have m: "membufinitfree b = b\<lparr>freemap := freemap (membufinitfree b)\<rparr>" for b
    by (simp add: membufinitfree_def Let_def)
  let ?b = "\<lparr>mb_adr = adr, mb_base = adr + 4096, mb_info = info, mb_size = sz, mb_nfree = 0,
     freemap = (\<lambda>_. 0), relmap = (\<lambda>_. 0)\<rparr>"
  have b: "buf = ?b\<lparr>freemap := freemap (membufinitfree ?b), mb_nfree := n - 1\<rparr>" "ptr = memalignptr (adr + 4096) align"
    using f(2) m [of ?b]
    by (simp_all add: meminitsmallbuf_def meminitbuftype_def meminitbufnblk_def meminitbufslot_def mapped_def o info_def Let_def or.assoc)
  have "unat slot < 2 ^ 8" "unat n < 2 ^ 16" "unat t < 2 ^ 2"
    using assms(2) memnbufblk_range(2) [of t slot]
    by (auto simp: slot_ok_def n_def MEMSMALLBUF_def MEMPAGEBUF_def MEMBIGBUF_def)
  from info_fields [OF f(1) this, folded info_def]
  show n: "memgetbufnblk buf = memnbufblk t slot" and "memgetbufslot buf = slot" "memgetbuftype buf = t"
    unfolding b(1) by (simp_all add: memgetbufnblk_def memgetbufslot_def memgetbuftype_def n_def)
  show "mb_base buf = mb_adr buf + 4096" "mb_nfree buf = memnbufblk t slot - 1" "ptr = memalignptr (mb_base buf) align"
    unfolding b by (simp_all add: n_def)
  show "unat (mb_size buf) = 4096 * ((4096 + unat (memnbufblk t slot) * blkbytes t slot + 4095) div 4096)"
  proof -
    have "unat sz = 4096 * ((4096 + unat (memnbufblk t slot) * blkbytes t slot + 4095) div 4096)"
      unfolding sz_def n_def by (rule bufsizes [OF assms(2)])
    then show ?thesis unfolding b(1) by (simp only: membuf.simps)
  qed
  have "freemap buf = freemap (membufinitfree ?b)" unfolding b(1) by simp
  then show "buffree buf = {1..<unat (memnbufblk t slot)}"
    unfolding buffree_def n by (simp only: freeset_init [OF memnbufblk_range(2)])
qed

lemma bufadr_nat:
  assumes "memgetbufslot buf = slot" "slot_ok t slot" "unat (mb_base buf) + i * blkbytes t slot < 2 ^ 64"
  shows "unat (bufadr t buf (of_nat i)) = unat (mb_base buf) + i * blkbytes t slot"
proof -
  have "bufadr t buf (of_nat i) = mb_base buf + of_nat (i * blkbytes t slot)"
    using assms(1) by (simp add: bufadr_def membufblkadr_def membufpageadr_def blkbytes_def push_bit_eq_mult PAGESZ_def
        algebra_simps)
  moreover have "unat (of_nat (i * blkbytes t slot) :: u64) = i * blkbytes t slot"
    using assms(3) by (intro unat_of_nat64) simp
  ultimately show ?thesis using assms(3) by (simp only: unat_add_small) (simp add: unat_add_small)
qed

text \<open>
  C10: in a new buffer of any type whose memory does not wrap around the address space, every block
  lies behind the header and inside the memory of the buffer, blocks with different numbers do not
  overlap, and any address inside a block of a small or big buffer leads back to its number.
\<close>

theorem membuf_blocks_disjoint:
  assumes "memnewbuf noheap hadr madr t slot align = Some (ptr, buf)" "slot_ok t slot"
    and "unat (mb_adr buf) + unat (mb_size buf) \<le> 2 ^ 64"
  defines "n \<equiv> unat (memnbufblk t slot)" and "bsz \<equiv> unat (membufblksize t slot)"
    and "adr \<equiv> \<lambda>i. unat (bufadr t buf (of_nat i))"
  shows "(\<forall>i<n. unat (mb_adr buf) + unat membufhdrsize \<le> adr i \<and> adr i + bsz \<le> unat (mb_adr buf) + unat (mb_size buf)) \<and>
    (\<forall>i<n. \<forall>j<i. adr j + bsz \<le> adr i) \<and>
    (t \<noteq> MEMPAGEBUF \<longrightarrow> (\<forall>i<n. \<forall>k<bsz. membufblkid buf (bufadr t buf (of_nat i) + of_nat k) = of_nat i))"
proof -
  note nf = newbuf_facts [OF assms(1,2)]
  define B where "B = blkbytes t slot"
  have bsz: "bsz = B" "0 < B" using membufblksize_bytes [OF assms(2)] blkbytes_range(1) [OF assms(2)] by (simp_all add: bsz_def B_def)
  have size: "4096 + n * B \<le> unat (mb_size buf)" using nf(7) by (simp add: n_def B_def)
  have base: "unat (mb_base buf) = unat (mb_adr buf) + 4096"
  proof -
    have "0 < n * B" using bsz(2) memnbufblk_range(1) [of t slot] by (simp add: n_def)
    moreover have u: "unat (4096 :: u64) = 4096" by simp
    ultimately have "unat (mb_adr buf) + unat (4096 :: u64) < 2 ^ 64" using assms(3) size unfolding u by linarith
    then show ?thesis unfolding nf(4) by (simp add: unat_add_small)
  qed
  have le: "(i + 1) * B \<le> n * B" if "i < n" for i using that by (intro mult_le_mono1) simp
  then have a: "adr i = unat (mb_base buf) + i * B" if "i < n" for i
    using that assms(3) size base bsz(2) bufadr_nat [OF nf(2) assms(2), of i]
    unfolding adr_def B_def [symmetric] by (fastforce simp: add_mult_distrib)
  have in_buf: "unat (mb_adr buf) + unat membufhdrsize \<le> adr i \<and> adr i + bsz \<le> unat (mb_adr buf) + unat (mb_size buf)"
    if "i < n" for i
    using a [OF that] le [OF that] size base bsz(1) by (simp add: membufhdrsize_def add_mult_distrib)
  have apart: "adr j + bsz \<le> adr i" if "i < n" "j < i" for i j
  proof -
    have "(j + 1) * B \<le> i * B" using that by (intro mult_le_mono1) simp
    then show ?thesis using a that bsz(1) by (simp add: add_mult_distrib)
  qed
  have blkid: "membufblkid buf (bufadr t buf (of_nat i) + of_nat k) = of_nat i"
    if "t \<noteq> MEMPAGEBUF" "i < n" "k < bsz" for i k
  proof (rule word_eq_natI)
    have s: "B = 2 ^ unat slot" using that(1) by (simp add: B_def blkbytes_def)
    have in64: "adr i + k < 2 ^ 64" using in_buf [OF that(2)] assms(3) that(3) by linarith
    then have "unat (of_nat k :: u64) = k" by (intro unat_of_nat64) simp
    then have "unat (bufadr t buf (of_nat i) + of_nat k) = adr i + k"
      using in64 by (simp add: unat_add_small adr_def)
    then have "unat (bufadr t buf (of_nat i) + of_nat k - mb_base buf) = i * B + k"
      using a [OF that(2)] by (simp add: unat_sub_small)
    moreover have "(i * B + k) div B = i" using that(3) bsz by simp
    moreover have "i < 2 ^ 64" using that(2) memnbufblk_range(2) [of t slot] by (simp add: n_def)
    ultimately show "unat (membufblkid buf (bufadr t buf (of_nat i) + of_nat k)) = unat (of_nat i :: u64)"
      using nf(2) s by (simp add: membufblkid_def unat_drop_bit_div unat_of_nat64)
  qed
  show ?thesis using in_buf apart blkid by blast
qed

theorem membuf_blocks_disjoint_witness:
  "\<exists>ptr buf. memnewbuf True 0 0x100000 MEMPAGEBUF 3 16 = Some (ptr, buf) \<and>
    unat (bufadr MEMPAGEBUF buf 0) + 16384 \<le> unat (bufadr MEMPAGEBUF buf 1)"
proof -
  obtain ptr buf where b: "memnewbuf True 0 0x100000 MEMPAGEBUF 3 16 = Some (ptr, buf)"
    by (simp add: memnewbuf_def memallocpagebuf_def MEMPAGEBUF_def MEMSMALLBUF_def Let_def meminitpagebuf_def)
  have s: "slot_ok MEMPAGEBUF 3" by (simp add: slot_ok_def)
  have a: "mb_adr buf = 0x100000"
    using b by (simp add: memnewbuf_def memallocpagebuf_def MEMPAGEBUF_def MEMSMALLBUF_def Let_def meminitpagebuf_def
        membufinitfree_def meminitbuftype_def meminitbufnblk_def meminitbufslot_def mapped_def) auto
  have "unat (mb_size buf) = 135168"
    using newbuf_facts(7) [OF b s] by (simp add: memnbufblk_def blkbytes_def MEMPAGEBUF_def MEMSMALLBUF_def)
  then have z: "unat (mb_adr buf) + unat (mb_size buf) \<le> 2 ^ 64" using a by simp
  have "unat (memnbufblk MEMPAGEBUF 3) = 8" "unat (membufblksize MEMPAGEBUF 3) = 16384"
    by (simp_all add: memnbufblk_def membufblksize_def MEMPAGEBUF_def MEMSMALLBUF_def PAGESZ_def)
  then have "unat (bufadr MEMPAGEBUF buf 0) + 16384 \<le> unat (bufadr MEMPAGEBUF buf 1)"
    using conjunct1 [OF conjunct2 [OF membuf_blocks_disjoint [OF b s z]], rule_format, of 1 0] by simp
  with b show ?thesis by blast
qed

section \<open>Allocation\<close>

definition blkat :: "u64 \<Rightarrow> u64 \<Rightarrow> u64 \<Rightarrow> nat \<Rightarrow> u64" where
  "blkat t slot adr i = adr + 4096 + of_nat i * membufblksize t slot"

definition bufok :: "u64 \<Rightarrow> u64 \<Rightarrow> membuf \<Rightarrow> bool" where
  "bufok t slot buf \<longleftrightarrow> memgetbufnblk buf = memnbufblk t slot \<and> memgetbufslot buf = slot \<and>
     mb_base buf = mb_adr buf + 4096 \<and> unat (mb_nfree buf) = card (buffree buf) \<and> buffree buf \<noteq> {} \<and>
     unat (mb_adr buf) + 4096 + unat (memnbufblk t slot) * blkbytes t slot \<le> 2 ^ 63"

definition bins_list :: "membins \<Rightarrow> membuf list" where
  "bins_list bins = bkt_list (bin_tls bins) @ bkt_list (bin_glob bins)"

definition bins_ok :: "u64 \<Rightarrow> u64 \<Rightarrow> membins \<Rightarrow> bool" where
  "bins_ok t slot bins \<longleftrightarrow> list_all (bufok t slot) (bins_list bins) \<and> distinct (map mb_adr (bins_list bins)) \<and>
     (t = MEMBIGBUF \<longrightarrow> bkt_list (bin_tls bins) = []) \<and>
     bkt_nbuf (bin_tls bins) = int (length (bkt_list (bin_tls bins))) \<and>
     bkt_nbuf (bin_glob bins) = int (length (bkt_list (bin_glob bins)))"

definition frees :: "membuf list \<Rightarrow> (u64 \<times> nat) set" where
  "frees bufs = (\<Union>buf \<in> set bufs. Pair (mb_adr buf) ` buffree buf)"

lemma frees_simps [simp]:
  "frees [] = {}" "frees (buf # bufs) = Pair (mb_adr buf) ` buffree buf \<union> frees bufs"
  "frees (xs @ ys) = frees xs \<union> frees ys"
  by (auto simp: frees_def)

lemma frees_adr: "(a, i) \<in> frees bufs \<Longrightarrow> a \<in> mb_adr ` set bufs"
  by (auto simp: frees_def)

lemma frees_take:
  assumes "a \<notin> mb_adr ` set bufs"
  shows "Pair a ` (S - {i}) \<union> frees bufs = Pair a ` S \<union> frees bufs - {(a, i)}"
  using assms frees_adr by fastforce

lemma memalignptr_pos:
  assumes "unat ptr \<le> 2 ^ 63" "0 < unat ptr" "a \<le> 62"
  shows "memalignptr ptr (2 ^ a) \<noteq> 0"
proof -
  have "(2::nat) ^ a \<le> 2 ^ 62" using assms(3) by (intro power_increasing) simp_all
  then have "unat ptr + 2 ^ a - 1 < 2 ^ 64" using assms(1) by simp
  then have "unat (memalignptr ptr (2 ^ a)) = 2 ^ a * ((unat ptr + 2 ^ a - 1) div 2 ^ a)"
    unfolding memalignptr_def using rounduppow2_exact [of a ptr] assms(3) by simp
  moreover have "1 \<le> (unat ptr + 2 ^ a - 1) div 2 ^ a" using assms(2) by (simp add: le_div_geq)
  ultimately show ?thesis by auto
qed

lemma take_block:
  assumes "bufok t slot buf" "slot_ok t slot" "a \<le> 62"
  obtains i m where "membufgetfree buf = Some (Some i, buf\<lparr>freemap := m\<rparr>)" "i \<in> buffree buf"
    "bufadr t (buf\<lparr>freemap := m\<rparr>) (of_nat i) = blkat t slot (mb_adr buf) i"
    "memalignptr (blkat t slot (mb_adr buf) i) (2 ^ a) \<noteq> 0"
    "buffree (buf\<lparr>freemap := m, mb_nfree := mb_nfree buf - 1\<rparr>) = buffree buf - {i}"
    "mb_nfree buf - 1 = 0 \<longleftrightarrow> buffree buf - {i} = {}"
    "mb_nfree buf - 1 \<noteq> 0 \<Longrightarrow> bufok t slot (buf\<lparr>freemap := m, mb_nfree := mb_nfree buf - 1\<rparr>)"
proof -
  define i where "i = Min (buffree buf)"
  have n: "unat (memgetbufnblk buf) \<le> 1024" "unat (memgetbufnblk buf) = unat (memnbufblk t slot)"
    using assms(1) memnbufblk_range(2) [of t slot] by (simp_all add: bufok_def)
  have ne: "buffree buf \<noteq> {}" using assms(1) by (simp add: bufok_def)
  have fin: "finite (buffree buf)" by (simp add: buffree_def)
  obtain m where m: "membufgetfree buf = Some (Some i, buf\<lparr>freemap := m\<rparr>)"
    "\<forall>n. freeset n m = freeset n (freemap buf) - {i}"
    using membufgetfree_cases(2) [OF n(1) ne] by (auto simp: i_def)
  have i: "i \<in> buffree buf" using ne fin by (simp add: i_def)
  then have "i < unat (memnbufblk t slot)" using n(2) by (simp add: buffree_def freeset_def)
  then have "i * blkbytes t slot \<le> unat (memnbufblk t slot) * blkbytes t slot" by (intro mult_le_mono1) simp
  moreover have "unat (mb_adr buf) + 4096 + unat (memnbufblk t slot) * blkbytes t slot \<le> 2 ^ 63"
    using assms(1) by (simp only: bufok_def)
  ultimately have le: "unat (mb_adr buf) + 4096 + i * blkbytes t slot \<le> 2 ^ 63" by linarith
  then have "unat (mb_adr buf) + unat (4096 :: u64) < 2 ^ 64" by simp
  then have base: "unat (mb_base buf) = unat (mb_adr buf) + 4096"
    using assms(1) by (simp add: bufok_def unat_add_small)
  have slot: "memgetbufslot buf = slot" "mb_base buf = mb_adr buf + 4096" using assms(1) by (simp_all add: bufok_def)
  have adr: "bufadr t buf (of_nat i) = blkat t slot (mb_adr buf) i"
    using slot by (simp add: bufadr_def membufblkadr_def membufpageadr_def blkat_def membufblksize_def push_bit_eq_mult)
  have "unat (bufadr t buf (of_nat i)) = unat (mb_base buf) + i * blkbytes t slot"
    using le base by (intro bufadr_nat [OF slot(1) assms(2)]) simp
  then have pos: "memalignptr (blkat t slot (mb_adr buf) i) (2 ^ a) \<noteq> 0"
    using le base adr by (intro memalignptr_pos [OF _ _ assms(3)]) simp_all
  have free: "buffree (buf\<lparr>freemap := m, mb_nfree := mb_nfree buf - 1\<rparr>) = buffree buf - {i}"
    using m(2) by (simp add: buffree_def memgetbufnblk_def)
  have nf: "unat (mb_nfree buf) = card (buffree buf)" using assms(1) by (simp add: bufok_def)
  moreover have "0 < card (buffree buf)" using ne fin by (simp add: card_gt_0_iff)
  ultimately have dec: "unat (mb_nfree buf - 1) = card (buffree buf - {i})"
    using i fin by (simp add: unat_sub_small)
  then have zero: "mb_nfree buf - 1 = 0 \<longleftrightarrow> buffree buf - {i} = {}"
    using fin by (metis card_0_eq finite_Diff unat_eq_zero)
  have ok: "bufok t slot (buf\<lparr>freemap := m, mb_nfree := mb_nfree buf - 1\<rparr>)" if "mb_nfree buf - 1 \<noteq> 0"
    using assms(1) dec free zero that by (simp add: bufok_def memgetbufnblk_def memgetbufslot_def)
  have "bufadr t (buf\<lparr>freemap := m\<rparr>) n = bufadr t buf n" for n
    by (simp add: bufadr_def membufblkadr_def membufpageadr_def memgetbufslot_def)
  then show thesis using adr by (intro that [OF m(1) i _ pos free zero ok]) simp_all
qed

definition took :: "u64 \<Rightarrow> u64 \<Rightarrow> u64 \<Rightarrow> membins \<Rightarrow> u64 \<Rightarrow> membins \<Rightarrow> bool" where
  "took t slot align bins ptr bins' \<longleftrightarrow> (\<exists>(a, i) \<in> frees (bins_list bins).
     ptr = memalignptr (blkat t slot a i) align \<and> frees (bins_list bins') = frees (bins_list bins) - {(a, i)})"

lemma tls_take:
  assumes "bins_ok t slot bins" "slot_ok t slot" "a \<le> 62" "bkt_list (bin_tls bins) = buf # rest"
  shows "\<exists>ptr tls. memgetblktls t (2 ^ a) (bin_tls bins) = Some (ptr, tls) \<and> ptr \<noteq> 0 \<and>
    bins_ok t slot (bins\<lparr>bin_tls := tls\<rparr>) \<and> took t slot (2 ^ a) bins ptr (bins\<lparr>bin_tls := tls\<rparr>)"
proof -
  let ?os = "rest @ bkt_list (bin_glob bins)"
  have b: "bufok t slot buf" "mb_adr buf \<notin> mb_adr ` set ?os" using assms(1,4) by (auto simp: bins_ok_def bins_list_def)
  obtain i m where g: "membufgetfree buf = Some (Some i, buf\<lparr>freemap := m\<rparr>)" "i \<in> buffree buf"
    "bufadr t (buf\<lparr>freemap := m\<rparr>) (of_nat i) = blkat t slot (mb_adr buf) i"
    "memalignptr (blkat t slot (mb_adr buf) i) (2 ^ a) \<noteq> 0"
    "buffree (buf\<lparr>freemap := m, mb_nfree := mb_nfree buf - 1\<rparr>) = buffree buf - {i}"
    "mb_nfree buf - 1 = 0 \<longleftrightarrow> buffree buf - {i} = {}"
    "mb_nfree buf - 1 \<noteq> 0 \<Longrightarrow> bufok t slot (buf\<lparr>freemap := m, mb_nfree := mb_nfree buf - 1\<rparr>)"
    using take_block [OF b(1) assms(2,3)] by metis
  define ptr where "ptr = memalignptr (blkat t slot (mb_adr buf) i) (2 ^ a)"
  define buf' where "buf' = buf\<lparr>freemap := m, mb_nfree := mb_nfree buf - 1\<rparr>"
  define tls where "tls = (if mb_nfree buf - 1 = 0 then (bin_tls bins)\<lparr>bkt_list := rest, bkt_nbuf := bkt_nbuf (bin_tls bins) - 1\<rparr>
    else (bin_tls bins)\<lparr>bkt_list := buf' # rest\<rparr>)"
  have "memgetblktls t (2 ^ a) (bin_tls bins) = Some (ptr, tls)"
    using assms(4) g(1,3) by (simp add: memgetblktls_def ptr_def tls_def buf'_def Let_def)
  moreover have "ptr \<noteq> 0" using g(4) by (simp only: ptr_def not_False_eq_True)
  moreover have "mb_adr buf' = mb_adr buf" by (simp add: buf'_def)
  then have "bins_ok t slot (bins\<lparr>bin_tls := tls\<rparr>)"
    using assms(1,4) g(7) by (auto simp: bins_ok_def bins_list_def tls_def buf'_def)
  moreover have "frees (bins_list (bins\<lparr>bin_tls := tls\<rparr>)) = Pair (mb_adr buf) ` (buffree buf - {i}) \<union> frees ?os"
  proof (cases "mb_nfree buf - 1 = 0")
    case True
    then show ?thesis using g(6) by (auto simp: tls_def bins_list_def)
  next
    case False
    then show ?thesis using g(5) by (simp add: tls_def bins_list_def buf'_def Un_assoc)
  qed
  then have "took t slot (2 ^ a) bins ptr (bins\<lparr>bin_tls := tls\<rparr>)"
    unfolding took_def frees_take [OF b(2)] using g(2) assms(4)
    by (intro bexI [of _ "(mb_adr buf, i)"]) (auto simp: bins_list_def ptr_def)
  ultimately show ?thesis by blast
qed

lemma glob_take:
  assumes "bins_ok t slot bins" "slot_ok t slot" "a \<le> 62" "bkt_list (bin_tls bins) = []"
    "bkt_list (bin_glob bins) = buf # rest"
  shows "\<exists>ptr bins'. memgetblkglob t (2 ^ a) bins = Some (ptr, bins') \<and> ptr \<noteq> 0 \<and>
    bins_ok t slot bins' \<and> took t slot (2 ^ a) bins ptr bins'"
proof -
  have b: "bufok t slot buf" "mb_adr buf \<notin> mb_adr ` set rest" using assms(1,4,5) by (auto simp: bins_ok_def bins_list_def)
  obtain i m where g: "membufgetfree buf = Some (Some i, buf\<lparr>freemap := m\<rparr>)" "i \<in> buffree buf"
    "bufadr t (buf\<lparr>freemap := m\<rparr>) (of_nat i) = blkat t slot (mb_adr buf) i"
    "memalignptr (blkat t slot (mb_adr buf) i) (2 ^ a) \<noteq> 0"
    "buffree (buf\<lparr>freemap := m, mb_nfree := mb_nfree buf - 1\<rparr>) = buffree buf - {i}"
    "mb_nfree buf - 1 = 0 \<longleftrightarrow> buffree buf - {i} = {}"
    "mb_nfree buf - 1 \<noteq> 0 \<Longrightarrow> bufok t slot (buf\<lparr>freemap := m, mb_nfree := mb_nfree buf - 1\<rparr>)"
    using take_block [OF b(1) assms(2,3)] by metis
  define ptr where "ptr = memalignptr (blkat t slot (mb_adr buf) i) (2 ^ a)"
  define buf' where "buf' = buf\<lparr>freemap := m, mb_nfree := mb_nfree buf - 1\<rparr>"
  define glob where "glob = (if mb_nfree buf - 1 = 0 \<or> t \<noteq> MEMBIGBUF
    then (bin_glob bins)\<lparr>bkt_list := rest, bkt_nbuf := bkt_nbuf (bin_glob bins) - 1\<rparr>
    else (bin_glob bins)\<lparr>bkt_list := buf' # rest\<rparr>)"
  define bins' where "bins' = (if mb_nfree buf - 1 \<noteq> 0 \<and> t \<noteq> MEMBIGBUF
    then bins\<lparr>bin_glob := glob, bin_tls := bktpush buf' (bin_tls bins)\<rparr> else bins\<lparr>bin_glob := glob\<rparr>)"
  have "memgetblkglob t (2 ^ a) bins = Some (ptr, bins')"
    using assms(5) g(1,3) by (simp add: memgetblkglob_def ptr_def glob_def bins'_def buf'_def Let_def)
  moreover have "ptr \<noteq> 0" using g(4) by (simp only: ptr_def not_False_eq_True)
  moreover have "mb_adr buf' = mb_adr buf" by (simp add: buf'_def)
  then have "bins_ok t slot bins'"
    using assms(1,4,5) g(7) by (auto simp: bins_ok_def bins_list_def glob_def bins'_def bktpush_def buf'_def)
  moreover have "frees (bins_list bins') = Pair (mb_adr buf) ` (buffree buf - {i}) \<union> frees rest"
  proof (cases "mb_nfree buf - 1 = 0")
    case True
    then show ?thesis using g(6) assms(4) by (auto simp: glob_def bins'_def bins_list_def)
  next
    case False
    then show ?thesis using g(5) assms(4) by (simp add: glob_def bins'_def bins_list_def buf'_def bktpush_def)
  qed
  then have "took t slot (2 ^ a) bins ptr bins'"
    unfolding took_def frees_take [OF b(2)] using g(2) assms(4,5)
    by (intro bexI [of _ "(mb_adr buf, i)"]) (auto simp: bins_list_def ptr_def)
  ultimately show ?thesis by blast
qed

lemma frees_empty: "bins_ok t slot bins \<Longrightarrow> frees (bins_list bins) = {} \<longleftrightarrow> bins_list bins = []"
  by (cases "bins_list bins") (auto simp: bins_ok_def bufok_def)

lemma newbuf_adr:
  assumes "memnewbuf noheap hadr madr t slot align = Some (ptr, buf)"
  shows "mb_adr buf \<in> {hadr, madr} - {0}"
  using assms
  by (auto simp: memnewbuf_def memallocsmallbuf_def memallocpagebuf_def memallocbigbuf_def meminitsmallbuf_def
      meminitpagebuf_def meminitbigbuf_def membufinitfree_def meminitbuftype_def meminitbufnblk_def
      meminitbufslot_def mapped_def Let_def split: if_splits)

lemma newbuf_ok:
  assumes "memnewbuf noheap hadr madr t slot (2 ^ a) = Some (ptr, buf)" "slot_ok t slot" "a \<le> 62"
    and fit: "\<And>x. x \<in> {hadr, madr} \<Longrightarrow> unat x + 4096 + unat (memnbufblk t slot) * blkbytes t slot \<le> 2 ^ 63"
  shows "ptr = memalignptr (blkat t slot (mb_adr buf) 0) (2 ^ a)" "ptr \<noteq> 0"
    "buffree buf = {1..<unat (memnbufblk t slot)}" "memnbufblk t slot > 1 \<Longrightarrow> bufok t slot buf"
proof -
  note nf = newbuf_facts [OF assms(1,2)]
  have le: "unat (mb_adr buf) + 4096 + unat (memnbufblk t slot) * blkbytes t slot \<le> 2 ^ 63"
    using newbuf_adr [OF assms(1)] by (intro fit) simp
  then have "unat (mb_adr buf) + unat (4096 :: u64) < 2 ^ 64" by simp
  then have base: "unat (mb_adr buf + 4096) = unat (mb_adr buf) + 4096" by (simp add: unat_add_small)
  show p: "ptr = memalignptr (blkat t slot (mb_adr buf) 0) (2 ^ a)" using nf(4,6) by (simp add: blkat_def)
  show "ptr \<noteq> 0" unfolding p using base le by (intro memalignptr_pos [OF _ _ assms(3)]) (simp_all add: blkat_def)
  show "buffree buf = {1..<unat (memnbufblk t slot)}" by (rule nf(8))
  show "bufok t slot buf" if "memnbufblk t slot > 1"
  proof -
    have "1 < unat (memnbufblk t slot)" using that by (simp add: word_less_nat_alt)
    then have "unat (memnbufblk t slot - 1) = unat (memnbufblk t slot) - 1" "{1..<unat (memnbufblk t slot)} \<noteq> {}"
      by (simp_all add: unat_sub_small)
    then show ?thesis unfolding bufok_def nf(1,2,4,5,8) using le by simp
  qed
qed

text \<open>
  C9: allocation of a block for a type and slot, when the system never returns memory that is in
  use or too high for the address space.  While some buffer of the thread's or the shared bucket has
  a free block, the result is the aligned address of one of the free blocks, which then is free no
  longer, and every other block keeps its state.  Else, if the system has no memory, the result is
  the null pointer and nothing changes; otherwise it is the first block of a new buffer whose other
  blocks become the free ones.  In all cases the buckets stay consistent: no buffer without free
  blocks, free counts equal to the bits that are set, lengths equal to the counters.
\<close>

theorem memgetblk_takes_free_block:
  assumes "bins_ok t slot bins" "slot_ok t slot" "a \<le> 62"
    and "\<forall>x \<in> {hadr, madr}. x \<notin> mb_adr ` set (bins_list bins) \<and>
      unat x + 4096 + unat (memnbufblk t slot) * blkbytes t slot \<le> 2 ^ 63"
  shows "\<exists>ptr bins'. memgetblk noheap hadr madr slot t (2 ^ a) bins = Some (ptr, bins') \<and> bins_ok t slot bins' \<and>
    (if frees (bins_list bins) \<noteq> {} then ptr \<noteq> 0 \<and> took t slot (2 ^ a) bins ptr bins'
     else ptr = 0 \<and> bins' = bins \<or>
       (\<exists>adr \<in> {hadr, madr} - {0}. ptr = memalignptr (blkat t slot adr 0) (2 ^ a) \<and> ptr \<noteq> 0 \<and>
         frees (bins_list bins') = Pair adr ` {1..<unat (memnbufblk t slot)}))"
proof (cases "frees (bins_list bins) = {}")
  case False
  show ?thesis
  proof (cases "bkt_list (bin_tls bins)")
    case Nil
    then obtain buf rest where "bkt_list (bin_glob bins) = buf # rest"
      using False by (cases "bkt_list (bin_glob bins)") (auto simp: bins_list_def)
    from glob_take [OF assms(1-3) Nil this] obtain ptr bins' where
      "memgetblkglob t (2 ^ a) bins = Some (ptr, bins')" "ptr \<noteq> 0" "bins_ok t slot bins'" "took t slot (2 ^ a) bins ptr bins'"
      by blast
    moreover have "memgetblktls t (2 ^ a) (bin_tls bins) = Some (0, bin_tls bins)" using Nil by (simp add: memgetblktls_def)
    ultimately show ?thesis using False by (auto simp: memgetblk_def)
  next
    case (Cons buf rest)
    then have "t \<noteq> MEMBIGBUF" using assms(1) by (auto simp: bins_ok_def)
    then show ?thesis using tls_take [OF assms(1-3) Cons] False by (auto simp: memgetblk_def)
  qed
next
  case True
  then have e: "bkt_list (bin_tls bins) = []" "bkt_list (bin_glob bins) = []"
    using frees_empty [OF assms(1)] by (simp_all add: bins_list_def)
  then have g: "memgetblk noheap hadr madr slot t (2 ^ a) bins =
    (case memnewbuf noheap hadr madr t slot (2 ^ a) of None \<Rightarrow> Some (0, bins)
     | Some (ptr, buf) \<Rightarrow> Some (ptr, if ptr \<noteq> 0 \<and> memnbufblk t slot > 1 then
           if t \<noteq> MEMBIGBUF then bins\<lparr>bin_tls := bktpush buf (bin_tls bins)\<rparr>
           else bins\<lparr>bin_glob := bktpush buf (bin_glob bins)\<rparr> else bins))"
    by (simp add: memgetblk_def memgetblktls_def memgetblkglob_def)
  show ?thesis
  proof (cases "memnewbuf noheap hadr madr t slot (2 ^ a)")
    case None
    then show ?thesis using g True assms(1) by simp
  next
    case (Some p)
    then obtain ptr buf where p: "memnewbuf noheap hadr madr t slot (2 ^ a) = Some (ptr, buf)" by (cases p) auto
    have nb: "ptr = memalignptr (blkat t slot (mb_adr buf) 0) (2 ^ a)" "ptr \<noteq> 0"
      "buffree buf = {1..<unat (memnbufblk t slot)}" "memnbufblk t slot > 1 \<Longrightarrow> bufok t slot buf"
      using newbuf_ok [OF p assms(2,3)] assms(4) by blast+
    define bins' where "bins' = (if memnbufblk t slot > 1 then
      if t \<noteq> MEMBIGBUF then bins\<lparr>bin_tls := bktpush buf (bin_tls bins)\<rparr>
      else bins\<lparr>bin_glob := bktpush buf (bin_glob bins)\<rparr> else bins)"
    have "memgetblk noheap hadr madr slot t (2 ^ a) bins = Some (ptr, bins')"
      unfolding g p using nb(2) by (simp add: bins'_def)
    moreover have "bins_ok t slot bins'"
      using assms(1) nb(4) e by (auto simp: bins_ok_def bins_list_def bins'_def bktpush_def)
    moreover have "frees (bins_list bins') = Pair (mb_adr buf) ` {1..<unat (memnbufblk t slot)}"
      using nb(3) e by (auto simp: bins_list_def bins'_def bktpush_def word_less_nat_alt)
    ultimately show ?thesis using True nb(1,2) newbuf_adr [OF p] by auto
  qed
qed

theorem memgetblk_takes_free_block_witness:
  "\<exists>ptr bins'. memgetblk True 0 0x100000 5 MEMSMALLBUF 16
      \<lparr>bin_tls = \<lparr>bkt_list = [], bkt_nbuf = 0\<rparr>, bin_glob = \<lparr>bkt_list = [], bkt_nbuf = 0\<rparr>\<rparr> = Some (ptr, bins') \<and>
    bins_ok MEMSMALLBUF 5 bins'"
proof -
  let ?b = "\<lparr>bin_tls = \<lparr>bkt_list = [], bkt_nbuf = 0\<rparr>, bin_glob = \<lparr>bkt_list = [], bkt_nbuf = 0\<rparr>\<rparr>"
  have "bins_ok MEMSMALLBUF 5 ?b" by (simp add: bins_ok_def bins_list_def)
  moreover have "slot_ok MEMSMALLBUF 5" by (simp add: slot_ok_def)
  ultimately show ?thesis
    using memgetblk_takes_free_block [of MEMSMALLBUF 5 ?b 4 0 "0x100000" True]
    by (auto simp: bins_list_def memnbufblk_def blkbytes_def MEMSMALLBUF_def MEMPAGEBUF_def)
qed

section \<open>Lemmas on the stack and on the spreading of addresses\<close>

lemma initstk_loop_other: "j \<notin> set curs \<Longrightarrow> initstk_loop curs bid m j = m j"
  by (induction curs arbitrary: bid m) auto

lemma initstk_loop_nth: "distinct curs \<Longrightarrow> i < length curs \<Longrightarrow> initstk_loop curs bid m (curs ! i) = bid + of_nat i"
proof (induction curs arbitrary: bid m i)
  case (Cons c curs)
  then show ?case by (cases i) (auto simp: initstk_loop_other algebra_simps)
qed simp

lemma stk_init_get:
  assumes "nblk \<le> 1024" "k < nblk"
  shows "\<exists>b. stkinitfree nblk buf = Some b \<and> stkgetfree (b\<lparr>stktop := int k\<rparr>) =
    Some (of_nat k, b\<lparr>stk_nfree := int nblk - 1, stktop := int k + 1\<rparr>)"
  using assms initstk_loop_nth [of "[0..<nblk]" k 0 "stk buf"] by (simp add: stkinitfree_def stkgetfree_def)

lemma stk_put_get:
  assumes "0 < stktop buf" "stktop buf \<le> 1024"
  shows "\<exists>n b. stkputfree bid buf = Some (n, b) \<and> (\<exists>b'. stkgetfree b = Some (bid, b') \<and>
    stktop b' = stktop buf \<and> stk_nfree b' = stk_nfree buf \<and> (\<forall>j. stktop buf \<le> int j \<longrightarrow> stk b' j = stk buf j))"
  using assms by (simp add: stkputfree_def stkgetfree_def Let_def)

lemma memmod9_exact:
  assumes "unat x < 2 ^ 36"
  shows "unat (memmod9 x) = unat x mod 9"
proof -
  have n: "unat x < 68719476736" using assms by simp
  define q1 where "q1 = x - drop_bit 3 x"
  have q1: "unat q1 = unat x - unat x div 8"
    unfolding q1_def by (subst unat_sub_small) (simp_all add: unat_drop_bit_div)
  define q2 where "q2 = q1 + drop_bit 6 q1"
  have q2: "unat q2 = unat q1 + unat q1 div 64"
    unfolding q2_def using q1 n by (subst unat_add_small) (simp_all add: unat_drop_bit_div)
  define q3 where "q3 = q2 + drop_bit 12 q2 + drop_bit 24 q2"
  have b: "unat q2 < 2 * 68719476736" using q2 q1 n by linarith
  have "unat (q2 + drop_bit 12 q2) = unat q2 + unat q2 div 4096"
    using b by (subst unat_add_small) (simp_all add: unat_drop_bit_div)
  then have q3: "unat q3 = unat q2 + unat q2 div 4096 + unat q2 div 16777216"
    unfolding q3_def using b by (subst unat_add_small) (simp_all add: unat_drop_bit_div)
  define q where "q = drop_bit 3 q3"
  have q: "unat q = unat q3 div 8" unfolding q_def by (simp add: unat_drop_bit_div)
  have lo: "9 * unat q \<le> unat x" and hi: "unat x < 9 * unat q + 2 * 9"
    using n q1 q2 q3 q by linarith+
  define R where "R = unat x - 9 * unat q"
  have R: "unat x = 9 * unat q + R" "R < 18" using lo hi by (simp_all add: R_def)
  have "unat (q * 9) = unat q * 9" using lo n by (subst unat_mult_lem [THEN iffD1]) simp_all
  then have r: "unat (x - q * 9) = R" using lo by (subst unat_sub_small) (simp_all add: R_def)
  then have s: "unat (x - q * 9 + 7) = R + 7" using R(2) by (subst unat_add_small) simp_all
  have "(R + 7) div 16 = R div 9"
  proof (cases "R < 9")
    case False
    then have "R div 9 = 1" "(R + 7) div 16 = 1" using R(2) by (intro div_nat_eqI; simp)+
    then show ?thesis by simp
  qed simp
  then have d: "unat (drop_bit 4 (x - q * 9 + 7)) = R div 9" by (simp add: unat_drop_bit_div s)
  have "R div 9 \<le> 1" using R(2) by simp
  then have e: "unat (q + drop_bit 4 (x - q * 9 + 7)) = unat q + R div 9"
    using lo n d by (subst unat_add_small) simp_all
  have le: "(unat q + R div 9) * 9 \<le> unat x" using R(1) div_times_less_eq_dividend [of R 9] by simp
  then have f: "unat ((q + drop_bit 4 (x - q * 9 + 7)) * 9) = (unat q + R div 9) * 9"
    using e n by (subst unat_mult_lem [THEN iffD1]) simp_all
  have "unat (memmod9 x) = unat (x - (q + drop_bit 4 (x - q * 9 + 7)) * 9)"
    by (simp add: memmod9_def Let_def q_def q3_def q2_def q1_def)
  also have "\<dots> = unat x - (unat q + R div 9) * 9" using le f by (subst unat_sub_small) simp_all
  also have "\<dots> = unat x mod 9" unfolding R(1) by (simp add: modulo_nat_def algebra_simps)
  finally show ?thesis .
qed

lemma and_not_63:
  assumes "unat x < 9"
  shows "unat (push_bit 5 x AND NOT (MEMCLSIZE - 1)) = 64 * (unat x div 2)"
proof -
  define n where "n = unat x"
  then have x: "x = of_nat n" by simp
  consider "n = 0" | "n = 1" | "n = 2" | "n = 3" | "n = 4" | "n = 5" | "n = 6" | "n = 7" | "n = 8"
    using assms unfolding n_def by arith
  then show ?thesis unfolding x by cases (simp_all add: MEMCLSIZE_def)
qed

text \<open>
  The spreading of addresses.  In the low terabyte the offset of \<open>memgenofs\<close> is a number of whole
  cache lines, at most four, given by the address modulo nine; \<open>memgentlsadr\<close> moves any address
  below \<open>2 ^ 48\<close> by at most four times 512 bytes in the same way.  The division is
  exact only for 36 bits: at an address where \<open>mmap\<close> places memory the offset is far out of range.
\<close>

theorem memgenofs_range:
  assumes "unat ptr < 2 ^ 40" "unat adr < 2 ^ 48"
  shows "unat (memgenofs ptr) = 64 * ((unat ptr div 16 mod 9) div 2) \<and> unat (memgenofs ptr) \<le> 4 * 64 \<and>
    unat (memgentlsadr adr) = unat adr + 512 * ((unat adr div 4096 mod 9) div 2) \<and>
    256 < unat (memgenofs 0x7fffffffffff)"
proof -
  have p: "unat (drop_bit 4 ptr) < 2 ^ 36" "unat (drop_bit 12 adr) < 2 ^ 36"
    using assms by (auto simp: unat_drop_bit_div)
  note m = memmod9_exact [OF p(1)] memmod9_exact [OF p(2)]
  have s: "unat (memmod9 (drop_bit 4 ptr)) < 9" "unat (memmod9 (drop_bit 12 adr)) < 9" by (simp_all add: m)
  have o: "unat (memgenofs ptr) = 64 * ((unat ptr div 16 mod 9) div 2)"
    using and_not_63 [OF s(1)] by (simp add: memgenofs_def Let_def MEMALIGNSHIFT_def m unat_drop_bit_div)
  moreover have "unat ptr div 16 mod 9 div 2 \<le> 4" by (simp add: less_mult_imp_div_less le_div_geq flip: less_Suc_eq_le)
  moreover have "unat (memgentlsadr adr) = unat adr + 512 * ((unat adr div 4096 mod 9) div 2)"
  proof -
    define w where "w = push_bit 5 (memmod9 (drop_bit 12 adr)) AND NOT (MEMCLSIZE - 1)"
    define k where "k = (unat adr div 4096 mod 9) div 2"
    have w: "unat w = 64 * k" using and_not_63 [OF s(2)] by (simp add: w_def k_def m unat_drop_bit_div)
    have k: "k \<le> 4" unfolding k_def by (simp add: less_mult_imp_div_less flip: less_Suc_eq_le)
    have w8: "unat (w * 8) = 512 * k" using w k by (subst unat_mult_lem [THEN iffD1]) simp_all
    have "unat (adr + w * 8) = unat adr + 512 * k" using w8 k assms(2) by (subst unat_add_small) simp_all
    then show ?thesis by (simp add: memgentlsadr_def Let_def w_def k_def)
  qed
  moreover have "256 < unat (memgenofs 0x7fffffffffff)"
    by (simp add: memgenofs_def memmod9_def MEMALIGNSHIFT_def MEMCLSIZE_def Let_def)
  ultimately show ?thesis by simp
qed

theorem memgenofs_range_witness: "unat (memgenofs 0x10040) = 64 * ((0x1004 mod 9) div 2)"
  using memgenofs_range [of "0x10040" 0] by simp

section \<open>Releases by other threads\<close>

text \<open>
  Marking block 8 as released by another thread marks bit 0 of word 1 of the map, which is
  block 64; block 128 is already outside the map; and one released block counts as
  \<open>2 ^ 32 + 1\<close> or more free ones.
\<close>

lemma membufsetrel_wrong_block:
  "map_option (\<lambda>b. relmap b 1) (membufsetrel 8 (mapped adr 0)) = Some 1 \<and> membufsetrel 128 (mapped adr 0) = None"
  by (simp add: membufsetrel_def MEMBUFBITMAPWORDS_def mapped_def)

lemma bitcnt1u64_wrong: "bitcnt1u64 1 = 0x100000001"
  by (simp add: bitcnt1u64_def Let_def)

text \<open>A buffer from \<open>mmap\<close> is described as one of the heap when \<open>sbrk\<close> has failed.\<close>

lemma memallocsmallbuf_heap_flag:
  "madr \<noteq> 0 \<Longrightarrow> map_option memgetbufheapflg (memallocsmallbuf False 0 madr 4 64) = Some MEMHEAPBIT"
  by (simp add: memallocsmallbuf_def Let_def memgetbufheapflg_def meminitbuftype_def meminitbufnblk_def
      meminitbufslot_def mapped_def MEMHEAPBIT_def MEMSMALLBUF_def MEMBUFSLOTSHIFT_def MEMBUFNBLKBITS_def)

end
