(* ===== verification/Memhash.thy ===== *)
theory Memhash
  imports Membuf Hash "HOL-Library.Multiset"
begin

text \<open>
  The hash table of the user memory allocator that finds the buffer of a block from its page
  (usr/lib/zero/mem.c, mem.h), on a 64-bit machine, in the configuration of usr/lib/c/test/heap.sh:
  no counts of references or activity and no tables of a second level.

  A chain is the list of its blocks from the head and a block has an address and the list of its
  occupied items, pairs of a page and a descriptor.  The table of a block starts behind the header, moved
  by a distance that depends on the address; a write behind the end of the block is the error
  \<open>Overrun\<close>.  The lock in the low bit of a chain is held
  during an operation and released at its end.  Blocks are taken from a list of free ones, which is
  filled from a mapping of memory whose address is an argument.  The release of the memory block
  that a deletion asks for is the business of the buckets and not part of this theory.
\<close>

section \<open>Blocks\<close>

definition MEMHASHDEL :: int where "MEMHASHDEL = -1"
definition MEMHASHCHK :: int where "MEMHASHCHK = 0"
definition MEMHASHADD :: int where "MEMHASHADD = 1"
definition MEMHASHNOTFOUND :: u64 where "MEMHASHNOTFOUND = 0"
definition MEMHASHITEMS :: nat where "MEMHASHITEMS = 2 ^ 15"
definition MEMHASHARRAYSIZE :: nat where "MEMHASHARRAYSIZE = 128 * 8"

text \<open>The header has four words and an item two.\<close>

definition MEMHASHARRAYITEMS :: nat where "MEMHASHARRAYITEMS = (MEMHASHARRAYSIZE - 4 * 8) div 16"

record memhash =
  mh_adr :: u64
  mh_tab :: "(u64 \<times> u64) list"

record memhashtab =
  mh_chain :: "nat \<Rightarrow> memhash list"
  mh_free :: "memhash list"

text \<open>Where the table of a block starts in it, and whether \<open>n\<close> items are inside the block.\<close>

definition memhashtabofs :: "memhash \<Rightarrow> nat" where
  "memhashtabofs blk = unat (memgenhashtabadr (mh_adr blk + 4 * 8) - mh_adr blk)"

definition memhashroom :: "nat \<Rightarrow> memhash \<Rightarrow> bool" where
  "memhashroom n blk \<longleftrightarrow> memhashtabofs blk + n * 16 \<le> MEMHASHARRAYSIZE"

definition meminithashitem :: "u64 \<Rightarrow> memhash" where
  "meminithashitem data = \<lparr>mh_adr = data, mh_tab = []\<rparr>"

text \<open>The first block of a mapping is returned and the others become the free list.\<close>

definition memgethashitem :: "u64 \<Rightarrow> memhashtab \<Rightarrow> (memhash \<times> memhashtab) option" where
  "memgethashitem map_adr st =
     (case mh_free st of item # chain \<Rightarrow> Some (item, st\<lparr>mh_free := chain\<rparr>)
      | [] \<Rightarrow>
          if map_adr = 0 then None
          else let n = 8 * 4096 div MEMHASHARRAYSIZE in
            Some (meminithashitem map_adr,
              st\<lparr>mh_free := map (\<lambda>i. meminithashitem (map_adr + of_nat (i * MEMHASHARRAYSIZE))) [1..<n]\<rparr>))"

section \<open>Search\<close>

text \<open>
  The items that the cases of the switch compare for \<open>n\<close> items, in their order.  There is no case
  11, and the fall through from case 12 goes to case 10.
\<close>

definition bforder :: "nat \<Rightarrow> nat list" where
  "bforder n = (if n = 11 then [] else filter (\<lambda>i. i \<noteq> 10) (rev [0..<n]))"

text \<open>Every comparison sets \<open>slot\<close> anew; it is looked at behind the items 12, 7 and 3 only.\<close>

fun bfscan :: "(nat \<Rightarrow> bool) \<Rightarrow> nat list \<Rightarrow> nat option \<Rightarrow> nat option" where
  "bfscan hit [] slot = slot"
| "bfscan hit (i # is) slot =
     (let slot = (if hit i then Some i else None) in
      if i \<in> {12, 7, 3} \<and> slot \<noteq> None then slot else bfscan hit is slot)"

function blkscan :: "u64 \<Rightarrow> (u64 \<times> u64) list \<Rightarrow> nat \<Rightarrow> nat option" where
  "blkscan page src ofs =
     (let n = min (length src) 16; slot = bfscan (\<lambda>i. fst (src ! i) = page) (bforder n) None in
      if slot \<noteq> None then map_option ((+) ofs) slot
      else if length src - n \<noteq> 0 then blkscan page (drop n src) (ofs + n)
      else None)"
  by pat_completeness auto
termination by (relation "measure (\<lambda>(page, src, ofs). length src)") auto

declare blkscan.simps [simp del]

text \<open>The blocks in front of the one that has the page, that one, the item, and the blocks behind it.\<close>

fun chainscan :: "u64 \<Rightarrow> memhash list \<Rightarrow> (memhash list \<times> memhash \<times> nat \<times> memhash list) option" where
  "chainscan page [] = None"
| "chainscan page (blk # chain) =
     (case blkscan page (mh_tab blk) 0 of
        Some slot \<Rightarrow> Some ([], blk, slot, chain)
      | None \<Rightarrow> map_option (\<lambda>(prev, b, slot, rest). (blk # prev, b, slot, rest)) (chainscan page chain))"

text \<open>
  A new item goes behind the others of the first block that is not full: the new chain, or nothing
  when there is no such block.
\<close>

datatype hasherr = NoMemory | Overrun

fun chainadd :: "u64 \<times> u64 \<Rightarrow> memhash list \<Rightarrow> hasherr + memhash list option" where
  "chainadd item [] = Inr None"
| "chainadd item (blk # chain) =
     (if length (mh_tab blk) \<noteq> MEMHASHARRAYITEMS
      then if memhashroom (length (mh_tab blk) + 1) blk then Inr (Some (blk\<lparr>mh_tab := mh_tab blk @ [item]\<rparr> # chain))
           else Inl Overrun
      else map_sum id (map_option (Cons blk)) (chainadd item chain))"

section \<open>The operation\<close>

definition memhashkey :: "u64 \<Rightarrow> nat" where
  "memhashkey page = unat (tmhash64 page AND of_nat (MEMHASHITEMS - 1))"

definition MEMPAGEIDMASK :: u64 where "MEMPAGEIDMASK = 2 ^ 12 - 1"

text \<open>
  The descriptor and the new table.  A block that is found moves to the head of its chain unless the
  operation is a deletion, which returns the descriptor without its low bits.  The program ends when no
  memory can be mapped.
\<close>

definition membufop :: "u64 \<Rightarrow> u64 \<Rightarrow> int \<Rightarrow> u64 \<Rightarrow> u64 \<Rightarrow> memhashtab \<Rightarrow> hasherr + (u64 \<times> memhashtab)" where
  "membufop map_adr ptr op buf bid st =
     (let page = drop_bit 12 ptr; key = memhashkey page; chain = mh_chain st key; desc = buf OR bid in
      case chainscan page chain of
        None \<Rightarrow>
          if op = MEMHASHDEL \<or> op = MEMHASHCHK then Inr (MEMHASHNOTFOUND, st)
          else (case chainadd (page, desc) chain of
              Inl e \<Rightarrow> Inl e
            | Inr (Some chain) \<Rightarrow> Inr (desc, st\<lparr>mh_chain := (mh_chain st)(key := chain)\<rparr>)
            | Inr None \<Rightarrow>
                (case memgethashitem map_adr st of
                   None \<Rightarrow> Inl NoMemory
                 | Some (blk, st) \<Rightarrow>
                     if memhashroom 1 blk
                     then Inr (desc, st\<lparr>mh_chain := (mh_chain st)(key := blk\<lparr>mh_tab := [(page, desc)]\<rparr> # chain)\<rparr>)
                     else Inl Overrun))
      | Some (prev, blk, slot, rest) \<Rightarrow>
          let desc = snd (mh_tab blk ! slot) in
          if op = MEMHASHDEL then Inr (desc AND NOT MEMPAGEIDMASK, st)
          else Inr (desc, st\<lparr>mh_chain := (mh_chain st)(key := blk # prev @ rest)\<rparr>))"

definition memsetbuf :: "u64 \<Rightarrow> u64 \<Rightarrow> u64 \<Rightarrow> u64 \<Rightarrow> memhashtab \<Rightarrow> hasherr + (u64 \<times> memhashtab)" where
  "memsetbuf map_adr ptr buf bid st = membufop map_adr ptr MEMHASHADD buf bid st"

section \<open>Room in a block\<close>

text \<open>Below \<open>2 ^ 52\<close> the table is moved by 16 bytes times the remainder by 9 of the address without its low 16 bits.\<close>

lemma memhashtabofs_exact:
  assumes "unat (mh_adr blk) + 32 < 2 ^ 52"
  shows "memhashtabofs blk = 32 + 16 * ((unat (mh_adr blk) + 32) div 65536 mod 9)"
proof -
  define a where "a = mh_adr blk + 32"
  have a: "unat a = unat (mh_adr blk) + 32" using assms by (simp add: a_def unat_add_small)
  define r where "r = memmod9 (drop_bit 16 a)"
  have r: "unat r = unat a div 65536 mod 9"
    using memmod9_exact [of "drop_bit 16 a"] a assms by (simp add: r_def unat_drop_bit_div)
  have "unat r < 9" unfolding r by simp
  then have r16: "unat (push_bit 1 r * 8) = 16 * unat r"
    by (simp add: push_bit_eq_mult unat_word_ariths)
  have "memgenhashtabadr a - mh_adr blk = 32 + push_bit 1 r * 8"
    by (simp add: memgenhashtabadr_def r_def Let_def a_def)
  moreover have "unat (32 + push_bit 1 r * 8) = 32 + 16 * unat r"
    using r16 \<open>unat r < 9\<close> by (subst unat_add_small) simp_all
  ultimately show ?thesis by (simp add: memhashtabofs_def a_def [symmetric] r a)
qed

lemma memhashroom_54:
  assumes "unat (mh_adr blk) + 32 < 2 ^ 52" "n \<le> 54"
  shows "memhashroom n blk"
proof -
  have "(unat (mh_adr blk) + 32) div 65536 mod 9 \<le> 8" by (simp flip: less_Suc_eq_le)
  then show ?thesis using assms(2) by (simp add: memhashroom_def memhashtabofs_exact [OF assms(1)] MEMHASHARRAYSIZE_def)
qed

section \<open>What the search finds\<close>

lemma bfscan_order:
  assumes "n \<le> 16"
  shows "bfscan hit (bforder n) None =
    (if n = 11 then None else if 12 < n \<and> hit 12 then Some 12 else if 7 < n \<and> hit 7 then Some 7
     else if 3 < n \<and> hit 3 then Some 3 else if 0 < n \<and> hit 0 then Some 0 else None)"
proof -
  have "n = 16 \<or> n = 12 \<or> n = 8 \<or> n = 4 \<or> n = 0 \<or> n = 15 \<or> n = 11 \<or> n = 7 \<or> n = 3 \<or> n = 14 \<or> n = 10 \<or> n = 6
      \<or> n = 2 \<or> n = 13 \<or> n = 9 \<or> n = 5 \<or> n = 1"
    using assms by presburger
  then show ?thesis by (elim disjE) (simp_all add: bforder_def upt_rec [of 0] upt_rec [of "Suc 0"] Let_def flip: numeral_2_eq_2)
qed

text \<open>The places of a block with \<open>len\<close> items where an item is found.\<close>

definition findable :: "nat \<Rightarrow> nat \<Rightarrow> bool" where
  "findable len p \<longleftrightarrow> p < len \<and> min (len - 16 * (p div 16)) 16 \<noteq> 11 \<and> p mod 16 \<in> {0, 3, 7, 12}"

lemma findable_first: "len \<le> 16 \<Longrightarrow> findable len p \<longleftrightarrow> p < len \<and> len \<noteq> 11 \<and> p \<in> {0, 3, 7, 12}"
  by (auto simp: findable_def)

lemma findable_rest: "16 < len \<Longrightarrow> findable len p \<longleftrightarrow> p \<in> {0, 3, 7, 12} \<or> 16 \<le> p \<and> findable (len - 16) (p - 16)"
proof -
  assume "16 < len"
  show ?thesis
  proof (cases "16 \<le> p")
    case True
    then obtain q where "p = q + 16" using le_Suc_ex [of 16 p] by (metis add.commute)
    moreover have "(q + 16) div 16 = q div 16 + 1" "(q + 16) mod 16 = q mod 16" by simp_all
    ultimately show ?thesis using \<open>16 < len\<close> by (simp add: findable_def less_diff_conv del: div_add_self2 mod_add_self2)
  next
    case False
    then show ?thesis using \<open>16 < len\<close> by (auto simp: findable_def)
  qed
qed

lemma bfscan_small:
  assumes "n \<le> 16"
  shows "bfscan hit (bforder n) None = Some p \<Longrightarrow> hit p \<and> findable n p"
    and "bfscan hit (bforder n) None = None \<Longrightarrow> findable n p \<Longrightarrow> \<not> hit p"
  using assms by (auto simp: bfscan_order findable_first split: if_splits)

lemma blkscan_some:
  "blkscan page src ofs = Some q \<Longrightarrow> \<exists>p. q = ofs + p \<and> findable (length src) p \<and> fst (src ! p) = page"
proof (induction page src ofs rule: blkscan.induct)
  case (1 page src ofs)
  define n where "n = min (length src) 16"
  define slot where "slot = bfscan (\<lambda>i. fst (src ! i) = page) (bforder n) None"
  note step = blkscan.simps [of page src ofs, folded n_def, unfolded Let_def, folded slot_def]
  show ?case
  proof (cases slot)
    case (Some p)
    then have "findable n p" "fst (src ! p) = page" using bfscan_small(1) [of n _ p] by (auto simp: slot_def n_def)
    moreover have "findable (length src) p"
    proof (cases "length src \<le> 16")
      case False
      then show ?thesis using \<open>findable n p\<close> by (auto simp: n_def findable_first findable_rest)
    qed (use \<open>findable n p\<close> in \<open>simp add: n_def\<close>)
    ultimately show ?thesis using 1(2) step Some by auto
  next
    case None
    then have l: "length src - n \<noteq> 0" "blkscan page (drop n src) (ofs + n) = Some q" using 1(2) step by (auto split: if_splits)
    then have n: "n = 16" "16 < length src" by (auto simp: n_def)
    obtain p where p: "q = ofs + n + p" "findable (length src - n) p" "fst (drop n src ! p) = page"
      using 1(1) [OF n_def slot_def [unfolded n_def, folded n_def]] None l by auto
    then show ?thesis using n by (intro exI [of _ "n + p"]) (auto simp: findable_rest)
  qed
qed

lemma blkscan_none:
  "blkscan page src ofs = None \<Longrightarrow> findable (length src) p \<Longrightarrow> fst (src ! p) \<noteq> page"
proof (induction page src ofs arbitrary: p rule: blkscan.induct)
  case (1 page src ofs)
  define n where "n = min (length src) 16"
  define slot where "slot = bfscan (\<lambda>i. fst (src ! i) = page) (bforder n) None"
  note step = blkscan.simps [of page src ofs, folded n_def, unfolded Let_def, folded slot_def]
  have s: "slot = None" using 1(2) step by (auto split: if_splits)
  show ?case
  proof (cases "length src \<le> 16 \<or> p < 16")
    case True
    then have "findable n p"
      using 1(3) findable_rest [of "length src" p] by (cases "length src \<le> 16") (auto simp: n_def findable_first)
    then show ?thesis using bfscan_small(2) [of n "\<lambda>i. fst (src ! i) = page" p] s by (simp add: slot_def n_def)
  next
    case False
    then have n: "n = 16" "length src - n \<noteq> 0" by (auto simp: n_def)
    then have "blkscan page (drop n src) (ofs + n) = None" "findable (length src - n) (p - 16)"
      using 1(2,3) step s False by (auto simp: findable_rest split: if_splits)
    then show ?thesis
      using 1(1) [OF n_def slot_def [unfolded n_def, folded n_def], of "p - 16"] s n False by simp
  qed
qed

definition found :: "u64 \<Rightarrow> u64 \<Rightarrow> memhash list \<Rightarrow> bool" where
  "found page v chain \<longleftrightarrow> (\<exists>blk \<in> set chain. \<exists>p. findable (length (mh_tab blk)) p \<and> mh_tab blk ! p = (page, v))"

lemma chainscan_some:
  "chainscan page chain = Some (prev, blk, slot, rest) \<Longrightarrow>
    chain = prev @ blk # rest \<and> findable (length (mh_tab blk)) slot \<and> fst (mh_tab blk ! slot) = page"
proof (induction chain arbitrary: prev)
  case (Cons b chain)
  then show ?case using blkscan_some [of page "mh_tab b" 0] by (auto split: option.splits)
qed simp

lemma chainscan_found:
  assumes "chainscan page chain = Some (prev, blk, slot, rest)"
  shows "found page (snd (mh_tab blk ! slot)) chain"
proof -
  note c = chainscan_some [OF assms]
  then have "blk \<in> set chain" "mh_tab blk ! slot = (page, snd (mh_tab blk ! slot))" by (auto intro: prod_eqI)
  then show ?thesis using c unfolding found_def by blast
qed

lemma chainscan_none: "chainscan page chain = None \<Longrightarrow> \<not> found page v chain"
proof (induction chain)
  case (Cons b chain)
  then show ?case using blkscan_none [of page "mh_tab b" 0] by (fastforce simp: found_def split: option.splits)
qed (simp add: found_def)

text \<open>The first block of a chain that is not full, and whether the table of that block ends before the next item.\<close>

definition openblk :: "memhash list \<Rightarrow> memhash option" where
  "openblk chain = find (\<lambda>b. length (mh_tab b) \<noteq> MEMHASHARRAYITEMS) chain"

definition overruns :: "memhash list \<Rightarrow> bool" where
  "overruns chain = (case openblk chain of None \<Rightarrow> False | Some b \<Rightarrow> \<not> memhashroom (length (mh_tab b) + 1) b)"

lemma chainadd_result:
  "chainadd item chain =
    (case openblk chain of None \<Rightarrow> Inr None
     | Some b \<Rightarrow> if overruns chain then Inl Overrun
        else Inr (Some (takeWhile (\<lambda>b. length (mh_tab b) = MEMHASHARRAYITEMS) chain @
          b\<lparr>mh_tab := mh_tab b @ [item]\<rparr> # tl (dropWhile (\<lambda>b. length (mh_tab b) = MEMHASHARRAYITEMS) chain))))"
  by (induction chain) (auto simp: openblk_def overruns_def split: option.splits)

lemma openblk_split:
  "openblk chain = Some b \<Longrightarrow> length (mh_tab b) \<noteq> MEMHASHARRAYITEMS \<and>
    chain = takeWhile (\<lambda>b. length (mh_tab b) = MEMHASHARRAYITEMS) chain @ b # tl (dropWhile (\<lambda>b. length (mh_tab b) = MEMHASHARRAYITEMS) chain)"
  by (induction chain) (auto simp: openblk_def split: if_splits)

lemma chainadd_some:
  assumes "chainadd item chain = Inr (Some chain')"
  obtains prev b rest where "openblk chain = Some b" "chain = prev @ b # rest" "length (mh_tab b) \<noteq> MEMHASHARRAYITEMS"
    "memhashroom (length (mh_tab b) + 1) b" "chain' = prev @ b\<lparr>mh_tab := mh_tab b @ [item]\<rparr> # rest"
proof (cases "openblk chain")
  case None
  then show ?thesis using assms by (simp add: chainadd_result)
next
  case (Some b)
  then have no: "\<not> overruns chain" using assms by (auto simp: chainadd_result split: if_splits)
  then show ?thesis
    using that [OF Some conjunct2 [OF openblk_split [OF Some]]] openblk_split [OF Some] assms Some
    by (simp add: chainadd_result overruns_def)
qed

section \<open>Invariant\<close>

text \<open>
  No block is empty or too full or has items behind its end, every page is in the chain of its key, and
  free blocks are empty with room for an item.
\<close>

definition blk_ok :: "nat \<Rightarrow> memhash \<Rightarrow> bool" where
  "blk_ok key blk \<longleftrightarrow> 0 < length (mh_tab blk) \<and> length (mh_tab blk) \<le> MEMHASHARRAYITEMS \<and>
     memhashroom (length (mh_tab blk)) blk \<and>
     (\<forall>item \<in> set (mh_tab blk). memhashkey (fst item) = key)"

definition hash_ok :: "memhashtab \<Rightarrow> bool" where
  "hash_ok st \<longleftrightarrow> (\<forall>key. \<forall>blk \<in> set (mh_chain st key). blk_ok key blk) \<and> 
     (\<forall>blk \<in> set (mh_free st). mh_tab blk = [] \<and> memhashroom 1 blk)"

definition items :: "memhashtab \<Rightarrow> (u64 \<times> u64) multiset" where
  "items st = (\<Sum>key<MEMHASHITEMS. mset (concat (map mh_tab (mh_chain st key))))"

text \<open>A mapping of memory for new blocks; 64-bit machines map user memory far below \<open>2 ^ 52\<close>.\<close>

definition map_ok :: "u64 \<Rightarrow> bool" where
  "map_ok map_adr \<longleftrightarrow> map_adr \<noteq> 0 \<and> unat map_adr + 8 * 4096 < 2 ^ 52"

lemma memhashroom_upd [simp]: "memhashroom n (blk\<lparr>mh_tab := t\<rparr>) = memhashroom n blk"
  by (simp add: memhashroom_def memhashtabofs_def)

lemma mapped_room:
  assumes "map_ok map_adr" "i < 32"
  shows "memhashroom 1 (meminithashitem (map_adr + of_nat (i * MEMHASHARRAYSIZE)))"
proof (rule memhashroom_54)
  have b: "i * MEMHASHARRAYSIZE \<le> 31 * 1024" using assms(2) by (simp add: MEMHASHARRAYSIZE_def)
  then have "unat (of_nat (i * MEMHASHARRAYSIZE) :: u64) = i * MEMHASHARRAYSIZE" by (intro unat_of_nat64) simp
  then have "unat (map_adr + of_nat (i * MEMHASHARRAYSIZE)) = unat map_adr + i * MEMHASHARRAYSIZE"
    using assms(1) b by (subst unat_add_small) (simp_all add: map_ok_def)
  then show "unat (mh_adr (meminithashitem (map_adr + of_nat (i * MEMHASHARRAYSIZE)))) + 32 < 2 ^ 52"
    using assms(1) b by (simp add: meminithashitem_def map_ok_def)
qed simp

lemma getitem:
  assumes "map_ok map_adr" "hash_ok st"
  obtains blk st' where "memgethashitem map_adr st = Some (blk, st')" "memhashroom 1 blk" "mh_chain st' = mh_chain st"
    "\<forall>b \<in> set (mh_free st'). mh_tab b = [] \<and> memhashroom 1 b"
proof (cases "mh_free st")
  case Nil
  have "memhashroom 1 (meminithashitem map_adr)" using mapped_room [OF assms(1), of 0] by simp
  then show ?thesis
    using that [of "meminithashitem map_adr"] Nil assms(1) mapped_room [OF assms(1)]
    by (auto simp: memgethashitem_def map_ok_def MEMHASHARRAYSIZE_def Let_def) (auto simp: meminithashitem_def)
next
  case (Cons blk chain)
  then show ?thesis using that [of blk "st\<lparr>mh_free := chain\<rparr>"] assms(2) by (auto simp: memgethashitem_def hash_ok_def)
qed

lemma memhashkey_less: "memhashkey page < MEMHASHITEMS"
proof -
  have "tmhash64 page AND of_nat (MEMHASHITEMS - 1) = take_bit 15 (tmhash64 page)"
    by (simp add: MEMHASHITEMS_def take_bit_eq_mask mask_eq_exp_minus_1)
  then have "memhashkey page = take_bit 15 (unat (tmhash64 page))" by (simp add: memhashkey_def unsigned_take_bit_eq)
  then show ?thesis by (simp add: MEMHASHITEMS_def take_bit_eq_mod)
qed

lemma items_upd:
  assumes "key < MEMHASHITEMS"
  shows "items (st\<lparr>mh_chain := (mh_chain st)(key := chain)\<rparr>) + mset (concat (map mh_tab (mh_chain st key))) =
    items st + mset (concat (map mh_tab chain))"
proof -
  let ?f = "\<lambda>c. mset (concat (map mh_tab c))"
  have "items st = ?f (mh_chain st key) + (\<Sum>k \<in> {..<MEMHASHITEMS} - {key}. ?f (mh_chain st k))"
    unfolding items_def using assms by (subst sum.remove [of _ key]) auto
  moreover have "items (st\<lparr>mh_chain := (mh_chain st)(key := chain)\<rparr>) = ?f chain + (\<Sum>k \<in> {..<MEMHASHITEMS} - {key}. ?f (mh_chain st k))"
    unfolding items_def using assms by (subst sum.remove [of _ key]) auto
  ultimately show ?thesis by (simp add: add_ac)
qed

lemma hash_ok_upd:
  assumes "hash_ok st" "\<forall>blk \<in> set chain. blk_ok key blk"
  shows "hash_ok (st\<lparr>mh_chain := (mh_chain st)(key := chain)\<rparr>)"
  using assms by (auto simp: hash_ok_def)

text \<open>The operation on a page that the search finds, and on one that it does not find.\<close>

lemma membufop_found:
  assumes "hash_ok st" "found page v (mh_chain st (memhashkey page))" "page = drop_bit 12 ptr"
  shows "\<exists>d st'. membufop map_adr ptr op buf bid st = Inr (if op = MEMHASHDEL then d AND NOT MEMPAGEIDMASK else d, st') \<and>
    hash_ok st' \<and> found page d (mh_chain st (memhashkey page)) \<and> items st' = items st"
proof -
  define key chain where kc: "key = memhashkey page" "chain = mh_chain st key"
  obtain prev blk slot rest where c: "chainscan page chain = Some (prev, blk, slot, rest)"
    using chainscan_none [of page chain v] assms(2) by (cases "chainscan page chain") (auto simp: kc)
  note cs = chainscan_some [OF c]
  define d where "d = snd (mh_tab blk ! slot)"
  have f: "found page d chain" using chainscan_found [OF c] by (simp add: d_def)
  let ?st' = "st\<lparr>mh_chain := (mh_chain st)(key := blk # prev @ rest)\<rparr>"
  have "\<forall>b \<in> set chain. blk_ok key b" using assms(1) by (auto simp: hash_ok_def kc)
  then have ok: "hash_ok ?st'" using assms(1) cs by (intro hash_ok_upd) auto
  have "items ?st' + mset (concat (map mh_tab chain)) = items st + mset (concat (map mh_tab (blk # prev @ rest)))"
    unfolding kc(2) by (rule items_upd) (simp add: kc memhashkey_less)
  then have "items ?st' = items st" using cs by (simp add: add_ac)
  moreover have "membufop map_adr ptr op buf bid st =
      Inr (if op = MEMHASHDEL then d AND NOT MEMPAGEIDMASK else d, if op = MEMHASHDEL then st else ?st')"
    using c by (simp add: membufop_def Let_def d_def kc flip: assms(3))
  ultimately show ?thesis using ok f assms(1) by (auto simp: kc)
qed

lemma chainscan_fails:
  assumes "\<And>v. \<not> found page v chain"
  shows "chainscan page chain = None"
proof (cases "chainscan page chain")
  case (Some x)
  obtain prev blk slot rest where "x = (prev, blk, slot, rest)" by (cases x)
  then show ?thesis using chainscan_found [of page chain prev blk slot rest] Some assms by simp
qed

lemma membufop_adds:
  assumes "hash_ok st" "\<And>v. \<not> found page v (mh_chain st (memhashkey page))" "page = drop_bit 12 ptr" "map_ok map_adr"
    and "\<not> overruns (mh_chain st (memhashkey page))"
  shows "\<exists>st'. membufop map_adr ptr MEMHASHADD buf bid st = Inr (buf OR bid, st') \<and> hash_ok st' \<and>
    items st' = add_mset (page, buf OR bid) (items st) \<and>
    (case chainadd (page, buf OR bid) (mh_chain st (memhashkey page)) of
       Inr (Some chain) \<Rightarrow> mh_chain st' (memhashkey page) = chain
     | Inr None \<Rightarrow> \<exists>blk. mh_tab blk = [(page, buf OR bid)] \<and> mh_chain st' (memhashkey page) = blk # mh_chain st (memhashkey page)
     | Inl e \<Rightarrow> False)"
proof -
  define key chain item where kc: "key = memhashkey page" "chain = mh_chain st key" "item = (page, buf OR bid)"
  have n: "chainscan page chain = None" using chainscan_fails [OF assms(2)] by (simp add: kc)
  have k: "key < MEMHASHITEMS" by (simp add: kc memhashkey_less)
  have bk: "\<forall>b \<in> set chain. blk_ok key b" using assms(1) by (auto simp: hash_ok_def kc)
  note ops = MEMHASHADD_def MEMHASHDEL_def MEMHASHCHK_def
  consider (in_chain) chain' where "chainadd item chain = Inr (Some chain')" | (new) "chainadd item chain = Inr None"
    using assms(5) by (fastforce simp: chainadd_result kc split: option.splits)
  then show ?thesis
  proof cases
    case in_chain
    then obtain prev blk rest where a: "chain = prev @ blk # rest" "length (mh_tab blk) \<noteq> MEMHASHARRAYITEMS"
      "memhashroom (length (mh_tab blk) + 1) blk" "chain' = prev @ blk\<lparr>mh_tab := mh_tab blk @ [item]\<rparr> # rest"
      by (rule chainadd_some)
    let ?st' = "st\<lparr>mh_chain := (mh_chain st)(key := chain')\<rparr>"
    have "\<forall>b \<in> set chain'. blk_ok key b" using bk a by (auto simp: blk_ok_def kc)
    then have ok: "hash_ok ?st'" by (rule hash_ok_upd [OF assms(1)])
    have "items ?st' = add_mset item (items st)" using items_upd [OF k, of st chain'] a by (simp add: kc(2) [symmetric])
    moreover have "membufop map_adr ptr MEMHASHADD buf bid st = Inr (buf OR bid, ?st')"
      using n in_chain by (simp add: membufop_def Let_def ops kc flip: assms(3))
    ultimately show ?thesis using ok in_chain by (auto simp: kc)
  next
    case new
    obtain blk st1 where g: "memgethashitem map_adr st = Some (blk, st1)" "memhashroom 1 blk" "mh_chain st1 = mh_chain st"
      "\<forall>b \<in> set (mh_free st1). mh_tab b = [] \<and> memhashroom 1 b" using assms(4,1) by (rule getitem)
    let ?b = "blk\<lparr>mh_tab := [item]\<rparr>"
    let ?st' = "st1\<lparr>mh_chain := (mh_chain st1)(key := ?b # chain)\<rparr>"
    have "blk_ok key ?b" using g(2) by (simp add: blk_ok_def kc MEMHASHARRAYITEMS_def MEMHASHARRAYSIZE_def)
    moreover have "hash_ok st1" using assms(1) g(3,4) by (auto simp: hash_ok_def)
    ultimately have ok: "hash_ok ?st'" using bk by (intro hash_ok_upd) auto
    have "items st1 = items st" using g(3) by (simp add: items_def)
    then have "items ?st' = add_mset item (items st)"
      using items_upd [OF k, of st1 "?b # chain"] g(3) by (simp add: kc(2) [symmetric] add_ac)
    moreover have "membufop map_adr ptr MEMHASHADD buf bid st = Inr (buf OR bid, ?st')"
      using n new g by (simp add: membufop_def Let_def ops kc flip: assms(3))
    ultimately show ?thesis using ok new by (auto simp: kc intro!: exI [of _ ?b])
  qed
qed

lemma membufop_overruns:
  assumes "\<And>v. \<not> found page v (mh_chain st (memhashkey page))" "page = drop_bit 12 ptr"
    and "overruns (mh_chain st (memhashkey page))"
  shows "membufop map_adr ptr MEMHASHADD buf bid st = Inl Overrun"
proof -
  have "chainadd (page, buf OR bid) (mh_chain st (memhashkey page)) = Inl Overrun"
    using assms(3) by (auto simp: chainadd_result overruns_def split: option.splits)
  then show ?thesis using chainscan_fails [OF assms(1)]
    by (simp add: membufop_def Let_def MEMHASHADD_def MEMHASHDEL_def MEMHASHCHK_def flip: assms(2))
qed

lemma membufop_misses:
  assumes "\<And>v. \<not> found page v (mh_chain st (memhashkey page))" "page = drop_bit 12 ptr" "op = MEMHASHDEL \<or> op = MEMHASHCHK"
  shows "membufop map_adr ptr op buf bid st = Inr (0, st)"
  using chainscan_fails [OF assms(1)] assms(3) by (simp add: membufop_def Let_def MEMHASHNOTFOUND_def flip: assms(2))

text \<open>
  C12: an addition of a page that the search does not find goes behind the end of its block exactly
  when the first block of the chain that is not full has no room behind its moved table; this is the
  only failure while memory can be mapped.  Every other operation keeps the table well formed and loses
  no item.  One that finds the page returns a descriptor stored with it, a deletion without its low
  bits; of the others, a search or a deletion returns null and changes nothing, and an addition stores
  exactly the new descriptor.
\<close>

theorem membufop_keeps_items:
  assumes "hash_ok st" "map_ok map_adr" "op \<in> {MEMHASHDEL, MEMHASHCHK, MEMHASHADD}" "page = drop_bit 12 ptr"
    and "chain = mh_chain st (memhashkey page)"
  shows "if op = MEMHASHADD \<and> (\<forall>v. \<not> found page v chain) \<and> overruns chain
    then membufop map_adr ptr op buf bid st = Inl Overrun
    else \<exists>d st'. membufop map_adr ptr op buf bid st = Inr (d, st') \<and> hash_ok st' \<and>
      (if \<exists>v. found page v chain
       then (\<exists>v. found page v chain \<and> d = (if op = MEMHASHDEL then v AND NOT MEMPAGEIDMASK else v)) \<and> items st' = items st
       else if op = MEMHASHADD then d = buf OR bid \<and> items st' = add_mset (page, d) (items st)
       else d = 0 \<and> st' = st)"
proof (cases "\<exists>v. found page v chain")
  case True
  then obtain v where "found page v (mh_chain st (memhashkey page))" unfolding assms(5) by blast
  from membufop_found [OF assms(1) this assms(4), of map_adr op buf bid] obtain d st' where
    "membufop map_adr ptr op buf bid st = Inr (if op = MEMHASHDEL then d AND NOT MEMPAGEIDMASK else d, st')"
    "hash_ok st'" "found page d chain" "items st' = items st" unfolding assms(5) by blast
  then show ?thesis using True by (simp, blast)
next
  case nf: False
  show ?thesis
  proof (cases "op = MEMHASHADD")
    case True
    then show ?thesis
      using nf membufop_overruns [of page st ptr map_adr buf bid] membufop_adds [OF assms(1) _ assms(4,2), of buf bid] assms(4)
      unfolding assms(5) by auto
  next
    case nadd: False
    then have "op = MEMHASHDEL \<or> op = MEMHASHCHK" using assms(3) by simp
    then show ?thesis
      using nf nadd membufop_misses [OF _ assms(4), of st op map_adr buf bid] assms(1) unfolding assms(5)
      by (auto intro!: exI [of _ 0] exI [of _ st])
  qed
qed

definition hash0 :: memhashtab where "hash0 = \<lparr>mh_chain = (\<lambda>_. []), mh_free = []\<rparr>"

lemma hash0_ok: "hash_ok hash0" "\<not> found page v (mh_chain hash0 key)" "items hash0 = {#}"
  by (simp_all add: hash_ok_def hash0_def found_def items_def)

theorem membufop_keeps_items_witness:
  "\<exists>st'. membufop 0x100000 0x7000 MEMHASHADD 0x200000 3 hash0 = Inr (0x200003, st') \<and> hash_ok st' \<and>
    items st' = {#(7, 0x200003)#}"
proof -
  have "map_ok 0x100000" "\<not> overruns (mh_chain hash0 (memhashkey 7))"
    by (simp_all add: map_ok_def overruns_def openblk_def hash0_def)
  then show ?thesis
    using membufop_keeps_items [OF hash0_ok(1), of "0x100000" MEMHASHADD 7 "0x7000" _ "0x200000" 3] by (auto simp: hash0_ok)
qed

section \<open>A search behind an addition\<close>

text \<open>The place that an addition gives a page in its block.\<close>

definition addpos :: "memhash list \<Rightarrow> nat" where
  "addpos chain = (case openblk chain of Some b \<Rightarrow> length (mh_tab b) | None \<Rightarrow> 0)"

definition absent :: "u64 \<Rightarrow> memhash list \<Rightarrow> bool" where
  "absent page chain \<longleftrightarrow> (\<forall>blk \<in> set chain. page \<notin> fst ` set (mh_tab blk))"

lemma findable_last: "findable (Suc n) n \<longleftrightarrow> n mod 16 \<in> {0, 3, 7, 12}"
proof -
  have "Suc n - 16 * (n div 16) = Suc (n mod 16)" by (simp add: minus_mult_div_eq_mod Suc_diff_le)
  then show ?thesis by (auto simp: findable_def)
qed

lemma found_absent: "absent page chain \<Longrightarrow> \<not> found page v chain"
  by (force simp: absent_def found_def findable_def image_iff dest: nth_mem)

lemma found_added:
  assumes "absent page (prev @ blk # rest)"
  shows "found page v (prev @ blk\<lparr>mh_tab := mh_tab blk @ [(page, d)]\<rparr> # rest) \<longleftrightarrow>
    v = d \<and> length (mh_tab blk) mod 16 \<in> {0, 3, 7, 12}"
proof -
  have a: "absent page prev" "absent page rest" "page \<notin> fst ` set (mh_tab blk)" using assms by (auto simp: absent_def)
  let ?n = "length (mh_tab blk)"
  have "(\<exists>p. findable (Suc ?n) p \<and> (mh_tab blk @ [(page, d)]) ! p = (page, v)) \<longleftrightarrow> v = d \<and> findable (Suc ?n) ?n"
  proof
    assume "\<exists>p. findable (Suc ?n) p \<and> (mh_tab blk @ [(page, d)]) ! p = (page, v)"
    then obtain p where p: "findable (Suc ?n) p" "(mh_tab blk @ [(page, d)]) ! p = (page, v)" by blast
    have "\<not> p < ?n"
    proof
      assume "p < ?n"
      then have "mh_tab blk ! p = (page, v)" using p(2) by (simp add: nth_append)
      then have "(page, v) \<in> set (mh_tab blk)" using \<open>p < ?n\<close> nth_mem by metis
      then show False using a(3) by force
    qed
    then have "p = ?n" using p(1) by (simp add: findable_def)
    then show "v = d \<and> findable (Suc ?n) ?n" using p by simp
  qed auto
  then show ?thesis
    using found_absent [OF a(1), of v] found_absent [OF a(2), of v] by (auto simp: found_def findable_last)
qed

text \<open>
  C13: a page that was not in the table, added where the block that takes it has room, is found again
  exactly when its place in the block, modulo 16, is 0, 3, 7 or 12; at the other places the search
  overwrites its own result and the descriptor is lost.
\<close>

theorem membufop_roundtrip:
  assumes "hash_ok st" "map_ok map_adr" "page = drop_bit 12 ptr" "chain = mh_chain st (memhashkey page)"
    and "absent page chain" "\<not> overruns chain"
  shows "\<exists>st1 st2. membufop map_adr ptr MEMHASHADD buf bid st = Inr (buf OR bid, st1) \<and>
    membufop map_adr ptr MEMHASHCHK 0 0 st1 = Inr (if addpos chain mod 16 \<in> {0, 3, 7, 12} then buf OR bid else 0, st2)"
proof -
  have ab: "absent page chain" by (rule assms(5))
  obtain st1 where add: "membufop map_adr ptr MEMHASHADD buf bid st = Inr (buf OR bid, st1)" "hash_ok st1"
    and ch: "case chainadd (page, buf OR bid) chain of Inr (Some c) \<Rightarrow> mh_chain st1 (memhashkey page) = c
     | Inr None \<Rightarrow> \<exists>blk. mh_tab blk = [(page, buf OR bid)] \<and> mh_chain st1 (memhashkey page) = blk # chain
     | Inl e \<Rightarrow> False"
    using membufop_adds [OF assms(1) _ assms(3,2), of buf bid] found_absent [OF ab] assms(6) unfolding assms(4) by blast
  have f: "found page v (mh_chain st1 (memhashkey page)) \<longleftrightarrow> v = buf OR bid \<and> addpos chain mod 16 \<in> {0, 3, 7, 12}" for v
  proof (cases "openblk chain")
    case None
    then have "found page v (mh_chain st1 (memhashkey page)) \<longleftrightarrow> v = buf OR bid"
      using ch found_absent [OF ab, of v] by (auto simp: chainadd_result found_def findable_first)
    then show ?thesis using None by (simp add: addpos_def)
  next
    case (Some b)
    then obtain c where c: "chainadd (page, buf OR bid) chain = Inr (Some c)" using assms(6) by (auto simp: chainadd_result)
    then obtain prev blk rest where a: "openblk chain = Some blk" "chain = prev @ blk # rest"
      "c = prev @ blk\<lparr>mh_tab := mh_tab blk @ [(page, buf OR bid)]\<rparr> # rest" by (rule chainadd_some)
    then show ?thesis using found_added [of page prev blk rest v "buf OR bid"] ab ch c by (simp add: addpos_def)
  qed
  show ?thesis
  proof (cases "addpos chain mod 16 \<in> {0, 3, 7, 12}")
    case True
    then have "found page (buf OR bid) (mh_chain st1 (memhashkey page))" by (simp only: f simp_thms)
    from membufop_found [OF add(2) this assms(3), of map_adr MEMHASHCHK 0 0] obtain d st2 where
      "membufop map_adr ptr MEMHASHCHK 0 0 st1 = Inr (d, st2)" "found page d (mh_chain st1 (memhashkey page))"
      by (auto simp: MEMHASHCHK_def MEMHASHDEL_def)
    moreover from this(2) have "d = buf OR bid" by (simp only: f)
    ultimately show ?thesis using True add(1) by (intro exI [of _ st1] exI [of _ st2]) (simp only: if_True simp_thms)
  next
    case False
    then have "\<not> found page v (mh_chain st1 (memhashkey page))" for v by (simp only: f simp_thms)
    then have "membufop map_adr ptr MEMHASHCHK 0 0 st1 = Inr (0, st1)" using assms(3) by (intro membufop_misses) simp_all
    then show ?thesis using False add(1) by (intro exI [of _ st1]) (simp only: if_False simp_thms)
  qed
qed

theorem membufop_roundtrip_witness:
  "\<exists>st1 st2. membufop 0x100000 0x7000 MEMHASHADD 0x200000 3 hash0 = Inr (0x200003, st1) \<and>
    membufop 0x100000 0x7000 MEMHASHCHK 0 0 st1 = Inr (0x200003, st2)"
  using membufop_roundtrip [of hash0 "0x100000" 7 "0x7000" _ "0x200000" 3] hash0_ok(1)
  by (simp add: hash0_def absent_def addpos_def map_ok_def overruns_def openblk_def)

section \<open>Where the table goes wrong\<close>

text \<open>The second page of a chain is not found again; the search then adds it a second time.\<close>

lemma second_page_lost:
  assumes "hash_ok st" "map_ok map_adr" "page = drop_bit 12 ptr" "mh_chain st (memhashkey page) = [blk]"
    "mh_tab blk = [item]" "fst item \<noteq> page" "memhashroom 2 blk"
  shows "\<exists>st1 st2. membufop map_adr ptr MEMHASHADD buf bid st = Inr (buf OR bid, st1) \<and>
    membufop map_adr ptr MEMHASHCHK 0 0 st1 = Inr (0, st2)"
proof -
  have o: "openblk [blk] = Some blk" using assms(5) by (simp add: openblk_def MEMHASHARRAYITEMS_def MEMHASHARRAYSIZE_def)
  have ad: "\<not> overruns [blk]" "absent page [blk]" using assms(5-7) by (simp_all add: overruns_def o absent_def numeral_2_eq_2)
  note nf = found_absent [OF ad(2)]
  have nf': "\<not> found page v [blk\<lparr>mh_tab := mh_tab blk @ [(page, buf OR bid)]\<rparr>]" for v
    using found_added [of page "[]" blk "[]" v "buf OR bid"] ad(2) assms(5) by simp
  obtain st1 where st1: "membufop map_adr ptr MEMHASHADD buf bid st = Inr (buf OR bid, st1)"
      "mh_chain st1 (memhashkey page) = [blk\<lparr>mh_tab := mh_tab blk @ [(page, buf OR bid)]\<rparr>]"
    using membufop_adds [OF assms(1) _ assms(3,2), of buf bid] nf ad(1) assms(4,5,7)
    by (auto simp: MEMHASHARRAYITEMS_def MEMHASHARRAYSIZE_def numeral_2_eq_2)
  show ?thesis using st1 nf' membufop_misses [of page st1 ptr MEMHASHCHK map_adr 0 0] assms(3) by auto
qed

text \<open>Eleven items hide each other: none of them is found.\<close>

lemma eleven_items_lost: "length src = 11 \<Longrightarrow> blkscan page src ofs = None"
  by (subst blkscan.simps) (simp add: bforder_def)

text \<open>
  The table of a block starts behind its header of 32 bytes and is moved by up to 128 bytes, but is
  taken to hold as many items as fill the block without being moved: for most addresses the last items
  are written into the next block.
\<close>

lemma table_overruns_block:
  assumes "unat (mh_adr blk) + 32 < 2 ^ 52" "65536 \<le> unat (mh_adr blk)" "unat (mh_adr blk) < 9 * 65536 - 32"
    and "length (mh_tab blk) + 1 = MEMHASHARRAYITEMS"
  shows "chainadd item (blk # chain) = Inl Overrun"
proof -
  define k where "k = (unat (mh_adr blk) + 32) div 65536"
  have "1 \<le> k" "k < 9" using assms(2,3) by (simp_all add: k_def less_mult_imp_div_less)
  then have "memhashtabofs blk \<ge> 48" using memhashtabofs_exact [OF assms(1)] by (simp add: k_def [symmetric])
  then have "\<not> memhashroom (length (mh_tab blk) + 1) blk"
    unfolding assms(4) by (simp add: memhashroom_def MEMHASHARRAYITEMS_def MEMHASHARRAYSIZE_def)
  then show ?thesis using assms(4) by auto
qed

end
