(* ===== verification/Mlt.thy ===== *)
theory Mlt
  imports Prelude "HOL-Library.Monad_Syntax"
begin

text \<open>
  The multi-level table for sets of 64-bit numbers (usr/lib/zero/mlt.c, mlt.h).  A number is
  eight bytes; the first seven lead from the root through tables of pointers, the last one selects
  the entry of a table of numbers, where the number itself is stored.

  A table is 256 words at an address, address 0 being the null pointer; a table of pointers and a
  table of numbers have the same size, so that one memory holds both.  The list \<open>avail\<close> has the
  addresses the next allocations return, with 0 for a failure; when it is empty every allocation
  fails.  The counters of references are numbers without bounds.  Reading or writing through a
  null pointer, and filling a table that could not be allocated, gives \<^const>\<open>None\<close>.  The freed
  blocks are recorded in the order of the calls of \<open>free\<close>.
\<close>

section \<open>The code\<close>

definition MLTINVAL :: u64 where "MLTINVAL = 0xffffffffffffffff"
definition MLTNLVLBIT :: nat where "MLTNLVLBIT = 8"
definition MLTNPTRLVL :: nat where "MLTNPTRLVL = 7"
definition MLTKEYMASK :: u64 where "MLTKEYMASK = push_bit MLTNLVLBIT 1 - 1"

record mlt =
  tabs :: "u64 \<Rightarrow> nat \<Rightarrow> u64"
  refs :: "nat \<Rightarrow> nat \<Rightarrow> int"
  avail :: "u64 list"
  freed :: "u64 list"

definition ldtab :: "u64 \<Rightarrow> nat \<Rightarrow> mlt \<Rightarrow> u64 option" where
  "ldtab a i s = (if a = 0 then None else Some (tabs s a i))"

definition sttab :: "u64 \<Rightarrow> nat \<Rightarrow> u64 \<Rightarrow> mlt \<Rightarrow> mlt option" where
  "sttab a i v s = (if a = 0 then None else Some (s\<lparr>tabs := (tabs s)(a := (tabs s a)(i := v))\<rparr>))"

definition mltalloctab :: "u64 \<Rightarrow> mlt \<Rightarrow> u64 \<times> mlt" where
  "mltalloctab w s = (case avail s of [] \<Rightarrow> (0, s)
     | a # as \<Rightarrow> if a = 0 then (0, s\<lparr>avail := as\<rparr>) else (a, s\<lparr>avail := as, tabs := (tabs s)(a := (\<lambda>_. w))\<rparr>))"

definition mltgetptrtab :: "mlt \<Rightarrow> u64 \<times> mlt" where "mltgetptrtab s = mltalloctab 0 s"

definition mltgetvaltab :: "mlt \<Rightarrow> (u64 \<times> mlt) option" where
  "mltgetvaltab s = (let (a, s) = mltalloctab MLTINVAL s in if a = 0 then None else Some (a, s))"

text \<open>The loop of \<open>_mlttrim\<close> from level \<open>lvl - 1\<close> down; \<open>nuke\<close> is the index to clear.\<close>

fun trim_loop :: "u64 list \<Rightarrow> nat list \<Rightarrow> nat \<Rightarrow> int \<Rightarrow> nat \<Rightarrow> mlt \<Rightarrow> (int \<times> mlt) option" where
  "trim_loop pstk nstk 0 nref nuke s = Some (nref, s)"
| "trim_loop pstk nstk (Suc lvl) nref nuke s =
     (let ptr = pstk ! lvl; ndx = nstk ! lvl in
      do { (nuke, s) \<leftarrow> (if nuke \<noteq> 0 \<and> lvl < MLTNPTRLVL then map_option (Pair 0) (sttab ptr nuke 0 s) else Some (nuke, s));
           let nref = refs s lvl ndx - 1;
           let (nuke, s) = (if nref = 0 then (ndx, s\<lparr>freed := freed s @ (if ptr = 0 then [] else [ptr])\<rparr>) else (nuke, s));
           trim_loop pstk nstk lvl nref nuke (s\<lparr>refs := (refs s)(lvl := (refs s lvl)(ndx := nref))\<rparr>) })"

definition mlttrim :: "u64 list \<Rightarrow> nat list \<Rightarrow> nat \<Rightarrow> mlt \<Rightarrow> (int \<times> mlt) option" where
  "mlttrim pstk nstk lvl s = trim_loop pstk nstk lvl (- 1) 0 s"

definition mltndx :: "u64 \<Rightarrow> nat \<Rightarrow> nat" where
  "mltndx val ofs = unat (drop_bit ofs val AND MLTKEYMASK)"

text \<open>
  The loop of \<open>mltadd\<close>: the result is the last pointer, the last table, the last index and the two
  stacks.  A failed allocation leaves the loop with a null pointer.
\<close>

function add_loop :: "u64 \<Rightarrow> nat \<Rightarrow> u64 \<Rightarrow> nat \<Rightarrow> nat \<Rightarrow> u64 list \<Rightarrow> nat list \<Rightarrow> mlt \<Rightarrow>
    (u64 \<times> nat \<times> u64 list \<times> nat list \<times> mlt) option" where
  "add_loop val ofs tab ndx lvl pstk nstk s =
     (if ofs < MLTNLVLBIT then Some (tab, ndx, pstk, nstk, s) else
      do { ptr \<leftarrow> ldtab tab ndx s;
           let ofs = ofs - MLTNLVLBIT;
           (ptr, s) \<leftarrow> (if ptr = 0 then
               do { (p, s) \<leftarrow> (if ofs \<noteq> 0 then Some (mltgetptrtab s) else mltgetvaltab s);
                    s \<leftarrow> sttab tab ndx p s;
                    Some (p, s) }
             else Some (ptr, s));
           let pstk = pstk @ [ptr];
           let nstk = nstk @ [ndx];
           if ptr = 0 then Some (0, ndx, pstk, nstk, s)
           else add_loop val ofs ptr (mltndx val ofs) (Suc lvl) pstk nstk
             (s\<lparr>refs := (refs s)(lvl := (refs s lvl)(ndx := refs s lvl ndx + 1))\<rparr>) })"
  by pat_completeness auto
termination by (relation "measure (\<lambda>(val, ofs, _). ofs)") (auto simp: MLTNLVLBIT_def)

declare add_loop.simps [simp del]

text \<open>After the loop \<open>tab\<close> and \<open>ptr\<close> are the same pointer.\<close>

definition mltadd :: "u64 \<Rightarrow> u64 \<Rightarrow> mlt \<Rightarrow> (int \<times> mlt) option" where
  "mltadd tab val s =
     (let ofs = MLTNPTRLVL * MLTNLVLBIT in
      do { (ptr, ndx, pstk, nstk, s) \<leftarrow> add_loop val ofs tab (unat (drop_bit ofs val)) 0 [] [] s;
           if ptr = 0 then
             do { (nref, s) \<leftarrow> mlttrim pstk nstk (length pstk) s;
                  if nref = 0 then map_option (Pair (- 1)) (sttab ptr (nstk ! 0) 0 s) else Some (- 1, s) }
           else map_option (Pair 0) (sttab ptr ndx val s) })"

function walk_loop :: "u64 \<Rightarrow> nat \<Rightarrow> u64 \<Rightarrow> nat \<Rightarrow> u64 list \<Rightarrow> nat list \<Rightarrow> mlt \<Rightarrow>
    (u64 \<times> u64 \<times> nat \<times> u64 list \<times> nat list) option" where
  "walk_loop val ofs tab ndx pstk nstk s =
     (if ofs < MLTNLVLBIT then Some (tab, tab, ndx, pstk, nstk) else
      do { ptr \<leftarrow> ldtab tab ndx s;
           if ptr = 0 then Some (0, tab, ndx, pstk, nstk)
           else let ofs = ofs - MLTNLVLBIT in
             walk_loop val ofs ptr (mltndx val ofs) (pstk @ [ptr]) (nstk @ [ndx]) s })"
  by pat_completeness auto
termination by (relation "measure (\<lambda>(val, ofs, _). ofs)") (auto simp: MLTNLVLBIT_def)

declare walk_loop.simps [simp del]

text \<open>
  \<open>mltdel\<close> clears the entry of the root in the table it has walked to, not in the root.
\<close>

definition mltdel :: "u64 \<Rightarrow> u64 \<Rightarrow> mlt \<Rightarrow> (int \<times> mlt) option" where
  "mltdel tab val s =
     (let ofs = MLTNPTRLVL * MLTNLVLBIT in
      do { (ptr, tab, ndx, pstk, nstk) \<leftarrow> walk_loop val ofs tab (unat (drop_bit ofs val)) [] [] s;
           if ptr \<noteq> 0 then
             do { s \<leftarrow> sttab ptr ndx MLTINVAL s;
                  (nref, s) \<leftarrow> mlttrim pstk nstk (length pstk) s;
                  s \<leftarrow> (if nref = 0 then sttab tab (nstk ! 0) 0 s else Some s);
                  Some (0, s) }
           else Some (- 1, s) })"

definition mltfind :: "u64 \<Rightarrow> u64 \<Rightarrow> mlt \<Rightarrow> u64 option" where
  "mltfind tab val s =
     (let ofs = MLTNPTRLVL * MLTNLVLBIT in
      do { (ptr, tab, ndx, pstk, nstk) \<leftarrow> walk_loop val ofs tab (unat (drop_bit ofs val)) [] [] s;
           if ptr \<noteq> 0 then ldtab ptr ndx s else Some MLTINVAL })"

section \<open>Paths\<close>

definition key :: "u64 \<Rightarrow> nat \<Rightarrow> nat" where
  "key v k = mltndx v (8 * (7 - k))"

fun ptrat :: "(u64 \<Rightarrow> nat \<Rightarrow> u64) \<Rightarrow> u64 \<Rightarrow> u64 \<Rightarrow> nat \<Rightarrow> u64" where
  "ptrat T root v 0 = root"
| "ptrat T root v (Suc k) = (let p = ptrat T root v k in if p = 0 then 0 else T p (key v k))"

definition valat :: "(u64 \<Rightarrow> nat \<Rightarrow> u64) \<Rightarrow> u64 \<Rightarrow> u64 \<Rightarrow> u64" where
  "valat T root v = (let p = ptrat T root v 7 in if p = 0 then MLTINVAL else T p (key v 7))"

definition agree :: "u64 \<Rightarrow> u64 \<Rightarrow> nat \<Rightarrow> bool" where
  "agree u v k \<longleftrightarrow> (\<forall>i<k. key u i = key v i)"

lemma agree_simps [simp]: "agree u v 0" "agree u v (Suc k) \<longleftrightarrow> agree u v k \<and> key u k = key v k" "agree v v k"
  by (auto simp: agree_def less_Suc_eq)

lemma agree_mono: "agree u v k \<Longrightarrow> j \<le> k \<Longrightarrow> agree u v j"
  by (simp add: agree_def)

lemma ptrat_agree: "agree u v k \<Longrightarrow> ptrat T root u k = ptrat T root v k"
  by (induction k) (simp_all add: Let_def)

lemma ptrat_zero: "ptrat T root v k = 0 \<Longrightarrow> k \<le> j \<Longrightarrow> ptrat T root v j = 0"
  by (induction j) (auto simp: Let_def le_Suc_eq)

lemma mask_take_bit: "drop_bit ofs val AND MLTKEYMASK = take_bit 8 (drop_bit ofs val)"
  by (simp add: MLTKEYMASK_def MLTNLVLBIT_def take_bit_eq_mask mask_eq_exp_minus_1)

lemma key_0: "unat (drop_bit 56 v) = key v 0"
proof -
  have "take_bit 8 (drop_bit 56 v) = drop_bit 56 v"
    by (rule bit_word_eqI) (auto simp: bit_simps dest: bit_imp_le_length)
  then show ?thesis by (simp add: key_def mltndx_def mask_take_bit)
qed

lemma agree_8:
  assumes "agree u v 8"
  shows "u = v"
proof (rule bit_word_eqI)
  fix n assume "n < LENGTH(64)"
  then have n: "n div 8 \<le> 7" by simp
  define i where "i = 7 - n div 8"
  have i: "i < 8" "8 * (7 - i) = 8 * (n div 8)" using n by (simp_all add: i_def)
  have "unat (take_bit 8 (drop_bit (8 * (n div 8)) u)) = unat (take_bit 8 (drop_bit (8 * (n div 8)) v))"
    using assms i by (auto simp: agree_def key_def mltndx_def mask_take_bit)
  then have "take_bit 8 (drop_bit (8 * (n div 8)) u) = take_bit 8 (drop_bit (8 * (n div 8)) v)" by (rule word_eq_natI)
  then have "bit (take_bit 8 (drop_bit (8 * (n div 8)) u)) (n mod 8) = bit (take_bit 8 (drop_bit (8 * (n div 8)) v)) (n mod 8)"
    by simp
  then show "bit u n = bit v n" by (simp add: bit_simps)
qed

lemma walk_loop_ptrat:
  assumes "n \<le> 7" "ptrat (tabs s) root v (7 - n) \<noteq> 0"
  shows "\<exists>t i pstk nstk. walk_loop v (8 * n) (ptrat (tabs s) root v (7 - n)) (key v (7 - n)) ps ns s =
    Some (ptrat (tabs s) root v 7, t, i, pstk, nstk) \<and> (ptrat (tabs s) root v 7 \<noteq> 0 \<longrightarrow> i = key v 7)"
  using assms
proof (induction n arbitrary: ps ns)
  case 0
  then show ?case by (subst walk_loop.simps) (simp add: MLTNLVLBIT_def)
next
  case (Suc n)
  define k where "k = 7 - Suc n"
  have k: "7 - n = Suc k" "7 - Suc n = k" using Suc.prems(1) by (simp_all add: k_def)
  let ?q = "ptrat (tabs s) root v (Suc k)"
  have nz: "ptrat (tabs s) root v k \<noteq> 0" using Suc.prems(2) k by simp
  have step: "walk_loop v (8 * Suc n) (ptrat (tabs s) root v k) (key v k) ps ns s =
      (if ?q = 0 then Some (0, ptrat (tabs s) root v k, key v k, ps, ns)
       else walk_loop v (8 * n) ?q (key v (Suc k)) (ps @ [?q]) (ns @ [key v k]) s)"
    using nz k by (subst walk_loop.simps) (simp add: MLTNLVLBIT_def ldtab_def key_def Let_def flip: k)
  show ?case
  proof (cases "?q = 0")
    case True
    then have "ptrat (tabs s) root v 7 = 0" using Suc.prems(1) by (intro ptrat_zero [OF True]) (simp add: k_def)
    then show ?thesis unfolding k(2) step using True by simp
  next
    case False
    then show ?thesis unfolding k(2) step using Suc.IH Suc.prems(1) k(1) by simp
  qed
qed

lemma mltfind_valat:
  assumes "root \<noteq> 0"
  shows "mltfind root v s = Some (valat (tabs s) root v)"
proof -
  obtain t i ps ns where w: "walk_loop v 56 root (key v 0) [] [] s = Some (ptrat (tabs s) root v 7, t, i, ps, ns)"
    "ptrat (tabs s) root v 7 \<noteq> 0 \<longrightarrow> i = key v 7"
    using walk_loop_ptrat [of 7 s root v "[]" "[]"] assms by auto
  then show ?thesis by (auto simp: mltfind_def MLTNPTRLVL_def MLTNLVLBIT_def key_0 valat_def Let_def ldtab_def)
qed

section \<open>Insertion\<close>

definition wftab :: "(u64 \<Rightarrow> nat \<Rightarrow> u64) \<Rightarrow> u64 \<Rightarrow> bool" where
  "wftab T root \<longleftrightarrow> root \<noteq> 0 \<and>
     (\<forall>u v j k. j \<le> 7 \<longrightarrow> k \<le> 7 \<longrightarrow> ptrat T root u j \<noteq> 0 \<longrightarrow> ptrat T root u j = ptrat T root v k \<longrightarrow> j = k \<and> agree u v k)"

definition fresh :: "(u64 \<Rightarrow> nat \<Rightarrow> u64) \<Rightarrow> u64 \<Rightarrow> u64 \<Rightarrow> bool" where
  "fresh T root a \<longleftrightarrow> a \<noteq> 0 \<and> (\<forall>v. \<forall>k\<le>7. ptrat T root v k \<noteq> a)"

definition mltok :: "u64 \<Rightarrow> mlt \<Rightarrow> bool" where
  "mltok root s \<longleftrightarrow> wftab (tabs s) root \<and> distinct (avail s) \<and> (\<forall>a \<in> set (avail s). fresh (tabs s) root a)"

lemma wftabD:
  "wftab T root \<Longrightarrow> ptrat T root u j \<noteq> 0 \<Longrightarrow> ptrat T root u j = ptrat T root v k \<Longrightarrow> j \<le> 7 \<Longrightarrow> k \<le> 7 \<Longrightarrow> j = k \<and> agree u v k"
  unfolding wftab_def by blast

definition link :: "(u64 \<Rightarrow> nat \<Rightarrow> u64) \<Rightarrow> u64 \<Rightarrow> nat \<Rightarrow> u64 \<Rightarrow> u64 \<Rightarrow> u64 \<Rightarrow> nat \<Rightarrow> u64" where
  "link T p i a w = T(a := (\<lambda>_. w), p := (T p)(i := a))"

lemma ptrat_link:
  assumes "wftab T root" "ptrat T root v k \<noteq> 0" "k < 7" "T (ptrat T root v k) (key v k) = 0" "fresh T root a"
    and "w = (if k < 6 then 0 else MLTINVAL)" "j \<le> 7"
  shows "ptrat (link T (ptrat T root v k) (key v k) a w) root u j =
    (if k < j \<and> agree u v (Suc k) then if j = Suc k then a else 0 else ptrat T root u j)"
  using assms(7)
proof (induction j)
  case (Suc j)
  define p where "p = ptrat T root v k"
  let ?T = "link T p (key v k) a w"
  have ap: "a \<noteq> 0" "p \<noteq> 0" using assms(2,5) by (simp_all add: fresh_def p_def)
  have "a \<noteq> p" using assms(3,5) unfolding fresh_def p_def by (metis less_imp_le)
  note ap = ap this
  have Ta: "?T a i = w" "?T p (key v k) = a" for i using ap(3) by (simp_all add: link_def)
  have IH: "ptrat ?T root u j = (if k < j \<and> agree u v (Suc k) then if j = Suc k then a else 0 else ptrat T root u j)"
    using Suc unfolding p_def by simp
  consider "agree u v (Suc k)" "k < j" | "agree u v (Suc k)" "j = k" | "j < k \<or> \<not> agree u v (Suc k)"
    by linarith
  then show ?case
  proof cases
    case 1
    then show ?thesis unfolding p_def [symmetric]
      using IH ap Ta assms(6) Suc.prems by (auto simp: Let_def)
  next
    case 2
    then have "ptrat T root u j = p" using ptrat_agree [of u v k T root] by (simp add: p_def)
    then show ?thesis unfolding p_def [symmetric] using 2 IH ap Ta by (simp add: Let_def)
  next
    case 3
    define q where "q = ptrat T root u j"
    have q: "ptrat ?T root u j = q" using 3 IH by (auto simp: q_def)
    have qa: "q \<noteq> a" using assms(5) Suc.prems by (auto simp: fresh_def q_def)
    have "q = 0 \<or> ?T q (key u j) = T q (key u j)"
    proof (cases "q = p \<and> q \<noteq> 0")
      case True
      then have "j = k \<and> agree u v k" using wftabD [OF assms(1), of u j v k] Suc.prems assms(3) by (auto simp: q_def p_def)
      then show ?thesis using 3 qa True by (auto simp: link_def)
    next
      case False
      then show ?thesis using qa by (auto simp: link_def)
    qed
    then show ?thesis unfolding p_def [symmetric] using 3 q by (auto simp: Let_def q_def [symmetric])
  qed
qed simp

lemma link_ok:
  assumes "wftab T root" "ptrat T root v k \<noteq> 0" "k < 7" "T (ptrat T root v k) (key v k) = 0" "fresh T root a"
    and "w = (if k < 6 then 0 else MLTINVAL)"
  defines "T' \<equiv> link T (ptrat T root v k) (key v k) a w"
  shows "wftab T' root" "ptrat T' root v (Suc k) = a" "fresh T root b \<Longrightarrow> b \<noteq> a \<Longrightarrow> fresh T' root b"
    "valat T' root u = valat T root u"
proof -
  note pl = ptrat_link [OF assms(1-6), folded T'_def]
  have old: "ptrat T root u (Suc k) = 0" if "agree u v (Suc k)" for u
    using assms(4) that ptrat_agree [of u v k T root] by (simp add: Let_def)
  show "wftab T' root" unfolding wftab_def
  proof (intro conjI allI impI)
    show "root \<noteq> 0" using assms(1) by (simp add: wftab_def)
  next
    fix u v' i j
    assume b: "i \<le> 7" "j \<le> 7" "ptrat T' root u i \<noteq> 0" "ptrat T' root u i = ptrat T' root v' j"
    have "ptrat T root x m \<noteq> a" if "m \<le> 7" for x m using assms(5) that by (simp add: fresh_def)
    then have "(i = Suc k \<and> agree u v (Suc k) \<and> j = Suc k \<and> agree v' v (Suc k)) \<or>
        ptrat T root u i \<noteq> 0 \<and> ptrat T root u i = ptrat T root v' j"
      using b pl [of i u] pl [of j v'] by (auto split: if_splits)
    then show "i = j" "agree u v' j"
      using wftabD [OF assms(1), of u i v' j] b(1,2) by (auto simp: agree_def)
  qed
  show "ptrat T' root v (Suc k) = a" using pl [of "Suc k" v] assms(3) by simp
  show "fresh T' root b" if "fresh T root b" "b \<noteq> a"
    using that pl by (auto simp: fresh_def)
  show "valat T' root u = valat T root u"
  proof (cases "agree u v (Suc k)")
    case True
    have "ptrat T root u 7 = 0" by (rule ptrat_zero [OF old [OF True]]) (use assms(3) in simp)
    moreover have "ptrat T' root u 7 = (if k = 6 then a else 0)" using pl [of 7 u] True assms(3) by auto
    moreover have "a \<noteq> ptrat T root v k" using assms(3,5) unfolding fresh_def by (metis less_imp_le)
    ultimately show ?thesis using assms(6) by (auto simp: valat_def T'_def link_def)
  next
    case False
    then have q: "ptrat T' root u 7 = ptrat T root u 7" using pl [of 7 u] by (simp del: agree_simps)
    have "T' (ptrat T root u 7) = T (ptrat T root u 7)" if "ptrat T root u 7 \<noteq> 0"
      using wftabD [OF assms(1) that, of v k] assms(3,5) by (auto simp: T'_def link_def fresh_def)
    then show ?thesis using q by (auto simp: valat_def Let_def)
  qed
qed

lemma add_loop_ok:
  assumes "n \<le> 7" "mltok root s" "n \<le> length (avail s)" "ptrat (tabs s) root v (7 - n) \<noteq> 0"
  shows "\<exists>pstk nstk s'. add_loop v (8 * n) (ptrat (tabs s) root v (7 - n)) (key v (7 - n)) (7 - n) ps ns s =
      Some (ptrat (tabs s') root v 7, key v 7, pstk, nstk, s') \<and> mltok root s' \<and> ptrat (tabs s') root v 7 \<noteq> 0 \<and>
    (\<forall>u. valat (tabs s') root u = valat (tabs s) root u)"
  using assms
proof (induction n arbitrary: ps ns s)
  case 0
  then show ?case by (subst add_loop.simps) (auto simp: MLTNLVLBIT_def)
next
  case (Suc n)
  define k where "k = 7 - Suc n"
  have k: "7 - n = Suc k" "7 - Suc n = k" "k < 7" using Suc.prems(1) by (simp_all add: k_def)
  have n: "n = 6 - k" "n = 0 \<longleftrightarrow> \<not> k < 6" using Suc.prems(1) by (simp_all add: k_def) linarith
  then have kk: "mltndx v (8 * n) = key v (Suc k)" by (simp add: key_def)
  define p where "p = ptrat (tabs s) root v k"
  have p: "p \<noteq> 0" using Suc.prems(4) k(2) by (simp add: p_def)
  define q where "q = tabs s p (key v k)"
  define inc where "inc = (\<lambda>s :: mlt. s\<lparr>refs := (refs s)(k := (refs s k)(key v k := refs s k (key v k) + 1))\<rparr>)"
  have ti: "tabs (inc s) = tabs s" "avail (inc s) = avail s" for s by (simp_all add: inc_def)
  show ?case
  proof (cases "q = 0")
    case False
    have step: "add_loop v (8 * Suc n) p (key v k) k ps ns s =
        add_loop v (8 * n) q (key v (Suc k)) (Suc k) (ps @ [q]) (ns @ [key v k]) (inc s)"
      using p False by (subst add_loop.simps) (simp add: MLTNLVLBIT_def ldtab_def q_def [symmetric] kk inc_def)
    have q: "ptrat (tabs (inc s)) root v (Suc k) = q" using p by (simp add: q_def p_def ti Let_def)
    have "mltok root (inc s)" using Suc.prems(2) by (simp add: mltok_def ti)
    then show ?thesis
      unfolding k(2) p_def [symmetric] step
      using Suc.IH [of "inc s" "ps @ [q]" "ns @ [key v k]", unfolded k(1) q] Suc.prems(1,3) False by (simp only: ti) simp
  next
    case True
    obtain a as where av: "avail s = a # as" using Suc.prems(3) by (cases "avail s") auto
    define w where "w = (if k < 6 then 0 else MLTINVAL)"
    define s1 where "s1 = s\<lparr>avail := as, tabs := link (tabs s) p (key v k) a w\<rparr>"
    have ok: "wftab (tabs s) root" "fresh (tabs s) root a" "distinct (a # as)" "\<forall>b \<in> set as. fresh (tabs s) root b"
      using Suc.prems(2) av by (simp_all add: mltok_def)
    have "a \<noteq> p" "a \<noteq> 0" using ok(2) k(3) unfolding fresh_def p_def by (metis less_imp_le)+
    then have step: "add_loop v (8 * Suc n) p (key v k) k ps ns s =
        add_loop v (8 * n) a (key v (Suc k)) (Suc k) (ps @ [a]) (ns @ [key v k]) (inc s1)"
      using p True n(2) av
      by (subst add_loop.simps)
        (auto simp: MLTNLVLBIT_def ldtab_def q_def [symmetric] kk [symmetric] Let_def inc_def sttab_def mltgetptrtab_def
          mltgetvaltab_def mltalloctab_def s1_def w_def link_def)
    note lk = link_ok [OF ok(1) _ k(3) _ ok(2) w_def, of v, folded p_def, OF p True [unfolded q_def]]
    have "tabs s1 = link (tabs s) p (key v k) a w" "avail s1 = as" by (simp_all add: s1_def)
    then have ok1: "mltok root (inc s1)" "ptrat (tabs (inc s1)) root v (Suc k) = a" "avail (inc s1) = as"
      "\<And>u. valat (tabs (inc s1)) root u = valat (tabs s) root u"
      using lk ok(3,4) by (auto simp: mltok_def ti)
    show ?thesis
      unfolding k(2) p_def [symmetric] step
      using Suc.IH [of "inc s1" "ps @ [a]" "ns @ [key v k]", unfolded k(1) ok1(2-4)] ok1(1) Suc.prems(1,3) \<open>a \<noteq> 0\<close> av
      by simp
  qed
qed

lemma store_ok:
  fixes x :: u64
  assumes "wftab T root" "ptrat T root v 7 \<noteq> 0"
  defines "T' \<equiv> T(ptrat T root v 7 := (T (ptrat T root v 7))(key v 7 := x))"
  shows "j \<le> 7 \<Longrightarrow> ptrat T' root u j = ptrat T root u j" "valat T' root u = (if u = v then x else valat T root u)"
proof -
  show pj: "ptrat T' root u j = ptrat T root u j" if "j \<le> 7" for j u
    using that
  proof (induction j)
    case (Suc j)
    then have "ptrat T root u j \<noteq> ptrat T root v 7 \<or> ptrat T root u j = 0"
      using wftabD [OF assms(1), of u j v 7] by auto
    then show ?case using Suc by (auto simp: T'_def Let_def)
  qed simp
  show "valat T' root u = (if u = v then x else valat T root u)"
  proof (cases "ptrat T root u 7 = ptrat T root v 7")
    case True
    then have "agree u v 7" using wftabD [OF assms(1), of u 7 v 7] assms(2) by simp
    then have "key u 7 = key v 7 \<longleftrightarrow> u = v" using agree_8 [of u v] by (auto simp: eval_nat_numeral)
    then show ?thesis using True pj [of 7 u] assms(2) by (auto simp: valat_def T'_def Let_def)
  next
    case False
    then show ?thesis using pj [of 7 u] by (auto simp: valat_def T'_def Let_def)
  qed
qed

text \<open>
  C29: in a well-formed table with enough memory, adding a number succeeds, keeps the table well
  formed, makes the search of that number return it, and changes the result of no other search.
\<close>

theorem mltadd_find:
  assumes "mltok root s" "7 \<le> length (avail s)"
  shows "\<exists>s'. mltadd root v s = Some (0, s') \<and> mltok root s' \<and>
    (\<forall>u. mltfind root u s' = (if u = v then Some v else mltfind root u s))"
proof -
  have r: "root \<noteq> 0" using assms(1) by (simp add: mltok_def wftab_def)
  then obtain ps ns s1 where l: "add_loop v 56 root (key v 0) 0 [] [] s = Some (ptrat (tabs s1) root v 7, key v 7, ps, ns, s1)"
    "mltok root s1" "ptrat (tabs s1) root v 7 \<noteq> 0" "\<forall>u. valat (tabs s1) root u = valat (tabs s) root u"
    using add_loop_ok [of 7 root s v "[]" "[]"] assms by auto
  let ?p = "ptrat (tabs s1) root v 7"
  define s2 where "s2 = s1\<lparr>tabs := (tabs s1)(?p := (tabs s1 ?p)(key v 7 := v))\<rparr>"
  have "wftab (tabs s1) root" using l(2) by (simp add: mltok_def)
  note st = store_ok [where x = v, OF this l(3)]
  have "mltadd root v s = Some (0, s2)"
    using l(1,3) by (simp add: mltadd_def MLTNPTRLVL_def MLTNLVLBIT_def key_0 sttab_def s2_def)
  moreover have "mltok root s2"
    using l(2) st(1) by (auto simp: mltok_def s2_def wftab_def fresh_def)
  moreover have "mltfind root u s2 = (if u = v then Some v else mltfind root u s)" for u
    using st(2) [of u] l(4) by (simp add: mltfind_valat [OF r] s2_def)
  ultimately show ?thesis by blast
qed

definition mlt0 :: mlt where
  "mlt0 = \<lparr>tabs = (\<lambda>_ _. 0), refs = (\<lambda>_ _. 0), avail = [2, 3, 4, 5, 6, 7, 8], freed = []\<rparr>"

theorem mltadd_find_witness:
  "\<exists>s. mltadd 1 0x0102030405060708 mlt0 = Some (0, s) \<and> mltfind 1 0x0102030405060708 s = Some 0x0102030405060708 \<and>
    mltfind 1 5 s = Some MLTINVAL"
proof -
  have p: "ptrat (\<lambda>_ _. 0) 1 v k = (if k = 0 then 1 else 0)" for v k by (cases k) simp_all
  have "mltok 1 mlt0" by (auto simp: mltok_def mlt0_def wftab_def fresh_def p)
  moreover have "mltfind 1 5 mlt0 = Some MLTINVAL" by (simp add: mltfind_valat valat_def mlt0_def p)
  ultimately show ?thesis
    using mltadd_find [of 1 mlt0 "0x0102030405060708"] by (fastforce simp: mlt0_def)
qed

section \<open>Deletion\<close>

lemma add_loop_new:
  assumes "8 \<le> ofs" "tab \<noteq> 0" "tabs s tab ndx = 0" "avail s = a # as" "a \<noteq> 0" "a \<noteq> tab"
  shows "add_loop val ofs tab ndx lvl ps ns s =
    add_loop val (ofs - 8) a (mltndx val (ofs - 8)) (Suc lvl) (ps @ [a]) (ns @ [ndx])
      (s\<lparr>avail := as, tabs := link (tabs s) tab ndx a (if ofs = 8 then MLTINVAL else 0),
        refs := (refs s)(lvl := (refs s lvl)(ndx := refs s lvl ndx + 1))\<rparr>)"
  using assms
  by (subst add_loop.simps)
    (auto simp: MLTNLVLBIT_def ldtab_def sttab_def mltgetptrtab_def mltgetvaltab_def mltalloctab_def link_def Let_def)

lemma add_loop_end: "add_loop val 0 tab ndx lvl ps ns s = Some (tab, ndx, ps, ns, s)"
  by (subst add_loop.simps) (simp add: MLTNLVLBIT_def)

lemma walk_loop_next:
  assumes "8 \<le> ofs" "tab \<noteq> 0" "tabs s tab ndx \<noteq> 0"
  shows "walk_loop val ofs tab ndx ps ns s =
    walk_loop val (ofs - 8) (tabs s tab ndx) (mltndx val (ofs - 8)) (ps @ [tabs s tab ndx]) (ns @ [ndx]) s"
  using assms by (subst walk_loop.simps) (simp add: MLTNLVLBIT_def ldtab_def Let_def)

lemma walk_loop_end: "walk_loop val 0 tab ndx ps ns s = Some (tab, tab, ndx, ps, ns)"
  by (subst walk_loop.simps) (simp add: MLTNLVLBIT_def)

lemma trim_loop_free:
  assumes "ps ! lvl \<noteq> 0" "refs s lvl (ns ! lvl) = 1" "lvl < 7"
  shows "trim_loop ps ns (Suc lvl) nref nuke s =
    trim_loop ps ns lvl 0 (ns ! lvl)
      (s\<lparr>tabs := if nuke = 0 then tabs s else (tabs s)(ps ! lvl := (tabs s (ps ! lvl))(nuke := 0)),
         freed := freed s @ [ps ! lvl], refs := (refs s)(lvl := (refs s lvl)(ns ! lvl := 0))\<rparr>)"
  using assms by (simp add: MLTNPTRLVL_def sttab_def Let_def)

lemma trim_loop_keep:
  assumes "\<forall>i<lvl. refs s i (ns ! i) \<noteq> 1" "0 < lvl"
  shows "\<exists>nref s'. trim_loop ps ns lvl n 0 s = Some (nref, s') \<and> nref \<noteq> 0 \<and> tabs s' = tabs s \<and> avail s' = avail s \<and> freed s' = freed s"
  using assms
proof (induction lvl arbitrary: n s)
  case (Suc lvl)
  define s1 where "s1 = s\<lparr>refs := (refs s)(lvl := (refs s lvl)(ns ! lvl := refs s lvl (ns ! lvl) - 1))\<rparr>"
  have "trim_loop ps ns (Suc lvl) n 0 s = trim_loop ps ns lvl (refs s lvl (ns ! lvl) - 1) 0 s1"
    using Suc.prems(1) by (simp add: Let_def s1_def)
  then show ?case using Suc.IH [of s1] Suc.prems(1) by (cases lvl) (auto simp: s1_def)
qed simp

lemma walk_loop_full:
  assumes "n \<le> 7" "ptrat (tabs s) root v 7 \<noteq> 0"
  shows "walk_loop v (8 * n) (ptrat (tabs s) root v (7 - n)) (key v (7 - n)) ps ns s =
    Some (ptrat (tabs s) root v 7, ptrat (tabs s) root v 7, key v 7,
      ps @ map (\<lambda>i. ptrat (tabs s) root v (Suc i)) [7 - n..<7], ns @ map (key v) [7 - n..<7])"
  using assms(1)
proof (induction n arbitrary: ps ns)
  case (Suc n)
  define k where "k = 7 - Suc n"
  have k: "7 - n = Suc k" "7 - Suc n = k" "k < 7" "7 - Suc k = n" using Suc.prems by (simp_all add: k_def)
  have nz: "ptrat (tabs s) root v k \<noteq> 0" "ptrat (tabs s) root v (Suc k) \<noteq> 0"
    using assms(2) ptrat_zero [of "tabs s" root v _ 7] k(3) by (metis Suc_leI less_imp_le)+
  then have t: "tabs s (ptrat (tabs s) root v k) (key v k) = ptrat (tabs s) root v (Suc k)" by (simp add: Let_def)
  have kk: "mltndx v (8 * n) = key v (Suc k)" by (simp only: key_def k(4))
  show ?case
    unfolding k(2) using nz k(3) Suc.IH Suc.prems
    by (subst walk_loop_next) (simp_all add: t kk k(1) upt_conv_Cons del: ptrat.simps(2))
qed (simp add: walk_loop_end)

text \<open>
  Deletion: a number whose path does not exist is reported as missing and nothing changes.  A number
  whose tables all have other references is removed, and no other number is affected.
\<close>

lemma mltdel_find:
  assumes "mltok root s"
  shows "if ptrat (tabs s) root v 7 = 0 then mltdel root v s = Some (- 1, s)
    else (\<forall>i<7. refs s i (key v i) \<noteq> 1) \<longrightarrow> (\<exists>s'. mltdel root v s = Some (0, s') \<and> mltok root s' \<and> freed s' = freed s \<and>
      (\<forall>u. mltfind root u s' = (if u = v then Some MLTINVAL else mltfind root u s)))"
proof -
  have r: "root \<noteq> 0" and wf: "wftab (tabs s) root" using assms by (simp_all add: mltok_def wftab_def)
  let ?p = "ptrat (tabs s) root v 7"
  have "mltdel root v s = Some (- 1, s)" if "?p = 0"
    using walk_loop_ptrat [of 7 s root v "[]" "[]"] r that
    by (auto simp: mltdel_def MLTNPTRLVL_def MLTNLVLBIT_def key_0)
  moreover have "\<exists>s'. mltdel root v s = Some (0, s') \<and> mltok root s' \<and> freed s' = freed s \<and>
      (\<forall>u. mltfind root u s' = (if u = v then Some MLTINVAL else mltfind root u s))"
    if pr: "?p \<noteq> 0" "\<forall>i<7. refs s i (key v i) \<noteq> 1"
  proof -
    define s1 where "s1 = s\<lparr>tabs := (tabs s)(?p := (tabs s ?p)(key v 7 := MLTINVAL))\<rparr>"
    let ?ps = "map (\<lambda>i. ptrat (tabs s) root v (Suc i)) [0..<7]" and ?ns = "map (key v) [0..<7]"
    obtain nref s2 where t: "trim_loop ?ps ?ns 7 (- 1) 0 s1 = Some (nref, s2)" "nref \<noteq> 0" "tabs s2 = tabs s1"
      "avail s2 = avail s1" "freed s2 = freed s1"
      using trim_loop_keep [of 7 s1 ?ns ?ps "- 1"] pr(2) by (auto simp: s1_def simp del: upt_Suc)
    have w: "walk_loop v 56 root (key v 0) [] [] s = Some (?p, ?p, key v 7, ?ps, ?ns)"
      using walk_loop_full [of 7 s root v "[]" "[]"] pr(1) by (simp del: upt_Suc)
    have "mltdel root v s = Some (0, s2)"
      using pr(1) t(1,2) w
      by (simp add: mltdel_def MLTNPTRLVL_def MLTNLVLBIT_def key_0 sttab_def mlttrim_def s1_def del: upt_Suc)
    note st = store_ok [where x = MLTINVAL, OF wf pr(1)]
    have "mltok root s2" using assms st(1) t(3,4) by (auto simp: mltok_def s1_def wftab_def fresh_def)
    moreover have "mltfind root u s2 = (if u = v then Some MLTINVAL else mltfind root u s)" for u
      using st(2) [of u] t(3) by (simp add: mltfind_valat [OF r] s1_def)
    ultimately show ?thesis using \<open>mltdel root v s = Some (0, s2)\<close> t(5) by (auto simp: s1_def)
  qed
  ultimately show ?thesis by simp
qed

text \<open>
  Deleting the only number of a table frees the tables on its path, but the root keeps its pointer
  to the freed table.
\<close>

lemma mltdel_dangling:
  "map_option (\<lambda>(r, s). (tabs s 1 1, freed s))
     (mltadd 1 0x0102030405060708 mlt0 \<bind> (\<lambda>(r, s). mltdel 1 0x0102030405060708 s)) = Some (2, [8, 7, 6, 5, 4, 3, 2])"
  by (simp add: mltadd_def mltdel_def MLTNPTRLVL_def MLTNLVLBIT_def add_loop_new add_loop_end walk_loop_next walk_loop_end
      mlttrim_def trim_loop_free sttab_def mlt0_def mltndx_def MLTKEYMASK_def link_def del: trim_loop.simps(2))

end
