(* ===== verification/Cchar.thy ===== *)
theory Cchar
  imports Trix
begin

text \<open>
  Characters and Internet addresses of the C library: the classes of characters (usr/lib/c/ctype.c,
  ctype.h) and the conversions of IPv4 addresses to and from text (usr/lib/c/inet.c).

  A character is its number; the table of classes has 256 entries, and an index outside it gives
  \<^const>\<open>None\<close>.  The text of an address is a memory of bytes at the static buffer, or the list of the
  characters of the argument with its terminator.  The value of a number in that text is a natural
  number, as the overflow of the signed variable of the code is undefined; the bytes stored are
  returned as a list, also when there are more than the four of the address.
\<close>

section \<open>Classes of characters\<close>

definition ctypeparamtab_c :: "u8 list" where
  "ctypeparamtab_c =
    [0, 0, 0, 0, 0, 0, 0, 0, 0, 0x40, 0x40, 0x40, 0x40, 0x40, 0, 0,
     0, 0, 0, 0, 0, 0, 0, 0, 0, 0, 0, 0, 0, 0, 0, 0,
     0x50, 0x34, 0x34, 0x34, 0x34, 0x34, 0x34, 0x34, 0x34, 0x34, 0x34, 0x34, 0x34, 0x34, 0x34, 0x34,
     0x15, 0x15, 0x15, 0x15, 0x15, 0x15, 0x15, 0x15, 0x15, 0x15, 0x34, 0x34, 0x34, 0x34, 0x34, 0x34,
     0x34, 0x97, 0x97, 0x97, 0x97, 0x97, 0x97, 0x97, 0x97, 0x97, 0x97, 0x97, 0x97, 0x97, 0x97, 0x97,
     0x97, 0x97, 0x97, 0x97, 0x97, 0x97, 0x97, 0x97, 0x97, 0x97, 0x97, 0x34, 0x34, 0x34, 0x34, 0x34,
     0x34, 0x1f, 0x1f, 0x1f, 0x1f, 0x1f, 0x1f, 0x1f, 0x1f, 0x1f, 0x1f, 0x1f, 0x1f, 0x1f, 0x1f, 0x1f,
     0x1f, 0x1f, 0x1f, 0x1f, 0x1f, 0x1f, 0x1f, 0x1f, 0x1f, 0x1f, 0x1f, 0x34, 0x34, 0x34, 0x34, 0,
     0, 0, 0, 0, 0, 0, 0, 0, 0, 0, 0, 0, 0, 0, 0, 0,
     0, 0, 0, 0, 0, 0, 0, 0, 0, 0, 0, 0, 0, 0, 0, 0,
     0, 0, 0, 0, 0, 0, 0, 0, 0, 0, 0, 0, 0, 0, 0, 0,
     0, 0, 0, 0, 0, 0, 0, 0, 0, 0, 0, 0, 0, 0, 0, 0,
     0, 0, 0, 0, 0, 0, 0, 0, 0, 0, 0, 0, 0, 0, 0, 0,
     0, 0, 0, 0, 0, 0, 0, 0, 0, 0, 0, 0, 0, 0, 0, 0,
     0, 0, 0, 0, 0, 0, 0, 0, 0, 0, 0, 0, 0, 0, 0, 0,
     0, 0, 0, 0, 0, 0, 0, 0, 0, 0, 0, 0, 0, 0, 0, 0]"

definition ctypeparam :: "nat \<Rightarrow> u8 \<Rightarrow> u8 option" where
  "ctypeparam c m = (if c < 256 then Some (ctypeparamtab_c ! c AND m) else None)"

definition ct_isalnum :: "nat \<Rightarrow> u8 option" where "ct_isalnum c = ctypeparam c 0x01"
definition ct_isalpha :: "nat \<Rightarrow> u8 option" where "ct_isalpha c = ctypeparam c 0x02"
definition ct_isgraph :: "nat \<Rightarrow> u8 option" where "ct_isgraph c = ctypeparam c 0x04"
definition ct_islower :: "nat \<Rightarrow> u8 option" where "ct_islower c = ctypeparam c 0x08"
definition ct_isprint :: "nat \<Rightarrow> u8 option" where "ct_isprint c = ctypeparam c 0x10"
definition ct_ispunct :: "nat \<Rightarrow> u8 option" where "ct_ispunct c = ctypeparam c 0x20"
definition ct_isspace :: "nat \<Rightarrow> u8 option" where "ct_isspace c = ctypeparam c 0x40"
definition ct_isupper :: "nat \<Rightarrow> u8 option" where "ct_isupper c = ctypeparam c 0x80"
definition ct_isblank :: "nat \<Rightarrow> bool" where "ct_isblank c \<longleftrightarrow> c = 32 \<or> c = 9"
definition ct_isdigit :: "nat \<Rightarrow> bool" where "ct_isdigit c \<longleftrightarrow> 48 \<le> c \<and> c \<le> 57"
definition ct_iscntrl :: "nat \<Rightarrow> nat" where "ct_iscntrl c = c AND 0x1f"
definition ct_isascii :: "nat \<Rightarrow> bool" where "ct_isascii c \<longleftrightarrow> c AND 0x80 = 0"
definition ct_toascii :: "nat \<Rightarrow> nat" where "ct_toascii c = c AND 0x7f"

lemma ctypeparamtab_runs: "ctypeparamtab_c = replicate 9 0 @ replicate 5 0x40 @ replicate 18 0 @ replicate 1 0x50 @ replicate 15 0x34 @ replicate 10 0x15 @ replicate 7 0x34 @ replicate 26 0x97 @ replicate 6 0x34 @ replicate 26 0x1f @ replicate 4 0x34 @ replicate 129 0"
  by (simp add: ctypeparamtab_c_def numeral_eq_Suc)

lemma sub_less: "0 < n \<Longrightarrow> c - b < n \<longleftrightarrow> c < b + n" for n b c :: nat
  by arith

lemma nth_Cons_sub: "(x # xs) ! (c - b) = (if c < b + 1 then x else xs ! (c - (b + 1)))"
  by (simp add: nth_Cons')

lemma ctypeparamtab_nth:
  assumes "c < 256"
  shows "ctypeparamtab_c ! c = (if c < 9 then 0 else if c < 14 then 0x40 else if c < 32 then 0 else if c < 33 then 0x50 else if c < 48 then 0x34 else if c < 58 then 0x15 else if c < 65 then 0x34 else if c < 91 then 0x97 else if c < 97 then 0x34 else if c < 123 then 0x1f else if c < 127 then 0x34 else 0)"
  using assms by (simp add: ctypeparamtab_runs nth_append sub_less nth_Cons_sub cong: if_cong split del: if_split)

lemma ctype_if: "(if b then x else y) AND m = (if b then x AND m else y AND m)"
  by simp

lemma ctype_zero:
  assumes "c < 256"
  shows "ct_isalpha c = Some 0 \<longleftrightarrow> \<not> (65 \<le> c \<and> c \<le> 90 \<or> 97 \<le> c \<and> c \<le> 122)"
    "ct_islower c = Some 0 \<longleftrightarrow> \<not> (97 \<le> c \<and> c \<le> 122)"
    "ct_isalnum c = Some 0 \<longleftrightarrow> \<not> (65 \<le> c \<and> c \<le> 90 \<or> 97 \<le> c \<and> c \<le> 122 \<or> 48 \<le> c \<and> c \<le> 57)"
    "ct_isspace c = Some 0 \<longleftrightarrow> \<not> (c = 32 \<or> 9 \<le> c \<and> c \<le> 13)"
  using assms
  by (simp_all add: ct_islower_def ct_isalpha_def ct_isalnum_def ct_isspace_def ctypeparam_def ctypeparamtab_nth ctype_if)

text \<open>
  The classes of all 256 characters are those of the C locale: letters and digits, letters,
  visible, lower-case, printing, punctuation, white-space and upper-case characters.
\<close>

theorem ctype_ascii:
  assumes "c < 256"
  defines "upper \<equiv> 65 \<le> c \<and> c \<le> 90" and "lower \<equiv> 97 \<le> c \<and> c \<le> 122" and "digit \<equiv> 48 \<le> c \<and> c \<le> 57"
  shows "(\<exists>r. ct_isupper c = Some r \<and> (r \<noteq> 0 \<longleftrightarrow> upper)) \<and> (\<exists>r. ct_islower c = Some r \<and> (r \<noteq> 0 \<longleftrightarrow> lower)) \<and>
    (\<exists>r. ct_isalpha c = Some r \<and> (r \<noteq> 0 \<longleftrightarrow> upper \<or> lower)) \<and> (\<exists>r. ct_isalnum c = Some r \<and> (r \<noteq> 0 \<longleftrightarrow> upper \<or> lower \<or> digit)) \<and>
    (\<exists>r. ct_isgraph c = Some r \<and> (r \<noteq> 0 \<longleftrightarrow> 33 \<le> c \<and> c \<le> 126)) \<and> (\<exists>r. ct_isprint c = Some r \<and> (r \<noteq> 0 \<longleftrightarrow> 32 \<le> c \<and> c \<le> 126)) \<and>
    (\<exists>r. ct_ispunct c = Some r \<and> (r \<noteq> 0 \<longleftrightarrow> 33 \<le> c \<and> c \<le> 126 \<and> \<not> (upper \<or> lower \<or> digit))) \<and>
    (\<exists>r. ct_isspace c = Some r \<and> (r \<noteq> 0 \<longleftrightarrow> c = 32 \<or> 9 \<le> c \<and> c \<le> 13))"
  using assms(1)
  by (simp add: ct_isupper_def ct_islower_def ct_isalpha_def ct_isalnum_def ct_isgraph_def ct_isprint_def ct_ispunct_def ct_isspace_def ctypeparam_def
      ctypeparamtab_nth ctype_if upper_def lower_def digit_def)

theorem ctype_ascii_witness: "\<exists>r. ct_isupper 77 = Some r \<and> r \<noteq> 0"
  using ctype_ascii [of 77] by simp

text \<open>\<open>iscntrl\<close> holds for letters and not for the null character.\<close>

lemma iscntrl_wrong: "ct_iscntrl 65 \<noteq> 0 \<and> ct_iscntrl 0 = 0"
  by (simp add: ct_iscntrl_def)

section \<open>Internet addresses\<close>

definition asctodectab :: "nat \<Rightarrow> u8" where
  "asctodectab i = [48, 49, 50, 51, 52, 53, 54, 55, 56, 57] ! i"

text \<open>
  One number of the address: position in the buffer, number of digits of the number before and
  buffer.  A number below ten leaves the number of digits as it was.
\<close>

definition ntoa_step :: "nat \<Rightarrow> u8 \<Rightarrow> nat \<times> nat \<times> (nat \<Rightarrow> u8) \<Rightarrow> nat \<times> nat \<times> (nat \<Rightarrow> u8)" where
  "ntoa_step ndx octet = (\<lambda>(p, len, buf).
     let val = ucast octet :: u32;
         tmp1 = unat (modu10 val); tmp2 = divu10 val; tmp3 = divu100 val;
         tmp4 = unat (modu10 tmp2); tmp5 = unat (modu10 tmp3);
         len = (if val \<ge> 100 then 3 else if val \<ge> 10 then 2 else len);
         buf = (if len = 3 then buf(p + 2 := asctodectab tmp1, p + 1 := asctodectab tmp4, p := asctodectab tmp5)
                else if len = 2 then buf(p + 1 := asctodectab tmp1, p := asctodectab tmp4)
                else if len = 1 then buf(p := asctodectab tmp1) else buf);
         p = p + len
     in (p, len, buf(p := if ndx < 3 then 46 else 0)))"

definition inet_ntoa :: "(nat \<Rightarrow> u8) \<Rightarrow> (nat \<Rightarrow> u8) \<Rightarrow> (nat \<Rightarrow> u8)" where
  "inet_ntoa adr buf =
     (let (p, len, buf) = fold (\<lambda>ndx. ntoa_step ndx (adr ndx)) [0..<4] (0, 0, buf) in buf)"

fun aton_digits :: "nat list \<Rightarrow> nat \<Rightarrow> nat \<times> nat list" where
  "aton_digits [] val = (val, [])"
| "aton_digits (c # cs) val = (if ct_isdigit c then aton_digits cs (val * 10 + c) else (val, c # cs))"

lemma aton_digits_length: "length (snd (aton_digits cs val)) \<le> length cs"
  by (induction cs val rule: aton_digits.induct) auto

text \<open>The result, and the bytes stored; \<open>None\<close> is a read behind the terminator.\<close>

function aton_loop :: "nat list \<Rightarrow> nat \<Rightarrow> u8 list \<Rightarrow> (int \<times> u8 list) option" where
  "aton_loop ptr n adr =
     (case ptr of [] \<Rightarrow> None
      | c # cs \<Rightarrow>
          if \<not> ct_isdigit c then Some (0, adr)
          else let (val, ptr) = aton_digits (c # cs) 0; n = n + 1 in
            case ptr of [] \<Rightarrow> None
            | c # cs \<Rightarrow>
                if c = 46 then if val > 0xff then Some (0, adr) else aton_loop cs n (adr @ [of_nat val])
                else if c = 0 \<and> n = 4 then Some (1, adr) else Some (0, adr))"
  by pat_completeness auto
termination
proof (relation "measure (\<lambda>(ptr, _, _). length ptr)", goal_cases)
  case (2 ptr n adr c cs p val ptr' m c' cs')
  then show ?case using aton_digits_length [of "c # cs" 0] by (cases "aton_digits (c # cs) 0") (auto split: if_splits)
qed simp

declare aton_loop.simps [simp del]

definition inet_aton :: "nat list \<Rightarrow> (int \<times> u8 list) option" where
  "inet_aton cptr = aton_loop cptr 0 []"

text \<open>The digits of a number below 256.\<close>

definition dec :: "u8 \<Rightarrow> u8 list" where
  "dec x = (if x \<ge> 100 then [48 + x div 100, 48 + x div 10 mod 10, 48 + x mod 10] else if x \<ge> 10 then [48 + x div 10, 48 + x mod 10]
     else [48 + x])"

lemma asctodectab_digit:
  assumes "i < 10"
  shows "asctodectab i = of_nat (48 + i)"
proof -
  have "\<forall>i \<in> set [0..<10]. asctodectab i = of_nat (48 + i)" by (simp add: asctodectab_def upt_rec)
  then show ?thesis using assms by simp
qed

lemma ntoa_digits:
  fixes x :: u8
  shows "asctodectab (unat (modu10 (ucast x :: u32))) = 48 + x mod 10"
    "asctodectab (unat (modu10 (divu10 (ucast x :: u32)))) = 48 + x div 10 mod 10"
    "asctodectab (unat (modu10 (divu100 (ucast x :: u32)))) = 48 + x div 100 mod 10"
proof -
  have u: "unat (ucast x :: u32) = unat x" by (simp add: unsigned_ucast_eq take_bit_nat_eq_self less_trans [OF unat_u8_bound])
  have d: "of_nat (48 + unat y) = 48 + y" for y :: u8 by simp
  have m: "unat (y mod 10) = unat y mod 10" "unat (y div 10) = unat y div 10" "unat (y div 100) = unat y div 100" for y :: u8
    by (simp_all add: unat_mod_distrib unat_div_distrib)
  have t: "asctodectab (unat (y mod 10)) = 48 + y mod 10" for y :: u8
    using asctodectab_digit [of "unat (y mod 10)"] d [of "y mod 10"] by (simp add: m(1) del: of_nat_add)
  show "asctodectab (unat (modu10 (ucast x :: u32))) = 48 + x mod 10"
    "asctodectab (unat (modu10 (divu10 (ucast x :: u32)))) = 48 + x div 10 mod 10"
    "asctodectab (unat (modu10 (divu100 (ucast x :: u32)))) = 48 + x div 100 mod 10"
    by (simp_all add: t modu10_exact divu10_exact divu100_exact u flip: m)
qed

lemma ntoa_step_two:
  assumes "10 \<le> x" "ntoa_step ndx x (p, len, buf) = (p', len', buf')"
  shows "p' = p + length (dec x)" "buf' p' = (if ndx < 3 then 46 else 0)"
    "i < length (dec x) \<Longrightarrow> buf' (p + i) = dec x ! i" "i < p \<Longrightarrow> buf' i = buf i"
proof -
  have u: "unat (ucast x :: u32) = unat x" by (simp add: unsigned_ucast_eq take_bit_nat_eq_self less_trans [OF unat_u8_bound])
  have ge: "(100 :: u32) \<le> ucast x \<longleftrightarrow> 100 \<le> x" "(10 :: u32) \<le> ucast x \<longleftrightarrow> 10 \<le> x"
    by (simp_all add: word_le_nat_alt u)
  have small: "x div 100 mod 10 = x div 100" "\<not> 100 \<le> x \<Longrightarrow> x div 10 mod 10 = x div 10"
    using unat_u8_bound [of x]
    by (auto simp: word_unat_eq_iff unat_mod_distrib unat_div_distrib word_le_nat_alt less_mult_imp_div_less)
  have s: "ntoa_step ndx x (p, len, buf) =
    (if 100 \<le> x then (p + 3, 3, buf(p + 2 := 48 + x mod 10, p + 1 := 48 + x div 10 mod 10, p := 48 + x div 100, p + 3 := if ndx < 3 then 46 else 0))
     else (p + 2, 2, buf(p + 1 := 48 + x mod 10, p := 48 + x div 10, p + 2 := if ndx < 3 then 46 else 0)))"
    using assms(1) by (simp add: ntoa_step_def Let_def ntoa_digits ge small)
  show "p' = p + length (dec x)" "buf' p' = (if ndx < 3 then 46 else 0)"
    "i < length (dec x) \<Longrightarrow> buf' (p + i) = dec x ! i" "i < p \<Longrightarrow> buf' i = buf i"
    using assms s by (auto simp: dec_def less_Suc_eq numeral_2_eq_2 numeral_3_eq_3 split: if_splits)
qed

text \<open>
  The text of an address without a number below ten consists of the digits only: every separating
  dot is overwritten by the first digit of the next number.
\<close>

lemma ntoa_fold:
  assumes "\<forall>i<4. 10 \<le> adr i" "k \<le> 4"
  defines "t \<equiv> \<lambda>k. concat (map (\<lambda>i. dec (adr i)) [0..<k])"
  shows "\<exists>len buf'. fold (\<lambda>ndx. ntoa_step ndx (adr ndx)) [0..<k] (0, 0, buf) = (length (t k), len, buf') \<and>
    (\<forall>i<length (t k). buf' i = t k ! i) \<and> (0 < k \<longrightarrow> buf' (length (t k)) = (if k - 1 < 3 then 46 else 0))"
  using assms(2)
proof (induction k)
  case (Suc k)
  then obtain len b where f: "fold (\<lambda>ndx. ntoa_step ndx (adr ndx)) [0..<k] (0, 0, buf) = (length (t k), len, b)"
    "\<forall>i<length (t k). b i = t k ! i" by auto
  obtain p' len' b' where n: "ntoa_step k (adr k) (length (t k), len, b) = (p', len', b')"
    by (cases "ntoa_step k (adr k) (length (t k), len, b)") auto
  have "10 \<le> adr k" using assms(1) Suc.prems by simp
  note st = ntoa_step_two [OF this n]
  have t: "t (Suc k) = t k @ dec (adr k)" by (simp add: t_def)
  have "b' i = t (Suc k) ! i" if "i < length (t (Suc k))" for i
    using that st(3) [of "i - length (t k)"] st(4) [of i] f(2) by (auto simp: t nth_append)
  then show ?case using f(1) n st(1,2) by (auto simp: t)
qed (simp add: t_def)

lemma inet_ntoa_no_dots:
  assumes "\<forall>i<4. 10 \<le> adr i"
  shows "let t = dec (adr 0) @ dec (adr 1) @ dec (adr 2) @ dec (adr 3); buf' = inet_ntoa adr buf in
    map buf' [0..<length t] = t \<and> buf' (length t) = 0"
proof -
  have "[0..<4] = [0, 1, 2, 3]" by (simp add: upt_rec)
  then have t: "concat (map (\<lambda>i. dec (adr i)) [0..<4]) = dec (adr 0) @ dec (adr 1) @ dec (adr 2) @ dec (adr 3)" by simp
  obtain len buf' where f: "fold (\<lambda>ndx. ntoa_step ndx (adr ndx)) [0..<4] (0, 0, buf) =
      (length (concat (map (\<lambda>i. dec (adr i)) [0..<4])), len, buf')"
    "\<forall>i<length (concat (map (\<lambda>i. dec (adr i)) [0..<4])). buf' i = concat (map (\<lambda>i. dec (adr i)) [0..<4]) ! i"
    "buf' (length (concat (map (\<lambda>i. dec (adr i)) [0..<4]))) = 0"
    using ntoa_fold [OF assms, of 4 buf] by auto
  have "inet_ntoa adr buf = buf'" unfolding inet_ntoa_def f(1) by simp
  then show ?thesis unfolding Let_def t [symmetric] using f(2,3) by (auto intro!: nth_equalityI)
qed

text \<open>An address of four numbers below ten has the empty text.\<close>

lemma inet_ntoa_small: "inet_ntoa (\<lambda>_. 1) buf 0 = 0"
proof -
  have "\<not> (10 :: u32) \<le> 1" "\<not> (100 :: u32) \<le> 1" by (simp_all add: word_le_nat_alt)
  then show ?thesis by (simp add: inet_ntoa_def upt_rec ntoa_step_def Let_def)
qed

text \<open>
  The text \<open>1.2.3.4\<close> is accepted, but the numbers are those of the characters, and the last one is
  not stored; a number of two digits is refused.
\<close>

lemma inet_aton_wrong:
  "inet_aton [49, 46, 50, 46, 51, 46, 52, 0] = Some (1, [49, 50, 51])"
  "inet_aton [49, 48, 46, 50, 46, 51, 46, 52, 0] = Some (0, [])"
  by (simp_all add: inet_aton_def aton_loop.simps ct_isdigit_def)

end
