(* ===== verification/Zaslex.thy ===== *)
theory Zaslex
  imports Cchar
begin

text \<open>
  The scanner of the Zero assembler (usr/tools/zas/zas.c): numbers, characters, names, registers
  with offsets, directives and the tokens made of them, on a 64-bit machine.

  A line is the list of its characters in front of the terminator; the character at the end is the
  null character.  Functions that move a pointer over the line return the rest of it; where the
  code ends a name by storing a null character, the name is the part in front of it.  Characters
  are read as unsigned ones.  Words of the target machine are 64-bit words in two's complement.
  Leaving the program after a message, and reading behind the end of the line, are error values.

  The machine the assembler is built for is not part of the sources.  Its table of mnemonics, its
  parser of register names and the two bits that mark the use of a register are the fields of an
  argument.
\<close>

section \<open>Characters and errors\<close>

datatype zaserr =
    InvalidOctal | OversizeChar | InvalidToken | InvalidImmediate | OverlongLine
  | StrayToken | InvalidSpace | InvalidAlign | InvalidLiteral | UnresolvedSymbol | InvalidSymbol | InvalidDefine
  | InvalidInclude | InvalidImport
  | Overrun
  | NullPointer | JunkPointer | JunkType

definition cur :: "string \<Rightarrow> char" where
  "cur str = (case str of [] \<Rightarrow> CHR 0x00 | c # _ \<Rightarrow> c)"

definition alphac :: "char \<Rightarrow> bool" where "alphac c \<longleftrightarrow> ct_isalpha (of_char c) \<noteq> Some 0"
definition alnumc :: "char \<Rightarrow> bool" where "alnumc c \<longleftrightarrow> ct_isalnum (of_char c) \<noteq> Some 0"
definition spacec :: "char \<Rightarrow> bool" where "spacec c \<longleftrightarrow> ct_isspace (of_char c) \<noteq> Some 0"
definition lowerc :: "char \<Rightarrow> bool" where "lowerc c \<longleftrightarrow> ct_islower (of_char c) \<noteq> Some 0"
definition digitc :: "char \<Rightarrow> bool" where "digitc c \<longleftrightarrow> ct_isdigit (of_char c)"

definition tolowerc :: "char \<Rightarrow> char" where
  "tolowerc c = (if 65 \<le> (of_char c :: nat) \<and> (of_char c :: nat) \<le> 90 then char_of ((of_char c :: nat) + 32) else c)"

definition xdigitc :: "char \<Rightarrow> bool" where
  "xdigitc c \<longleftrightarrow> digitc c \<or> 97 \<le> (of_char (tolowerc c) :: nat) \<and> (of_char (tolowerc c) :: nat) \<le> 102"

definition identc :: "char \<Rightarrow> bool" where "identc c \<longleftrightarrow> alnumc c \<or> c = CHR ''_''"
definition ident1c :: "char \<Rightarrow> bool" where "ident1c c \<longleftrightarrow> alphac c \<or> c = CHR ''_''"

definition digitval :: "char \<Rightarrow> u64" where "digitval c = of_nat (of_char c) - 48"

definition hexval :: "char \<Rightarrow> u64" where
  "hexval c = (if digitc c then digitval c
     else if lowerc c then of_nat (of_char c) - 97 + 10 else of_nat (of_char c) - 65 + 10)"

section \<open>Numbers\<close>

text \<open>A loop that accumulates the value of digits.\<close>

fun scandig :: "(char \<Rightarrow> bool) \<Rightarrow> (u64 \<Rightarrow> char \<Rightarrow> u64) \<Rightarrow> u64 \<Rightarrow> string \<Rightarrow> u64 \<times> string" where
  "scandig p f val [] = (val, [])"
| "scandig p f val (c # str) = (if p c then scandig p f (f val c) str else (val, c # str))"

fun scanoct :: "u64 \<Rightarrow> string \<Rightarrow> zaserr + u64 \<times> string" where
  "scanoct val [] = Inr (val, [])"
| "scanoct val (c # str) =
     (if digitc c then if (of_char c :: nat) > 55 then Inl InvalidOctal
        else scanoct (push_bit 3 val + digitval c) str
      else Inr (val, c # str))"

definition bindigit :: "char \<Rightarrow> bool" where "bindigit c \<longleftrightarrow> c = CHR ''0'' \<or> c = CHR ''1''"

text \<open>The number at the start of the line, if there is one.\<close>

definition scannum :: "string \<Rightarrow> zaserr + (u64 \<times> string) option" where
  "scannum str =
     (if cur str = CHR ''0'' \<and> tolowerc (cur (tl str)) = CHR ''x''
      then Inr (Some (scandig xdigitc (\<lambda>v c. push_bit 4 v + hexval c) 0 (drop 2 str)))
      else if cur str = CHR ''0'' \<and> tolowerc (cur (tl str)) = CHR ''b''
      then Inr (Some (scandig bindigit (\<lambda>v c. push_bit 1 v + digitval c) 0 (drop 2 str)))
      else if cur str = CHR ''0'' then map_sum id Some (scanoct 0 (tl str))
      else if digitc (cur str) then Inr (Some (scandig digitc (\<lambda>v c. v * 10 + digitval c) 0 str))
      else Inr None)"

definition zasgetvalue :: "string \<Rightarrow> zaserr + (u64 \<times> string) option" where
  "zasgetvalue str =
     (let (neg, str) = (if cur str = CHR ''-'' then (True, tl str) else (False, str)) in
      map_sum id (map_option (\<lambda>(uval, str). (if neg then - uval else uval, str))) (scannum str))"

section \<open>The machine\<close>

record zasop =
  op_name :: string
  op_code :: u8
  op_narg :: u8
  op_len :: nat

record zaslexmach =
  asmfindop :: "string \<Rightarrow> zasop option"
  asmgetreg :: "string \<Rightarrow> u64 \<times> string"
  ZASREGINDEX :: u64
  ZASREGINDIR :: u64

text \<open>
  A number followed by a register in parentheses: the register, the number and the rest of the line.
  Without a parenthesis the register is \<open>0xff\<close> and the line is not advanced.
\<close>

definition zasgetindex :: "zaslexmach \<Rightarrow> string \<Rightarrow> zaserr + u64 \<times> u64 \<times> string" where
  "zasgetindex m str0 =
     (let (neg, str) = (if cur str0 = CHR ''-'' then (True, tl str0) else (False, str0)) in
      case scannum str of Inl e \<Rightarrow> Inl e
      | Inr num \<Rightarrow>
          let (val, str) = (case num of None \<Rightarrow> (0, str) | Some (val, str) \<Rightarrow> (val, str));
              (reg, rest) = (if cur str = CHR ''('' then
                  let str = tl str; str = (if cur str = CHR ''%'' then tl str else str) in asmgetreg m str
                else (0xff, str0));
              val = (if neg then - val else val)
          in Inr (reg, val, rest))"

section \<open>Names\<close>

definition zasgetlabel :: "string \<Rightarrow> (string \<times> string) option" where
  "zasgetlabel str =
     (let rest = (if ident1c (cur str) then dropWhile identc (tl str) else str) in
      if cur rest = CHR '':'' then Some (take (length str - length rest) str, tl rest) else None)"

definition zasgetinst :: "zaslexmach \<Rightarrow> string \<Rightarrow> (zasop \<times> string) option" where
  "zasgetinst m str = map_option (\<lambda>p. (p, drop (op_len p) str)) (asmfindop m str)"

text \<open>
  The name of a symbol ends at a comma behind it; without one it is the whole rest of the line.
\<close>

definition zasgetsym :: "string \<Rightarrow> string \<times> string" where
  "zasgetsym str =
     (let rest = (if ident1c (cur str) then tl str else str);
          rest = dropWhile identc rest;
          rest = dropWhile spacec rest
      in if cur rest = CHR '','' then (take (length str - length rest) str, tl rest) else (str, rest))"

section \<open>Characters\<close>

definition chr_end :: "u64 \<Rightarrow> string \<Rightarrow> zaserr + u8 \<times> string" where
  "chr_end val str =
     (if sint val > 0xff then Inl OversizeChar
      else let str = (if cur str = CHR 0x27 then tl str else str);
               str = (if cur str = CHR '','' then tl str else str)
           in Inr (ucast val, str))"

definition zasgetchar :: "string \<Rightarrow> zaserr + u8 \<times> string" where
  "zasgetchar str =
     (let str = tl str in
      if cur str = CHR 0x5c then
        let str = tl str in
        if alphac (cur str) then
          let (val, str) = (if cur str = CHR ''n'' then (10, tl str) else if cur str = CHR ''t'' then (9, tl str)
                            else if cur str = CHR ''r'' then (13, tl str) else (0, str))
          in chr_end val str
        else
          let str = (if cur str = CHR ''0'' then tl str else str) in
          case scanoct 0 str of Inl e \<Rightarrow> Inl e | Inr (val, str) \<Rightarrow> chr_end val str
      else if alphac (cur str) \<or> spacec (cur str) then chr_end (of_nat (of_char (cur str))) (tl str)
      else let (val, str) = scandig digitc (\<lambda>v c. v * 10 + digitval c) 0 str in chr_end val str)"

section \<open>Definitions of values\<close>

definition ZASNHASH :: nat where "ZASNHASH = 65536"

text \<open>The sum of the characters of a name.\<close>

definition namesum :: "string \<Rightarrow> u64" where
  "namesum name = foldl (\<lambda>k c. k + of_nat (of_char c)) 0 name"

definition namekey :: "string \<Rightarrow> nat" where
  "namekey name = unat (namesum name AND of_nat (ZASNHASH - 1))"

type_synonym valtab = "nat \<Rightarrow> (string \<times> u64) list"

definition zasaddval :: "string \<Rightarrow> u64 \<Rightarrow> valtab \<Rightarrow> valtab" where
  "zasaddval name val tab = tab(namekey name := (name, val) # tab (namekey name))"

text \<open>The names of the table are compared on the length of the name that is looked up.\<close>

definition zasfindval :: "string \<Rightarrow> valtab \<Rightarrow> (u64 \<times> string) option" where
  "zasfindval str tab =
     (if str \<noteq> [] \<and> ident1c (cur str) then
        let rest = dropWhile identc (tl str); len = length str - length rest; name = take len str in
        map_option (\<lambda>(n, val). (val, rest)) (find (\<lambda>(n, val). take len n = name) (tab (namekey name)))
      else None)"

section \<open>Tokens\<close>

text \<open>\<open>TJunk\<close> is a token whose type has not been set.\<close>

datatype zastoken =
    TJunk
  | TValue u64 u8
  | TLabel string
  | TInst string u8 u8
  | TReg u64
  | TSym string
  | TChar u8
  | TImmed u64
  | TIndir
  | TAdr string
  | TIndex u64 u64
  | TData u8
  | TGlobl
  | TSpace
  | TOrg
  | TAlign
  | TAsciz
  | TString string

definition ZASLINELEN :: nat where "ZASLINELEN = 4096"

definition gettoken_number :: "zaslexmach \<Rightarrow> string \<Rightarrow> zaserr + zastoken list \<times> string" where
  "gettoken_number m str =
     (case zasgetindex m str of Inl e \<Rightarrow> Inl e
      | Inr (val, ndx, str) \<Rightarrow>
          if sint val < 0xff then Inr ([TIndex (ZASREGINDEX m OR val) ndx], str)
          else case zasgetvalue str of Inl e \<Rightarrow> Inl e
            | Inr (Some (val, str)) \<Rightarrow> Inr ([TValue val 0], str)
            | Inr None \<Rightarrow> Inl InvalidToken)"

definition gettoken_name :: "zaslexmach \<Rightarrow> string \<Rightarrow> zaserr + zastoken list \<times> string" where
  "gettoken_name m str =
     (case zasgetlabel str of Some (name, str) \<Rightarrow> Inr ([TLabel name], str)
      | None \<Rightarrow>
          (case zasgetinst m str of Some (p, str) \<Rightarrow> Inr ([TInst (op_name p) (op_code p) (op_narg p)], str)
           | None \<Rightarrow> let (name, str) = zasgetsym str in Inr ([TSym name], str)))"

definition gettoken_dollar :: "valtab \<Rightarrow> string \<Rightarrow> zaserr + zastoken list \<times> string" where
  "gettoken_dollar tab str =
     (if str \<noteq> [] \<and> (ident1c (cur str) \<or> cur str = CHR ''-'') then
        case zasfindval str tab of Some (val, str) \<Rightarrow> Inr ([TImmed val], str)
        | None \<Rightarrow>
            (case zasgetvalue str of Inl e \<Rightarrow> Inl e
             | Inr (Some (val, str)) \<Rightarrow> Inr ([TImmed val], str)
             | Inr None \<Rightarrow> let (name, str) = zasgetsym str in Inr ([TAdr name], str))
      else if digitc (cur str) then
        case zasgetvalue str of Inl e \<Rightarrow> Inl e
        | Inr (Some (val, str)) \<Rightarrow> Inr ([TImmed val], str)
        | Inr None \<Rightarrow> Inl InvalidImmediate
      else Inr ([TJunk], str))"

definition gettoken_dot :: "string \<Rightarrow> zastoken \<times> string" where
  "gettoken_dot str =
     (if take 4 str = ''quad'' then (TData 8, drop 4 str)
      else if take 4 str = ''long'' then (TData 4, drop 4 str)
      else if take 4 str = ''byte'' then (TData 1, drop 4 str)
      else if take 5 str = ''short'' then (TData 2, drop 5 str)
      else if take 5 str = ''globl'' then (TGlobl, drop 5 str)
      else if take 5 str = ''space'' then (TSpace, drop 5 str)
      else if take 3 str = ''org'' then (TOrg, drop 3 str)
      else if take 5 str = ''align'' then (TAlign, drop 5 str)
      else if take 5 str = ''asciz'' then (TAsciz, drop 5 str)
      else (TJunk, str))"

definition gettoken_indir :: "zaslexmach \<Rightarrow> string \<Rightarrow> zaserr + zastoken list \<times> string" where
  "gettoken_indir m str =
     (if cur str = CHR ''%'' then
        let (val, str) = asmgetreg m (tl str) in Inr ([TIndir, TReg (ZASREGINDIR m OR val)], str)
      else if ident1c (cur str) then let (name, str) = zasgetsym str in Inr ([TIndir, TSym name], str)
      else Inl InvalidToken)"

text \<open>
  The tokens that are added to the queue, and the rest of the line.  The loop that reads a string
  first copies the line up to its end and then looks for the closing quote behind it.
\<close>

definition zasgettoken :: "zaslexmach \<Rightarrow> valtab \<Rightarrow> string \<Rightarrow> zaserr + zastoken list \<times> string" where
  "zasgettoken m tab str =
     (let str = dropWhile spacec str;
          str = (if cur str = CHR '','' then tl str else str);
          str = dropWhile spacec str
      in if digitc (cur str) \<or> cur str = CHR ''-'' then gettoken_number m str
         else if cur str = CHR 0x22 then Inl (if length (tl str) \<ge> ZASLINELEN then OverlongLine else Overrun)
         else if cur str = CHR ''%'' then let (val, str) = asmgetreg m (tl str) in Inr ([TReg val], str)
         else if ident1c (cur str) then gettoken_name m str
         else if cur str = CHR ''$'' then gettoken_dollar tab (tl str)
         else if cur str = CHR 0x27 then
           (case zasgetchar str of Inl e \<Rightarrow> Inl e | Inr (val, str) \<Rightarrow> Inr ([TChar val], str))
         else if cur str = CHR ''.'' then let (token, str) = gettoken_dot (tl str) in Inr ([token], str)
         else if cur str = CHR ''*'' \<or> cur str = CHR ''('' then gettoken_indir m (tl str)
         else Inr ([TJunk], str))"

section \<open>Classes of characters\<close>

lemma of_char_256 [simp]: "(of_char c :: nat) < 256"
  by (metis nat_of_char_less_256)

lemma char_classes:
  fixes c :: char
  defines "n \<equiv> of_char c :: nat"
  shows "alphac c \<longleftrightarrow> 65 \<le> n \<and> n \<le> 90 \<or> 97 \<le> n \<and> n \<le> 122" "lowerc c \<longleftrightarrow> 97 \<le> n \<and> n \<le> 122"
    "alnumc c \<longleftrightarrow> 65 \<le> n \<and> n \<le> 90 \<or> 97 \<le> n \<and> n \<le> 122 \<or> 48 \<le> n \<and> n \<le> 57"
    "spacec c \<longleftrightarrow> n = 32 \<or> 9 \<le> n \<and> n \<le> 13" "digitc c \<longleftrightarrow> 48 \<le> n \<and> n \<le> 57"
  by (simp_all only: alphac_def lowerc_def alnumc_def spacec_def digitc_def ct_isdigit_def n_def
      ctype_zero [OF of_char_256] not_not)

lemma xdigitc_code: "xdigitc c \<longleftrightarrow> digitc c \<or> 97 \<le> (of_char c :: nat) \<and> (of_char c :: nat) \<le> 102 \<or> 65 \<le> (of_char c :: nat) \<and> (of_char c :: nat) \<le> 70"
  by (auto simp: xdigitc_def tolowerc_def)

lemma cur_simps [simp]: "cur [] = CHR 0x00" "cur (c # str) = c"
  by (simp_all add: cur_def)

lemma scan_append:
  "list_all p ds \<Longrightarrow> rest = [] \<or> \<not> p (hd rest) \<Longrightarrow> scandig p f val (ds @ rest) = (foldl f val ds, rest)"
proof (induction ds arbitrary: val)
  case Nil
  then show ?case by (cases rest) auto
qed simp

section \<open>Numbers written in a base\<close>

definition dig :: "nat \<Rightarrow> char" where
  "dig d = char_of (if d < 10 then 48 + d else 87 + d)"

fun numstr :: "nat \<Rightarrow> nat \<Rightarrow> string" where
  "numstr b n = (if b < 2 \<or> n < b then [dig n] else numstr b (n div b) @ [dig (n mod b)])"

declare numstr.simps [simp del]

lemma of_char_dig: "d < 16 \<Longrightarrow> of_char (dig d) = (if d < 10 then 48 + d else 87 + d)"
  by (simp add: dig_def)

lemma dig_val:
  assumes "d < 16"
  shows "d < 10 \<Longrightarrow> digitc (dig d) \<and> digitval (dig d) = of_nat d" "xdigitc (dig d)" "hexval (dig d) = of_nat d"
    "alnumc (dig d)" "d < 2 \<Longrightarrow> bindigit (dig d)"
proof -
  note o = of_char_dig [OF assms]
  show "digitc (dig d) \<and> digitval (dig d) = of_nat d" if "d < 10" using that by (simp add: char_classes digitval_def o)
  show "xdigitc (dig d)" "alnumc (dig d)" using assms by (auto simp: xdigitc_code char_classes o)
  show "hexval (dig d) = of_nat d" using assms by (auto simp: hexval_def char_classes digitval_def o)
  show "bindigit (dig d)" if "d < 2"
  proof -
    have "of_char (dig d) = (48 :: nat) \<or> of_char (dig d) = (49 :: nat)" using that by (auto simp: o)
    then show ?thesis by (auto simp: bindigit_def simp flip: of_char_eq_iff [where 'a = nat])
  qed
qed

lemma numstr_digits:
  assumes "2 \<le> b"
  shows "\<forall>c \<in> set (numstr b n). \<exists>d<b. c = dig d"
  using assms
proof (induction b n rule: numstr.induct)
  case (1 b n)
  moreover have "\<exists>d<b. dig (n mod b) = dig d" using 1(2) by (intro exI [of _ "n mod b"]) simp
  ultimately show ?case by (subst numstr.simps) auto
qed

lemma numstr_foldl:
  assumes "2 \<le> b" "\<And>v d. d < b \<Longrightarrow> f v (dig d) = v * of_nat b + of_nat d"
  shows "foldl f 0 (numstr b n) = (of_nat n :: u64)"
  using assms
proof (induction b n rule: numstr.induct)
  case (1 b n)
  show ?case
  proof (cases "n < b")
    case True
    then show ?thesis using 1 by (subst numstr.simps) simp
  next
    case False
    then have "foldl f 0 (numstr b n) = of_nat (n div b) * of_nat b + of_nat (n mod b)"
      using 1 by (subst numstr.simps) simp
    also have "\<dots> = of_nat n" by (metis div_mult_mod_eq of_nat_add of_nat_mult)
    finally show ?thesis .
  qed
qed

lemma numstr_head:
  assumes "2 \<le> b"
  shows "\<exists>d ds. numstr b n = dig d # ds \<and> d < b \<and> (0 < n \<longrightarrow> 0 < d)"
  using assms
proof (induction b n rule: numstr.induct)
  case (1 b n)
  show ?case
  proof (cases "n < b")
    case True
    then show ?thesis by (subst numstr.simps) auto
  next
    case False
    then have "0 < n div b" "\<not> (b < 2 \<or> n < b)" using 1(2) by (simp_all add: div_greater_zero_iff)
    then obtain d ds where "numstr b (n div b) = dig d # ds" "d < b" "0 < d" using 1 by blast
    moreover have "numstr b n = numstr b (n div b) @ [dig (n mod b)]" using False 1(2) by (subst numstr.simps) simp
    ultimately show ?thesis by (intro exI [of _ d] exI [of _ "ds @ [dig (n mod b)]"]) simp
  qed
qed

lemma scanoct_append:
  assumes "\<forall>c \<in> set ds. \<exists>d<8. c = dig d" "rest = [] \<or> \<not> digitc (hd rest)"
  shows "scanoct val (ds @ rest) = Inr (foldl (\<lambda>v c. push_bit 3 v + digitval c) val ds, rest)"
  using assms
proof (induction ds arbitrary: val)
  case Nil
  then show ?case by (cases rest) auto
next
  case (Cons c ds)
  then obtain d where "c = dig d" "d < 8" by auto
  then show ?case using Cons by (auto simp: of_char_dig dig_val)
qed

definition ends :: "string \<Rightarrow> bool" where
  "ends rest \<longleftrightarrow> rest = [] \<or> \<not> alnumc (hd rest)"

lemma alnumc_digits: "xdigitc c \<Longrightarrow> alnumc c" "bindigit c \<Longrightarrow> alnumc c" "digitc c \<Longrightarrow> alnumc c"
  by (auto simp: xdigitc_code bindigit_def char_classes)

lemma ends_not:
  assumes "ends rest"
  shows "rest = [] \<or> \<not> xdigitc (hd rest)" "rest = [] \<or> \<not> bindigit (hd rest)" "rest = [] \<or> \<not> digitc (hd rest)"
    "tolowerc (cur rest) \<noteq> CHR ''x''" "tolowerc (cur rest) \<noteq> CHR ''b''"
proof -
  show "rest = [] \<or> \<not> xdigitc (hd rest)" "rest = [] \<or> \<not> bindigit (hd rest)" "rest = [] \<or> \<not> digitc (hd rest)"
    using assms alnumc_digits by (auto simp: ends_def)
  have "\<not> alnumc (cur rest)" using assms by (cases rest) (auto simp: ends_def char_classes)
  then show "tolowerc (cur rest) \<noteq> CHR ''x''" "tolowerc (cur rest) \<noteq> CHR ''b''"
    by (auto simp: tolowerc_def char_classes split: if_splits simp flip: of_char_eq_iff [where 'a = nat])
qed

lemma dig_not:
  assumes "d < 10"
  shows "tolowerc (dig d) \<noteq> CHR ''x''" "tolowerc (dig d) \<noteq> CHR ''b''" "dig d \<noteq> CHR ''-''" "0 < d \<Longrightarrow> dig d \<noteq> CHR ''0''"
  using assms by (auto simp: tolowerc_def of_char_dig simp flip: of_char_eq_iff [where 'a = nat])

lemma numstr_all: "2 \<le> b \<Longrightarrow> (\<And>d. d < b \<Longrightarrow> p (dig d)) \<Longrightarrow> list_all p (numstr b n)"
  using numstr_digits [of b n] by (auto simp: list_all_iff)

lemma scan_written:
  fixes w :: u64
  assumes "2 \<le> b" "\<And>d. d < b \<Longrightarrow> p (dig d)" "\<And>v d. d < b \<Longrightarrow> f v (dig d) = v * of_nat b + of_nat d"
    and "rest = [] \<or> \<not> p (hd rest)"
  shows "scandig p f 0 (numstr b (unat w) @ rest) = (w, rest)"
  using scan_append [of p "numstr b (unat w)" rest f 0] numstr_all [of b p "unat w"] numstr_foldl [of b f "unat w"] assms
  by simp

lemma scannum_written:
  fixes w :: u64
  assumes "ends rest"
  shows "scannum (''0x'' @ numstr 16 (unat w) @ rest) = Inr (Some (w, rest))"
    "scannum (''0b'' @ numstr 2 (unat w) @ rest) = Inr (Some (w, rest))"
    "scannum (''0'' @ numstr 8 (unat w) @ rest) = Inr (Some (w, rest))"
    "scannum (numstr 10 (unat w) @ rest) = Inr (Some (w, rest))"
proof -
  note e = ends_not [OF assms]
  have "scandig xdigitc (\<lambda>v c. push_bit 4 v + hexval c) 0 (numstr 16 (unat w) @ rest) = (w, rest)"
    using e(1) by (intro scan_written) (simp_all add: dig_val push_bit_eq_mult)
  then show "scannum (''0x'' @ numstr 16 (unat w) @ rest) = Inr (Some (w, rest))"
    by (simp add: scannum_def tolowerc_def)
  have "scandig bindigit (\<lambda>v c. push_bit 1 v + digitval c) 0 (numstr 2 (unat w) @ rest) = (w, rest)"
    using e(2) by (intro scan_written) (simp_all add: dig_val push_bit_eq_mult)
  then show "scannum (''0b'' @ numstr 2 (unat w) @ rest) = Inr (Some (w, rest))"
    by (simp add: scannum_def tolowerc_def)
  obtain d ds where h: "numstr 8 (unat w) = dig d # ds" "d < 8" using numstr_head [of 8 "unat w"] by auto
  have "scanoct 0 (numstr 8 (unat w) @ rest) = Inr (w, rest)"
    using scanoct_append [OF numstr_digits [of 8 "unat w"] e(3), of 0] numstr_foldl [of 8 "\<lambda>v c. push_bit 3 v + digitval c"]
    by (simp add: dig_val push_bit_eq_mult)
  then show "scannum (''0'' @ numstr 8 (unat w) @ rest) = Inr (Some (w, rest))"
    using h dig_not [of d] by (simp add: scannum_def)
  obtain d ds where h: "numstr 10 (unat w) = dig d # ds" "d < 10" "0 < unat w \<longrightarrow> 0 < d"
    using numstr_head [of 10 "unat w"] by auto
  have sc: "scandig digitc (\<lambda>v c. v * 10 + digitval c) 0 (numstr 10 (unat w) @ rest) = (w, rest)"
    using e(3) by (intro scan_written) (simp_all add: dig_val)
  show "scannum (numstr 10 (unat w) @ rest) = Inr (Some (w, rest))"
  proof (cases "unat w = 0")
    case True
    then have "w = 0" by (simp add: unat_eq_0)
    moreover have "numstr 10 (unat w) = ''0''" using True by (subst numstr.simps) (simp add: dig_def char_of_def bit_0)
    ultimately show ?thesis using e by (cases rest) (simp_all add: scannum_def)
  next
    case False
    then show ?thesis using sc h dig_not [of d] dig_val(1) [of d] by (simp add: scannum_def)
  qed
qed

lemma zasgetvalue_sign:
  assumes "scannum str = Inr (Some (v, rest))" "cur str \<noteq> CHR ''-''"
  shows "zasgetvalue str = Inr (Some (v, rest))" "zasgetvalue (CHR ''-'' # str) = Inr (Some (- v, rest))"
  using assms by (simp_all add: zasgetvalue_def)

text \<open>
  A number written in hexadecimal, binary, octal or decimal, with or without a sign, and followed
  by a character that is neither a letter nor a digit is read back as the same word, with the rest
  of the line as it was.
\<close>

theorem zasgetvalue_roundtrip:
  fixes w :: u64
  assumes "ends rest" "str \<in> {''0x'' @ numstr 16 (unat w), ''0b'' @ numstr 2 (unat w), ''0'' @ numstr 8 (unat w), numstr 10 (unat w)}"
  shows "zasgetvalue (str @ rest) = Inr (Some (w, rest)) \<and> zasgetvalue (CHR ''-'' # str @ rest) = Inr (Some (- w, rest))"
proof -
  have "scannum (str @ rest) = Inr (Some (w, rest))"
    using assms(2) scannum_written [OF assms(1), of w] by auto
  moreover obtain d ds where "numstr 10 (unat w) = dig d # ds" "d < 10" using numstr_head [of 10 "unat w"] by auto
  then have "cur (str @ rest) \<noteq> CHR ''-''" using assms(2) dig_not(3) [of d] by auto
  ultimately show ?thesis using zasgetvalue_sign by simp
qed

theorem zasgetvalue_roundtrip_witness: "zasgetvalue ''0x2a,'' = Inr (Some (42, '',''))"
proof -
  have n: "numstr 16 42 = ''2a''" by (simp add: numstr.simps dig_def char_of_def bit_0)
  have "ends '',''" by (simp add: ends_def char_classes)
  then show ?thesis using zasgetvalue_roundtrip [of "'',''" "''0x'' @ numstr 16 (unat (42 :: u64))" 42] n by simp
qed

section \<open>Tokens\<close>

definition isname :: "string \<Rightarrow> bool" where
  "isname name \<longleftrightarrow> name \<noteq> [] \<and> ident1c (hd name) \<and> list_all identc name"

lemma ident1c_identc: "ident1c c \<Longrightarrow> identc c"
  by (auto simp: ident1c_def identc_def char_classes)

lemma identc_not: "\<not> identc (CHR '':'')" "\<not> identc (CHR '','')" "\<not> spacec (CHR '','')" "\<not> identc (CHR 0x00)"
  by (simp_all add: identc_def char_classes)

lemma name_split:
  assumes "isname name" "\<not> identc (cur rest)"
  shows "dropWhile identc (tl (name @ rest)) = rest" "cur (name @ rest) = hd name" "dropWhile identc (name @ rest) = rest"
proof -
  obtain c cs where n: "name = c # cs" "list_all identc cs" "identc c" using assms(1) by (cases name) (auto simp: isname_def)
  have "dropWhile identc rest = rest" using assms(2) by (cases rest) auto
  then show "dropWhile identc (tl (name @ rest)) = rest" "cur (name @ rest) = hd name" "dropWhile identc (name @ rest) = rest"
    using n by (auto simp: list_all_iff dropWhile_append3)
qed

lemma start_of_name:
  assumes "ident1c c"
  shows "\<not> spacec c" "c \<noteq> CHR '',''" "\<not> digitc c" "c \<noteq> CHR ''-''" "c \<noteq> CHR 0x22" "c \<noteq> CHR ''%''"
  using assms by (auto simp: ident1c_def char_classes)

lemma gettoken_start:
  assumes "\<not> spacec c" "c \<noteq> CHR '',''"
  shows "dropWhile spacec (if cur (dropWhile spacec (c # s)) = CHR '','' then tl (dropWhile spacec (c # s)) else dropWhile spacec (c # s)) = c # s"
  using assms by simp

text \<open>The text of a token as it stands in a program.\<close>

fun written :: "zastoken \<Rightarrow> string option" where
  "written (TValue v sz) = Some (''0x'' @ numstr 16 (unat v))"
| "written (TImmed v) = Some (''$0x'' @ numstr 16 (unat v))"
| "written (TLabel name) = (if isname name then Some (name @ '':'') else None)"
| "written (TSym name) = (if isname name then Some name else None)"
| "written (TData sz) = (if sz = 8 then Some ''.quad'' else if sz = 4 then Some ''.long''
     else if sz = 2 then Some ''.short'' else if sz = 1 then Some ''.byte'' else None)"
| "written TGlobl = Some ''.globl''"
| "written TSpace = Some ''.space''"
| "written TOrg = Some ''.org''"
| "written TAlign = Some ''.align''"
| "written TAsciz = Some ''.asciz''"
| "written t = None"

definition norm :: "zastoken \<Rightarrow> zastoken" where
  "norm t = (case t of TValue v sz \<Rightarrow> TValue v 0 | _ \<Rightarrow> t)"

lemma gettoken_hex:
  assumes "ends rest" "cur rest \<noteq> CHR ''(''"
  shows "zasgettoken m tab (''0x'' @ numstr 16 (unat w) @ rest) = Inr ([TValue w 0], rest)"
proof -
  note n = scannum_written(1) [OF assms(1), of w]
  have v: "zasgetvalue (''0x'' @ numstr 16 (unat w) @ rest) = Inr (Some (w, rest))"
    using zasgetvalue_sign(1) [OF n] by simp
  have "zasgetindex m (''0x'' @ numstr 16 (unat w) @ rest) = Inr (0xff, w, ''0x'' @ numstr 16 (unat w) @ rest)"
    using n assms(2) by (simp add: zasgetindex_def)
  then show ?thesis using v by (simp add: zasgettoken_def gettoken_number_def char_classes)
qed

lemma gettoken_immed:
  assumes "ends rest"
  shows "zasgettoken m tab (''$0x'' @ numstr 16 (unat w) @ rest) = Inr ([TImmed w], rest)"
proof -
  have "zasgetvalue (''0x'' @ numstr 16 (unat w) @ rest) = Inr (Some (w, rest))"
    using zasgetvalue_sign(1) [OF scannum_written(1) [OF assms, of w]] by simp
  then show ?thesis by (simp add: zasgettoken_def gettoken_dollar_def char_classes ident1c_def)
qed

lemma gettoken_label:
  assumes "isname name"
  shows "zasgettoken m tab (name @ CHR '':'' # rest) = Inr ([TLabel name], rest)"
proof -
  obtain c cs where n: "name = c # cs" "ident1c c" using assms by (cases name) (auto simp: isname_def)
  have "zasgetlabel (name @ CHR '':'' # rest) = Some (name, rest)"
    using name_split [OF assms, of "CHR '':'' # rest"] n by (simp add: zasgetlabel_def identc_not)
  then show ?thesis
    using n start_of_name [OF n(2)] by (simp add: zasgettoken_def gettoken_name_def)
qed

lemma gettoken_sym:
  assumes "isname name" "asmfindop m (name @ CHR '','' # rest) = None"
  shows "zasgettoken m tab (name @ CHR '','' # rest) = Inr ([TSym name], rest)"
proof -
  obtain c cs where n: "name = c # cs" "ident1c c" using assms by (cases name) (auto simp: isname_def)
  note ns = name_split [OF assms(1), of "CHR '','' # rest"]
  have "zasgetlabel (name @ CHR '','' # rest) = None"
    using ns n by (simp add: zasgetlabel_def identc_not)
  moreover have "zasgetsym (name @ CHR '','' # rest) = (name, rest)"
    using ns n by (simp add: zasgetsym_def identc_not)
  ultimately show ?thesis
    using n assms(2) start_of_name [OF n(2)] by (simp add: zasgettoken_def gettoken_name_def zasgetinst_def)
qed

lemma gettoken_skip:
  shows "zasgettoken m tab (CHR '' '' # str) = zasgettoken m tab str"
    and "\<not> spacec c \<Longrightarrow> c \<noteq> CHR '','' \<Longrightarrow> zasgettoken m tab (CHR '','' # c # str) = zasgettoken m tab (c # str)"
proof -
  have "spacec (CHR '' '')" "\<not> spacec (CHR '','')" by (simp_all add: char_classes)
  then show "zasgettoken m tab (CHR '' '' # str) = zasgettoken m tab str"
    and "\<not> spacec c \<Longrightarrow> c \<noteq> CHR '','' \<Longrightarrow> zasgettoken m tab (CHR '','' # c # str) = zasgettoken m tab (c # str)"
    by (simp_all add: zasgettoken_def)
qed

lemma gettoken_dot_written:
  "gettoken_dot (''quad'' @ rest) = (TData 8, rest)" "gettoken_dot (''long'' @ rest) = (TData 4, rest)"
  "gettoken_dot (''short'' @ rest) = (TData 2, rest)" "gettoken_dot (''byte'' @ rest) = (TData 1, rest)"
  "gettoken_dot (''globl'' @ rest) = (TGlobl, rest)" "gettoken_dot (''space'' @ rest) = (TSpace, rest)"
  "gettoken_dot (''org'' @ rest) = (TOrg, rest)" "gettoken_dot (''align'' @ rest) = (TAlign, rest)"
  "gettoken_dot (''asciz'' @ rest) = (TAsciz, rest)"
  by (simp_all add: gettoken_dot_def)

lemma gettoken_directive:
  assumes "written t = Some str" "t = TData sz \<or> t \<in> {TGlobl, TSpace, TOrg, TAlign, TAsciz}"
  shows "zasgettoken m tab (str @ rest) = Inr ([t], rest)"
proof -
  have *: "zasgettoken m tab (CHR ''.'' # s) = (case gettoken_dot s of (t, r) \<Rightarrow> Inr ([t], r))" for s
    by (simp add: zasgettoken_def char_classes ident1c_def)
  show ?thesis
    using assms gettoken_dot_written [of rest] by (auto simp: * split: if_splits)
qed

text \<open>
  C17: a token written the way programs write it, in front of a comma, is scanned as that token: a
  number or an immediate in hexadecimal, a label, a directive, or a symbol that no instruction is
  named like.
\<close>

theorem zasgettoken_roundtrip:
  assumes "written t = Some str" "asmfindop m (str @ CHR '','' # rest) = None"
  shows "zasgettoken m tab (str @ CHR '','' # rest) =
    Inr ([norm t], case t of TSym _ \<Rightarrow> rest | _ \<Rightarrow> CHR '','' # rest)"
proof -
  have e: "ends (CHR '','' # rest)" by (simp add: ends_def char_classes)
  show ?thesis
  proof (cases t)
    case (TLabel name)
    then show ?thesis using assms gettoken_label [of name m tab] by (auto simp: norm_def split: if_splits)
  next
    case (TSym name)
    then show ?thesis using assms gettoken_sym [of name m rest tab] by (simp add: norm_def split: if_splits)
  qed (use assms gettoken_directive [OF assms(1)] gettoken_hex [OF e] gettoken_immed [OF e] in \<open>auto simp: norm_def\<close>)
qed

theorem zasgettoken_roundtrip_witness:
  "zasgettoken \<lparr>asmfindop = \<lambda>_. None, asmgetreg = \<lambda>s. (0, s), ZASREGINDEX = 16, ZASREGINDIR = 32\<rparr> (\<lambda>_. [])
     ''top:, 1'' = Inr ([TLabel ''top''], '', 1'')"
  using zasgettoken_roundtrip [of "TLabel ''top''" "''top:''"
      "\<lparr>asmfindop = \<lambda>_. None, asmgetreg = \<lambda>s. (0, s), ZASREGINDEX = 16, ZASREGINDIR = 32\<rparr>" "'' 1''" "\<lambda>_. []"]
  by (simp add: isname_def ident1c_def identc_def char_classes norm_def)

section \<open>Types of tokens\<close>

text \<open>
  The tokens that the passes are written for: labels that are names, directives for data of one, two,
  four or eight bytes, numbers without a size, and no strings.  A token whose type was never set is none
  of them, but the scanner makes such tokens, too.
\<close>

definition tok_typed :: "zastoken \<Rightarrow> bool" where
  "tok_typed t = (case t of TLabel name \<Rightarrow> isname name | TData sz \<Rightarrow> sz \<in> {1, 2, 4, 8} | TValue _ sz \<Rightarrow> sz = 0
     | TString _ \<Rightarrow> False | TJunk \<Rightarrow> False | _ \<Rightarrow> True)"

definition tok_queued :: "zastoken \<Rightarrow> bool" where
  "tok_queued t \<longleftrightarrow> tok_typed t \<or> t = TJunk"

lemma getlabel_isname:
  assumes "zasgetlabel str = Some (name, rest)" "ident1c (cur str)"
  shows "isname name"
proof -
  obtain c cs where str: "str = c # cs" using assms(2) by (cases str) (auto simp: ident1c_def char_classes)
  have "length (c # cs) - length (dropWhile identc cs) = Suc (length (takeWhile identc cs))"
    by (metis Suc_diff_le add_diff_cancel_right' length_Cons length_append length_dropWhile_le takeWhile_dropWhile_id)
  moreover have "take (Suc (length (takeWhile identc cs))) (c # cs) = c # takeWhile identc cs"
    by (metis append_eq_conv_conj take_Suc_Cons takeWhile_dropWhile_id)
  ultimately have "name = c # takeWhile identc cs"
    using assms str by (auto simp: zasgetlabel_def Let_def split: if_splits)
  then show ?thesis
    using assms(2) str ident1c_identc by (auto simp: isname_def list_all_iff dest: set_takeWhileD)
qed

lemma gettoken_typed:
  assumes "zasgettoken m tab str = Inr (toks, rest)"
  shows "list_all tok_queued toks"
proof -
  have num: "list_all tok_queued toks" if "gettoken_number m s = Inr (toks, rest)" for s
    using that by (auto simp: gettoken_number_def tok_queued_def tok_typed_def split: sum.splits prod.splits option.splits if_splits)
  have name: "list_all tok_queued toks" if "gettoken_name m s = Inr (toks, rest)" "ident1c (cur s)" for s
    using that getlabel_isname [of s]
    by (auto simp: gettoken_name_def tok_queued_def tok_typed_def split: prod.splits option.splits)
  have dollar: "list_all tok_queued toks" if "gettoken_dollar tab s = Inr (toks, rest)" for s
    using that by (auto simp: gettoken_dollar_def tok_queued_def tok_typed_def split: sum.splits prod.splits option.splits if_splits)
  have dot: "tok_queued (fst (gettoken_dot s))" for s
    by (simp add: gettoken_dot_def tok_queued_def tok_typed_def)
  have indir: "list_all tok_queued toks" if "gettoken_indir m s = Inr (toks, rest)" for s
    using that by (auto simp: gettoken_indir_def tok_queued_def tok_typed_def split: prod.splits if_splits)
  have plain: "tok_queued TJunk" "tok_queued (TReg r)" "tok_queued (TChar ch)" for r ch by (simp_all add: tok_queued_def tok_typed_def)
  have dot': "tok_queued t" if "gettoken_dot s = (t, r)" for s t r using dot [of s] that by simp
  show ?thesis
    using assms unfolding zasgettoken_def Let_def
    by (auto simp: plain split: if_splits prod.splits sum.splits dest: num name dollar indir dot')
qed

section \<open>Where the scanner goes wrong\<close>

text \<open>A character that starts no token is left where it is.\<close>

lemma gettoken_stuck: "zasgettoken m tab (CHR ''#'' # str) = Inr ([TJunk], CHR ''#'' # str)"
  by (simp add: zasgettoken_def char_classes ident1c_def)

text \<open>A symbol that is not followed by a comma takes the rest of the line as its name.\<close>

lemma zasgetsym_takes_line: "zasgetsym ''end ; jump'' = (''end ; jump'', ''; jump'')"
  by (simp add: zasgetsym_def ident1c_def identc_def char_classes Let_def)

text \<open>A string is read past the end of the line.\<close>

lemma gettoken_string: "length str < ZASLINELEN \<Longrightarrow> zasgettoken m tab (CHR 0x22 # str) = Inl Overrun"
  by (simp add: zasgettoken_def char_classes)

text \<open>A digit in quotes is its value and not its code; a punctuation mark is zero.\<close>

lemma zasgetchar_wrong:
  "zasgetchar [CHR 0x27, CHR ''5'', CHR 0x27] = Inr (5, [])"
  "zasgetchar [CHR 0x27, CHR ''+'', CHR 0x27] = Inr (0, [CHR ''+'', CHR 0x27])"
  by (simp_all add: zasgetchar_def chr_end_def char_classes digitval_def)

text \<open>A definition is found under every beginning of its name that has the same sum.\<close>

lemma zasfindval_add:
  assumes "isname name" "\<not> identc (cur rest)"
  shows "zasfindval (name @ rest) (zasaddval name val tab) = Some (val, rest)"
proof -
  obtain c cs where n: "name = c # cs" "ident1c c" using assms by (cases name) (auto simp: isname_def)
  then show ?thesis using name_split [OF assms] by (simp add: zasfindval_def zasaddval_def)
qed

end
