(* ===== verification/Zas.thy ===== *)
theory Zas
  imports Zaslex Hash Trixbits
begin

text \<open>
  The passes of the Zero assembler (usr/tools/zas/zas.c): the tables of symbols, the handlers of
  the tokens, the translation of the queue of tokens, the resolution of symbols and the reader of
  source files.

  The memory of the process is a function from 64-bit pointers to bytes.  The virtual machine that
  the assembler writes to is not part of the sources: the place of its memory, the handler of
  instructions and the size of an instruction are fields of an argument.  The queue of tokens is a
  list, files are texts without null characters, and a table of hash chains is a function from the
  index to the chain.
\<close>

section \<open>State\<close>

type_synonym symtab = "nat \<Rightarrow> (string \<times> u64) list"

record zas =
  zastokenqueue :: "zastoken list"
  zasvalhash :: valtab
  zmem :: "u64 \<Rightarrow> u8"
  zassymhash :: symtab
  zasglobhash :: symtab
  symqueue :: "(string \<times> u64) list"
  startadr :: u64
  startset :: bool

record zasmach =
  zvmadrtoptr :: "u64 \<Rightarrow> u64"
  asmprocinst :: "zastoken list \<Rightarrow> u64 \<Rightarrow> zas \<Rightarrow> zaserr + zastoken list \<times> u64 \<times> zas"
  zvmopsize :: u64

section \<open>Symbols\<close>

definition zasqueuesym :: "string \<Rightarrow> u64 \<Rightarrow> zas \<Rightarrow> zas" where
  "zasqueuesym name adr st = st\<lparr>symqueue := (name, adr) # symqueue st\<rparr>"

definition NHASHBIT :: nat where "NHASHBIT = 16"

text \<open>The hash of the eight bytes of the sum of a name.\<close>

definition symkey :: "string \<Rightarrow> nat" where
  "symkey name =
     (case hashq128 0 (\<lambda>i. ucast (drop_bit (8 * i) (namesum name))) 8 NHASHBIT of Some h \<Rightarrow> unat h | None \<Rightarrow> 0)"

definition zasaddsym :: "string \<Rightarrow> u64 \<Rightarrow> zas \<Rightarrow> zas" where
  "zasaddsym name adr st =
     st\<lparr>zassymhash := (zassymhash st)(symkey name := (name, adr) # zassymhash st (symkey name))\<rparr>"

definition zasfindsym :: "string \<Rightarrow> zas \<Rightarrow> u64 option" where
  "zasfindsym name st = map_option snd (find (\<lambda>(n, a). n = name) (zassymhash st (symkey name)))"

text \<open>Storing the address in the record of a symbol that has been found.\<close>

fun setfirst :: "string \<Rightarrow> u64 \<Rightarrow> (string \<times> u64) list \<Rightarrow> (string \<times> u64) list" where
  "setfirst name adr [] = []"
| "setfirst name adr ((n, a) # l) = (if n = name then (n, adr) # l else (n, a) # setfirst name adr l)"

definition zassetsym :: "string \<Rightarrow> u64 \<Rightarrow> zas \<Rightarrow> zas" where
  "zassetsym name adr st =
     st\<lparr>zassymhash := (zassymhash st)(symkey name := setfirst name adr (zassymhash st (symkey name)))\<rparr>"

definition zasremovesyms :: "zas \<Rightarrow> zas" where
  "zasremovesyms st = st\<lparr>zassymhash := (\<lambda>l. if l < ZASNHASH then [] else zassymhash st l)\<rparr>"

definition zasaddglob :: "string \<Rightarrow> u64 \<Rightarrow> zas \<Rightarrow> zas" where
  "zasaddglob name adr st =
     st\<lparr>zasglobhash := (zasglobhash st)(namekey name := (name, adr) # zasglobhash st (namekey name))\<rparr>"

definition zasfindglob :: "string \<Rightarrow> zas \<Rightarrow> u64 option" where
  "zasfindglob name st = map_option snd (find (\<lambda>(n, a). n = name) (zasglobhash st (namekey name)))"

section \<open>Handlers\<close>

type_synonym zasret = "zaserr + zastoken list \<times> u64 \<times> zas"

text \<open>A store of some of the bytes of a word, lowest first.\<close>

fun putbytes :: "(u64 \<Rightarrow> u8) \<Rightarrow> u64 \<Rightarrow> u8 list \<Rightarrow> u64 \<Rightarrow> u8" where
  "putbytes mem ptr [] = mem"
| "putbytes mem ptr (b # bs) = putbytes (mem(ptr := b)) (ptr + 1) bs"

definition lebytes :: "nat \<Rightarrow> u64 \<Rightarrow> u8 list" where
  "lebytes n val = map (\<lambda>i. ucast (drop_bit (8 * i) val)) [0..<n]"

definition zasprocvalue :: "zasmach \<Rightarrow> u64 \<Rightarrow> u8 \<Rightarrow> u64 \<Rightarrow> zas \<Rightarrow> u64 \<times> zas" where
  "zasprocvalue m val sz adr st =
     (adr + ucast sz,
      if sz \<in> {1, 2, 4, 8} then st\<lparr>zmem := putbytes (zmem st) (zvmadrtoptr m adr) (lebytes (unat sz) val)\<rparr> else st)"

definition zasproclabel :: "zasmach \<Rightarrow> string \<Rightarrow> u64 \<Rightarrow> zas \<Rightarrow> u64 \<times> zas" where
  "zasproclabel m name adr st =
     (let (adr, st) =
        (if \<not> startset st \<and> take 6 name = ''_start'' then
           let adr = (if adr AND (zvmopsize m - 1) \<noteq> 0 then rounduppow2 adr (zvmopsize m) else adr)
           in (adr, st\<lparr>startadr := adr, startset := True\<rparr>)
         else (adr, st))
      in case zasfindsym name st of Some _ \<Rightarrow> (adr, zassetsym name adr st)
         | None \<Rightarrow> (adr, zasaddsym name adr st))"

definition zasprocchar :: "zasmach \<Rightarrow> u8 \<Rightarrow> u64 \<Rightarrow> zas \<Rightarrow> u64 \<times> zas" where
  "zasprocchar m ch adr st = (adr + 1, st\<lparr>zmem := (zmem st)(zvmadrtoptr m adr := ch)\<rparr>)"

text \<open>The values behind a directive, with the size of the directive.\<close>

fun zasprocdata :: "zasmach \<Rightarrow> u8 \<Rightarrow> zastoken list \<Rightarrow> u64 \<Rightarrow> zas \<Rightarrow> zastoken list \<times> u64 \<times> zas" where
  "zasprocdata m sz (TValue val _ # toks) adr st =
     (let (adr, st) = zasprocvalue m val sz adr st in zasprocdata m sz toks adr st)"
| "zasprocdata m sz toks adr st = (toks, adr, st)"

text \<open>The name of a token, if the first field of its data is a pointer to characters.\<close>

fun tokname :: "zastoken list \<Rightarrow> zaserr + string" where
  "tokname [] = Inl NullPointer"
| "tokname (TLabel name # _) = Inr name"
| "tokname (TInst name _ _ # _) = Inr name"
| "tokname (TSym name # _) = Inr name"
| "tokname (TAdr name # _) = Inr name"
| "tokname (TString name # _) = Inr name"
| "tokname _ = Inl JunkPointer"

text \<open>The label that is made global has the name of the token behind the symbol.\<close>

fun zasprocglobl :: "zasmach \<Rightarrow> zastoken list \<Rightarrow> u64 \<Rightarrow> zas \<Rightarrow> zasret" where
  "zasprocglobl m (TSym name # toks) adr st =
     (let (adr, st) = zasproclabel m name adr st in
      case tokname toks of Inl e \<Rightarrow> Inl e
      | Inr nam \<Rightarrow> zasprocglobl m toks adr (zasaddglob nam adr st))"
| "zasprocglobl m toks adr st = Inr (toks, adr, st)"

text \<open>A loop that stores a byte at a pointer for every address below a limit.\<close>

definition fill :: "u64 \<Rightarrow> u64 \<Rightarrow> u64 \<Rightarrow> u8 \<Rightarrow> zas \<Rightarrow> u64 \<times> zas" where
  "fill ptr adr lim val st =
     (if adr < lim
      then (lim, st\<lparr>zmem := putbytes (zmem st) ptr (replicate (unat (lim - adr)) val)\<rparr>) else (adr, st))"

definition zasprocspace :: "zasmach \<Rightarrow> zastoken list \<Rightarrow> u64 \<Rightarrow> zas \<Rightarrow> zasret" where
  "zasprocspace m toks adr st =
     (case toks of [] \<Rightarrow> Inl NullPointer
      | TValue spcadr sz # TValue val _ # toks \<Rightarrow>
          let (adr, st) = fill (zvmadrtoptr m spcadr) adr spcadr (ucast val) st in Inr (toks, adr, st)
      | TValue spcadr sz # toks \<Rightarrow> Inr (TValue spcadr sz # toks, spcadr, st)
      | _ \<Rightarrow> Inl InvalidSpace)"

definition zasprocorg :: "zasmach \<Rightarrow> zastoken list \<Rightarrow> u64 \<Rightarrow> zas \<Rightarrow> zasret" where
  "zasprocorg m toks adr st =
     (case toks of TValue orgadr sz # _ \<Rightarrow>
          let (adr, st) = fill (zvmadrtoptr m adr) adr orgadr (ucast orgadr) st in Inr (toks, adr, st)
      | _ \<Rightarrow> Inr (toks, adr, st))"

definition zasprocalign :: "zastoken list \<Rightarrow> u64 \<Rightarrow> zas \<Rightarrow> zasret" where
  "zasprocalign toks adr st =
     (case toks of [] \<Rightarrow> Inl NullPointer
      | TValue val sz # _ \<Rightarrow> Inr (toks, rounduppow2 adr val, st)
      | _ \<Rightarrow> Inl InvalidAlign)"

text \<open>The bytes of a string, with its escapes replaced, and whether it ends with a quote.\<close>

fun asciz :: "string \<Rightarrow> zaserr + u8 list \<times> bool" where
  "asciz [] = Inr ([], False)"
| "asciz (c # str) =
     (if c = CHR 0x22 then Inr ([], True)
      else if c = CHR 0x5c then
        (case str of [] \<Rightarrow> Inl InvalidLiteral
         | e # str \<Rightarrow>
             if e = CHR ''n'' then map_sum id (map_prod (Cons 10) id) (asciz str)
             else if e = CHR ''t'' then map_sum id (map_prod (Cons 9) id) (asciz str)
             else if e = CHR ''r'' then map_sum id (map_prod (Cons 13) id) (asciz str)
             else Inl InvalidLiteral)
      else map_sum id (map_prod (Cons (of_char c)) id) (asciz str))"

text \<open>The length \<open>len\<close> is not reset between the strings of a directive.\<close>

fun zasprocasciz :: "zasmach \<Rightarrow> zastoken list \<Rightarrow> nat \<Rightarrow> u64 \<Rightarrow> zas \<Rightarrow> zasret" where
  "zasprocasciz m (TString str # toks) len adr st =
     (case asciz str of Inl e \<Rightarrow> Inl e
      | Inr (bs, quote) \<Rightarrow>
          let st = st\<lparr>zmem := putbytes (zmem st) (zvmadrtoptr m adr) (bs @ (if quote then [0] else []))\<rparr>;
              len = len + length bs + (if quote then 1 else 0)
          in zasprocasciz m toks len (adr + of_nat len) st)"
| "zasprocasciz m toks len adr st = Inr (toks, adr, st)"

section \<open>Translation\<close>

definition zasproc :: "zasmach \<Rightarrow> zastoken \<Rightarrow> zastoken list \<Rightarrow> u64 \<Rightarrow> zas \<Rightarrow> zasret" where
  "zasproc m tok toks adr st =
     (case tok of
        TJunk \<Rightarrow> Inl JunkType
      | TValue val sz \<Rightarrow> Inr (toks, zasprocvalue m val sz adr st)
      | TLabel name \<Rightarrow> Inr (toks, zasproclabel m name adr st)
      | TInst _ _ _ \<Rightarrow> asmprocinst m (tok # toks) adr st
      | TChar ch \<Rightarrow> Inr (toks, zasprocchar m ch adr st)
      | TData sz \<Rightarrow> Inr (zasprocdata m sz toks adr st)
      | TGlobl \<Rightarrow> zasprocglobl m toks adr st
      | TSpace \<Rightarrow> zasprocspace m toks adr st
      | TOrg \<Rightarrow> zasprocorg m toks adr st
      | TAlign \<Rightarrow> zasprocalign toks adr st
      | TAsciz \<Rightarrow> zasprocasciz m toks 0 adr st
      | _ \<Rightarrow> Inl StrayToken)"

partial_function (option) translate :: "zasmach \<Rightarrow> zastoken list \<Rightarrow> u64 \<Rightarrow> zas \<Rightarrow> (zaserr + u64 \<times> zas) option" where
  "translate m toks adr st =
     (case toks of [] \<Rightarrow> Some (Inr (adr, st))
      | tok # toks \<Rightarrow>
          (case zasproc m tok toks adr st of Inl e \<Rightarrow> Some (Inl e)
           | Inr (toks, adr, st) \<Rightarrow> translate m toks adr st))"

definition zastranslate :: "zasmach \<Rightarrow> u64 \<Rightarrow> zas \<Rightarrow> (zaserr + u64 \<times> zas) option" where
  "zastranslate m base st = translate m (zastokenqueue st) base st"

definition ZASRESOLVE :: u64 where "ZASRESOLVE = NOT 0"

fun zasresolve_loop :: "(string \<times> u64) list \<Rightarrow> zas \<Rightarrow> zaserr + zas" where
  "zasresolve_loop [] st = Inr (st\<lparr>symqueue := []\<rparr>)"
| "zasresolve_loop ((name, ptr) # syms) st =
     (if ptr = ZASRESOLVE then Inl UnresolvedSymbol
      else case zasfindsym name st of
        Some adr \<Rightarrow>
          if adr = ZASRESOLVE then Inl InvalidSymbol
          else zasresolve_loop syms (st\<lparr>zmem := putbytes (zmem st) ptr (lebytes 8 adr)\<rparr>)
      | None \<Rightarrow>
          (case zasfindglob name st of
             Some adr \<Rightarrow> zasresolve_loop syms (st\<lparr>zmem := putbytes (zmem st) ptr (lebytes 8 adr)\<rparr>)
           | None \<Rightarrow> Inl UnresolvedSymbol))"

definition zasresolve :: "zas \<Rightarrow> zaserr + zas" where
  "zasresolve st = zasresolve_loop (symqueue st) st"

section \<open>Reading files\<close>

definition zasqueuetoken :: "zastoken \<Rightarrow> zas \<Rightarrow> zas" where
  "zasqueuetoken token st = st\<lparr>zastokenqueue := zastokenqueue st @ [token]\<rparr>"

text \<open>A line, the rest of the file and whether the line was ended by the end of the file.\<close>

fun readline :: "nat \<Rightarrow> string \<Rightarrow> zaserr + string \<times> string \<times> bool" where
  "readline len [] = Inr ([], [], True)"
| "readline len (ch # file) =
     (if ch = CHR 0x0a then Inr ([], file, False)
      else if len + 1 = ZASLINELEN then Inl OverlongLine
      else map_sum id (map_prod (Cons ch) id) (readline (len + 1) file))"

text \<open>
  The rest of the file behind a comment, and whether it has ended.  The comment is read from the
  line behind the one that opens it.
\<close>

fun skipcomm :: "string \<Rightarrow> string \<times> bool" where
  "skipcomm [] = ([], True)"
| "skipcomm (ch # file) =
     (if ch = CHR ''*'' then
        case file of [] \<Rightarrow> ([], True) | ch # file \<Rightarrow> if ch = CHR ''/'' then (file, False) else skipcomm file
      else skipcomm file)"

text \<open>A definition: the rest of the line behind it and the tables with it.\<close>

definition readdef :: "string \<Rightarrow> zas \<Rightarrow> zaserr + string \<times> zas" where
  "readdef str st =
     (let str = dropWhile spacec str in
      if ident1c (cur str) then
        let rest = dropWhile identc (tl str); name = take (length str - length rest) str in
        if rest = [] then Inl Overrun
        else case zasgetvalue (dropWhile spacec (tl rest)) of Inl e \<Rightarrow> Inl e
          | Inr None \<Rightarrow> Inl InvalidDefine
          | Inr (Some (val, str)) \<Rightarrow> Inr (str, st\<lparr>zasvalhash := zasaddval name val (zasvalhash st)\<rparr>)
      else Inr (str, st))"

text \<open>The name of the file in angle brackets, if there is one.\<close>

definition readname :: "zaserr \<Rightarrow> string \<Rightarrow> zaserr + string option" where
  "readname err str =
     (let str = dropWhile spacec str in
      if cur str = CHR ''<'' then
        if CHR ''>'' \<in> set (tl str) then Inr (Some (takeWhile (\<lambda>c. c \<noteq> CHR ''>'') (tl str))) else Inl err
      else Inr None)"

definition readtoken :: "zaslexmach \<Rightarrow> string \<Rightarrow> zas \<Rightarrow> zaserr + string option \<times> zas" where
  "readtoken m str st =
     (if str = [] then Inr (None, st)
      else case zasgettoken m (zasvalhash st) str of Inl e \<Rightarrow> Inl e
        | Inr (tokens, str) \<Rightarrow>
            let str = dropWhile spacec str
            in Inr (if str = [] then None else Some str, foldl (\<lambda>st t. zasqueuetoken t st) st tokens))"

text \<open>
  One line of a file that is neither a file to be read nor a comment over lines, from a place in it:
  the place to go on from, or none at the end of the line.
\<close>

datatype zasline = Next "string option" zas | File string | Comment

definition readpart :: "zaslexmach \<Rightarrow> string \<Rightarrow> zas \<Rightarrow> zaserr + zasline" where
  "readpart m str st =
     (if take 7 str = ''.define'' then map_sum id (\<lambda>(str, st). Next (Some str) st) (readdef (drop 7 str) st)
      else if take 8 str = ''.include'' then
        map_sum id (\<lambda>f. case f of None \<Rightarrow> Next None st | Some fname \<Rightarrow> File fname) (readname InvalidInclude (drop 8 str))
      else if take 7 str = ''.import'' then
        map_sum id (\<lambda>f. case f of None \<Rightarrow> Next None st | Some fname \<Rightarrow> File fname) (readname InvalidImport (drop 7 str))
      else if take 1 str = '';'' \<or> take 2 str = ''//'' then Inr (Next None st)
      else if take 2 str = ''/*'' then Inr Comment
      else map_sum id (\<lambda>(str, st). Next str st) (readtoken m str st))"

text \<open>
  The loop over a file: the rest of the file, whether its end has been seen, and the rest of the
  line, if there is one.  A file that cannot be opened is read at a pointer that is not valid.
\<close>

partial_function (option) zasread ::
  "zaslexmach \<Rightarrow> (string \<Rightarrow> string option) \<Rightarrow> string \<Rightarrow> bool \<Rightarrow> string option \<Rightarrow> zas \<Rightarrow> (zaserr + zas) option" where
  "zasread m files file eof line st =
     (case line of
        None \<Rightarrow>
          if eof \<or> file = [] then Some (Inr st)
          else (case readline 0 file of Inl e \<Rightarrow> Some (Inl e)
            | Inr (str, file, eof) \<Rightarrow> zasread m files file eof (Some (dropWhile spacec str)) st)
      | Some str \<Rightarrow>
          (case readpart m str st of Inl e \<Rightarrow> Some (Inl e)
           | Inr (Next line st) \<Rightarrow> zasread m files file eof line st
           | Inr Comment \<Rightarrow>
               let (file, ended) = skipcomm file in
               if ended then Some (Inr st) else zasread m files file eof None st
           | Inr (File fname) \<Rightarrow>
               (case files fname of None \<Rightarrow> Some (Inl Overrun)
                | Some text \<Rightarrow>
                    Option.bind (zasread m files text False None st)
                      (\<lambda>r. case r of Inl e \<Rightarrow> Some (Inl e)
                         | Inr st \<Rightarrow>
                             (case zasresolve st of Inl e \<Rightarrow> Some (Inl e)
                              | Inr st \<Rightarrow> zasread m files file eof None (zasremovesyms st))))))"

definition zasreadfile :: "zaslexmach \<Rightarrow> (string \<Rightarrow> string option) \<Rightarrow> string \<Rightarrow> zas \<Rightarrow> (zaserr + zas) option" where
  "zasreadfile m files name st =
     (case files name of None \<Rightarrow> Some (Inl Overrun) | Some text \<Rightarrow> zasread m files text False None st)"

section \<open>Tables of names\<close>

text \<open>What the tables promise: an entry hides the ones of the same name before it and no other.\<close>

locale nametab =
  fixes add :: "string \<Rightarrow> u64 \<Rightarrow> 's \<Rightarrow> 's"
    and look :: "string \<Rightarrow> 's \<Rightarrow> u64 option"
  assumes look_add: "look n (add name v s) = (if n = name then Some v else look n s)"
begin

text \<open>The entries of a list: the last one of a name counts.\<close>

lemma look_adds: "look n (foldl (\<lambda>s (name, v). add name v s) s l) =
    (case map_of (rev l) n of Some v \<Rightarrow> Some v | None \<Rightarrow> look n s)"
  by (induction l arbitrary: s) (auto simp: look_add map_add_def split: option.split)

end

lemma find_setfirst:
  "map_option snd (find (\<lambda>(n, a). n = name') (setfirst name adr l)) =
     (if name' = name \<and> find (\<lambda>(n, a). n = name) l \<noteq> None then Some adr
      else map_option snd (find (\<lambda>(n, a). n = name') l))"
  by (induction name adr l rule: setfirst.induct) auto

text \<open>The record of a label: the address is stored in the record there is, or a new one is added.\<close>

definition putsym :: "string \<Rightarrow> u64 \<Rightarrow> zas \<Rightarrow> zas" where
  "putsym name adr st = (case zasfindsym name st of Some _ \<Rightarrow> zassetsym name adr st | None \<Rightarrow> zasaddsym name adr st)"

interpretation syms: nametab zasaddsym zasfindsym
  by unfold_locales (auto simp: zasfindsym_def zasaddsym_def)

interpretation globs: nametab zasaddglob zasfindglob
  by unfold_locales (auto simp: zasfindglob_def zasaddglob_def)

interpretation labels: nametab putsym zasfindsym
proof unfold_locales
  fix n name v s
  have "zasfindsym n (zassetsym name v s) = Some v" if "zasfindsym name s \<noteq> None" "n = name" for v
    using that by (auto simp: zasfindsym_def zassetsym_def find_setfirst)
  moreover have "zasfindsym n (zassetsym name v s) = zasfindsym n s" if "n \<noteq> name" for v
    using that by (auto simp: zasfindsym_def zassetsym_def find_setfirst)
  ultimately show "zasfindsym n (putsym name v s) = (if n = name then Some v else zasfindsym n s)"
    by (auto simp: putsym_def syms.look_add split: option.split)
qed

lemma proclabel_put:
  assumes "startset st \<or> take 6 name \<noteq> ''_start''"
  shows "zasproclabel m name adr st = (adr, putsym name adr st)"
  using assms by (auto simp: zasproclabel_def putsym_def split: option.split)

lemma putsym_fields [simp]:
  "zmem (putsym name adr st) = zmem st" "startset (putsym name adr st) = startset st"
  "zastokenqueue (putsym name adr st) = zastokenqueue st"
  by (simp_all add: putsym_def zassetsym_def zasaddsym_def split: option.split)

lemma zasfindsym_update [simp]:
  "zasfindsym n (st\<lparr>zmem := mem\<rparr>) = zasfindsym n st" "zasfindsym n (st\<lparr>zastokenqueue := q\<rparr>) = zasfindsym n st"
  by (simp_all add: zasfindsym_def)

text \<open>The index of a symbol is within the table, so that removing the symbols removes all of them.\<close>

lemma symkey_less: "symkey name < ZASNHASH"
proof -
  obtain h where "hashq128 0 (\<lambda>i. ucast (drop_bit (8 * i) (namesum name))) 8 NHASHBIT = Some h" "unat h < 2 ^ NHASHBIT"
    using hashq128_end_range [of NHASHBIT] unfolding hashq128_def NHASHBIT_def Let_def case_prod_beta
    by (metis numeral_less_iff semiring_norm(76) semiring_norm(78) semiring_norm(81))
  then show ?thesis by (simp add: symkey_def ZASNHASH_def NHASHBIT_def)
qed

lemma findsym_remove: "zasfindsym name (zasremovesyms st) = None"
  using symkey_less [of name] by (simp add: zasfindsym_def zasremovesyms_def)

section \<open>Stores\<close>

lemma putbytes_append:
  "putbytes mem ptr (as @ bs) = putbytes (putbytes mem ptr as) (ptr + of_nat (length as)) bs"
  by (induction as arbitrary: mem ptr) (simp_all add: add_ac del: fun_upd_apply)

lemma length_lebytes [simp]: "length (lebytes n val) = n"
  by (simp add: lebytes_def)

text \<open>What the code relies on: addresses that follow each other lie at pointers that do.\<close>

definition linear :: "zasmach \<Rightarrow> bool" where
  "linear m \<longleftrightarrow> (\<forall>adr k. zvmadrtoptr m (adr + k) = zvmadrtoptr m adr + k)"

lemma procdata_values:
  assumes "sz \<in> {1, 2, 4, 8}" "linear m"
  shows "zasprocdata m sz (map (\<lambda>v. TValue v 0) vs @ toks) adr st =
    zasprocdata m sz toks (adr + of_nat (length (concat (map (lebytes (unat sz)) vs))))
      (st\<lparr>zmem := putbytes (zmem st) (zvmadrtoptr m adr) (concat (map (lebytes (unat sz)) vs))\<rparr>)"
proof (induction vs arbitrary: adr st)
  case (Cons v vs)
  have l: "zvmadrtoptr m (adr + k) = zvmadrtoptr m adr + k" for k using assms(2) by (simp add: linear_def)
  have "word_of_nat (unat sz) = (ucast sz :: u64)" by (simp add: of_nat_unat)
  then show ?case using assms(1) by (simp add: zasprocvalue_def Cons.IH putbytes_append l add_ac del: insert_iff)
qed simp

section \<open>Programs of labels and data\<close>

datatype zasitem = Lab string | Dat u8 "u64 list"

fun itemtoks :: "zasitem \<Rightarrow> zastoken list" where
  "itemtoks (Lab name) = [TLabel name]"
| "itemtoks (Dat sz vs) = TData sz # map (\<lambda>v. TValue v 0) vs"

text \<open>The bytes of a program, and the addresses of its labels.\<close>

fun image_bytes :: "zasitem list \<Rightarrow> u8 list" where
  "image_bytes [] = []"
| "image_bytes (Lab name # p) = image_bytes p"
| "image_bytes (Dat sz vs # p) = concat (map (lebytes (unat sz)) vs) @ image_bytes p"

fun labelmap :: "u64 \<Rightarrow> zasitem list \<Rightarrow> (string \<times> u64) list" where
  "labelmap adr [] = []"
| "labelmap adr (Lab name # p) = (name, adr) # labelmap adr p"
| "labelmap adr (Dat sz vs # p) = labelmap (adr + of_nat (length (concat (map (lebytes (unat sz)) vs)))) p"

fun item_ok :: "zasitem \<Rightarrow> bool" where
  "item_ok (Lab name) \<longleftrightarrow> isname name \<and> take 6 name \<noteq> ''_start''"
| "item_ok (Dat sz vs) \<longleftrightarrow> sz \<in> {1, 2, 4, 8}"

lemma procdata_stops: "zasprocdata m sz (concat (map itemtoks p)) adr st = (concat (map itemtoks p), adr, st)"
proof (cases p)
  case (Cons i q)
  then show ?thesis by (cases i) simp_all
qed simp

lemma translate_layout:
  assumes "\<forall>i \<in> set p. item_ok i" "linear m"
  shows "\<exists>st'. translate m (concat (map itemtoks p)) adr st = Some (Inr (adr + of_nat (length (image_bytes p)), st')) \<and>
    zmem st' = putbytes (zmem st) (zvmadrtoptr m adr) (image_bytes p) \<and>
    (\<forall>n. zasfindsym n st' = (case map_of (rev (labelmap adr p)) n of Some a \<Rightarrow> Some a | None \<Rightarrow> zasfindsym n st))"
  using assms(1)
proof (induction p arbitrary: adr st)
  case Nil
  then show ?case by (simp add: translate.simps)
next
  case (Cons i p)
  show ?case
  proof (cases i)
    case (Lab name)
    then have "translate m (concat (map itemtoks (i # p))) adr st = translate m (concat (map itemtoks p)) adr (putsym name adr st)"
      using Cons.prems by (subst translate.simps) (simp add: zasproc_def proclabel_put)
    then show ?thesis
      using Cons.IH [of adr "putsym name adr st"] Cons.prems Lab
      by (auto simp: labels.look_add map_add_def split: option.split)
  next
    case (Dat sz vs)
    define bs where "bs = concat (map (lebytes (unat sz)) vs)"
    have sz: "sz \<in> {1, 2, 4, 8}" using Cons.prems Dat by simp
    have "translate m (concat (map itemtoks (i # p))) adr st =
        translate m (concat (map itemtoks p)) (adr + of_nat (length bs)) (st\<lparr>zmem := putbytes (zmem st) (zvmadrtoptr m adr) bs\<rparr>)"
      unfolding bs_def using procdata_values [OF sz assms(2)] Dat by (subst translate.simps) (simp add: zasproc_def procdata_stops)
    moreover have "zvmadrtoptr m (adr + of_nat (length bs)) = zvmadrtoptr m adr + of_nat (length bs)"
      using assms(2) by (simp add: linear_def)
    ultimately show ?thesis
      using Cons.IH [of "adr + of_nat (length bs)" "st\<lparr>zmem := putbytes (zmem st) (zvmadrtoptr m adr) bs\<rparr>"] Cons.prems Dat
      by (auto simp: putbytes_append add_ac bs_def [symmetric] cong: option.case_cong)
  qed
qed

section \<open>The text of a program\<close>

fun valtext :: "char \<Rightarrow> u64 list \<Rightarrow> string" where
  "valtext c [] = []"
| "valtext c (v # vs) = c # ''0x'' @ numstr 16 (unat v) @ valtext (CHR '','') vs"

fun itemtext :: "zasitem \<Rightarrow> string" where
  "itemtext (Lab name) = name @ '':''"
| "itemtext (Dat sz vs) = the (written (TData sz)) @ valtext (CHR '' '') vs"

definition source :: "zasitem list \<Rightarrow> string" where
  "source p = concat (map (\<lambda>i. itemtext i @ [CHR 0x0a]) p)"

definition queue :: "zastoken list \<Rightarrow> zas \<Rightarrow> zas" where
  "queue toks st = st\<lparr>zastokenqueue := zastokenqueue st @ toks\<rparr>"

lemma queue_queue [simp]: "queue bs (queue as st) = queue (as @ bs) st" "queue [] st = st"
  by (simp_all add: queue_def)

lemma readline_text:
  assumes "CHR 0x0a \<notin> set str" "len + length str < ZASLINELEN"
  shows "readline len (str @ CHR 0x0a # file) = Inr (str, file, False)"
  using assms
proof (induction str arbitrary: len)
  case (Cons c str)
  then show ?case using Cons.IH [of "len + 1"] by auto
qed simp

text \<open>A part of a line that is neither a directive to the reader nor a comment.\<close>

lemma readpart_token:
  assumes "zasgettoken m (zasvalhash st) (c # str) = Inr ([tok], rest)" "c \<notin> {CHR ''.'', CHR '';'', CHR ''/''}"
  shows "readpart m (c # str) st =
    Inr (Next (if dropWhile spacec rest = [] then None else Some (dropWhile spacec rest)) (queue [tok] st))"
  using assms by (simp add: readpart_def readtoken_def zasqueuetoken_def queue_def Let_def)

lemma readpart_dot:
  assumes "zasgettoken m (zasvalhash st) (CHR ''.'' # c # str) = Inr ([tok], rest)" "c \<notin> {CHR ''d'', CHR ''i''}"
  shows "readpart m (CHR ''.'' # c # str) st =
    Inr (Next (if dropWhile spacec rest = [] then None else Some (dropWhile spacec rest)) (queue [tok] st))"
  using assms by (simp add: readpart_def readtoken_def zasqueuetoken_def queue_def Let_def)

lemma zasread_next:
  assumes "readpart m str st = Inr (Next line st')"
  shows "zasread m files file eof (Some str) st = zasread m files file eof line st'"
  using assms by (subst zasread.simps) simp

lemma valtext_start:
  "ends (valtext (CHR '','') vs)" "cur (valtext (CHR '','') vs) \<noteq> CHR ''(''" "dropWhile spacec (valtext (CHR '','') vs) = valtext (CHR '','') vs"
  by (cases vs; simp add: ends_def char_classes)+

lemma queue_fields [simp]: "zasvalhash (queue ts st) = zasvalhash st" "zastokenqueue (queue ts st) = zastokenqueue st @ ts"
  by (simp_all add: queue_def)

lemma read_value:
  assumes "pre \<in> {[], '',''}"
  shows "zasread m files file eof (Some (pre @ ''0x'' @ numstr 16 (unat v) @ valtext (CHR '','') vs)) st =
    zasread m files file eof (if vs = [] then None else Some (valtext (CHR '','') vs)) (queue [TValue v 0] st)"
proof -
  define rest where "rest = valtext (CHR '','') vs"
  have r: "dropWhile spacec rest = rest" "rest = [] \<longleftrightarrow> vs = []"
    unfolding rest_def by (rule valtext_start) (cases vs; simp)
  have "zasgettoken m (zasvalhash st) (''0x'' @ numstr 16 (unat v) @ rest) = Inr ([TValue v 0], rest)"
    unfolding rest_def by (rule gettoken_hex) (rule valtext_start)+
  moreover have "\<not> spacec (CHR ''0'')" by (simp add: char_classes)
  ultimately have "zasgettoken m (zasvalhash st) (pre @ ''0x'' @ numstr 16 (unat v) @ rest) = Inr ([TValue v 0], rest)"
    using assms by (auto simp: gettoken_skip)
  moreover obtain c s where "pre @ ''0x'' @ numstr 16 (unat v) @ rest = c # s" "c = CHR ''0'' \<or> c = CHR '',''"
    using assms by auto
  ultimately show ?thesis
    using readpart_token [of m st c s "TValue v 0" rest] r zasread_next by (auto simp flip: rest_def)
qed

lemma read_values:
  "pre \<in> {[], '',''} \<Longrightarrow>
    zasread m files file eof (Some (pre @ ''0x'' @ numstr 16 (unat v) @ valtext (CHR '','') vs)) st =
      zasread m files file eof None (queue (map (\<lambda>v. TValue v 0) (v # vs)) st)"
proof (induction vs arbitrary: pre v st)
  case Nil
  then show ?case using read_value [of pre m files "file" eof v "[]" st] by simp
next
  case (Cons w vs)
  then show ?case
    using read_value [of pre m files "file" eof v "w # vs" st] Cons.IH [of "'',''" w "queue [TValue v 0] st"] by simp
qed

text \<open>A line that holds an item adds the tokens of the item.\<close>

lemma read_item:
  assumes "item_ok i"
  shows "zasread m files file eof (Some (itemtext i)) st = zasread m files file eof None (queue (itemtoks i) st)"
proof (cases i)
  case (Lab name)
  then obtain c cs where n: "name = c # cs" "ident1c c" using assms by (cases name) (auto simp: isname_def)
  then have "c \<notin> {CHR ''.'', CHR '';'', CHR ''/''}" by (auto simp: ident1c_def char_classes)
  then show ?thesis
    using Lab n assms gettoken_label [of name m "zasvalhash st" "[]"] readpart_token [of m st c "cs @ '':''" "TLabel name" "[]"]
      zasread_next by simp
next
  case (Dat sz vs)
  then have sz: "sz = 1 \<or> sz = 2 \<or> sz = 4 \<or> sz = 8" using assms by simp
  then obtain c s where w: "written (TData sz) = Some (CHR ''.'' # c # s)" "c \<notin> {CHR ''d'', CHR ''i''}" by fastforce
  define line where "line = (if vs = [] then None else Some (tl (valtext (CHR '' '') vs)))"
  have "dropWhile spacec (valtext (CHR '' '') vs) = tl (valtext (CHR '' '') vs)" "tl (valtext (CHR '' '') vs) = [] \<longleftrightarrow> vs = []"
    by (cases vs; simp add: char_classes)+
  then have "zasread m files file eof (Some (itemtext i)) st = zasread m files file eof line (queue [TData sz] st)"
    using gettoken_directive [OF w(1), of sz m "zasvalhash st" "valtext (CHR '' '') vs"] w Dat
      readpart_dot [of m st c "s @ valtext (CHR '' '') vs" "TData sz" "valtext (CHR '' '') vs"] zasread_next
    by (simp add: line_def)
  then show ?thesis
    using Dat read_values [of "[]" m files "file" eof] by (cases vs) (simp_all add: line_def)
qed

lemma itemtext_chars:
  assumes "item_ok i"
  shows "CHR 0x0a \<notin> set (itemtext i)" "dropWhile spacec (itemtext i) = itemtext i"
proof -
  have nl: "\<not> alnumc (CHR 0x0a)" by (simp add: char_classes)
  then have d: "CHR 0x0a \<notin> set (numstr 16 n)" for n
    using numstr_digits [of 16 n] dig_val(4) by fastforce
  have v: "CHR 0x0a \<notin> set (valtext c vs)" if "c \<noteq> CHR 0x0a" for c vs
    using that by (induction c vs rule: valtext.induct) (simp_all add: d)
  have "\<not> identc (CHR 0x0a)" using nl by (simp add: identc_def)
  then have "CHR 0x0a \<notin> set name" if "isname name" for name using that by (auto simp: isname_def list_all_iff)
  then show "CHR 0x0a \<notin> set (itemtext i)" using assms v by (cases i) (auto)
  show "dropWhile spacec (itemtext i) = itemtext i"
  proof (cases i)
    case (Lab name)
    then obtain c cs where "name = c # cs" "ident1c c" using assms by (cases name) (auto simp: isname_def)
    then show ?thesis using Lab start_of_name(1) [of c] by simp
  qed (use assms in \<open>auto simp: char_classes\<close>)
qed

lemma read_source:
  assumes "\<forall>i \<in> set p. item_ok i \<and> length (itemtext i) < ZASLINELEN"
  shows "zasread m files (source p) False None st = Some (Inr (queue (concat (map itemtoks p)) st))"
  using assms
proof (induction p arbitrary: st)
  case Nil
  then show ?case by (subst zasread.simps) (simp add: source_def)
next
  case (Cons i p)
  have "zasread m files (source (i # p)) False None st = zasread m files (source p) False (Some (itemtext i)) st"
    using Cons.prems readline_text [of "itemtext i" 0 "source p"] itemtext_chars [of i]
    by (subst zasread.simps) (simp add: source_def)
  then show ?case using read_item [of i m files "source p" False st] Cons by simp
qed

section \<open>Bytes of a store\<close>

lemma putbytes_other: "(\<forall>k<length bs. q \<noteq> ptr + of_nat k) \<Longrightarrow> putbytes mem ptr bs q = mem q"
proof (induction bs arbitrary: mem ptr)
  case (Cons b bs)
  have "q \<noteq> ptr" using Cons.prems [rule_format, of 0] by simp
  moreover have "\<forall>k<length bs. q \<noteq> ptr + 1 + of_nat k"
    using Cons.prems [rule_format, of "Suc _"] by (simp add: add_ac)
  ultimately show ?case using Cons.IH by simp
qed simp

lemma putbytes_at: "length bs \<le> 2 ^ 64 \<Longrightarrow> k < length bs \<Longrightarrow> putbytes mem ptr bs (ptr + of_nat k) = bs ! k"
proof (induction bs arbitrary: mem ptr k)
  case (Cons b bs)
  show ?case
  proof (cases k)
    case 0
    have "ptr \<noteq> ptr + 1 + of_nat j" if "j < length bs" for j
    proof
      assume "ptr = ptr + 1 + of_nat j"
      then have "(of_nat (Suc j) :: u64) = 0" by (simp add: add.assoc)
      then have "(2 :: nat) ^ 64 dvd Suc j" by (simp add: word_of_nat_eq_0_iff del: of_nat_Suc)
      then show False using that Cons.prems(1) by (auto dest!: dvd_imp_le)
    qed
    then show ?thesis using putbytes_other [of bs ptr "ptr + 1"] 0 by simp
  next
    case (Suc j)
    then show ?thesis using Cons.IH [of j "mem(ptr := b)" "ptr + 1"] Cons.prems by (simp add: add_ac del: fun_upd_apply)
  qed
qed simp

section \<open>Termination of the translation\<close>

text \<open>The handler of instructions takes at least the token of the instruction.\<close>

definition consumes :: "zasmach \<Rightarrow> bool" where
  "consumes m \<longleftrightarrow>
     (\<forall>toks adr st toks' adr' st'. asmprocinst m toks adr st = Inr (toks', adr', st') \<longrightarrow> length toks' < length toks)"

lemma procdata_shorter: "zasprocdata m sz toks adr st = (toks', adr', st') \<Longrightarrow> length toks' \<le> length toks"
  by (induction m sz toks adr st rule: zasprocdata.induct) (force split: prod.splits)+

lemma procglobl_shorter: "zasprocglobl m toks adr st = Inr (toks', adr', st') \<Longrightarrow> length toks' \<le> length toks"
  by (induction m toks adr st rule: zasprocglobl.induct) (force split: prod.splits sum.splits)+

lemma procasciz_shorter: "zasprocasciz m toks len adr st = Inr (toks', adr', st') \<Longrightarrow> length toks' \<le> length toks"
proof (induction toks arbitrary: len adr st)
  case (Cons tok toks)
  then show ?case by (cases tok) (auto simp: Let_def split: prod.splits sum.splits intro!: le_SucI)
qed simp

lemma proc_shorter:
  assumes "consumes m" "zasproc m tok toks adr st = Inr (toks', adr', st')"
  shows "length toks' \<le> length toks"
proof (cases tok)
  case TInst
  then show ?thesis using assms by (fastforce simp: zasproc_def consumes_def)
qed (use assms procdata_shorter procglobl_shorter procasciz_shorter in
    \<open>auto simp: zasproc_def zasprocspace_def zasprocorg_def zasprocalign_def split: list.splits zastoken.splits prod.splits\<close>)

lemma translate_returns:
  assumes "consumes m"
  shows "\<exists>r. translate m toks adr st = Some r"
proof (induction "length toks" arbitrary: toks adr st rule: less_induct)
  case less
  show ?case
  proof (cases toks)
    case (Cons tok ts)
    show ?thesis
    proof (cases "zasproc m tok ts adr st")
      case (Inr x)
      obtain ts' adr' st' where x: "x = (ts', adr', st')" by (cases x)
      then have "length ts' < length toks" using proc_shorter [OF assms] Inr Cons by (simp add: le_imp_less_Suc)
      then show ?thesis using less Inr Cons x by (subst translate.simps) simp
    qed (use Cons in \<open>subst translate.simps, simp\<close>)
  qed (subst translate.simps, simp)
qed

text \<open>
  C21: when the handler of instructions takes the token of the instruction, the translation of every
  queue of tokens ends, with an address and a state or with an error.
\<close>

theorem zastranslate_returns:
  assumes "consumes m"
  shows "\<exists>r. zastranslate m base st = Some r"
  using translate_returns [OF assms] by (simp add: zastranslate_def)

definition zas_empty :: zas where
  "zas_empty = \<lparr>zastokenqueue = [], zasvalhash = (\<lambda>_. []), zmem = (\<lambda>_. 0), zassymhash = (\<lambda>_. []),
     zasglobhash = (\<lambda>_. []), symqueue = [], startadr = 0, startset = False\<rparr>"

definition mach0 :: zasmach where
  "mach0 = \<lparr>zvmadrtoptr = (\<lambda>adr. 0x10000 + adr), asmprocinst = (\<lambda>toks adr st. case toks of [] \<Rightarrow> Inl StrayToken
     | _ # ts \<Rightarrow> Inr (ts, adr + 8, st)), zvmopsize = 8\<rparr>"

definition lexmach0 :: zaslexmach where
  "lexmach0 = \<lparr>asmfindop = (\<lambda>_. None), asmgetreg = (\<lambda>s. (0, s)), ZASREGINDEX = 16, ZASREGINDIR = 32\<rparr>"

theorem zastranslate_returns_witness:
  "\<exists>r. zastranslate mach0 0 (zas_empty\<lparr>zastokenqueue := [TInst ''nop'' 0 0, TOrg, TValue 64 0, TGlobl]\<rparr>) = Some r"
  by (rule zastranslate_returns) (auto simp: consumes_def mach0_def split: list.splits)

text \<open>
  C3: assembling the text of a program of labels and data puts the bytes of its data, lowest first,
  one behind the other at the base and leaves all other memory, gives every label the address of
  what follows it and ends at the address behind the last byte.
\<close>

theorem zas_assembles:
  assumes "\<forall>i \<in> set p. item_ok i \<and> length (itemtext i) < ZASLINELEN" "linear m" "length (image_bytes p) < 2 ^ 64"
    and "files name = Some (source p)" "zastokenqueue st = []"
  shows "\<exists>st1 st2. zasreadfile lm files name st = Some (Inr st1) \<and>
    zastranslate m base st1 = Some (Inr (base + of_nat (length (image_bytes p)), st2)) \<and>
    (\<forall>k<length (image_bytes p). zmem st2 (zvmadrtoptr m (base + of_nat k)) = image_bytes p ! k) \<and>
    (\<forall>q. (\<forall>k<length (image_bytes p). q \<noteq> zvmadrtoptr m (base + of_nat k)) \<longrightarrow> zmem st2 q = zmem st q) \<and>
    (\<forall>n. zasfindsym n st2 = (case map_of (rev (labelmap base p)) n of Some a \<Rightarrow> Some a | None \<Rightarrow> zasfindsym n st))"
proof -
  define st1 where "st1 = queue (concat (map itemtoks p)) st"
  have l: "zvmadrtoptr m (base + k) = zvmadrtoptr m base + k" for k using assms(2) by (simp add: linear_def)
  have ok: "\<forall>i \<in> set p. item_ok i" using assms(1) by blast
  have 1: "zasreadfile lm files name st = Some (Inr st1)"
    using read_source [OF assms(1)] assms(4) by (simp add: zasreadfile_def st1_def)
  have "zastokenqueue st1 = concat (map itemtoks p)" "zmem st1 = zmem st" "\<And>n. zasfindsym n st1 = zasfindsym n st"
    using assms(5) by (simp_all add: st1_def queue_def)
  then obtain st2 where 2: "zastranslate m base st1 = Some (Inr (base + of_nat (length (image_bytes p)), st2))"
    and mem: "zmem st2 = putbytes (zmem st) (zvmadrtoptr m base) (image_bytes p)"
    and sym: "\<And>n. zasfindsym n st2 = (case map_of (rev (labelmap base p)) n of Some a \<Rightarrow> Some a | None \<Rightarrow> zasfindsym n st)"
    using translate_layout [OF ok assms(2), of base st1] by (auto simp: zastranslate_def cong: option.case_cong)
  have at: "\<forall>k<length (image_bytes p). zmem st2 (zvmadrtoptr m (base + of_nat k)) = image_bytes p ! k"
    using assms(3) by (auto simp: mem l intro!: putbytes_at)
  have other: "\<forall>q. (\<forall>k<length (image_bytes p). q \<noteq> zvmadrtoptr m (base + of_nat k)) \<longrightarrow> zmem st2 q = zmem st q"
    by (auto simp: mem l intro!: putbytes_other)
  show ?thesis using 1 2 at other sym by blast
qed

theorem zas_assembles_witness:
  "\<exists>st1 st2. zasreadfile lexmach0 (\<lambda>_. Some ''tab:\<newline>.short 0x102,0x3\<newline>'') ''a.zas'' zas_empty = Some (Inr st1) \<and>
    zastranslate mach0 0x400 st1 = Some (Inr (0x404, st2)) \<and>
    zmem st2 0x10400 = 2 \<and> zmem st2 0x10401 = 1 \<and> zasfindsym ''tab'' st2 = Some 0x400"
proof -
  let ?p = "[Lab ''tab'', Dat 2 [0x102, 0x3]]"
  have n: "numstr 16 0x102 = ''102''" "numstr 16 3 = ''3''" by (simp_all add: numstr.simps dig_def char_of_def bit_0)
  have b: "image_bytes ?p = [2, 1, 3, 0]" by (simp add: lebytes_def upt_rec)
  have s: "source ?p = ''tab:\<newline>.short 0x102,0x3\<newline>''" using n by (simp add: source_def)
  have "\<forall>i \<in> set ?p. item_ok i \<and> length (itemtext i) < ZASLINELEN"
    using n by (simp add: isname_def ident1c_def identc_def char_classes ZASLINELEN_def)
  moreover have "linear mach0" by (simp add: linear_def mach0_def add_ac)
  ultimately obtain st1 st2 where
    "zasreadfile lexmach0 (\<lambda>_. Some (source ?p)) ''a.zas'' zas_empty = Some (Inr st1)"
    "zastranslate mach0 0x400 st1 = Some (Inr (0x400 + of_nat (length (image_bytes ?p)), st2))"
    "\<forall>k<length (image_bytes ?p). zmem st2 (zvmadrtoptr mach0 (0x400 + of_nat k)) = image_bytes ?p ! k"
    "zasfindsym ''tab'' st2 = (case map_of (rev (labelmap 0x400 ?p)) ''tab'' of Some a \<Rightarrow> Some a | None \<Rightarrow> zasfindsym ''tab'' zas_empty)"
    using zas_assembles [of ?p mach0 "\<lambda>_. Some (source ?p)" "''a.zas''" zas_empty lexmach0 "0x400"]
    by (auto simp: b zas_empty_def)
  then show ?thesis
    unfolding s b by (intro exI [of _ st1] exI [of _ st2]) (simp add: mach0_def All_less_Suc2)
qed

section \<open>Resolution of symbols\<close>

text \<open>The address of a name: of the symbol, or else of the global label.\<close>

definition symval :: "zas \<Rightarrow> string \<Rightarrow> u64 option" where
  "symval st name = (case zasfindsym name st of Some adr \<Rightarrow> if adr = ZASRESOLVE then None else Some adr | None \<Rightarrow> zasfindglob name st)"

definition resolvable :: "zas \<Rightarrow> string \<times> u64 \<Rightarrow> bool" where
  "resolvable st ref \<longleftrightarrow> snd ref \<noteq> ZASRESOLVE \<and> symval st (fst ref) \<noteq> None"

definition patch :: "zas \<Rightarrow> (u64 \<Rightarrow> u8) \<Rightarrow> string \<times> u64 \<Rightarrow> u64 \<Rightarrow> u8" where
  "patch st mem ref = putbytes mem (snd ref) (lebytes 8 (the (symval st (fst ref))))"

lemma symval_update [simp]: "symval (st\<lparr>zmem := mem\<rparr>) = symval st"
  by (rule ext) (simp add: symval_def zasfindglob_def cong: option.case_cong)

lemma resolvable_update [simp]:
  "resolvable (st\<lparr>zmem := mem\<rparr>) = resolvable st" "patch (st\<lparr>zmem := mem\<rparr>) = patch st"
  by (intro ext, simp add: resolvable_def patch_def)+

lemma resolve_step:
  "resolvable st ref \<Longrightarrow> zasresolve_loop (ref # refs) st = zasresolve_loop refs (st\<lparr>zmem := patch st (zmem st) ref\<rparr>)"
  by (cases ref) (auto simp: resolvable_def symval_def patch_def split: option.splits if_splits)

lemma resolve_fails:
  "\<not> resolvable st ref \<Longrightarrow> \<exists>e \<in> {UnresolvedSymbol, InvalidSymbol}. zasresolve_loop (ref # refs) st = Inl e"
  by (cases ref) (auto simp: resolvable_def symval_def split: option.splits if_splits)

lemma resolve_all:
  "list_all (resolvable st) refs \<Longrightarrow>
    zasresolve_loop refs st = Inr (st\<lparr>zmem := foldl (patch st) (zmem st) refs, symqueue := []\<rparr>)"
  by (induction refs arbitrary: st) (simp_all add: resolve_step del: zasresolve_loop.simps(2))

lemma resolve_error:
  "\<not> list_all (resolvable st) refs \<Longrightarrow> \<exists>e \<in> {UnresolvedSymbol, InvalidSymbol}. zasresolve_loop refs st = Inl e"
proof (induction refs arbitrary: st)
  case (Cons ref refs)
  then show ?case using Cons.IH [of "st\<lparr>zmem := patch st (zmem st) ref\<rparr>"] resolve_fails [of st ref refs]
    by (cases "resolvable st ref") (simp_all add: resolve_step del: zasresolve_loop.simps(2))
qed simp

text \<open>The pointers to the eight bytes of a reference.\<close>

definition slots :: "string \<times> u64 \<Rightarrow> u64 set" where
  "slots ref = {snd ref + of_nat k |k. k < 8}"

lemma patch_other: "q \<notin> slots ref \<Longrightarrow> patch st mem ref q = mem q"
  by (auto simp: patch_def slots_def intro!: putbytes_other)

lemma patches_other: "(\<forall>ref \<in> set refs. q \<notin> slots ref) \<Longrightarrow> foldl (patch st) mem refs q = mem q"
  by (induction refs arbitrary: mem) (simp_all add: patch_other)

lemma patch_at: "k < 8 \<Longrightarrow> patch st mem ref (snd ref + of_nat k) = lebytes 8 (the (symval st (fst ref))) ! k"
  unfolding patch_def by (rule putbytes_at) simp_all

lemma patches_at:
  assumes "k < 8" "ref \<in> set refs" "sorted_wrt (\<lambda>r s. slots r \<inter> slots s = {}) refs"
  shows "foldl (patch st) mem refs (snd ref + of_nat k) = lebytes 8 (the (symval st (fst ref))) ! k"
  using assms(2,3)
proof (induction refs arbitrary: mem)
  case (Cons r refs)
  show ?case
  proof (cases "ref = r")
    case True
    have "snd ref + of_nat k \<in> slots ref" using assms(1) by (auto simp: slots_def)
    then have "\<forall>s \<in> set refs. snd ref + of_nat k \<notin> slots s" using Cons.prems(2) True by auto
    then show ?thesis using True patch_at [OF assms(1)] by (simp add: patches_other)
  next
    case False
    then show ?thesis using Cons by simp
  qed
qed simp

text \<open>
  C18: resolving the symbols ends with an error exactly when a reference has no place or a name that is
  neither a symbol nor a global label; otherwise, for references that do not overlap, the eight
  bytes of each hold the address of its name, and all other memory is as it was.
\<close>

theorem zasresolve_patches:
  "(\<not> list_all (resolvable st) (symqueue st) \<longrightarrow> (\<exists>e \<in> {UnresolvedSymbol, InvalidSymbol}. zasresolve st = Inl e)) \<and>
   (list_all (resolvable st) (symqueue st) \<longrightarrow>
     (\<exists>st'. zasresolve st = Inr st' \<and> symqueue st' = [] \<and>
        (\<forall>q. (\<forall>ref \<in> set (symqueue st). q \<notin> slots ref) \<longrightarrow> zmem st' q = zmem st q) \<and>
        (sorted_wrt (\<lambda>r s. slots r \<inter> slots s = {}) (symqueue st) \<longrightarrow>
          (\<forall>ref \<in> set (symqueue st). \<forall>k<8.
             zmem st' (snd ref + of_nat k) = lebytes 8 (the (symval st (fst ref))) ! k))))"
proof (cases "list_all (resolvable st) (symqueue st)")
  case True
  then show ?thesis
    using resolve_all [OF True] patches_at patches_other
    by (intro conjI impI exI [of _ "st\<lparr>zmem := foldl (patch st) (zmem st) (symqueue st), symqueue := []\<rparr>"])
      (auto simp: zasresolve_def)
next
  case False
  then show ?thesis using resolve_error [OF False] by (simp add: zasresolve_def)
qed

theorem zasresolve_patches_witness:
  "\<exists>st'. zasresolve (zasaddglob ''x'' 0x4142 (zas_empty\<lparr>symqueue := [(''x'', 0x2000)]\<rparr>)) = Inr st' \<and>
    zmem st' 0x2000 = 0x42 \<and> zmem st' 0x2001 = 0x41 \<and> zmem st' 0x2002 = 0"
proof -
  let ?st = "zasaddglob ''x'' 0x4142 (zas_empty\<lparr>symqueue := [(''x'', 0x2000)]\<rparr>)"
  have "zasfindglob ''x'' ?st = Some 0x4142" by (simp add: globs.look_add)
  moreover have "zasfindsym ''x'' ?st = None" by (simp add: zasfindsym_def zasaddglob_def zas_empty_def)
  ultimately have v: "symval ?st ''x'' = Some 0x4142" by (simp add: symval_def)
  have q: "symqueue ?st = [(''x'', 0x2000)]" by (simp add: zasaddglob_def)
  have "list_all (resolvable ?st) (symqueue ?st)" by (simp add: q resolvable_def v ZASRESOLVE_def)
  then obtain st' where "zasresolve ?st = Inr st'"
    "\<forall>k<8. zmem st' (0x2000 + of_nat k) = lebytes 8 0x4142 ! k"
    using zasresolve_patches [of ?st] by (auto simp: q v)
  moreover from this(2) have "zmem st' 0x2000 = 0x42" "zmem st' 0x2001 = 0x41" "zmem st' 0x2002 = 0"
    by (auto simp: lebytes_def dest: spec [of _ 0] spec [of _ 1] spec [of _ 2])
  ultimately show ?thesis by blast
qed

section \<open>Types of the queue\<close>

definition typed :: "zas \<Rightarrow> bool" where "typed st \<longleftrightarrow> list_all tok_queued (zastokenqueue st)"

lemma queue_fold: "foldl (\<lambda>st t. zasqueuetoken t st) st toks = queue toks st"
  by (induction toks arbitrary: st) (simp_all add: zasqueuetoken_def queue_def)

lemma resolve_queue: "zasresolve_loop refs st = Inr st' \<Longrightarrow> zastokenqueue st' = zastokenqueue st"
  by (cases "list_all (resolvable st) refs") (use resolve_all resolve_error in fastforce)+

lemma readpart_typed: "readpart m str st = Inr (Next line st') \<Longrightarrow> typed st \<Longrightarrow> typed st'"
  by (auto simp: readpart_def readdef_def readname_def readtoken_def queue_fold typed_def Let_def
      split: if_splits sum.splits option.splits dest!: gettoken_typed)

lemma zasread_typed:
  assumes "zasread m files file eof line st = Some r"
  shows "typed st \<longrightarrow> (\<forall>st'. r = Inr st' \<longrightarrow> typed st')"
proof (rule zasread.raw_induct [where P = "\<lambda>m files file eof line st r. typed st \<longrightarrow> (\<forall>st'. r = Inr st' \<longrightarrow> typed st')", OF _ assms], goal_cases)
  case (1 f m files file' eof line st r)
  have IH: "typed st'" if "f m files fl eof line st = Some (Inr st')" "typed st" for fl eof line st st'
    using 1(1) [OF that(1)] that(2) by blast
  have res: "typed (zasremovesyms st2)" if "zasresolve st1 = Inr st2" "typed st1" for st1 st2
    using resolve_queue [of "symqueue st1" st1 st2] that by (simp add: zasresolve_def typed_def zasremovesyms_def)
  show ?case
  proof (intro impI allI)
    fix st' assume "typed st" "r = Inr st'"
    then show "typed st'"
      using 1(2) readpart_typed
      by (auto split: option.splits if_splits sum.splits prod.splits zasline.splits Option.bind_splits dest: IH res)
  qed
qed

text \<open>
  C22: reading a file, with the files it includes, leaves in the queue only tokens of the types that the
  passes expect (labels are names, data has one, two, four or eight bytes, numbers have no size of their
  own) and tokens without any type, which the scanner makes of characters that start no token.
\<close>

theorem zasreadfile_typed:
  assumes "zasreadfile m files name st = Some (Inr st')" "\<forall>t \<in> set (zastokenqueue st). tok_typed t \<or> t = TJunk"
  shows "\<forall>t \<in> set (zastokenqueue st'). tok_typed t \<or> t = TJunk"
  using assms zasread_typed by (auto simp: zasreadfile_def typed_def list_all_iff tok_queued_def split: option.splits)

theorem zasreadfile_typed_witness:
  "\<exists>st'. zasreadfile lexmach0 (\<lambda>_. Some ''tab:\<newline>'') ''a.zas'' zas_empty = Some (Inr st') \<and>
    zastokenqueue st' = [TLabel ''tab''] \<and> (\<forall>t \<in> set (zastokenqueue st'). tok_typed t \<or> t = TJunk)"
proof -
  have "\<forall>i \<in> set [Lab ''tab'']. item_ok i \<and> length (itemtext i) < ZASLINELEN"
    by (simp add: isname_def ident1c_def identc_def char_classes ZASLINELEN_def)
  from read_source [OF this, of lexmach0 "\<lambda>_. Some ''tab:\<newline>''" zas_empty]
  have "zasreadfile lexmach0 (\<lambda>_. Some ''tab:\<newline>'') ''a.zas'' zas_empty = Some (Inr (queue [TLabel ''tab''] zas_empty))"
    by (simp add: zasreadfile_def source_def)
  then show ?thesis using zasreadfile_typed [of lexmach0 "\<lambda>_. Some ''tab:\<newline>''" "''a.zas''" zas_empty]
    by (intro exI [of _ "queue [TLabel ''tab''] zas_empty"]) (simp add: zas_empty_def)
qed

section \<open>Where the passes go wrong\<close>

text \<open>A character that starts no token keeps the reader busy for ever.\<close>

lemma zasread_stuck:
  assumes "zasread m files file eof line st = Some r"
  shows "line \<noteq> Some (CHR ''#'' # str)"
proof (rule zasread.raw_induct [where P = "\<lambda>m files file eof line st r. line \<noteq> Some (CHR ''#'' # str)", OF _ assms], goal_cases)
  case (1 f m files file' eof line st r)
  have "dropWhile spacec (CHR ''#'' # str) = CHR ''#'' # str" by (simp add: char_classes)
  then have "readpart m (CHR ''#'' # str) st = Inr (Next (Some (CHR ''#'' # str)) (queue [TJunk] st))"
    using readpart_token [OF gettoken_stuck] by simp
  then show ?case using 1(2) 1(1) [of m files file' eof "Some (CHR ''#'' # str)" "queue [TJunk] st" r] by auto
qed

lemma zasreadfile_stuck: "zasreadfile m (\<lambda>_. Some ''#'') name st = None"
proof -
  have "zasread m (\<lambda>_. Some ''#'') ''#'' False None st = zasread m (\<lambda>_. Some ''#'') [] True (Some ''#'') st"
    by (subst zasread.simps) (simp add: ZASLINELEN_def char_classes)
  then show ?thesis
    using zasread_stuck [of m "\<lambda>_. Some ''#''" "[]" True "Some ''#''" st _ "[]"]
    by (cases "zasread m (\<lambda>_. Some ''#'') [] True (Some ''#'') st") (auto simp: zasreadfile_def)
qed

text \<open>The label that a directive makes global is the one behind its symbol; without one, nothing is read.\<close>

lemma zasprocglobl_wrong:
  "startset st \<Longrightarrow> zasprocglobl m [TSym ''main''] adr st = Inl NullPointer"
  "startset st \<Longrightarrow> zasprocglobl m [TSym ''main'', TLabel ''next''] adr st =
     Inr ([TLabel ''next''], adr, zasaddglob ''next'' adr (putsym ''main'' adr st))"
  by (simp_all add: proclabel_put)

text \<open>A space is filled behind its end and not from where it starts.\<close>

lemma zasprocspace_wrong:
  "zasprocspace m [TValue 8 0, TValue 1 0] 4 st =
     Inr ([], 8, st\<lparr>zmem := putbytes (zmem st) (zvmadrtoptr m 8) [1, 1, 1, 1]\<rparr>)"
proof -
  have "replicate 4 (1 :: u8) = [1, 1, 1, 1]" by (simp add: eval_nat_numeral)
  then show ?thesis by (simp add: zasprocspace_def fill_def)
qed

text \<open>A comment behind a definition adds a token without a type.\<close>

lemma readdef_comment:
  "readpart m '' ; half'' st = Inr (Next (Some ''; half'') (queue [TJunk] st))"
proof -
  have "zasgettoken m tab '' ; half'' = Inr ([TJunk], ''; half'')" for tab
    by (simp add: zasgettoken_def char_classes ident1c_def)
  moreover have "dropWhile spacec ''; half'' = ''; half''" by (simp add: char_classes)
  ultimately show ?thesis using readpart_token [of m st "CHR '' ''" "''; half''" TJunk "''; half''"] by simp
qed

end
