(* ===== verification/Vtesc.thy ===== *)
theory Vtesc
  imports Zaslex Trixbits
begin

text \<open>
  The escape sequences of the terminal emulator (usr/lib/vt/esc.c, vt.h): the state of the terminal, the
  functions of the sequences, the tables that dispatch them and the parser.

  A \<open>long\<close> is an integer; a number that does not fit 63 bits, the read of a parameter that has not
  been set and the use of a negative character as an index are error values.  The map of tabulators
  is a function from the number of the bit, and a text is the list of its characters in front of the
  terminator.
\<close>

section \<open>State\<close>

datatype vterr = UninitArg | NumOverflow | BadIndex

record vt =
  vt_col :: int
  vt_row :: int
  vt_nrow :: int
  vt_ncol :: int
  fgcolor :: u32
  bgcolor :: u32
  textatr :: u32
  tabmap :: "nat \<Rightarrow> bool"
  scrolltop :: int
  scrollbottom :: int
  save_row :: int
  save_col :: int
  deftab :: "nat \<Rightarrow> u32"
  vtkeystrtab :: "nat \<Rightarrow> string option"

text \<open>The number of the parameters and their table; a parameter that has not been set is \<^const>\<open>None\<close>.\<close>

type_synonym vtargs = "nat \<times> (nat \<Rightarrow> int option)"
type_synonym vtescfunc = "vtargs \<Rightarrow> vt \<Rightarrow> vterr + vt"

definition VTDEFFGCOLOR :: u32 where "VTDEFFGCOLOR = 0xffffffff"
definition VTDEFBGCOLOR :: u32 where "VTDEFBGCOLOR = 0xff000000"
definition VTDEFTEXTATR :: u32 where "VTDEFTEXTATR = 0"
definition VTBRIGHT :: u32 where "VTBRIGHT = 0x80000000"
definition VTDIM :: u32 where "VTDIM = 0x40000000"
definition VTUNDERSCORE :: u32 where "VTUNDERSCORE = 0x20000000"
definition VTBLINK :: u32 where "VTBLINK = 0x10000000"
definition VTREVERSE :: u32 where "VTREVERSE = 0x08000000"
definition VTHIDDEN :: u32 where "VTHIDDEN = 0x04000000"

definition vtatrbittab :: "u32 list" where
  "vtatrbittab = [0, VTBRIGHT, VTDIM, 0, VTUNDERSCORE, VTBLINK, 0, VTREVERSE, VTHIDDEN]"

definition getarg :: "vtargs \<Rightarrow> nat \<Rightarrow> vterr + int" where
  "getarg args n = (case snd args n of None \<Rightarrow> Inl UninitArg | Some v \<Rightarrow> Inr v)"

section \<open>The cursor\<close>

definition vtgoto :: vtescfunc where
  "vtgoto args vt =
     (if fst args = 0 then Inr (vt\<lparr>vt_row := 0, vt_col := 0\<rparr>)
      else if fst args = 2 then
        case (getarg args 0, getarg args 1) of (Inr row, Inr col) \<Rightarrow>
            Inr (if 0 \<le> row \<and> row < vt_nrow vt \<and> 0 \<le> col \<and> col < vt_ncol vt
              then vt\<lparr>vt_row := row, vt_col := col\<rparr> else vt)
          | _ \<Rightarrow> Inl UninitArg
      else Inr vt)"

text \<open>The distance of a move: the parameter if there is one, and 1 otherwise.\<close>

definition movearg :: "vtargs \<Rightarrow> vterr + int" where
  "movearg args = (if fst args = 1 then getarg args 0 else Inr 1)"

definition vtgoup :: vtescfunc where
  "vtgoup args vt = map_sum id (\<lambda>arg. vt\<lparr>vt_row := vt_row vt - min arg (vt_row vt)\<rparr>) (movearg args)"

definition vtgodown :: vtescfunc where
  "vtgodown args vt = map_sum id (\<lambda>arg. vt\<lparr>vt_row := vt_row vt + min arg (vt_nrow vt - vt_row vt - 1)\<rparr>) (movearg args)"

definition vtgoforward :: vtescfunc where
  "vtgoforward args vt = map_sum id (\<lambda>arg. vt\<lparr>vt_col := vt_col vt + min arg (vt_ncol vt - vt_col vt - 1)\<rparr>) (movearg args)"

definition vtgobackward :: vtescfunc where
  "vtgobackward args vt = map_sum id (\<lambda>arg. vt\<lparr>vt_col := vt_col vt - min arg (vt_col vt)\<rparr>) (movearg args)"

definition vtsavecurs :: vtescfunc where
  "vtsavecurs args vt = Inr (if fst args = 0 then vt\<lparr>save_row := vt_row vt, save_col := vt_col vt\<rparr> else vt)"

definition vtunsavecurs :: vtescfunc where
  "vtunsavecurs args vt = Inr (if fst args = 0 then vt\<lparr>vt_row := save_row vt, vt_col := save_col vt\<rparr> else vt)"

definition vtsavecursatr :: vtescfunc where
  "vtsavecursatr args vt = Inr (if fst args = 0 then vt\<lparr>save_row := vt_row vt, save_col := vt_col vt\<rparr> else vt)"

definition vtrestorcursatr :: vtescfunc where
  "vtrestorcursatr args vt = Inr (if fst args = 0 then vt\<lparr>vt_row := save_row vt, vt_col := save_col vt\<rparr> else vt)"

section \<open>Scrolling, tabulators and erasing\<close>

text \<open>Scrolling and erasing are placeholders in the code.\<close>

definition vtscroll :: "vt \<Rightarrow> int \<Rightarrow> vt" where "vtscroll vt nrow = vt"

definition vtsetscroll :: vtescfunc where
  "vtsetscroll args vt =
     (if fst args = 0 then Inr (vt\<lparr>scrolltop := 0, scrollbottom := vt_nrow vt - 1\<rparr>)
      else if fst args = 2 then
        case (getarg args 0, getarg args 1) of (Inr t, Inr b) \<Rightarrow> Inr (vt\<lparr>scrolltop := t, scrollbottom := b\<rparr>)
          | _ \<Rightarrow> Inl UninitArg
      else Inr vt)"

definition vtscrolldown :: vtescfunc where "vtscrolldown args vt = Inr (vtscroll vt (-1))"
definition vtscrollup :: vtescfunc where "vtscrollup args vt = Inr (vtscroll vt 1)"

definition vtsettab :: vtescfunc where
  "vtsettab args vt = Inr (vt\<lparr>tabmap := (tabmap vt)(nat (vt_col vt) := True)\<rparr>)"

text \<open>Clearing the words that hold the columns.\<close>

definition cleartabs :: "vt \<Rightarrow> vt" where
  "cleartabs vt =
     (let n = nat ((vt_ncol vt + 31) div 32) in vt\<lparr>tabmap := (\<lambda>i. if i < 32 * n then False else tabmap vt i)\<rparr>)"

definition vtclrtab :: vtescfunc where
  "vtclrtab args vt =
     (if fst args = 1 then map_sum id (\<lambda>arg. if arg = 3 then cleartabs vt else vt) (getarg args 0)
      else if fst args = 0 then Inr (vt\<lparr>tabmap := (tabmap vt)(nat (vt_col vt) := False)\<rparr>)
      else Inr vt)"

definition vtclralltabs :: vtescfunc where "vtclralltabs args vt = Inr (cleartabs vt)"

definition vteraseline :: vtescfunc where "vteraseline args vt = Inr vt"

definition vterasedir :: vtescfunc where
  "vterasedir args vt = (if fst args = 0 then Inr vt else map_sum id (\<lambda>arg. vt) (getarg args 0))"

section \<open>Attributes\<close>

definition vtresetatr :: "vt \<Rightarrow> vt" where
  "vtresetatr vt = vt\<lparr>fgcolor := VTDEFFGCOLOR, bgcolor := VTDEFBGCOLOR, textatr := VTDEFTEXTATR\<rparr>"

definition setatr :: "int \<Rightarrow> vt \<Rightarrow> vt" where
  "setatr cmd vt =
     (if 0 \<le> cmd \<and> cmd \<le> 8 then
        if cmd = 0 then vtresetatr vt else vt\<lparr>textatr := textatr vt OR vtatrbittab ! nat cmd\<rparr>
      else if 30 \<le> cmd \<and> cmd \<le> 37 then vt\<lparr>fgcolor := deftab vt (nat (cmd - 30))\<rparr>
      else if 40 \<le> cmd \<and> cmd \<le> 47 then vt\<lparr>bgcolor := deftab vt (nat (cmd - 40))\<rparr>
      else vt)"

fun setatr_loop :: "vtargs \<Rightarrow> nat list \<Rightarrow> vt \<Rightarrow> vterr + vt" where
  "setatr_loop args [] vt = Inr vt"
| "setatr_loop args (n # ns) vt =
     (case getarg args n of Inl e \<Rightarrow> Inl e | Inr cmd \<Rightarrow> setatr_loop args ns (setatr cmd vt))"

definition vtsetatr :: vtescfunc where
  "vtsetatr args vt = setatr_loop args [0..<fst args] vt"

section \<open>Dispatch\<close>

definition csifunctab :: "char \<Rightarrow> vtescfunc option" where
  "csifunctab c = map_of
     [(CHR ''H'', vtgoto), (CHR ''A'', vtgoup), (CHR ''B'', vtgodown), (CHR ''C'', vtgoforward),
      (CHR ''D'', vtgobackward), (CHR ''f'', vtgoto), (CHR ''s'', vtsavecurs), (CHR ''u'', vtunsavecurs),
      (CHR ''r'', vtsetscroll), (CHR ''M'', vtscrollup), (CHR ''g'', vtclrtab), (CHR ''J'', vterasedir),
      (CHR ''K'', vteraseline), (CHR ''m'', vtsetatr)] c"

definition escfunctab :: "char \<Rightarrow> vtescfunc option" where
  "escfunctab c = map_of
     [(CHR ''7'', vtsavecursatr), (CHR ''8'', vtrestorcursatr), (CHR ''D'', vtscrolldown), (CHR ''H'', vtsettab)] c"

section \<open>The parser\<close>

fun vtgetescnum :: "int \<Rightarrow> string \<Rightarrow> vterr + int \<times> string" where
  "vtgetescnum num [] = Inr (num, [])"
| "vtgetescnum num (c # str) =
     (if digitc c then
        let num = num * 10 + int (of_char c) - 48 in
        if num < 2 ^ 63 then vtgetescnum num str else Inl NumOverflow
      else Inr (num, c # str))"

lemma vtgetescnum_shorter:
  "vtgetescnum num str = Inr (n, rest) \<Longrightarrow> length rest \<le> length str"
  "vtgetescnum num (c # str) = Inr (n, rest) \<Longrightarrow> digitc c \<Longrightarrow> length rest \<le> length str"
proof -
  show *: "vtgetescnum num str = Inr (n, rest) \<Longrightarrow> length rest \<le> length str" for num str
    by (induction num str rule: vtgetescnum.induct) (force simp: Let_def split: if_splits)+
  show "vtgetescnum num (c # str) = Inr (n, rest) \<Longrightarrow> digitc c \<Longrightarrow> length rest \<le> length str"
    using * by (auto simp: Let_def split: if_splits)
qed

definition VTESCNARG :: nat where "VTESCNARG = 32"

text \<open>The sign of a parameter.\<close>

definition getsign :: "int \<Rightarrow> string \<Rightarrow> int \<times> string" where
  "getsign sign str = (if cur str = CHR ''-'' then (-1, tl str) else (sign, str))"

text \<open>
  The parameters.  A string is not read, because its reader stops at the quote it is called on; the
  key then gets an empty string.
\<close>

type_synonym vtparse = "string \<times> int \<times> nat \<times> (nat \<Rightarrow> int option) \<times> vt"

definition csiarg :: "string \<Rightarrow> int \<Rightarrow> nat \<Rightarrow> (nat \<Rightarrow> int option) \<Rightarrow> vt \<Rightarrow> vterr + vtparse" where
  "csiarg str sign narg argtab vt =
     (case vtgetescnum 0 str of Inl e \<Rightarrow> Inl e
      | Inr (num, str) \<Rightarrow>
          let (narg, argtab) =
                (if num \<noteq> 0 \<and> narg < VTESCNARG then (narg + 1, argtab(narg := Some (sign * num))) else (narg, argtab));
              str = (if cur str = CHR '';'' then tl str else str);
              vt = (if cur str = CHR 0x22 \<and> num < 0x80
                then vt\<lparr>vtkeystrtab := (vtkeystrtab vt)(nat num := Some [])\<rparr> else vt);
              (sign, str) = getsign 1 str
          in Inr (str, sign, narg, argtab, vt))"

lemma csiarg_shorter:
  assumes "csiarg str sign narg argtab vt = Inr (rest, r)" "digitc (cur str)"
  shows "length rest < length str"
proof -
  obtain c s where str: "str = c # s" "digitc c" using assms(2) by (cases str) (auto simp: char_classes)
  obtain num str' where n: "vtgetescnum 0 str = Inr (num, str')"
    using assms(1) by (auto simp: csiarg_def split: sum.splits)
  have "length str' \<le> length s" using vtgetescnum_shorter(2) [of 0 c s] n str by auto
  moreover have "length rest \<le> length str'"
    using assms(1) n by (auto simp: csiarg_def getsign_def Let_def split: if_splits)
  ultimately show ?thesis using str by simp
qed

function csiargs :: "string \<Rightarrow> int \<Rightarrow> nat \<Rightarrow> (nat \<Rightarrow> int option) \<Rightarrow> vt \<Rightarrow> vterr + vtparse" where
  "csiargs str sign narg argtab vt =
     (if digitc (cur str) then
        case csiarg str sign narg argtab vt of Inl e \<Rightarrow> Inl e
        | Inr (str, sign, narg, argtab, vt) \<Rightarrow> csiargs str sign narg argtab vt
      else Inr (str, sign, narg, argtab, vt))"
  by pat_completeness auto
termination by (relation "measure (length o fst)") (auto dest: csiarg_shorter)

declare csiargs.simps [simp del]

lemma csiargs_shorter: "csiargs str sign narg argtab vt = Inr (rest, r) \<Longrightarrow> length rest \<le> length str"
proof (induction str sign narg argtab vt rule: csiargs.induct)
  case (1 str sign narg argtab vt)
  then show ?case
    by (subst (asm) (2) csiargs.simps) (fastforce dest: csiarg_shorter split: if_splits sum.splits)
qed

text \<open>
  The sequences.  The number of parameters starts at 1, and the sign, the number and the table are
  kept from one sequence to the next.
\<close>

function parseesc :: "string \<Rightarrow> int \<Rightarrow> nat \<Rightarrow> (nat \<Rightarrow> int option) \<Rightarrow> vt \<Rightarrow> vterr + string \<times> vt" where
  "parseesc str sign narg argtab vt =
     (if cur str = CHR 0x1b then
        let str = tl str in
        if cur str = CHR ''['' then
          let (sign, str) = getsign sign (tl str) in
          case csiargs str sign narg argtab vt of Inl e \<Rightarrow> Inl e
          | Inr (str, sign, narg, argtab, vt) \<Rightarrow>
              if (of_char (cur str) :: nat) \<ge> 128 then Inl BadIndex
              else (case csifunctab (cur str) of
                  None \<Rightarrow> parseesc str sign narg argtab vt
                | Some f \<Rightarrow>
                    (case f (narg, argtab) vt of Inl e \<Rightarrow> Inl e
                     | Inr vt \<Rightarrow> parseesc (tl str) sign narg argtab vt))
        else if cur str \<in> {CHR ''('', CHR '')'', CHR ''#''} then parseesc str sign narg argtab vt
        else if (of_char (cur str) :: nat) \<ge> 128 then Inl BadIndex
        else (case escfunctab (cur str) of
            None \<Rightarrow> parseesc str sign narg argtab vt
          | Some f \<Rightarrow>
              (case f (0, \<lambda>_. None) vt of Inl e \<Rightarrow> Inl e
               | Inr vt \<Rightarrow> parseesc (tl str) sign narg argtab vt))
      else Inr (str, vt))"
  by pat_completeness auto
termination
proof (relation "measure (length o fst)", goal_cases)
  case 1
  show ?case by simp
qed (auto simp: getsign_def cur_def dest!: csiargs_shorter split: if_splits list.splits)

declare parseesc.simps [simp del]

definition vtparseesc :: "string \<Rightarrow> vt \<Rightarrow> vterr + string \<times> vt" where
  "vtparseesc str vt = parseesc str 1 1 (\<lambda>_. None) vt"

section \<open>The cursor stays on the screen\<close>

definition in_screen :: "vt \<Rightarrow> bool" where
  "in_screen vt \<longleftrightarrow> 0 \<le> vt_row vt \<and> vt_row vt < vt_nrow vt \<and> 0 \<le> vt_col vt \<and> vt_col vt < vt_ncol vt \<and>
     0 \<le> save_row vt \<and> save_row vt < vt_nrow vt \<and> 0 \<le> save_col vt \<and> save_col vt < vt_ncol vt"

definition args_ok :: "vtargs \<Rightarrow> bool" where
  "args_ok args \<longleftrightarrow> (\<forall>i<fst args. \<exists>v\<ge>0. snd args i = Some v)"

definition keeps :: "vtescfunc \<Rightarrow> bool" where
  "keeps f \<longleftrightarrow> (\<forall>args vt. in_screen vt \<longrightarrow> args_ok args \<longrightarrow>
     (\<exists>vt'. f args vt = Inr vt' \<and> in_screen vt' \<and> vt_nrow vt' = vt_nrow vt \<and> vt_ncol vt' = vt_ncol vt))"

lemma getarg_ok: "args_ok args \<Longrightarrow> i < fst args \<Longrightarrow> \<exists>v\<ge>0. getarg args i = Inr v"
  by (fastforce simp: args_ok_def getarg_def)

lemma movearg_ok: "args_ok args \<Longrightarrow> \<exists>v\<ge>0. movearg args = Inr v"
  using getarg_ok [of args 0] by (auto simp: movearg_def)

lemma keeps_moves: "keeps vtgoup" "keeps vtgodown" "keeps vtgoforward" "keeps vtgobackward"
proof -
  have *: "\<exists>v\<ge>0. movearg args = Inr v" if "args_ok args" for args using movearg_ok [OF that] .
  show "keeps vtgoup" "keeps vtgodown" "keeps vtgoforward" "keeps vtgobackward"
    unfolding keeps_def using * by (force simp: vtgoup_def vtgodown_def vtgoforward_def vtgobackward_def in_screen_def min_def)+
qed

lemma keeps_two: "keeps vtgoto" "keeps vtsetscroll"
proof -
  have "\<exists>v w. getarg args 0 = Inr v \<and> getarg args 1 = Inr w" if "args_ok args" "fst args = 2" for args
    using getarg_ok [OF that(1), of 0] getarg_ok [OF that(1), of 1] that(2) by auto
  then show "keeps vtgoto" "keeps vtsetscroll"
    unfolding keeps_def by (fastforce simp: vtgoto_def vtsetscroll_def in_screen_def)+
qed

lemma keeps_plain:
  "keeps vtsavecurs" "keeps vtunsavecurs" "keeps vtsavecursatr" "keeps vtrestorcursatr" "keeps vtscrolldown"
  "keeps vtscrollup" "keeps vtsettab" "keeps vtclralltabs" "keeps vteraseline"
  by (simp_all add: keeps_def in_screen_def vtsavecurs_def vtunsavecurs_def vtsavecursatr_def vtrestorcursatr_def
      vtscrolldown_def vtscrollup_def vtscroll_def vtsettab_def vtclralltabs_def cleartabs_def Let_def vteraseline_def)

lemma keeps_one: "keeps vtclrtab" "keeps vterasedir"
proof -
  have "\<exists>v. getarg args 0 = Inr v" if "args_ok args" "fst args \<noteq> 0" for args
    using getarg_ok [OF that(1), of 0] that(2) by auto
  then show "keeps vtclrtab" "keeps vterasedir"
    unfolding keeps_def by (fastforce simp: vtclrtab_def vterasedir_def in_screen_def cleartabs_def Let_def)+
qed

lemma setatr_fields:
  "in_screen (setatr cmd vt) = in_screen vt" "vt_nrow (setatr cmd vt) = vt_nrow vt" "vt_ncol (setatr cmd vt) = vt_ncol vt"
  by (simp_all add: setatr_def in_screen_def vtresetatr_def)

lemma keeps_setatr: "keeps vtsetatr"
proof -
  have "\<exists>vt'. setatr_loop args ns vt = Inr vt' \<and> in_screen vt' \<and> vt_nrow vt' = vt_nrow vt \<and> vt_ncol vt' = vt_ncol vt"
    if "args_ok args" "in_screen vt" "\<forall>n \<in> set ns. n < fst args" for args ns vt
    using that
  proof (induction ns arbitrary: vt)
    case (Cons n ns)
    then obtain v where "getarg args n = Inr v" using getarg_ok [of args n] by auto
    then show ?case using Cons.IH [of "setatr v vt"] Cons.prems by (simp add: setatr_fields)
  qed simp
  then show ?thesis by (simp add: keeps_def vtsetatr_def)
qed

lemmas keeps_all = keeps_moves keeps_two keeps_plain keeps_one keeps_setatr

text \<open>
  C19: the function of every sequence, called with parameters that are set and not negative, returns
  with the cursor and the saved cursor on the screen and the size of the screen as it was.
\<close>

theorem vt_handlers_in_screen:
  assumes "csifunctab c = Some f \<or> escfunctab c = Some f" "in_screen vt" "args_ok args"
  shows "\<exists>vt'. f args vt = Inr vt' \<and> in_screen vt' \<and> vt_nrow vt' = vt_nrow vt \<and> vt_ncol vt' = vt_ncol vt"
proof -
  have "keeps f" using assms(1) keeps_all by (auto simp: csifunctab_def escfunctab_def split: if_splits)
  then show ?thesis using assms(2,3) unfolding keeps_def by blast
qed

definition vt0 :: vt where
  "vt0 = \<lparr>vt_col = 10, vt_row = 5, vt_nrow = 24, vt_ncol = 80, fgcolor = VTDEFFGCOLOR, bgcolor = VTDEFBGCOLOR,
     textatr = VTDEFTEXTATR, tabmap = (\<lambda>_. False), scrolltop = 0, scrollbottom = 23, save_row = 0, save_col = 0,
     deftab = (\<lambda>_. 0), vtkeystrtab = (\<lambda>_. None)\<rparr>"

theorem vt_handlers_in_screen_witness:
  "\<exists>vt'. vtgodown (1, [0 \<mapsto> 100]) vt0 = Inr vt' \<and> in_screen vt' \<and> vt_nrow vt' = 24 \<and> vt_ncol vt' = 80"
  using vt_handlers_in_screen [of "CHR ''B''" vtgodown vt0 "(1, [0 \<mapsto> 100])"]
  by (simp add: csifunctab_def in_screen_def args_ok_def vt0_def)

section \<open>What the parser passes on\<close>

fun argtext :: "nat list \<Rightarrow> string" where
  "argtext [] = []"
| "argtext [a] = numstr 10 a"
| "argtext (a # as) = numstr 10 a @ CHR '';'' # argtext as"

definition argsat :: "nat \<Rightarrow> nat list \<Rightarrow> (nat \<Rightarrow> int option) \<Rightarrow> nat \<Rightarrow> int option" where
  "argsat narg as tab i = (if narg \<le> i \<and> i < narg + length as then Some (int (as ! (i - narg))) else tab i)"

lemma escnum_numstr: "n < 2 ^ 63 \<Longrightarrow> vtgetescnum 0 (numstr 10 n @ s) = vtgetescnum (int n) s"
proof (induction "10::nat" n arbitrary: s rule: numstr.induct)
  case (1 n)
  have d: "digitc (dig (n mod 10))" "int (of_char (dig (n mod 10))) = 48 + int (n mod 10)"
    using dig_val(1) [of "n mod 10"] of_char_dig [of "n mod 10"] by simp_all
  have step: "vtgetescnum (int (n div 10)) (dig (n mod 10) # s) = vtgetescnum (int n) s"
  proof -
    have "int (n div 10) * 10 + int (of_char (dig (n mod 10))) - 48 = int n" using d(2) by presburger
    moreover have "int n < 2 ^ 63" using 1(2) by (metis of_nat_less_iff of_nat_numeral of_nat_power)
    ultimately show ?thesis using d(1) by (simp add: Let_def)
  qed
  show ?case
  proof (cases "n < 10")
    case True
    then have "numstr 10 n = [dig n]" by (subst numstr.simps) simp
    moreover have "n div 10 = 0" "n mod 10 = n" using True by simp_all
    ultimately show ?thesis using step by simp
  next
    case False
    then have "numstr 10 n = numstr 10 (n div 10) @ [dig (n mod 10)]" by (subst numstr.simps) simp
    then show ?thesis using 1(1) [of "dig (n mod 10) # s"] 1(2) False step by simp
  qed
qed

lemma numstr10_cur:
  obtains c s where "numstr 10 n = c # s" "digitc c" "c \<noteq> CHR '';''" "c \<noteq> CHR ''-''" "c \<noteq> CHR 0x22"
proof -
  obtain d ds where h: "numstr 10 n = dig d # ds" "d < 10" using numstr_head [of 10 n] by auto
  then have c: "digitc (dig d)" using dig_val(1) [of d] by simp
  then have "dig d \<noteq> CHR '';''" "dig d \<noteq> CHR ''-''" "dig d \<noteq> CHR 0x22" by (auto simp: char_classes)
  then show thesis using that h(1) c by blast
qed

lemma csiarg_written:
  assumes "0 < a" "a < 2 ^ 63" "\<not> digitc (cur rest)" "narg < VTESCNARG"
    and "str = (if cur rest = CHR '';'' then tl rest else rest)" "cur str \<noteq> CHR ''-''" "cur str \<noteq> CHR 0x22"
  shows "csiarg (numstr 10 a @ rest) 1 narg tab vt = Inr (str, 1, narg + 1, tab(narg \<mapsto> int a), vt)"
proof -
  have "vtgetescnum (int a) rest = Inr (int a, rest)" using assms(3) by (cases rest) simp_all
  then have "vtgetescnum 0 (numstr 10 a @ rest) = Inr (int a, rest)" using escnum_numstr [OF assms(2)] by simp
  then show ?thesis using assms(1,4,6,7) by (simp add: csiarg_def getsign_def Let_def flip: assms(5))
qed

definition command :: "char \<Rightarrow> bool" where
  "command c \<longleftrightarrow> \<not> digitc c \<and> c \<notin> {CHR '';'', CHR ''-'', CHR 0x22}"

lemma argsat_Cons: "argsat narg (a # as) tab = argsat (narg + 1) as (tab(narg \<mapsto> int a))"
  by (rule ext) (auto simp: argsat_def nth_Cons' Suc_le_eq)

lemma csiargs_written:
  assumes "command c" "\<forall>a \<in> set as. 0 < a \<and> a < 2 ^ 63" "narg + length as \<le> VTESCNARG"
  shows "csiargs (argtext as @ c # rest) 1 narg tab vt = Inr (c # rest, 1, narg + length as, argsat narg as tab, vt)"
  using assms(2,3)
proof (induction as arbitrary: narg tab rule: argtext.induct)
  case 1
  have "argsat narg [] tab = tab" by (rule ext) (auto simp: argsat_def)
  then show ?case using assms(1) by (subst csiargs.simps) (simp add: command_def)
next
  case (2 a)
  obtain d s where h: "numstr 10 a = d # s" "digitc d" by (rule numstr10_cur)
  have "csiarg (numstr 10 a @ c # rest) 1 narg tab vt = Inr (c # rest, 1, narg + 1, tab(narg \<mapsto> int a), vt)"
    using 2 assms(1) by (intro csiarg_written) (auto simp: command_def)
  moreover have "csiargs (c # rest) 1 (narg + 1) t vt = Inr (c # rest, 1, narg + 1, t, vt)" for t
    using assms(1) by (subst csiargs.simps) (simp add: command_def)
  moreover have "argsat narg [a] tab = tab(narg \<mapsto> int a)" by (rule ext) (auto simp: argsat_def)
  ultimately show ?case using h by (subst csiargs.simps) simp
next
  case (3 a b as)
  obtain d s where h: "numstr 10 a = d # s" "digitc d" by (rule numstr10_cur)
  let ?str = "argtext (b # as) @ c # rest"
  obtain e t where b: "numstr 10 b = e # t" "digitc e" "e \<noteq> CHR '';''" "e \<noteq> CHR ''-''" "e \<noteq> CHR 0x22" by (rule numstr10_cur)
  then have e: "cur ?str = e" by (cases as) simp_all
  have "csiarg (numstr 10 a @ CHR '';'' # ?str) 1 narg tab vt = Inr (?str, 1, narg + 1, tab(narg \<mapsto> int a), vt)"
    using 3(2,3) e b by (intro csiarg_written) (auto simp: char_classes)
  moreover have "csiargs ?str 1 (narg + 1) (tab(narg \<mapsto> int a)) vt =
      Inr (c # rest, 1, narg + 1 + length (b # as), argsat (narg + 1) (b # as) (tab(narg \<mapsto> int a)), vt)"
    using 3 by (intro 3(1)) auto
  moreover have "argtext (a # b # as) @ c # rest = numstr 10 a @ CHR '';'' # ?str" by simp
  ultimately show ?case
    using h by (subst csiargs.simps) (simp add: argsat_Cons [of narg a] del: argtext.simps(2,3))
qed

lemma csi_command:
  assumes "csifunctab c = Some f"
  shows "command c" "(of_char c :: nat) < 128"
  using assms by (auto simp: csifunctab_def command_def char_classes split: if_splits)

lemma csi_parse:
  assumes "csifunctab c = Some f" "\<forall>a \<in> set as. 0 < a \<and> a < 2 ^ 63" "length as < VTESCNARG" "cur rest \<noteq> CHR 0x1b"
  shows "vtparseesc (CHR 0x1b # CHR ''['' # argtext as @ c # rest) vt =
    map_sum id (\<lambda>vt. (rest, vt)) (f (length as + 1, argsat 1 as (\<lambda>_. None)) vt)"
proof -
  note c = csi_command [OF assms(1)]
  have m: "cur (argtext as @ c # rest) \<noteq> CHR ''-''"
  proof (cases as)
    case Nil
    then show ?thesis using c(1) by (simp add: command_def)
  next
    case (Cons a bs)
    obtain d s where "numstr 10 a = d # s" "d \<noteq> CHR ''-''" by (rule numstr10_cur)
    then show ?thesis using Cons by (cases bs) simp_all
  qed
  have a: "csiargs (argtext as @ c # rest) 1 1 (\<lambda>_. None) vt =
      Inr (c # rest, 1, 1 + length as, argsat 1 as (\<lambda>_. None), vt)"
    using csiargs_written [OF c(1) assms(2), of 1] assms(3) by simp
  have e: "parseesc rest sign narg tab vt' = Inr (rest, vt')" for sign narg tab vt'
    using assms(4) by (subst parseesc.simps) simp
  show ?thesis
    unfolding vtparseesc_def
    by (subst parseesc.simps) (use m a assms(1) c(2) in \<open>simp add: getsign_def e split: sum.split\<close>)
qed

text \<open>
  C20: a control sequence with the positive parameters \<open>as\<close>, separated by semicolons, is read to its
  end, and its function gets one parameter more than were written: the first one, at index 0, is not
  set, and the parameters follow from index 1 on.
\<close>

theorem vtparseesc_csi:
  assumes "csifunctab c = Some f" "\<forall>a \<in> set as. 0 < a \<and> a < 2 ^ 63" "length as < VTESCNARG" "cur rest \<noteq> CHR 0x1b"
  shows "vtparseesc (CHR 0x1b # CHR ''['' # argtext as @ c # rest) vt =
    map_sum id (\<lambda>vt. (rest, vt)) (f (length as + 1, argsat 1 as (\<lambda>_. None)) vt)"
  using assms by (rule csi_parse)

theorem vtparseesc_csi_witness:
  "vtparseesc [CHR 0x1b, CHR ''['', CHR ''7'', CHR ''A''] vt0 = Inr ([], vt0\<lparr>vt_row := 4\<rparr>)"
proof -
  have "argtext [7] = ''7''" by (simp add: numstr.simps dig_def char_of_def bit_0)
  then show ?thesis
    using vtparseesc_csi [of "CHR ''A''" vtgoup "[7]" "[]" vt0]
    by (simp add: csifunctab_def VTESCNARG_def vtgoup_def movearg_def vt0_def)
qed

section \<open>Where the sequences go wrong\<close>

text \<open>The distance of a move is ignored, and without one a parameter that is not set is read.\<close>

lemma csi_up_ignores_distance:
  "0 < n \<Longrightarrow> n < 2 ^ 63 \<Longrightarrow>
    vtparseesc (CHR 0x1b # CHR ''['' # argtext [n] @ ''A'') vt = Inr ([], vt\<lparr>vt_row := vt_row vt - min 1 (vt_row vt)\<rparr>)"
  "vtparseesc (CHR 0x1b # ''[A'') vt = Inl UninitArg"
  using csi_parse [of "CHR ''A''" vtgoup "[n]" "[]" vt] csi_parse [of "CHR ''A''" vtgoup "[]" "[]" vt]
  by (simp_all add: csifunctab_def VTESCNARG_def vtgoup_def movearg_def getarg_def argsat_def)

text \<open>The cursor is not moved to a row and a column, nor home.\<close>

lemma csi_goto_ignored:
  "0 < r \<Longrightarrow> r < 2 ^ 63 \<Longrightarrow> 0 < c \<Longrightarrow> c < 2 ^ 63 \<Longrightarrow>
    vtparseesc (CHR 0x1b # CHR ''['' # argtext [r, c] @ ''H'') vt = Inr ([], vt)"
  "vtparseesc (CHR 0x1b # ''[H'') vt = Inr ([], vt)"
  using csi_parse [of "CHR ''H''" vtgoto "[r, c]" "[]" vt] csi_parse [of "CHR ''H''" vtgoto "[]" "[]" vt]
  by (simp_all add: csifunctab_def VTESCNARG_def vtgoto_def)

text \<open>Setting attributes always reads the parameter that is not set.\<close>

lemma csi_attributes_unset:
  "\<forall>a \<in> set as. 0 < a \<and> a < 2 ^ 63 \<Longrightarrow> length as < VTESCNARG \<Longrightarrow>
    vtparseesc (CHR 0x1b # CHR ''['' # argtext as @ ''m'') vt = Inl UninitArg"
  using csi_parse [of "CHR ''m''" vtsetatr as "[]" vt]
  by (simp add: csifunctab_def vtsetatr_def getarg_def argsat_def upt_conv_Cons del: upt_Suc)

text \<open>A negative distance moves the cursor off the screen.\<close>

lemma negative_move_leaves_screen:
  "in_screen vt0" "\<exists>vt'. vtgoup (1, [0 \<mapsto> -100]) vt0 = Inr vt' \<and> \<not> in_screen vt'"
  by (simp_all add: vt0_def in_screen_def vtgoup_def movearg_def getarg_def)

end
