(* ===== verification/Spec2Isabelle.thy ===== *)
theory Spec2Isabelle
  imports Trix Trixbits Pages Cstring Kmem Kprint Randmt Randlag Redcode Sched Qsort Locks Sieve Shunt Ip4 Hash Utf8 Vm Membuf Memhash Mlt Cchar Zaslex Zas Vtesc
begin

text \<open>
  \<^bold>\<open>The Zero operating system: a verification library\<close>

  Zero is a small operating system in C: a kernel (kern/), a support library shared by the kernel and
  by user programs (usr/lib/zero/), a C library (usr/lib/c/), tools and games.  This library models the
  parts of it that compute, and states what they guarantee.  File names below are relative to src/.

  \<^bold>\<open>Parts and how they interact\<close>

  The support library provides integer tricks, queues, random numbers, tables of reciprocals, locks,
  bit maps, expression parsing, hashes, character encodings, network checksums and a memory allocator.
  The kernel keeps physical pages and tasks on its intrusive queues, finds the next task with its bit
  scans, divides with its reciprocals when it computes priorities, and has its own copies of the string
  functions and of a formatted print.  The page fault handler of the ia32 draws its pages from the
  allocator of physical pages; the user allocator finds its size classes and free blocks with the bit
  scans.  The C library has the block and string operations, sorting and
  searching.  Core War, the largest program of the tree with a complete specification, is an assembler,
  a multi-process virtual machine and a referee; it draws its addresses from the random numbers.

  \<^bold>\<open>Theories\<close>

  \<^item> \<open>Prelude\<close>: names of the machine integers, rule collections, facts on words, on C's truncating
    division and on memories.
  \<^item> \<open>Trix\<close> (usr/lib/zero/trix.h): division by constants, greatest common divisors, reduction of
    fractions, saturating arithmetic, leap years.  Division by constants is exact on the whole range of
    32-bit operands.
  \<^item> \<open>Trixbits\<close> (usr/lib/zero/trix.h): counts of leading and trailing zeros, powers of two and
    rounding; the scans return the lowest and highest set bit.
  \<^item> \<open>Fastidiv\<close> (usr/lib/zero/fastidiv.c, fastidiv.h): tables of reciprocals; the division by the
    generated table is exact.
  \<^item> \<open>Deq\<close> (usr/lib/zero/deq.h): both forms of the intrusive queues on a heap of links, related to
    lists.  The locales \<open>fifo\<close> and \<open>deque\<close> state what a user of a queue relies on and are
    interpreted on both forms.
  \<^item> \<open>Pages\<close> (kern/mem/page.c): zones, the table of free pages and the allocator of pages with
    their life cycle; allocation and release keep the invariant and invert each other.
  \<^item> \<open>Cmem\<close> and \<open>Cstring\<close> (usr/lib/c/string.c, _string.c, strings.c): block operations on a
    memory with their fast paths, and the string functions.
  \<^item> \<open>Kmem\<close> and \<open>Kprint\<close> (kern/util.c): memory, string and bit map utilities of the
    kernel, number conversion and \<open>kprintf\<close>.
  \<^item> \<open>Randmt\<close> (usr/lib/zero/randmt32.c, randmt64.c): both Mersenne Twisters with the buffering of
    their state.  The locale \<open>twister\<close> relates a buffered generator to the recurrence of the reference
    and is interpreted on both.
  \<^item> \<open>Randlag\<close> (usr/lib/zero/randlfg.c, randlfg2.c, randk.c): the lagged Fibonacci generators, whose results are
    the sequence of their recurrence (locale \<open>lagged\<close>), and Knuth's subtractive generator.
  \<^item> \<open>Mars\<close> (usr/games/corewar/cw.c): the virtual machine, its eleven instructions and the main loop,
    as functions and as the step relation \<open>cwreach\<close>.  The locale \<open>cw_handler\<close> is the contract
    of an instruction, interpreted once for each.
  \<^item> \<open>Redcode\<close> (usr/games/corewar/rc.c and the rest of cw.c): assembler, disassembler, start-up and
    main program; its errors, and the instructions that are read back as printed.  The locale
    \<open>mnemonics\<close> is the contract of the table of mnemonics.
  \<^item> \<open>Taskparm\<close> (kern/sched.h, kern/bits/sched.h): the recorded history of a task, its interactivity
    score, its priority and its wake-up.
  \<^item> \<open>Sched\<close> (kern/proc/sched.c, sleep.c, wait.c): the ready, idle, deadline, wait and sleep queues
    and the choice of the next task.  The load counters are defined for the first eight queues only.  The
    locale \<open>queue_bank\<close> is the contract of several queues in one
    heap, interpreted on the queues of \<open>Deq\<close>.
  \<^item> \<open>Qsort\<close> (usr/lib/c/qsort.c, bsearch.c): quicksort with its explicit stack, the final insertion
    sort, the loops that move bytes, and binary search.
  \<^item> \<open>Locks\<close> (usr/lib/zero/mtx.h, spin.h, tktlk.h): fast mutex, spin lock and ticket lock under every
    interleaving of threads.  The exchange-and-add of the ticket lock adds what the accumulator holds, since
    the code does not load the addend; with the addend there, threads are served in the order of arrival.
    The locale \<open>exclusion\<close> derives mutual exclusion from an invariant and is
    interpreted on the mutex and on the ticket lock.
  \<^item> \<open>Bitmap\<close> and \<open>Sieve\<close> (the bit macros of usr/lib/zero/trix.h, usr/tools/zprime/prime.c):
    four versions of the sieve of Eratosthenes and the growing table of the primality test.
  \<^item> \<open>Shunt\<close> (usr/lib/zero/shunt.c, shuntc.c): the shunting-yard calculator: token queues, operator stack
    and evaluation; parsing gives the postfix form of every expression and evaluation its value.
  \<^item> \<open>Loads\<close>, \<open>Ip4\<close> (usr/lib/zero/ip4.c): reads of words from a memory of bytes, and the Internet
    checksums computed with them, equal to the one's complement sum of RFC 1071.
  \<^item> \<open>Hash\<close> (usr/lib/zero/hash.c, hash64.c): integer and string hashes; the mixers with an
    inverse are permutations, the others stay in their ranges.
  \<^item> \<open>Utf8\<close> (usr/lib/zero/utf8.h): encoding and decoding of characters, which invert each other on the
    ranges the code handles.
  \<^item> \<open>Vm\<close> (kern/unit/ia32/vm.c, vm.h): the flat page table, mapping and release of segments,
    initialisation and the page fault handler over \<open>Pages\<close>.
  \<^item> \<open>Membuf\<close> (usr/lib/zero/mem.h, mem.c): the buffers of blocks of the user allocator, their maps
    and stacks of free blocks, size classes, block addresses, and the allocation of a block from the
    bucket of the thread, the shared bucket or a new buffer.
  \<^item> \<open>Memhash\<close> (usr/lib/zero/mem.c, mem.h): the table of the allocator that finds the buffer of a page;
    its operations lose no item except where a moved table runs over the end of its block, which is an
    explicit result, but a page is found at one place in four only.
  \<^item> \<open>Mlt\<close> (usr/lib/zero/mlt.c): the table of several levels over the bits of a number; adding a
    number makes it found and leaves the other numbers.
  \<^item> \<open>Cchar\<close> (usr/lib/c/ctype.c, ctype.h, inet.c): the classes of characters, equal to those of the
    C locale, and the conversions of Internet addresses.
  \<^item> \<open>Zaslex\<close> (usr/tools/zas/zas.c): the scanner of the Zero assembler; what is written as a number or
    a token is read back as it.  The table of mnemonics and the names of registers of the target are
    a parameter.
  \<^item> \<open>Zas\<close> (usr/tools/zas/zas.c): its reader of files, the handlers of tokens, the translation and the
    resolution of symbols.  The locale \<open>nametab\<close> is the contract of a table of names, interpreted on
    the symbols, the labels and the global labels; the text of a program of labels and data is
    assembled to its bytes.
  \<^item> \<open>Vtesc\<close> (usr/lib/vt/esc.c, vt.h): the escape sequences of the terminal emulator: their functions keep
    the cursor on the screen, and the parser passes the parameters on with their index moved by one.

  \<^bold>\<open>Conventions\<close>

  A C structure is a record, an enumeration a datatype, an integer whose width matters a word.  State is
  passed explicitly.  A pointer is a number (0 is the null pointer) or an index into the object it
  points into; links of queue items form a heap.  An access outside an object, a null pointer that is
  followed and a loop that does not end are explicit results (\<^const>\<open>None\<close> or a constructor),
  so that a theorem that names a result also says that none of these happens.  Where the code has a
  defect the model has it too: lemmas named after the effect show it on the model.

  \<^bold>\<open>Bounds\<close>

  The scheduler is taken at the configuration of kern/conf.h: one processor, 250 ticks a second, the
  ia32 with a \<open>long\<close> of 32 bits.  The ticket lock assumes fewer than \<open>2 ^ 32\<close> threads, the
  number of tickets.  The stack of quicksort has 64 entries, enough for every array of fewer than
  \<open>2 ^ 64\<close> items, as the width of the segments halves with every entry.  Loops that can run for ever
  in C are partial functions; the theorems on them state that a result exists.  The budget of the
  Redcode assembler is the number of successful allocations of its line buffer.  The sieves are exact for
  limits from 3 to \<open>2 ^ 31\<close>.  The user allocator is taken on a 64-bit machine with pages of 4096
  bytes and the free blocks in bit maps; its theorem on allocation assumes buffers in the lower half of
  the address space.  The addresses that the linker gives the kernel are a parameter of \<open>Vm\<close>.  The
  Zero assembler is taken on a 64-bit machine with its input mapped, as in its conf.h, and reads files
  without null characters; the loop over a file may not end, and is a partial function.  The table of pages is taken with the
  options of usr/lib/c/test/heap.sh.

  \<^bold>\<open>Not modelled\<close>

  Assembly, interrupt controllers, descriptor tables and device drivers, because their effects are on
  hardware.  Graphics, sound and terminal libraries.  The mathematics library, which is floating point.
  Code of other authors (foreign/, usr/contrib/) and earlier versions of files kept in the tree.
  Compilers and virtual machines in progress, except Core War; the handler of instructions and the memory
  of the machine that the Zero assembler writes for are not in the tree.  \<open>schedwakeup\<close> of
  kern/proc/wait.c, which uses the elements of a static table as pointers and runs past them.  Memory
  barriers and the reordering of accesses: steps of threads take effect in their order.

  \<^bold>\<open>Left for later\<close>

  The release of blocks to the buckets of the user allocator (\<open>memrelblk\<close> in mem.c), which walks
  lists whose backward links \<open>memgetblkglob\<close> leaves unset and needs a heap of linked buffers in place
  of the lists of \<open>Membuf\<close>; the semaphore and the remaining locks on the model of \<open>Locks\<close>; and the
  kernel's slab allocator (kern/mem/slab.c, mag.h), whose header numbers are differences of byte
  addresses and need a model of the memory itself.
\<close>

end
